(* ===== verification/Prelude.thy ===== *)
theory Prelude
  imports Main "HOL-Library.Word"
begin

text \<open>
  What every component shares: names for the machine integers and for byte strings, the
  reading of a byte's top bit, small facts on words and lists, and the collections
  \<open>flat_simps\<close> (reads of a flat input stream) and \<open>task_simps\<close> (frame facts of a
  communication task) the component theories fill.
\<close>

unbundle bit_operations_syntax

type_synonym u8 = "8 word"
type_synonym u16 = "16 word"
type_synonym u32 = "32 word"
type_synonym u64 = "64 word"
type_synonym bytes = "u8 list"

named_theorems flat_simps "what a read of a flat input stream returns"
named_theorems task_simps "fields an operation of a task leaves alone"

text \<open>\<open>INT_MAX\<close> of the platform's 32-bit \<open>int\<close>.\<close>

abbreviation INT_MAX :: int where
  "INT_MAX \<equiv> 2147483647"

text \<open>A computed value stored in an \<open>int\<close>; the platform's compilers wrap.\<close>

definition c_int :: "int \<Rightarrow> int" where
  "c_int x = sint (word_of_int x :: u32)"

lemma c_int_small: "- 2147483648 \<le> x \<Longrightarrow> x < 2147483648 \<Longrightarrow> c_int x = x"
  by (simp add: c_int_def signed_of_int signed_take_bit_int_eq_self_iff)

lemma c_int_max: "c_int x \<le> INT_MAX"
  using sint_lt [of "word_of_int x :: u32"] by (simp add: c_int_def)

lemma c_int_wraps:
  assumes "INT_MAX < x" "x \<le> 4294967295"
  shows "c_int x = x - 4294967296"
proof -
  have "(word_of_int x :: u32) = word_of_int (x - 2 ^ 32)" by (simp add: of_int_diff)
  then have "c_int x = c_int (x - 2 ^ 32)" by (simp only: c_int_def)
  also have "\<dots> = x - 2 ^ 32" using assms by (intro c_int_small) simp_all
  finally show ?thesis by simp
qed

section \<open>Bytes and wider words\<close>

lemma u8_less [simp]: "unat (b :: u8) < 256"
  using unsigned_less [of b] by simp

lemma u32_less [simp]: "unat (w :: u32) < 4294967296"
  using unsigned_less [of w] by simp

lemma u64_less [simp]: "unat (w :: u64) < 18446744073709551616"
  using unsigned_less [of w] by simp

lemma ucast_byte32: "(ucast (b :: u8) :: u32) = word_of_nat (unat b)"
  by (simp add: unsigned_ucast_eq)

lemma ucast_byte64: "(ucast (b :: u8) :: u64) = word_of_nat (unat b)"
  by (simp add: unsigned_ucast_eq)

lemma unat_ucast_byte32 [simp]: "unat (ucast (b :: u8) :: u32) = unat b"
  by (simp add: unsigned_ucast_eq take_bit_nat_eq_self_iff less_trans [OF u8_less])

lemma unat_ucast_byte64 [simp]: "unat (ucast (b :: u8) :: u64) = unat b"
  by (simp add: unsigned_ucast_eq take_bit_nat_eq_self_iff less_trans [OF u8_less])

lemma bit7_byte: "bit (b :: u8) 7 \<longleftrightarrow> 128 \<le> unat b"
proof -
  have "bit b 7 \<longleftrightarrow> bit (unat b) 7" by (simp add: bit_unsigned_iff)
  also have "\<dots> \<longleftrightarrow> odd (unat b div 128)" by (simp add: bit_iff_odd)
  also have "\<dots> \<longleftrightarrow> 128 \<le> unat b"
  proof -
    have "unat b div 128 = (if 128 \<le> unat b then 1 else 0)"
      using u8_less [of b] by (auto simp: div_nat_eqI)
    then show ?thesis by simp
  qed
  finally show ?thesis .
qed

lemma msb_byte_and [simp]: "(b :: u8) AND 128 = 0 \<longleftrightarrow> unat b < 128"
  using and_exp_eq_0_iff_not_bit [of b 7] by (auto simp: bit7_byte)

lemma msb_byte32_and [simp]: "(ucast (b :: u8) :: u32) AND 128 = 0 \<longleftrightarrow> unat b < 128"
  using and_exp_eq_0_iff_not_bit [of "ucast b :: u32" 7]
  by (auto simp: bit_ucast_iff bit7_byte)

section \<open>Lists\<close>

lemma take_drop_append:
  "length xs = n \<Longrightarrow> take n (xs @ ys) = xs \<and> drop n (xs @ ys) = ys"
  by auto

lemma sum_list_map_add:
  "(\<Sum>x\<leftarrow>xs. f x + g x) = (\<Sum>x\<leftarrow>xs. f x) + (\<Sum>x\<leftarrow>xs. (g x :: nat))"
  by (induction xs) auto

end
