(* ===== verification/Varint.thy ===== *)
theory Varint
  imports Prelude
begin

text \<open>
  The base-128 integer encoding of \<open>io/coded_stream.h\<close> and \<open>io/coded_stream.cc\<close>: the
  \<open>ToArray\<close> writers, the size functions (with the portable logarithm of
  \<open>stubs/port.h\<close>), the two unrolled readers, and the little-endian words. A writer that
  advances \<open>uint8* target\<close> is the list of the bytes it stores from \<open>target\<close> on; a reader
  over \<open>const uint8* buffer\<close> takes the bytes from \<open>buffer\<close> on and returns how many it has
  consumed. \<open>varint_enc\<close> and \<open>varint_dec\<close> are the reference encoding on natural numbers
  that all of them are proved equal to.
\<close>

section \<open>The code\<close>

abbreviation kMaxVarintBytes :: nat where
  "kMaxVarintBytes \<equiv> 10"

abbreviation kMaxVarint32Bytes :: nat where
  "kMaxVarint32Bytes \<equiv> 5"

function WriteVarint32ToArray :: "u32 \<Rightarrow> bytes" where
  "WriteVarint32ToArray value =
     (if 0x80 \<le> value
      then ucast (value OR 0x80) # WriteVarint32ToArray (drop_bit 7 value)
      else [ucast value])"
  by pat_completeness auto
termination
  by (relation "measure unat")
    (auto simp: drop_bit_eq_div word_le_nat_alt unat_div)

function WriteVarint64ToArray :: "u64 \<Rightarrow> bytes" where
  "WriteVarint64ToArray value =
     (if 0x80 \<le> value
      then ucast (value OR 0x80) # WriteVarint64ToArray (drop_bit 7 value)
      else [ucast value])"
  by pat_completeness auto
termination
  by (relation "measure unat")
    (auto simp: drop_bit_eq_div word_le_nat_alt unat_div)

declare WriteVarint32ToArray.simps [simp del] WriteVarint64ToArray.simps [simp del]

text \<open>\<open>static_cast<uint64>\<close> of an \<open>int32\<close> sign-extends.\<close>

definition WriteVarint32SignExtendedToArray :: "u32 \<Rightarrow> bytes" where
  "WriteVarint32SignExtendedToArray value = WriteVarint64ToArray (scast value)"

definition WriteTagToArray0 :: "u32 \<Rightarrow> bytes" where
  "WriteTagToArray0 value = WriteVarint32ToArray value"

definition WriteLittleEndian32ToArray :: "u32 \<Rightarrow> bytes" where
  "WriteLittleEndian32ToArray value =
     [ucast value, ucast (drop_bit 8 value), ucast (drop_bit 16 value),
      ucast (drop_bit 24 value)]"

definition WriteLittleEndian64ToArray :: "u64 \<Rightarrow> bytes" where
  "WriteLittleEndian64ToArray value =
     (let part0 = ucast value :: u32; part1 = ucast (drop_bit 32 value) :: u32
      in [ucast part0, ucast (drop_bit 8 part0), ucast (drop_bit 16 part0),
          ucast (drop_bit 24 part0),
          ucast part1, ucast (drop_bit 8 part1), ucast (drop_bit 16 part1),
          ucast (drop_bit 24 part1)])"

definition ReadLittleEndian32FromArray :: "bytes \<Rightarrow> u32" where
  "ReadLittleEndian32FromArray buffer =
     ucast (buffer ! 0) OR push_bit 8 (ucast (buffer ! 1)) OR
     push_bit 16 (ucast (buffer ! 2)) OR push_bit 24 (ucast (buffer ! 3))"

definition ReadLittleEndian64FromArray :: "bytes \<Rightarrow> u64" where
  "ReadLittleEndian64FromArray buffer =
     (let part0 = (ucast (buffer ! 0) OR push_bit 8 (ucast (buffer ! 1)) OR
                   push_bit 16 (ucast (buffer ! 2)) OR push_bit 24 (ucast (buffer ! 3))) :: u32;
          part1 = (ucast (buffer ! 4) OR push_bit 8 (ucast (buffer ! 5)) OR
                   push_bit 16 (ucast (buffer ! 6)) OR push_bit 24 (ucast (buffer ! 7))) :: u32
      in ucast part0 OR push_bit 32 (ucast part1))"

text \<open>
  \<open>Bits::Log2FloorNonZero_Portable\<close>: the counter of \<open>for (int i = 4; i >= 0; --i)\<close> is
  \<open>Suc i\<close>, so that the loop ends at 0.
\<close>

fun Log2Floor_loop :: "nat \<Rightarrow> u32 \<Rightarrow> int \<Rightarrow> int" where
  "Log2Floor_loop 0 value log = log"
| "Log2Floor_loop (Suc i) value log =
     (let shift = 2 ^ i; x = drop_bit shift value
      in if x \<noteq> 0 then Log2Floor_loop i x (log + int shift)
         else Log2Floor_loop i value log)"

definition Log2FloorNonZero_Portable :: "u32 \<Rightarrow> int" where
  "Log2FloorNonZero_Portable n = (if n = 0 then -1 else Log2Floor_loop 5 n 0)"

definition Log2FloorNonZero :: "u32 \<Rightarrow> u32" where
  "Log2FloorNonZero n = word_of_int (Log2FloorNonZero_Portable n)"

definition Log2FloorNonZero64_Portable :: "u64 \<Rightarrow> int" where
  "Log2FloorNonZero64_Portable n =
     (let topbits = ucast (drop_bit 32 n) :: u32
      in if topbits = 0 then sint (Log2FloorNonZero (ucast n))
         else 32 + sint (Log2FloorNonZero topbits))"

definition Log2FloorNonZero64 :: "u64 \<Rightarrow> u32" where
  "Log2FloorNonZero64 n = word_of_int (Log2FloorNonZero64_Portable n)"

definition VarintSize32 :: "u32 \<Rightarrow> nat" where
  "VarintSize32 value =
     (let log2value = Log2FloorNonZero (value OR 0x1)
      in unat ((log2value * 9 + 73) div 64))"

definition VarintSize64 :: "u64 \<Rightarrow> nat" where
  "VarintSize64 value =
     (let log2value = Log2FloorNonZero64 (value OR 0x1)
      in unat ((log2value * 9 + 73) div 64))"

definition VarintSize32SignExtended :: "u32 \<Rightarrow> nat" where
  "VarintSize32SignExtended value = (if sint value < 0 then 10 else VarintSize32 value)"

text \<open>
  The unrolled readers. \<open>None\<close> is the pair \<open>(false, ptr)\<close>, whose pointer every caller
  drops; \<open>Some (n, v)\<close> is \<open>(true, buffer + n)\<close> with \<open>v\<close> stored in \<open>*value\<close>.
\<close>

abbreviation byte32 :: "bytes \<Rightarrow> nat \<Rightarrow> u32" where
  "byte32 buffer i \<equiv> ucast (buffer ! i)"

fun skip_high_bytes :: "nat \<Rightarrow> bytes \<Rightarrow> nat \<Rightarrow> nat option" where
  "skip_high_bytes 0 buffer ptr = None"
| "skip_high_bytes (Suc k) buffer ptr =
     (let b = byte32 buffer ptr
      in if b AND 0x80 = 0 then Some (Suc ptr) else skip_high_bytes k buffer (Suc ptr))"

definition ReadVarint32FromArray :: "u32 \<Rightarrow> bytes \<Rightarrow> (nat \<times> u32) option" where
  "ReadVarint32FromArray first_byte buffer =
     (let result = first_byte - 0x80;
          b = byte32 buffer 1; result = result + push_bit 7 b
      in if b AND 0x80 = 0 then Some (2, result) else
      let result = result - push_bit 7 0x80;
          b = byte32 buffer 2; result = result + push_bit 14 b
      in if b AND 0x80 = 0 then Some (3, result) else
      let result = result - push_bit 14 0x80;
          b = byte32 buffer 3; result = result + push_bit 21 b
      in if b AND 0x80 = 0 then Some (4, result) else
      let result = result - push_bit 21 0x80;
          b = byte32 buffer 4; result = result + push_bit 28 b
      in if b AND 0x80 = 0 then Some (5, result) else
      (case skip_high_bytes (kMaxVarintBytes - kMaxVarint32Bytes) buffer 5 of
         Some ptr \<Rightarrow> Some (ptr, result)
       | None \<Rightarrow> None))"

definition varint_parts :: "u32 \<Rightarrow> u32 \<Rightarrow> u32 \<Rightarrow> u64" where
  "varint_parts part0 part1 part2 =
     ucast part0 OR push_bit 28 (ucast part1) OR push_bit 56 (ucast part2)"

definition ReadVarint64FromArray :: "bytes \<Rightarrow> (nat \<times> u64) option" where
  "ReadVarint64FromArray buffer =
     (let b = byte32 buffer 0; part0 = b
      in if b AND 0x80 = 0 then Some (1, varint_parts part0 0 0) else
      let part0 = part0 - 0x80; b = byte32 buffer 1; part0 = part0 + push_bit 7 b
      in if b AND 0x80 = 0 then Some (2, varint_parts part0 0 0) else
      let part0 = part0 - push_bit 7 0x80; b = byte32 buffer 2; part0 = part0 + push_bit 14 b
      in if b AND 0x80 = 0 then Some (3, varint_parts part0 0 0) else
      let part0 = part0 - push_bit 14 0x80; b = byte32 buffer 3; part0 = part0 + push_bit 21 b
      in if b AND 0x80 = 0 then Some (4, varint_parts part0 0 0) else
      let part0 = part0 - push_bit 21 0x80; b = byte32 buffer 4; part1 = b
      in if b AND 0x80 = 0 then Some (5, varint_parts part0 part1 0) else
      let part1 = part1 - 0x80; b = byte32 buffer 5; part1 = part1 + push_bit 7 b
      in if b AND 0x80 = 0 then Some (6, varint_parts part0 part1 0) else
      let part1 = part1 - push_bit 7 0x80; b = byte32 buffer 6; part1 = part1 + push_bit 14 b
      in if b AND 0x80 = 0 then Some (7, varint_parts part0 part1 0) else
      let part1 = part1 - push_bit 14 0x80; b = byte32 buffer 7; part1 = part1 + push_bit 21 b
      in if b AND 0x80 = 0 then Some (8, varint_parts part0 part1 0) else
      let part1 = part1 - push_bit 21 0x80; b = byte32 buffer 8; part2 = b
      in if b AND 0x80 = 0 then Some (9, varint_parts part0 part1 part2) else
      let part2 = part2 - 0x80; b = byte32 buffer 9; part2 = part2 + push_bit 7 b
      in if b AND 0x80 = 0 then Some (10, varint_parts part0 part1 part2) else
      None)"

section \<open>The reference encoding\<close>

fun varint_enc :: "nat \<Rightarrow> bytes" where
  "varint_enc n = (if n < 128 then [of_nat n]
                   else of_nat (n mod 128 + 128) # varint_enc (n div 128))"

declare varint_enc.simps [simp del]

text \<open>\<open>varint_dec k bs\<close> reads at most \<open>k\<close> bytes: the value and the number of bytes.\<close>

fun varint_dec :: "nat \<Rightarrow> bytes \<Rightarrow> (nat \<times> nat) option" where
  "varint_dec 0 bs = None"
| "varint_dec (Suc k) [] = None"
| "varint_dec (Suc k) (b # bs) =
     (if unat b < 128 then Some (unat b, 1)
      else map_option (\<lambda>(v, n). (unat b - 128 + 128 * v, Suc n)) (varint_dec k bs))"

section \<open>Facts of the reference encoding\<close>

lemma varint_dec_enc:
  "length (varint_enc n) \<le> k \<Longrightarrow> varint_dec k (varint_enc n @ rest) = Some (n, length (varint_enc n))"
proof (induction n arbitrary: k rule: varint_enc.induct)
  case (1 n)
  show ?case
  proof (cases "n < 128")
    case True
    with "1.prems" show ?thesis
      by (cases k) (auto simp: varint_enc.simps [of n] unat_of_nat)
  next
    case False
    from False "1.prems" obtain j where k: "k = Suc j" and j: "length (varint_enc (n div 128)) \<le> j"
      by (cases k) (auto simp: varint_enc.simps [of n])
    have "unat (of_nat (n mod 128 + 128) :: u8) = n mod 128 + 128"
      by (simp only: unat_of_nat) simp
    then have u: "unat (of_nat (n mod 128) + 128 :: u8) = n mod 128 + 128" by simp
    show ?thesis
      using False k "1.IH" [OF False j] u
      by (simp add: varint_enc.simps [of n])
  qed
qed

lemma varint_enc_length_le: "0 < k \<Longrightarrow> n < 128 ^ k \<Longrightarrow> length (varint_enc n) \<le> k"
proof (induction n arbitrary: k rule: varint_enc.induct)
  case (1 n)
  show ?case
  proof (cases "n < 128")
    case True
    with "1.prems" show ?thesis by (simp add: varint_enc.simps [of n])
  next
    case False
    with "1.prems" obtain j where k: "k = Suc j" and "0 < j"
      by (cases k; cases "k - 1") auto
    with "1.prems" have "n div 128 < 128 ^ j" by (simp add: less_mult_imp_div_less mult.commute)
    from "1.IH" [OF False \<open>0 < j\<close> this] False k show ?thesis
      by (simp add: varint_enc.simps [of n])
  qed
qed

lemma varint_enc_length_ge: "128 ^ k \<le> n \<Longrightarrow> k < length (varint_enc n)"
proof (induction n arbitrary: k rule: varint_enc.induct)
  case (1 n)
  show ?case
  proof (cases k)
    case 0
    then show ?thesis by (simp add: varint_enc.simps [of n])
  next
    case (Suc j)
    with "1.prems" have big: "\<not> n < 128"
      by (metis One_nat_def le_trans linorder_not_less one_le_numeral power_increasing power_one_right
          plus_1_eq_Suc le_add1)
    have "128 ^ j \<le> n div 128"
      using "1.prems" Suc by (simp add: less_eq_div_iff_mult_less_eq mult.commute)
    from "1.IH" [OF big this] big Suc show ?thesis
      by (simp add: varint_enc.simps [of n])
  qed
qed

lemma varint_enc_not_Nil [simp]: "varint_enc n \<noteq> []"
  by (simp add: varint_enc.simps [of n])

lemma varint_enc_small: "n < 128 \<Longrightarrow> varint_enc n = [of_nat n]"
  by (simp add: varint_enc.simps [of n])

lemma length_varint_enc_big:
  "\<not> n < 128 \<Longrightarrow> length (varint_enc n) = Suc (length (varint_enc (n div 128)))"
  by (simp add: varint_enc.simps [of n])

lemma varint_enc_length_iff:
  "length (varint_enc n) = Suc k \<longleftrightarrow> n < 128 ^ Suc k \<and> (k = 0 \<or> 128 ^ k \<le> n)"
proof
  assume l: "length (varint_enc n) = Suc k"
  show "n < 128 ^ Suc k \<and> (k = 0 \<or> 128 ^ k \<le> n)"
    using varint_enc_length_ge [of "Suc k" n] varint_enc_length_le [of k n] l
    by (metis Suc_n_not_le_n not_less_iff_gr_or_eq linorder_not_less neq0_conv)
next
  assume "n < 128 ^ Suc k \<and> (k = 0 \<or> 128 ^ k \<le> n)"
  then have "length (varint_enc n) \<le> Suc k" "k < length (varint_enc n) \<or> k = 0"
    using varint_enc_length_le [of "Suc k" n] varint_enc_length_ge [of k n] by auto
  moreover have "0 < length (varint_enc n)" by simp
  ultimately show "length (varint_enc n) = Suc k" by linarith
qed

section \<open>The writers\<close>

lemma or_128:
  fixes m :: nat
  shows "m mod 128 OR 128 = m mod 128 + 128" and "m mod 256 OR 128 = m mod 128 + 128"
proof -
  have "take_bit 7 m AND (2 ^ 7) = 0"
    using and_exp_eq_0_iff_not_bit [of "take_bit 7 m" 7] bit_take_bit_iff [of 7 m 7] by simp
  then have a: "take_bit 7 m + 2 ^ 7 = take_bit 7 m OR 2 ^ 7"
    by (rule disjunctive_add_eq_or)
  then show 1: "m mod 128 OR 128 = m mod 128 + 128" by (simp add: take_bit_eq_mod)
  have "take_bit (Suc 7) m = 2 ^ 7 * of_bool (bit m 7) + take_bit 7 m"
    by (rule take_bit_Suc_from_most)
  then have "m mod 256 = m mod 128 \<or> m mod 256 = m mod 128 + 128"
    by (cases "bit m 7") (auto simp: take_bit_eq_mod)
  then show "m mod 256 OR 128 = m mod 128 + 128"
  proof
    assume "m mod 256 = m mod 128"
    then show ?thesis by (simp only: 1)
  next
    assume e: "m mod 256 = m mod 128 + 128"
    show ?thesis by (simp only: e 1 [symmetric] or.assoc or.idem)
  qed
qed

lemma varint_low_byte:
  fixes v :: "'a::len word"
  assumes "8 \<le> LENGTH('a)"
  shows "(ucast (v OR 128) :: u8) = of_nat (unat v mod 128 + 128)"
proof -
  have "unat (128 :: 'a word) = 128"
  proof -
    have "(2::nat) ^ 8 \<le> 2 ^ LENGTH('a)" using assms by (rule power_increasing) simp
    then show ?thesis by (simp add: take_bit_nat_eq_self_iff)
  qed
  then have "unat (v OR 128) = unat v OR 128" by (simp only: unsigned_or_eq)
  then have "unat (ucast (v OR 128) :: u8) = take_bit 8 (unat v OR 128)"
    by (simp only: unsigned_ucast_eq) simp
  also have "\<dots> = unat v mod 256 OR 128"
    by (simp only: take_bit_or) (simp add: take_bit_eq_mod)
  also have "\<dots> = unat v mod 128 + 128" by (rule or_128)
  finally have "(of_nat (unat (ucast (v OR 128) :: u8)) :: u8) = of_nat (unat v mod 128 + 128)"
    by (simp only:)
  then show ?thesis by (simp only: of_nat_unat ucast_id)
qed

lemma unat_drop_bit: "unat (drop_bit n (w :: 'a::len word)) = unat w div 2 ^ n"
  by (rule trans [OF unat_drop_bit_eq drop_bit_eq_div])

lemma WriteVarint32ToArray_enc: "WriteVarint32ToArray v = varint_enc (unat v)"
proof (induction v rule: WriteVarint32ToArray.induct)
  case (1 v)
  show ?case
  proof (cases "0x80 \<le> v")
    case True
    with 1 show ?thesis
      by (simp add: WriteVarint32ToArray.simps [of v] varint_enc.simps [of "unat v"]
          varint_low_byte unat_drop_bit word_le_nat_alt)
  next
    case False
    then show ?thesis
      by (simp add: WriteVarint32ToArray.simps [of v] varint_enc.simps [of "unat v"]
          word_le_nat_alt unsigned_ucast_eq)
  qed
qed

lemma WriteVarint64ToArray_enc: "WriteVarint64ToArray v = varint_enc (unat v)"
proof (induction v rule: WriteVarint64ToArray.induct)
  case (1 v)
  show ?case
  proof (cases "0x80 \<le> v")
    case True
    with 1 show ?thesis
      by (simp add: WriteVarint64ToArray.simps [of v] varint_enc.simps [of "unat v"]
          varint_low_byte unat_drop_bit word_le_nat_alt)
  next
    case False
    then show ?thesis
      by (simp add: WriteVarint64ToArray.simps [of v] varint_enc.simps [of "unat v"]
          word_le_nat_alt unsigned_ucast_eq)
  qed
qed

lemma length_varint_enc32: "length (varint_enc (unat (v :: u32))) \<le> 5"
  by (rule varint_enc_length_le) (auto intro: less_trans [OF u32_less])

lemma length_varint_enc64: "length (varint_enc (unat (v :: u64))) \<le> 10"
  by (rule varint_enc_length_le) (auto intro: less_trans [OF u64_less])

section \<open>The sizes\<close>

lemma Log2Floor_loop_bounds:
  "0 < w \<Longrightarrow> unat w < 2 ^ 2 ^ i \<Longrightarrow>
   \<exists>k. Log2Floor_loop i w lg = lg + int k \<and> 2 ^ k \<le> unat w \<and> unat w < 2 * 2 ^ k"
proof (induction i arbitrary: w lg)
  case 0
  then show ?case by (intro exI [of _ 0]) (auto simp: word_less_nat_alt)
next
  case (Suc i)
  let ?x = "drop_bit (2 ^ i) w"
  have ux: "unat ?x = unat w div 2 ^ 2 ^ i"
    by (rule unat_drop_bit)
  show ?case
  proof (cases "?x = 0")
    case True
    then have "unat w < 2 ^ 2 ^ i"
      using ux by (simp add: div_eq_0_iff)
    from Suc.IH [OF Suc.prems(1) this, of lg] True show ?thesis by simp
  next
    case False
    have "unat w < 2 ^ 2 ^ i * 2 ^ 2 ^ i"
      using Suc.prems(2) by (simp add: power_add [symmetric] mult_2)
    then have lt: "unat ?x < 2 ^ 2 ^ i"
      unfolding ux by (rule less_mult_imp_div_less)
    from False have "0 < ?x" by (simp add: word_gt_0)
    from Suc.IH [OF this lt, of "lg + int (2 ^ i)"] obtain k where
      k: "Log2Floor_loop i ?x (lg + int (2 ^ i)) = lg + int (2 ^ i) + int k"
      "2 ^ k \<le> unat ?x" "unat ?x < 2 * 2 ^ k" by auto
    have "2 ^ (2 ^ i + k) \<le> unat w"
      using k(2) by (simp add: ux power_add less_eq_div_iff_mult_less_eq mult.commute)
    moreover have "unat w < 2 * 2 ^ (2 ^ i + k)"
      using k(3) by (simp add: ux power_add div_less_iff_less_mult mult.commute mult.left_commute)
    ultimately show ?thesis
      using False k(1) by (intro exI [of _ "2 ^ i + k"]) simp
  qed
qed

lemma Log2_value_bounds:
  assumes "n \<noteq> 0"
  shows "\<exists>k<32. Log2FloorNonZero n = of_nat k \<and> 2 ^ k \<le> unat n \<and> unat n < 2 * 2 ^ k"
proof -
  from assms have "0 < n" by (simp add: word_gt_0)
  moreover have "unat n < 2 ^ 2 ^ 5" by (simp)
  ultimately obtain k where k: "Log2Floor_loop 5 n 0 = 0 + int k" "2 ^ k \<le> unat n" "unat n < 2 * 2 ^ k"
    using Log2Floor_loop_bounds by blast
  have "k < 32"
  proof (rule ccontr)
    assume "\<not> k < 32"
    then have "(2::nat) ^ 32 \<le> 2 ^ k" by (intro power_increasing) auto
    then have "(4294967296::nat) \<le> 2 ^ k" by simp
    with k(2) u32_less [of n] show False by linarith
  qed
  moreover have "Log2FloorNonZero n = of_nat k"
    using assms k(1) by (simp add: Log2FloorNonZero_def Log2FloorNonZero_Portable_def)
  ultimately show ?thesis using k by blast
qed

lemma Log2_value_bounds64:
  assumes "n \<noteq> 0"
  shows "\<exists>k<64. Log2FloorNonZero64 n = of_nat k \<and> 2 ^ k \<le> unat n \<and> unat n < 2 * 2 ^ k"
proof -
  let ?top = "ucast (drop_bit 32 n) :: u32"
  have top: "unat ?top = unat n div 2 ^ 32"
  proof -
    have "unat n div 2 ^ 32 < 2 ^ 32"
      using u64_less [of n] by (intro less_mult_imp_div_less) (simp del: u64_less)
    then show ?thesis
      by (simp only: unsigned_ucast_eq unat_drop_bit) (simp add: take_bit_nat_eq_self_iff)
  qed
  have low: "unat (ucast n :: u32) = unat n mod 2 ^ 32"
    by (simp add: unsigned_ucast_eq take_bit_eq_mod)
  show ?thesis
  proof (cases "?top = 0")
    case True
    then have lt: "unat n < 2 ^ 32" using top by (simp add: div_eq_0_iff)
    then have low': "unat (ucast n :: u32) = unat n" using low by simp
    have "(ucast n :: u32) \<noteq> 0"
      using assms low' by (metis unat_0 unat_eq_zero)
    from Log2_value_bounds [OF this] obtain k where
      k: "k < 32" "Log2FloorNonZero (ucast n) = of_nat k" "2 ^ k \<le> unat n" "unat n < 2 * 2 ^ k"
      unfolding low' by blast
    have "sint (of_nat k :: u32) = int k"
      using k(1) by (simp add: signed_of_nat signed_take_bit_int_eq_self)
    then have "Log2FloorNonZero64 n = of_nat k"
      using True k(2) by (simp add: Log2FloorNonZero64_def Log2FloorNonZero64_Portable_def)
    with k show ?thesis by (intro exI [of _ k]) auto
  next
    case False
    from Log2_value_bounds [OF this] obtain k where
      k: "k < 32" "Log2FloorNonZero ?top = of_nat k" "2 ^ k \<le> unat n div 2 ^ 32"
        "unat n div 2 ^ 32 < 2 * 2 ^ k"
      unfolding top by blast
    have "sint (of_nat k :: u32) = int k"
      using k(1) by (simp add: signed_of_nat signed_take_bit_int_eq_self)
    then have "Log2FloorNonZero64 n = of_nat (32 + k)"
      using False k(2) by (simp add: Log2FloorNonZero64_def Log2FloorNonZero64_Portable_def)
    moreover have "2 ^ (32 + k) \<le> unat n"
      using k(3) by (simp add: power_add less_eq_div_iff_mult_less_eq mult.commute)
    moreover have "unat n < 2 * 2 ^ (32 + k)"
      using k(4) by (simp add: power_add div_less_iff_less_mult mult.commute mult.left_commute)
    ultimately show ?thesis using k(1) by (intro exI [of _ "32 + k"]) auto
  qed
qed

lemma varint_size_step: "k < 64 \<Longrightarrow> (k * 9 + 73) div 64 = Suc (k div 7)"
proof -
  have "\<forall>k \<in> set [0..<64]. (k * 9 + 73) div 64 = Suc (k div 7)" by code_simp
  then show "k < 64 \<Longrightarrow> (k * 9 + 73) div 64 = Suc (k div 7)" by simp
qed

lemma length_varint_enc_log:
  assumes "2 ^ k \<le> n" "n < 2 * 2 ^ k"
  shows "length (varint_enc n) = Suc (k div 7)"
proof -
  have p: "(128::nat) ^ j = 2 ^ (7 * j)" for j by (simp add: power_mult)
  have "2 * 2 ^ k \<le> (2::nat) ^ (7 * Suc (k div 7))"
    unfolding power_Suc [symmetric]
    by (rule power_increasing) (presburger, simp)
  moreover have "(2::nat) ^ (7 * (k div 7)) \<le> 2 ^ k" by (rule power_increasing) auto
  ultimately show ?thesis
    unfolding varint_enc_length_iff p using assms by linarith
qed

lemma or_1_size:
  fixes v :: "'a::len word"
  shows "length (varint_enc (unat (v OR 1))) = length (varint_enc (unat v))"
proof -
  have u: "unat (v OR 1) = unat v OR 1" by (simp add: unsigned_or_eq)
  show ?thesis
  proof (cases "odd (unat v)")
    case True
    then have "unat v OR 1 = unat v" by (simp only: or_one_eq) simp
    then show ?thesis by (simp only: u)
  next
    case False
    then have "unat v OR 1 = unat v + 1" by (simp only: or_one_eq) simp
    then have e: "unat (v OR 1) = unat v + 1" by (simp only: u)
    show ?thesis
    proof (cases "unat v < 128")
      case True
      with False have "unat v + 1 < 128" by presburger
      with True show ?thesis unfolding e by (simp only: varint_enc_small list.size)
    next
      case big: False
      have d: "n div 128 = n div 2 div 64" for n :: nat
        by (simp add: div_mult2_eq [symmetric])
      from False have "(unat v + 1) div 128 = unat v div 128"
        unfolding d by simp
      moreover from big have big': "\<not> unat v + 1 < 128" by linarith
      ultimately show ?thesis
        unfolding e length_varint_enc_big [OF big] length_varint_enc_big [OF big'] by (simp only:)
    qed
  qed
qed

lemma VarintSize32_length: "VarintSize32 v = length (varint_enc (unat v))"
proof -
  have "v OR 1 \<noteq> 0" by (simp add: or_eq_0_iff)
  from Log2_value_bounds [OF this] obtain k where
    k: "k < 32" "Log2FloorNonZero (v OR 1) = of_nat k" "2 ^ k \<le> unat (v OR 1)" "unat (v OR 1) < 2 * 2 ^ k"
    by blast
  have "unat ((of_nat k * 9 + 73) div 64 :: u32) = (k * 9 + 73) div 64"
  proof -
    have "unat (of_nat (k * 9 + 73) :: u32) = k * 9 + 73"
      using k(1) by (simp only: unat_of_nat) simp
    then show ?thesis by (simp add: unat_div)
  qed
  moreover have "length (varint_enc (unat v)) = Suc (k div 7)"
    using length_varint_enc_log [OF k(3,4)] by (simp only: or_1_size)
  ultimately show ?thesis
    using k(1) by (simp only: VarintSize32_def Let_def k(2) varint_size_step)
qed

lemma VarintSize64_length: "VarintSize64 v = length (varint_enc (unat v))"
proof -
  have "v OR 1 \<noteq> 0" by (simp add: or_eq_0_iff)
  from Log2_value_bounds64 [OF this] obtain k where
    k: "k < 64" "Log2FloorNonZero64 (v OR 1) = of_nat k" "2 ^ k \<le> unat (v OR 1)" "unat (v OR 1) < 2 * 2 ^ k"
    by blast
  have "unat ((of_nat k * 9 + 73) div 64 :: u32) = (k * 9 + 73) div 64"
  proof -
    have "unat (of_nat (k * 9 + 73) :: u32) = k * 9 + 73"
      using k(1) by (simp only: unat_of_nat) simp
    then show ?thesis by (simp add: unat_div)
  qed
  moreover have "length (varint_enc (unat v)) = Suc (k div 7)"
    using length_varint_enc_log [OF k(3,4)] by (simp only: or_1_size)
  ultimately show ?thesis
    using k(1) by (simp only: VarintSize64_def Let_def k(2) varint_size_step)
qed

section \<open>The readers\<close>

text \<open>A buffer the fast readers may be used on: ten bytes, or a last byte that ends a varint.\<close>

definition varint_safe :: "nat \<Rightarrow> bytes \<Rightarrow> bool" where
  "varint_safe k buf \<longleftrightarrow> k \<le> length buf \<or> (buf \<noteq> [] \<and> unat (last buf) < 128)"

text \<open>
  One unrolled stretch of \<open>k\<close> bytes with shifts \<open>sh\<close>, \<open>sh + 7\<close>, ...: \<open>Inl\<close> is a jump to
  \<open>done\<close>, \<open>Inr\<close> falls through with the continuation bits removed.
\<close>

fun part_loop :: "nat \<Rightarrow> nat \<Rightarrow> u32 \<Rightarrow> nat \<Rightarrow> bytes \<Rightarrow> (nat \<times> u32) + u32" where
  "part_loop 0 sh r i buf = Inr r"
| "part_loop (Suc k) sh r i buf =
     (let b = byte32 buf i; r' = r + push_bit sh b
      in if b AND 0x80 = 0 then Inl (i + 1, r')
         else part_loop k (sh + 7) (r' - push_bit sh 0x80) (i + 1) buf)"

fun varint_prefix :: "nat \<Rightarrow> bytes \<Rightarrow> nat" where
  "varint_prefix 0 bs = 0"
| "varint_prefix (Suc k) [] = 0"
| "varint_prefix (Suc k) (b # bs) = unat b - 128 + 128 * varint_prefix k bs"

lemma varint_safe_Cons:
  "varint_safe (Suc k) (b # bs) \<Longrightarrow> 128 \<le> unat b \<Longrightarrow> varint_safe k bs"
  by (auto simp: varint_safe_def split: if_splits)

lemma varint_safe_nonempty: "varint_safe (Suc k) bs \<Longrightarrow> bs \<noteq> []"
  by (auto simp: varint_safe_def)

lemma part_loop_eq:
  assumes "varint_safe k (drop i buf)"
  shows "part_loop k sh r i buf =
     (case varint_dec k (drop i buf) of
        Some (v, n) \<Rightarrow> Inl (i + n, r + of_nat (v * 2 ^ sh))
      | None \<Rightarrow> Inr (r + of_nat (varint_prefix k (drop i buf) * 2 ^ sh)))"
  using assms
proof (induction k arbitrary: sh r i)
  case 0
  then show ?case by simp
next
  case (Suc k)
  from varint_safe_nonempty [OF Suc.prems] have i: "i < length buf" by simp
  then have d: "drop i buf = buf ! i # drop (i + 1) buf"
    using Cons_nth_drop_Suc [OF i] by (simp only: Suc_eq_plus1)
  let ?b = "unat (buf ! i)"
  have pb: "push_bit sh (ucast (buf ! i)) = (of_nat (?b * 2 ^ sh) :: u32)"
    by (simp only: ucast_byte32 push_bit_eq_mult of_nat_mult of_nat_power of_nat_numeral)
  show ?case
  proof (cases "?b < 128")
    case True
    then show ?thesis by (simp add: d pb Let_def)
  next
    case False
    then have ge: "128 \<le> ?b" by simp
    have split: "r + push_bit sh (ucast (buf ! i)) - push_bit sh 128 = r + of_nat ((?b - 128) * 2 ^ sh)"
    proof -
      have "?b * 2 ^ sh = (?b - 128) * 2 ^ sh + 128 * 2 ^ sh"
        using ge by (simp add: add_mult_distrib [symmetric])
      then have "(of_nat (?b * 2 ^ sh) :: u32) = of_nat ((?b - 128) * 2 ^ sh) + push_bit sh 128"
        by (simp add: push_bit_eq_mult)
      then show ?thesis unfolding pb by simp
    qed
    have safe: "varint_safe k (drop (i + 1) buf)"
      using varint_safe_Cons Suc.prems ge unfolding d by blast
    have e: "(v::nat) * 2 ^ (sh + 7) = 128 * v * 2 ^ sh" for v
      by (simp add: power_add)
    show ?thesis
      using False Suc.IH [OF safe, of "sh + 7" "r + of_nat ((?b - 128) * 2 ^ sh)"]
      by (simp only: part_loop.simps Let_def msb_byte32_and split d varint_dec.simps
          varint_prefix.simps e add_mult_distrib of_nat_add add.assoc if_False)
        (auto split: option.splits simp: algebra_simps)
  qed
qed

lemma part_loop_Suc4: "part_loop 4 = part_loop (Suc (Suc (Suc (Suc 0))))"
  by (simp add: eval_nat_numeral)

lemma part_loop_Suc2: "part_loop 2 = part_loop (Suc (Suc 0))"
  by (simp add: eval_nat_numeral)

lemma nth_numerals:
  "(buf :: bytes) ! 2 = buf ! Suc (Suc 0)"
  "buf ! 3 = buf ! Suc (Suc (Suc 0))"
  "buf ! 4 = buf ! Suc (Suc (Suc (Suc 0)))"
  by (simp_all add: eval_nat_numeral)

lemma nth_numerals_above:
  "(buf :: bytes) ! Suc 4 = buf ! 5" "buf ! Suc 5 = buf ! 6" "buf ! Suc 6 = buf ! 7"
  "buf ! Suc 8 = buf ! 9" "buf ! Suc (Suc 4) = buf ! 6" "buf ! Suc (Suc (Suc 4)) = buf ! 7"
  by simp_all

lemma ReadVarint32FromArray_parts:
  "ReadVarint32FromArray first buf =
     (case part_loop 4 7 (first - 0x80) 1 buf of
        Inl x \<Rightarrow> Some x
      | Inr r \<Rightarrow> map_option (\<lambda>n. (n, r + push_bit 28 0x80)) (skip_high_bytes 5 buf 5))"
  by (simp add: ReadVarint32FromArray_def part_loop_Suc4 Let_def nth_numerals split: option.splits)

lemma ReadVarint64FromArray_parts:
  "ReadVarint64FromArray buf =
     (case part_loop 4 0 0 0 buf of
        Inl (n, p) \<Rightarrow> Some (n, varint_parts p 0 0)
      | Inr p0 \<Rightarrow>
          (case part_loop 4 0 0 4 buf of
             Inl (n, p) \<Rightarrow> Some (n, varint_parts p0 p 0)
           | Inr p1 \<Rightarrow>
               (case part_loop 2 0 0 8 buf of
                  Inl (n, p) \<Rightarrow> Some (n, varint_parts p0 p1 p)
                | Inr p2 \<Rightarrow> None)))"
  by (simp add: ReadVarint64FromArray_def part_loop_Suc4 part_loop_Suc2 nth_numerals Let_def)

lemma varint_prefix_less: "varint_prefix k bs < 128 ^ k"
proof (induction k bs rule: varint_prefix.induct)
  case (3 k b bs)
  have "unat b - 128 \<le> 127" using u8_less [of b] by linarith
  with 3 show ?case by simp
qed auto

lemma varint_dec_less: "varint_dec k bs = Some (v, n) \<Longrightarrow> v < 128 ^ k \<and> 0 < n \<and> n \<le> k \<and> n \<le> length bs"
proof (induction k bs arbitrary: v n rule: varint_dec.induct)
  case (3 k b bs)
  show ?case
  proof (cases "unat b < 128")
    case True
    have "(1::nat) \<le> 128 ^ k" by simp
    with True "3.prems" show ?thesis by (auto intro: less_le_trans)
  next
    case False
    with "3.prems" obtain v' n' where r: "varint_dec k bs = Some (v', n')"
      "v = unat b - 128 + 128 * v'" "n = Suc n'" by auto
    have "unat b - 128 \<le> 127" using u8_less [of b] by linarith
    with "3.IH" [OF False r(1)] r show ?thesis by auto
  qed
qed auto

lemma varint_dec_split:
  "varint_safe (k + m) bs \<Longrightarrow>
   varint_dec (k + m) bs =
     (case varint_dec k bs of
        Some x \<Rightarrow> Some x
      | None \<Rightarrow> map_option (\<lambda>(v, n). (varint_prefix k bs + 128 ^ k * v, k + n)) (varint_dec m (drop k bs)))"
proof (induction k arbitrary: bs)
  case 0
  then show ?case by (simp add: case_prod_unfold option.map_ident)
next
  case (Suc k)
  from Suc.prems have "varint_safe (Suc (k + m)) bs" by simp
  from varint_safe_nonempty [OF this] obtain b cs where bs: "bs = b # cs" by (cases bs) auto
  show ?case
  proof (cases "unat b < 128")
    case True
    then show ?thesis by (simp add: bs)
  next
    case False
    then have "varint_safe (k + m) cs"
      using varint_safe_Cons [of "k + m" b cs] Suc.prems bs by simp
    moreover obtain c where "unat b = 128 + c"
      using False le_Suc_ex [of 128 "unat b"] by auto
    ultimately show ?thesis
      using Suc.IH [of cs]
      by (auto simp: bs add.assoc option.map_comp comp_def case_prod_unfold add_mult_distrib2 mult.assoc
          split: option.splits)
  qed
qed

lemma varint_safe_drop:
  "varint_safe (k + m) bs \<Longrightarrow> varint_dec k bs = None \<Longrightarrow> varint_safe m (drop k bs)"
proof (induction k arbitrary: bs)
  case (Suc k)
  from Suc.prems have "varint_safe (Suc (k + m)) bs" by simp
  from varint_safe_nonempty [OF this] obtain b cs where bs: "bs = b # cs" by (cases bs) auto
  with Suc.prems(2) have "\<not> unat b < 128" and n: "varint_dec k cs = None"
    by (auto split: if_splits)
  then have "varint_safe (k + m) cs"
    using varint_safe_Cons [of "k + m" b cs] Suc.prems(1) bs by simp
  from Suc.IH [OF this n] show ?case by (simp add: bs)
qed simp

lemma varint_safe_mono: "varint_safe (k + m) bs \<Longrightarrow> varint_safe k bs"
  by (auto simp: varint_safe_def)

lemma skip_high_bytes_eq:
  "varint_safe k (drop i buf) \<Longrightarrow>
   skip_high_bytes k buf i = map_option (\<lambda>(v, n). i + n) (varint_dec k (drop i buf))"
proof (induction k arbitrary: i)
  case (Suc k)
  from varint_safe_nonempty [OF Suc.prems] have i: "i < length buf" by simp
  then have d: "drop i buf = buf ! i # drop (Suc i) buf" by (rule Cons_nth_drop_Suc [symmetric])
  show ?case
  proof (cases "unat (buf ! i) < 128")
    case False
    then have "varint_safe k (drop (Suc i) buf)"
      using varint_safe_Cons [of k "buf ! i"] Suc.prems unfolding d by simp
    from Suc.IH [OF this] False show ?thesis
      by (simp add: d Let_def option.map_comp comp_def case_prod_unfold)
  qed (simp add: d Let_def)
qed simp

lemma ReadVarint32FromArray_eq:
  assumes safe: "varint_safe 10 buf" and first: "first = byte32 buf 0" "128 \<le> unat (buf ! 0)"
  shows "ReadVarint32FromArray first buf =
     map_option (\<lambda>(v, n). (n, of_nat v)) (varint_dec 10 buf)"
proof -
  from safe obtain b bs where buf: "buf = b # bs"
    by (cases buf) (auto simp: varint_safe_def)
  with first have b: "128 \<le> unat b" by simp
  have s9: "varint_safe (4 + 5) bs"
    using varint_safe_Cons [of 9 b bs] safe b buf by simp
  have f: "first - 0x80 = of_nat (unat b - 128)"
    by (simp only: first buf ucast_byte32 nth_Cons_0 of_nat_diff [OF b] of_nat_numeral)
  have dec: "varint_dec 10 buf = map_option (\<lambda>(v, n). (unat b - 128 + 128 * v, Suc n)) (varint_dec (4 + 5) bs)"
    using b by (simp add: buf eval_nat_numeral)
  have pl: "part_loop 4 7 (first - 0x80) 1 buf =
      (case varint_dec 4 bs of
        Some (v, n) \<Rightarrow> Inl (Suc n, of_nat (unat b - 128 + 128 * v))
      | None \<Rightarrow> Inr (of_nat (unat b - 128 + 128 * varint_prefix 4 bs)))"
    using part_loop_eq [of 4 1 buf 7 "first - 0x80"] varint_safe_mono [OF s9]
    by (simp add: buf f [unfolded buf] mult.commute split: option.splits)
  have sk: "skip_high_bytes 5 buf 5 = map_option (\<lambda>(v, n). 5 + n) (varint_dec 5 (drop 4 bs))"
    if "varint_dec 4 bs = None"
    using skip_high_bytes_eq [of 5 5 buf] varint_safe_drop [OF s9 that]
    by (simp add: buf)
  show ?thesis
  proof (cases "varint_dec 4 bs")
    case None
    have z: "(34359738368 :: u32) = 0" by simp
    show ?thesis
      unfolding ReadVarint32FromArray_parts pl dec varint_dec_split [OF s9]
      using sk [OF None] None
      by (cases "varint_dec 5 (drop 4 bs)") (auto simp: push_bit_eq_mult z)
  next
    case (Some x)
    then show ?thesis
      unfolding ReadVarint32FromArray_parts pl dec varint_dec_split [OF s9]
      by (cases x) simp
  qed
qed

lemma or_push_bit_nat:
  fixes a b :: nat
  assumes "a < 2 ^ k"
  shows "a OR push_bit k b = a + b * 2 ^ k"
proof -
  have "take_bit k a AND push_bit k b = 0"
    by (rule bit_eqI) (auto simp: bit_and_iff bit_take_bit_iff bit_push_bit_iff)
  then have "a AND push_bit k b = 0" by (simp only: take_bit_nat_eq_self [OF assms])
  then have "a + push_bit k b = a OR push_bit k b" by (rule disjunctive_add_eq_or)
  then show ?thesis by (simp add: push_bit_eq_mult)
qed

lemma varint_parts_eq:
  assumes "p0 < 2 ^ 28" "p1 < 2 ^ 28" "p2 < 2 ^ 15"
  shows "varint_parts (of_nat p0) (of_nat p1) (of_nat p2) = of_nat (p0 + 2 ^ 28 * p1 + 2 ^ 56 * p2)"
proof -
  have u: "(ucast (of_nat p :: u32) :: u64) = of_nat p" if "p < 2 ^ 32" for p
    using that by (simp add: unsigned_of_nat take_bit_nat_eq_self)
  have "p0 OR push_bit 28 p1 = p0 + p1 * 2 ^ 28"
    using assms(1) by (rule or_push_bit_nat)
  moreover have "p0 + p1 * 2 ^ 28 < 2 ^ 56"
    using assms(1,2) by simp
  ultimately have e: "(p0 OR push_bit 28 p1) OR push_bit 56 p2 = p0 + 2 ^ 28 * p1 + 2 ^ 56 * p2"
    by (simp only: or_push_bit_nat mult.commute)
  have "varint_parts (of_nat p0) (of_nat p1) (of_nat p2)
      = of_nat p0 OR push_bit 28 (of_nat p1) OR push_bit 56 (of_nat p2)"
  proof -
    have "p0 < 2 ^ 32" "p1 < 2 ^ 32" "p2 < 2 ^ 32" using assms by simp_all
    from this [THEN u] show ?thesis by (simp only: varint_parts_def)
  qed
  also have "\<dots> = of_nat ((p0 OR push_bit 28 p1) OR push_bit 56 p2)"
    by (simp only: of_nat_or_eq push_bit_of_nat or.assoc)
  finally show ?thesis by (simp only: e)
qed

lemma ReadVarint64FromArray_eq:
  assumes safe: "varint_safe 10 buf"
  shows "ReadVarint64FromArray buf = map_option (\<lambda>(v, n). (n, of_nat v)) (varint_dec 10 buf)"
proof -
  have s: "varint_safe (4 + (4 + 2)) buf" using safe by simp
  have pl: "part_loop k 0 0 i buf =
     (case varint_dec k (drop i buf) of
        Some (v, n) \<Rightarrow> Inl (i + n, of_nat v)
      | None \<Rightarrow> Inr (of_nat (varint_prefix k (drop i buf))))"
    if "varint_safe k (drop i buf)" for k i
    using part_loop_eq [OF that, of 0 0] by (simp split: option.splits)
  have pre: "varint_prefix 4 bs < 2 ^ 28" for bs
    using varint_prefix_less [of 4 bs] by simp
  have d4: "varint_dec 4 bs = Some (v, n) \<Longrightarrow> v < 2 ^ 28" for bs v n
    using varint_dec_less [of 4 bs v n] by simp
  have d2: "varint_dec 2 bs = Some (v, n) \<Longrightarrow> v < 2 ^ 15" for bs v n
    using varint_dec_less [of 2 bs v n] by simp
  have p0: "part_loop 4 0 0 0 buf = (case varint_dec 4 buf of
        Some (v, n) \<Rightarrow> Inl (n, of_nat v) | None \<Rightarrow> Inr (of_nat (varint_prefix 4 buf)))"
    using pl [of 4 0, unfolded drop_0 add_0_left] varint_safe_mono [OF s] by simp
  show ?thesis
  proof (cases "varint_dec 4 buf")
    case (Some x)
    obtain v n where x: "x = (v, n)" by force
    have "varint_dec 10 buf = Some (v, n)" using varint_dec_split [OF s] Some x by simp
    moreover have "varint_parts (of_nat v) 0 0 = of_nat v"
      using varint_parts_eq [of v 0 0] d4 [OF Some [unfolded x]] by simp
    ultimately show ?thesis by (simp add: ReadVarint64FromArray_parts p0 Some x)
  next
    case n4: None
    note s6 = varint_safe_drop [OF s n4]
    have p1: "part_loop 4 0 0 4 buf = (case varint_dec 4 (drop 4 buf) of
        Some (v, n) \<Rightarrow> Inl (4 + n, of_nat v) | None \<Rightarrow> Inr (of_nat (varint_prefix 4 (drop 4 buf))))"
      using pl [of 4 4] varint_safe_mono [OF s6] by simp
    have dec: "varint_dec 10 buf = map_option (\<lambda>(v, n). (varint_prefix 4 buf + 2 ^ 28 * v, 4 + n))
        (varint_dec 6 (drop 4 buf))"
      using varint_dec_split [OF s] n4 by simp
    show ?thesis
    proof (cases "varint_dec 4 (drop 4 buf)")
      case (Some x)
      obtain v n where x: "x = (v, n)" by force
      have "varint_dec 6 (drop 4 buf) = Some (v, n)"
        using varint_dec_split [OF s6] Some x by simp
      moreover have "varint_parts (of_nat (varint_prefix 4 buf)) (of_nat v) 0
          = of_nat (varint_prefix 4 buf + 2 ^ 28 * v)"
        using varint_parts_eq [OF pre, of v 0 buf] d4 [OF Some [unfolded x]] by simp
      ultimately show ?thesis by (simp add: ReadVarint64FromArray_parts p0 n4 p1 dec Some x)
    next
      case n8: None
      note s2 = varint_safe_drop [OF s6 n8]
      have p2: "part_loop 2 0 0 8 buf = (case varint_dec 2 (drop 8 buf) of
          Some (v, n) \<Rightarrow> Inl (8 + n, of_nat v) | None \<Rightarrow> Inr (of_nat (varint_prefix 2 (drop 8 buf))))"
        using pl [of 2 8] s2 by simp
      have dec2: "varint_dec 6 (drop 4 buf) =
          map_option (\<lambda>(v, n). (varint_prefix 4 (drop 4 buf) + 2 ^ 28 * v, 4 + n)) (varint_dec 2 (drop 8 buf))"
        using varint_dec_split [OF s6] n8 by simp
      show ?thesis
      proof (cases "varint_dec 2 (drop 8 buf)")
        case None
        then show ?thesis by (simp add: ReadVarint64FromArray_parts p0 n4 p1 n8 p2 dec dec2)
      next
        case (Some x)
        obtain v n where x: "x = (v, n)" by force
        have "varint_parts (of_nat (varint_prefix 4 buf)) (of_nat (varint_prefix 4 (drop 4 buf))) (of_nat v)
          = of_nat (varint_prefix 4 buf + 2 ^ 28 * (varint_prefix 4 (drop 4 buf) + 2 ^ 28 * v))"
          using varint_parts_eq [OF pre pre d2 [OF Some [unfolded x]], of buf "drop 4 buf"]
          by (simp add: algebra_simps)
        then show ?thesis
          by (simp add: ReadVarint64FromArray_parts p0 n4 p1 n8 p2 dec dec2 Some x)
      qed
    qed
  qed
qed

section \<open>Little-endian words\<close>

lemma length_WriteLittleEndian [simp]:
  "length (WriteLittleEndian32ToArray v) = 4"
  "length (WriteLittleEndian64ToArray w) = 8"
  by (simp_all add: WriteLittleEndian32ToArray_def WriteLittleEndian64ToArray_def Let_def)

lemma ReadLittleEndian32_Write:
  "ReadLittleEndian32FromArray (WriteLittleEndian32ToArray v @ rest) = v"
proof (rule bit_word_eqI)
  fix n assume "n < LENGTH(32)"
  then consider "n < 8" | "8 \<le> n" "n < 16" | "16 \<le> n" "n < 24" | "24 \<le> n" "n < 32"
    by (simp add: not_less) linarith
  then show "bit (ReadLittleEndian32FromArray (WriteLittleEndian32ToArray v @ rest)) n = bit v n"
    by cases (auto simp: ReadLittleEndian32FromArray_def WriteLittleEndian32ToArray_def bit_simps)
qed

lemma WriteLittleEndian64_split:
  "WriteLittleEndian64ToArray v =
     WriteLittleEndian32ToArray (ucast v) @ WriteLittleEndian32ToArray (ucast (drop_bit 32 v))"
  by (simp add: WriteLittleEndian64ToArray_def WriteLittleEndian32ToArray_def Let_def)

lemma ReadLittleEndian64_split:
  "length bs = 4 \<Longrightarrow> ReadLittleEndian64FromArray (bs @ cs) =
     ucast (ReadLittleEndian32FromArray (bs @ cs)) OR push_bit 32 (ucast (ReadLittleEndian32FromArray cs))"
  by (simp add: ReadLittleEndian64FromArray_def ReadLittleEndian32FromArray_def Let_def nth_append)

lemma ReadLittleEndian64_Write:
  "ReadLittleEndian64FromArray (WriteLittleEndian64ToArray v @ rest) = v"
proof -
  have "(ucast (ucast v :: u32) OR push_bit 32 (ucast (ucast (drop_bit 32 v) :: u32)) :: u64) = v"
  proof (rule bit_word_eqI)
    fix n assume "n < LENGTH(64)"
    then show "bit (ucast (ucast v :: u32) OR push_bit 32 (ucast (ucast (drop_bit 32 v) :: u32)) :: u64) n = bit v n"
      by (cases "n < 32") (auto simp: bit_simps)
  qed
  then show ?thesis
    using ReadLittleEndian64_split [of "WriteLittleEndian32ToArray (ucast v)"
        "WriteLittleEndian32ToArray (ucast (drop_bit 32 v)) @ rest"]
    by (simp add: WriteLittleEndian64_split ReadLittleEndian32_Write)
qed

section \<open>Self-delimiting codes\<close>

text \<open>
  What every field encoding of the wire format promises its reader: the decoder finds the
  value and its length in front of any rest. Two encodings then never stand one inside the
  other, and a sequence of them is read back one by one.
\<close>

locale prefix_code =
  fixes enc :: "'a \<Rightarrow> bytes"
    and dec :: "bytes \<Rightarrow> (nat \<times> 'a) option"
  assumes dec_enc: "dec (enc x @ rest) = Some (length (enc x), x)"
    and enc_nonempty: "enc x \<noteq> []"
begin

lemma enc_inj: "enc x @ r = enc y @ s \<Longrightarrow> x = y \<and> r = s"
  using dec_enc [of x r] dec_enc [of y s] by (auto dest: arg_cong [where f = dec])

lemma enc_prefix_free: "enc y = enc x @ r \<Longrightarrow> r = []"
  using enc_inj [of x r y "[]"] by simp

lemma encs_inj: "concat (map enc xs) = concat (map enc ys) \<Longrightarrow> xs = ys"
proof (induction xs arbitrary: ys)
  case Nil
  then show ?case using enc_nonempty by (cases ys) auto
next
  case (Cons x xs)
  then show ?case
    using enc_nonempty by (cases ys) (auto dest!: enc_inj)
qed

end

definition dec_varint32 :: "bytes \<Rightarrow> (nat \<times> u32) option" where
  "dec_varint32 bs = map_option (\<lambda>(v, n). (n, of_nat v)) (varint_dec 10 bs)"

definition dec_varint64 :: "bytes \<Rightarrow> (nat \<times> u64) option" where
  "dec_varint64 bs = map_option (\<lambda>(v, n). (n, of_nat v)) (varint_dec 10 bs)"

interpretation v32: prefix_code WriteVarint32ToArray dec_varint32
proof unfold_locales
  fix x :: u32 and rest
  have "varint_dec 10 (varint_enc (unat x) @ rest) = Some (unat x, length (varint_enc (unat x)))"
    by (rule varint_dec_enc) (rule le_trans [OF length_varint_enc32], simp)
  then show "dec_varint32 (WriteVarint32ToArray x @ rest) = Some (length (WriteVarint32ToArray x), x)"
    by (simp add: dec_varint32_def WriteVarint32ToArray_enc)
qed (simp add: WriteVarint32ToArray_enc)

interpretation v64: prefix_code WriteVarint64ToArray dec_varint64
proof unfold_locales
  fix x :: u64 and rest
  have "varint_dec 10 (varint_enc (unat x) @ rest) = Some (unat x, length (varint_enc (unat x)))"
    by (rule varint_dec_enc) (rule length_varint_enc64)
  then show "dec_varint64 (WriteVarint64ToArray x @ rest) = Some (length (WriteVarint64ToArray x), x)"
    by (simp add: dec_varint64_def WriteVarint64ToArray_enc)
qed (simp add: WriteVarint64ToArray_enc)

section \<open>What the primitives promise\<close>

lemma varint_enc_last: "unat (last (varint_enc n)) < 128"
proof (induction n rule: varint_enc.induct)
  case (1 n)
  then show ?case
    by (cases "n < 128") (simp_all add: varint_enc.simps [of n] unat_of_nat le_less_trans [OF mod_less_eq_dividend])
qed

text \<open>The unrolled 64-bit varint reader gives back what \<open>WriteVarint64ToArray\<close> wrote, and its
  length, from any buffer it may be used on (ten bytes left, or a last byte that ends a varint).\<close>

lemma varint64_roundtrip:
  assumes "10 \<le> length (WriteVarint64ToArray v @ rest) \<or> rest = []"
  shows "ReadVarint64FromArray (WriteVarint64ToArray v @ rest) = Some (length (WriteVarint64ToArray v), v)"
proof -
  have d: "varint_dec 10 (varint_enc (unat v) @ rest) = Some (unat v, length (varint_enc (unat v)))"
    by (rule varint_dec_enc) (rule length_varint_enc64)
  have "varint_safe 10 (WriteVarint64ToArray v @ rest)"
    using assms varint_enc_last [of "unat v"] by (auto simp: varint_safe_def WriteVarint64ToArray_enc)
  from ReadVarint64FromArray_eq [OF this] show ?thesis using d by (simp add: WriteVarint64ToArray_enc)
qed

lemma varint64_roundtrip_witness:
  "ReadVarint64FromArray (WriteVarint64ToArray 300 @ []) = Some (length (WriteVarint64ToArray 300), 300)"
  by (rule varint64_roundtrip) simp

text \<open>\<open>VarintSize32\<close> and \<open>VarintSize64\<close>, computed from a base-2 logarithm by a multiplication and
  a shift, are exactly the numbers of bytes the writers produce, between 1 and 5 and between 1
  and 10.\<close>

lemma varint_sizes:
  "VarintSize32 v = length (WriteVarint32ToArray v) \<and> 1 \<le> VarintSize32 v \<and> VarintSize32 v \<le> 5 \<and>
   VarintSize64 w = length (WriteVarint64ToArray w) \<and> 1 \<le> VarintSize64 w \<and> VarintSize64 w \<le> 10"
  using length_varint_enc32 [of v] length_varint_enc64 [of w] varint_enc_not_Nil [of "unat v"] varint_enc_not_Nil [of "unat w"]
  by (simp add: VarintSize32_length VarintSize64_length WriteVarint32ToArray_enc WriteVarint64ToArray_enc Suc_le_eq
      del: varint_enc_not_Nil)

text \<open>The little-endian readers give back what the little-endian writers wrote, whatever follows.\<close>

theorem little_endian_roundtrip:
  "ReadLittleEndian32FromArray (WriteLittleEndian32ToArray v @ rest) = v \<and>
   ReadLittleEndian64FromArray (WriteLittleEndian64ToArray w @ rest) = w"
  by (simp add: ReadLittleEndian32_Write ReadLittleEndian64_Write)

text \<open>A concatenation of varints determines the values in it: two lists of 64-bit values with
  the same bytes are the same list.\<close>

theorem varints_unambiguous:
  assumes "concat (map WriteVarint64ToArray xs) = concat (map WriteVarint64ToArray ys)"
  shows "xs = ys"
  using v64.encs_inj [OF assms] .

lemma varints_unambiguous_witness: "[1, 300] = [1, 300 :: u64]"
  by (rule varints_unambiguous) (rule refl)

end
