(* ===== verification/ArrayInput.thy ===== *)
theory ArrayInput
  imports Prelude
begin

text \<open>
  \<open>ArrayInputStream\<close> (\<open>io/zero_copy_stream_impl_lite.cc\<close>): an array handed out in blocks, the simplest
  input stream. A pointer into the array is an offset. \<open>None\<close> as the result of
  \<open>BackUp\<close> is a failed \<open>GOOGLE_CHECK\<close>, which stops the process.
\<close>

record ArrayInputStream =
  i_data :: bytes
  i_block_size :: nat
  i_position :: nat
  i_last_returned_size :: nat

definition ArrayInputStream0 :: "bytes \<Rightarrow> int \<Rightarrow> ArrayInputStream" where
  "ArrayInputStream0 data block_size =
     \<lparr>i_data = data, i_block_size = (if block_size > 0 then nat block_size else length data),
      i_position = 0, i_last_returned_size = 0\<rparr>"

definition in_Next :: "ArrayInputStream \<Rightarrow> (nat \<times> nat) option \<times> ArrayInputStream" where
  "in_Next z =
     (if i_position z < length (i_data z)
      then let n = min (i_block_size z) (length (i_data z) - i_position z)
           in (Some (i_position z, n), z\<lparr>i_last_returned_size := n, i_position := i_position z + n\<rparr>)
      else (None, z\<lparr>i_last_returned_size := 0\<rparr>))"

definition in_BackUp :: "nat \<Rightarrow> ArrayInputStream \<Rightarrow> ArrayInputStream option" where
  "in_BackUp count z =
     (if i_last_returned_size z > 0 \<and> count \<le> i_last_returned_size z
      then Some (z\<lparr>i_position := i_position z - count, i_last_returned_size := 0\<rparr>) else None)"

definition in_Skip :: "nat \<Rightarrow> ArrayInputStream \<Rightarrow> bool \<times> ArrayInputStream" where
  "in_Skip count z =
     (let z = z\<lparr>i_last_returned_size := 0\<rparr>
      in if count > length (i_data z) - i_position z then (False, z\<lparr>i_position := length (i_data z)\<rparr>)
         else (True, z\<lparr>i_position := i_position z + count\<rparr>))"

definition in_ByteCount :: "ArrayInputStream \<Rightarrow> nat" where
  "in_ByteCount z = i_position z"

definition array_input_ok :: "ArrayInputStream \<Rightarrow> bool" where
  "array_input_ok z \<longleftrightarrow> int (length (i_data z)) \<le> INT_MAX \<and> i_position z \<le> length (i_data z) \<and>
     i_last_returned_size z \<le> i_position z \<and> (i_data z \<noteq> [] \<longrightarrow> 0 < i_block_size z)"

lemma ArrayInputStream0_ok: "int (length data) \<le> INT_MAX \<Longrightarrow> array_input_ok (ArrayInputStream0 data block_size)"
  by (simp add: array_input_ok_def ArrayInputStream0_def)

end
