(* ===== verification/InputAdaptors.thy ===== *)
theory InputAdaptors
  imports ArrayInput
begin

text \<open>
  The input streams of \<open>io/zero_copy_stream_impl.cc\<close> and \<open>io/zero_copy_stream_impl_lite.cc\<close> that are built from others: a stream
  over a copying one, with a buffer; the streams of a list one after the other; the first bytes
  of a stream. The functions of the class \<open>ZeroCopyInputStream\<close> are a record, and its documented
  promises a locale: every one of these streams keeps them if the streams below it do.

  The region \<open>Next\<close> returns is the bytes in it. \<open>None\<close> as the result of \<open>BackUp\<close> is a failed
  \<open>GOOGLE_CHECK\<close> or a \<open>GOOGLE_LOG(DFATAL)\<close>. Counts are 64-bit in the source and integers here.
\<close>

section \<open>The code\<close>

record 's zero_copy_input_ops =
  zi_Next :: "'s \<Rightarrow> bytes option \<times> 's"
  zi_BackUp :: "nat \<Rightarrow> 's \<Rightarrow> 's option"
  zi_Skip :: "nat \<Rightarrow> 's \<Rightarrow> bool \<times> 's"
  zi_ByteCount :: "'s \<Rightarrow> int"

definition array_input_Next :: "ArrayInputStream \<Rightarrow> bytes option \<times> ArrayInputStream" where
  "array_input_Next z =
     (case in_Next z of
        (Some (off, n), z) \<Rightarrow> (Some (take n (drop off (i_data z))), z)
      | (None, z) \<Rightarrow> (None, z))"

definition array_input_ops :: "ArrayInputStream zero_copy_input_ops" where
  "array_input_ops = \<lparr>zi_Next = array_input_Next, zi_BackUp = in_BackUp, zi_Skip = in_Skip, zi_ByteCount = \<lambda>z. int (in_ByteCount z)\<rparr>"

subsection \<open>Copying streams\<close>

text \<open>\<open>Read\<close> returns the bytes it has put into the buffer, \<open>None\<close> for its -1; \<open>Skip\<close> is virtual,
  and this is the default, with its buffer of 4096 bytes.\<close>

record 'c copying_input_ops =
  ci_Read :: "nat \<Rightarrow> 'c \<Rightarrow> bytes option \<times> 'c"
  ci_Skip :: "nat \<Rightarrow> 'c \<Rightarrow> nat \<times> 'c"

function copying_Skip_loop :: "(nat \<Rightarrow> 'c \<Rightarrow> bytes option \<times> 'c) \<Rightarrow> nat \<Rightarrow> nat \<Rightarrow> 'c \<Rightarrow> nat \<times> 'c" where
  "copying_Skip_loop Read count skipped c =
     (if skipped < count
      then (case Read (min (count - skipped) 4096) c of
              (None, c) \<Rightarrow> (skipped, c)
            | (Some bs, c) \<Rightarrow>
                if bs = [] then (skipped, c) else copying_Skip_loop Read count (skipped + length bs) c)
      else (skipped, c))"
  by pat_completeness auto
termination
  by (relation "measure (\<lambda>(Read, count, skipped, c). count - skipped)") (auto simp: length_greater_0_conv [symmetric] simp del: length_greater_0_conv)

declare copying_Skip_loop.simps [simp del]

definition copying_Skip :: "(nat \<Rightarrow> 'c \<Rightarrow> bytes option \<times> 'c) \<Rightarrow> nat \<Rightarrow> 'c \<Rightarrow> nat \<times> 'c" where
  "copying_Skip Read count c = copying_Skip_loop Read count 0 c"

text \<open>\<open>ci_buffer\<close> is \<open>buffer_\<close>, \<open>NULL\<close> or the \<open>buffer_used_\<close> bytes in it.\<close>

record 'c CopyingInputStreamAdaptor =
  ci_copying_stream :: 'c
  ci_failed :: bool
  ci_position :: int
  ci_buffer_size :: nat
  ci_buffer :: "bytes option"
  ci_backup_bytes :: nat

definition kDefaultBlockSize :: nat where "kDefaultBlockSize = 8192"

definition CopyingInputStreamAdaptor0 :: "'c \<Rightarrow> int \<Rightarrow> 'c CopyingInputStreamAdaptor" where
  "CopyingInputStreamAdaptor0 copying_stream block_size =
     \<lparr>ci_copying_stream = copying_stream, ci_failed = False, ci_position = 0,
      ci_buffer_size = (if block_size > 0 then nat block_size else kDefaultBlockSize),
      ci_buffer = None, ci_backup_bytes = 0\<rparr>"

definition ci_buffer_used :: "'c CopyingInputStreamAdaptor \<Rightarrow> nat" where
  "ci_buffer_used a = (case ci_buffer a of None \<Rightarrow> 0 | Some bs \<Rightarrow> length bs)"

definition AllocateBufferIfNeeded :: "'c CopyingInputStreamAdaptor \<Rightarrow> 'c CopyingInputStreamAdaptor" where
  "AllocateBufferIfNeeded a = (if ci_buffer a = None then a\<lparr>ci_buffer := Some []\<rparr> else a)"

definition FreeBuffer :: "'c CopyingInputStreamAdaptor \<Rightarrow> 'c CopyingInputStreamAdaptor" where
  "FreeBuffer a = a\<lparr>ci_buffer := None\<rparr>"

definition adaptor_Next :: "'c copying_input_ops \<Rightarrow> 'c CopyingInputStreamAdaptor \<Rightarrow> bytes option \<times> 'c CopyingInputStreamAdaptor" where
  "adaptor_Next ops a =
     (if ci_failed a then (None, a)
      else let a = AllocateBufferIfNeeded a
        in if ci_backup_bytes a > 0
           then (Some (take (ci_backup_bytes a) (drop (ci_buffer_used a - ci_backup_bytes a) (the (ci_buffer a)))),
                 a\<lparr>ci_backup_bytes := 0\<rparr>)
           else (case ci_Read ops (ci_buffer_size a) (ci_copying_stream a) of
                   (None, c) \<Rightarrow> (None, FreeBuffer (a\<lparr>ci_copying_stream := c, ci_failed := True\<rparr>))
                 | (Some bs, c) \<Rightarrow>
                     if bs = [] then (None, FreeBuffer (a\<lparr>ci_copying_stream := c\<rparr>))
                     else (Some bs, a\<lparr>ci_copying_stream := c, ci_buffer := Some bs,
                                      ci_position := ci_position a + int (length bs)\<rparr>)))"

definition adaptor_BackUp :: "nat \<Rightarrow> 'c CopyingInputStreamAdaptor \<Rightarrow> 'c CopyingInputStreamAdaptor option" where
  "adaptor_BackUp count a =
     (if ci_backup_bytes a = 0 \<and> ci_buffer a \<noteq> None \<and> count \<le> ci_buffer_used a
      then Some (a\<lparr>ci_backup_bytes := count\<rparr>) else None)"

definition adaptor_Skip :: "'c copying_input_ops \<Rightarrow> nat \<Rightarrow> 'c CopyingInputStreamAdaptor \<Rightarrow> bool \<times> 'c CopyingInputStreamAdaptor" where
  "adaptor_Skip ops count a =
     (if ci_failed a then (False, a)
      else if ci_backup_bytes a \<ge> count
      then (True, a\<lparr>ci_backup_bytes := ci_backup_bytes a - count\<rparr>)
      else let count = count - ci_backup_bytes a;
               (skipped, c) = ci_Skip ops count (ci_copying_stream a)
           in (skipped = count, a\<lparr>ci_backup_bytes := 0, ci_copying_stream := c, ci_position := ci_position a + int skipped\<rparr>))"

definition adaptor_ByteCount :: "'c CopyingInputStreamAdaptor \<Rightarrow> int" where
  "adaptor_ByteCount a = ci_position a - int (ci_backup_bytes a)"

definition adaptor_ops :: "'c copying_input_ops \<Rightarrow> 'c CopyingInputStreamAdaptor zero_copy_input_ops" where
  "adaptor_ops ops = \<lparr>zi_Next = adaptor_Next ops, zi_BackUp = adaptor_BackUp, zi_Skip = adaptor_Skip ops, zi_ByteCount = adaptor_ByteCount\<rparr>"

text \<open>
  A \<open>std::istream\<close> over a sequence of bytes: \<open>read\<close> on a good stream extracts as many as it can and
  sets both bits when they are fewer than it was asked for; on any other stream it extracts nothing and sets \<open>failbit\<close>.
  \<open>CopyingIstreamInputStream\<close> tells the end of the stream from an error by them.
\<close>

record istream =
  is_data :: bytes
  is_fail :: bool
  is_eof :: bool

definition istream_read :: "nat \<Rightarrow> istream \<Rightarrow> bytes \<times> istream" where
  "istream_read n s =
     (if is_fail s \<or> is_eof s then ([], s\<lparr>is_fail := True\<rparr>)
      else if n \<le> length (is_data s) then (take n (is_data s), s\<lparr>is_data := drop n (is_data s)\<rparr>)
      else (is_data s, s\<lparr>is_data := [], is_fail := True, is_eof := True\<rparr>))"

definition istream_Read :: "nat \<Rightarrow> istream \<Rightarrow> bytes option \<times> istream" where
  "istream_Read size' s =
     (let (bs, s) = istream_read size' s
      in if length bs = 0 \<and> is_fail s \<and> \<not> is_eof s then (None, s) else (Some bs, s))"

definition istream_ops :: "istream copying_input_ops" where
  "istream_ops = \<lparr>ci_Read = istream_Read, ci_Skip = copying_Skip istream_Read\<rparr>"

definition IstreamInputStream0 :: "istream \<Rightarrow> int \<Rightarrow> istream CopyingInputStreamAdaptor" where
  "IstreamInputStream0 input block_size = CopyingInputStreamAdaptor0 input block_size"

text \<open>
  A file descriptor is the sequence of answers \<open>read\<close> will give: bytes, cut to the size asked for, or an
  \<open>errno\<close>; behind the last answer the file is at its end. \<open>lseek\<close> is the macro of the Windows build, which always fails.
  \<open>Read\<close> and \<open>Skip\<close> are those of an open file; on a closed one a \<open>GOOGLE_CHECK\<close> stops the process. \<open>close\<close> gives
  the \<open>errno\<close>s of its failing calls, and succeeds after them.
\<close>

definition EINTR :: nat where "EINTR = 4"

datatype read_answer = GotBytes bytes | GotErrno nat

record CopyingFileInputStream =
  fi_answers :: "read_answer list"
  fi_is_closed :: bool
  fi_errno :: nat
  fi_previous_seek_failed :: bool

definition CopyingFileInputStream0 :: "read_answer list \<Rightarrow> CopyingFileInputStream" where
  "CopyingFileInputStream0 answers =
     \<lparr>fi_answers = answers, fi_is_closed = False, fi_errno = 0, fi_previous_seek_failed = False\<rparr>"

fun close_no_eintr :: "nat list \<Rightarrow> nat option" where
  "close_no_eintr [] = None"
| "close_no_eintr (e # es) = (if e = EINTR then close_no_eintr es else Some e)"

definition fi_Close :: "nat list \<Rightarrow> CopyingFileInputStream \<Rightarrow> (bool \<times> CopyingFileInputStream) option" where
  "fi_Close errors f =
     (if fi_is_closed f then None
      else let f = f\<lparr>fi_is_closed := True\<rparr>
        in Some (case close_no_eintr errors of Some e \<Rightarrow> (False, f\<lparr>fi_errno := e\<rparr>) | None \<Rightarrow> (True, f)))"

fun read_no_eintr :: "nat \<Rightarrow> read_answer list \<Rightarrow> (nat + bytes) \<times> read_answer list" where
  "read_no_eintr size' [] = (Inr [], [])"
| "read_no_eintr size' (GotBytes bs # as) =
     (if length bs \<le> size' then (Inr bs, as) else (Inr (take size' bs), GotBytes (drop size' bs) # as))"
| "read_no_eintr size' (GotErrno e # as) = (if e = EINTR then read_no_eintr size' as else (Inl e, as))"

definition fi_Read :: "nat \<Rightarrow> CopyingFileInputStream \<Rightarrow> bytes option \<times> CopyingFileInputStream" where
  "fi_Read size' f =
     (case read_no_eintr size' (fi_answers f) of
        (Inl e, as) \<Rightarrow> (None, f\<lparr>fi_answers := as, fi_errno := e\<rparr>)
      | (Inr bs, as) \<Rightarrow> (Some bs, f\<lparr>fi_answers := as\<rparr>))"

definition lseek_succeeds :: bool where "lseek_succeeds = False"

definition fi_Skip :: "nat \<Rightarrow> CopyingFileInputStream \<Rightarrow> nat \<times> CopyingFileInputStream" where
  "fi_Skip count f =
     (if \<not> fi_previous_seek_failed f \<and> lseek_succeeds then (count, f)
      else copying_Skip fi_Read count (f\<lparr>fi_previous_seek_failed := True\<rparr>))"

definition file_ops :: "CopyingFileInputStream copying_input_ops" where
  "file_ops = \<lparr>ci_Read = fi_Read, ci_Skip = fi_Skip\<rparr>"

definition FileInputStream0 :: "read_answer list \<Rightarrow> int \<Rightarrow> CopyingFileInputStream CopyingInputStreamAdaptor" where
  "FileInputStream0 answers block_size = CopyingInputStreamAdaptor0 (CopyingFileInputStream0 answers) block_size"

subsection \<open>Streams one after the other\<close>

record 's ConcatenatingInputStream =
  cc_streams :: "'s list"
  cc_bytes_retired :: int

definition ConcatenatingInputStream0 :: "'s list \<Rightarrow> 's ConcatenatingInputStream" where
  "ConcatenatingInputStream0 streams = \<lparr>cc_streams = streams, cc_bytes_retired = 0\<rparr>"

fun cc_Next_loop :: "'s zero_copy_input_ops \<Rightarrow> 's list \<Rightarrow> int \<Rightarrow> bytes option \<times> 's list \<times> int" where
  "cc_Next_loop ops [] retired = (None, [], retired)"
| "cc_Next_loop ops (s # ss) retired =
     (case zi_Next ops s of
        (Some bs, s) \<Rightarrow> (Some bs, s # ss, retired)
      | (None, s) \<Rightarrow> cc_Next_loop ops ss (retired + zi_ByteCount ops s))"

definition cc_Next :: "'s zero_copy_input_ops \<Rightarrow> 's ConcatenatingInputStream \<Rightarrow> bytes option \<times> 's ConcatenatingInputStream" where
  "cc_Next ops c =
     (let (r, ss, retired) = cc_Next_loop ops (cc_streams c) (cc_bytes_retired c)
      in (r, \<lparr>cc_streams = ss, cc_bytes_retired = retired\<rparr>))"

definition cc_BackUp :: "'s zero_copy_input_ops \<Rightarrow> nat \<Rightarrow> 's ConcatenatingInputStream \<Rightarrow> 's ConcatenatingInputStream option" where
  "cc_BackUp ops count c =
     (case cc_streams c of
        s # ss \<Rightarrow> map_option (\<lambda>s. c\<lparr>cc_streams := s # ss\<rparr>) (zi_BackUp ops count s)
      | [] \<Rightarrow> None)"

fun cc_Skip_loop :: "'s zero_copy_input_ops \<Rightarrow> int \<Rightarrow> 's list \<Rightarrow> int \<Rightarrow> bool \<times> 's list \<times> int" where
  "cc_Skip_loop ops count [] retired = (False, [], retired)"
| "cc_Skip_loop ops count (s # ss) retired =
     (let target_byte_count = zi_ByteCount ops s + count
      in case zi_Skip ops (nat count) s of
           (True, s) \<Rightarrow> (True, s # ss, retired)
         | (False, s) \<Rightarrow>
             let final_byte_count = zi_ByteCount ops s;
                 count = target_byte_count - final_byte_count
             in cc_Skip_loop ops count ss (retired + final_byte_count))"

definition cc_Skip :: "'s zero_copy_input_ops \<Rightarrow> nat \<Rightarrow> 's ConcatenatingInputStream \<Rightarrow> bool \<times> 's ConcatenatingInputStream" where
  "cc_Skip ops count c =
     (let (r, ss, retired) = cc_Skip_loop ops (int count) (cc_streams c) (cc_bytes_retired c)
      in (r, \<lparr>cc_streams = ss, cc_bytes_retired = retired\<rparr>))"

definition cc_ByteCount :: "'s zero_copy_input_ops \<Rightarrow> 's ConcatenatingInputStream \<Rightarrow> int" where
  "cc_ByteCount ops c =
     (case cc_streams c of [] \<Rightarrow> cc_bytes_retired c | s # _ \<Rightarrow> cc_bytes_retired c + zi_ByteCount ops s)"

definition concatenating_ops :: "'s zero_copy_input_ops \<Rightarrow> 's ConcatenatingInputStream zero_copy_input_ops" where
  "concatenating_ops ops =
     \<lparr>zi_Next = cc_Next ops, zi_BackUp = cc_BackUp ops, zi_Skip = cc_Skip ops, zi_ByteCount = cc_ByteCount ops\<rparr>"

subsection \<open>The first bytes of a stream\<close>

text \<open>\<open>limit_\<close> is negative while the last region reaches beyond the limit.\<close>

record 's LimitingInputStream =
  li_input :: 's
  li_limit :: int
  li_prior_bytes_read :: int

definition LimitingInputStream0 :: "'s zero_copy_input_ops \<Rightarrow> 's \<Rightarrow> int \<Rightarrow> 's LimitingInputStream" where
  "LimitingInputStream0 ops input limit =
     \<lparr>li_input = input, li_limit = limit, li_prior_bytes_read = zi_ByteCount ops input\<rparr>"

definition destroy_limiting :: "'s zero_copy_input_ops \<Rightarrow> 's LimitingInputStream \<Rightarrow> 's option" where
  "destroy_limiting ops l =
     (if li_limit l < 0 then zi_BackUp ops (nat (- li_limit l)) (li_input l) else Some (li_input l))"

definition li_Next :: "'s zero_copy_input_ops \<Rightarrow> 's LimitingInputStream \<Rightarrow> bytes option \<times> 's LimitingInputStream" where
  "li_Next ops l =
     (if li_limit l \<le> 0 then (None, l)
      else case zi_Next ops (li_input l) of
        (None, s) \<Rightarrow> (None, l\<lparr>li_input := s\<rparr>)
      | (Some bs, s) \<Rightarrow>
          let limit = li_limit l - int (length bs)
          in (Some (if limit < 0 then take (nat (int (length bs) + limit)) bs else bs),
              l\<lparr>li_input := s, li_limit := limit\<rparr>))"

definition li_BackUp :: "'s zero_copy_input_ops \<Rightarrow> nat \<Rightarrow> 's LimitingInputStream \<Rightarrow> 's LimitingInputStream option" where
  "li_BackUp ops count l =
     (if li_limit l < 0
      then map_option (\<lambda>s. l\<lparr>li_input := s, li_limit := int count\<rparr>)
             (zi_BackUp ops (nat (int count - li_limit l)) (li_input l))
      else map_option (\<lambda>s. l\<lparr>li_input := s, li_limit := li_limit l + int count\<rparr>)
             (zi_BackUp ops count (li_input l)))"

definition li_Skip :: "'s zero_copy_input_ops \<Rightarrow> nat \<Rightarrow> 's LimitingInputStream \<Rightarrow> bool \<times> 's LimitingInputStream" where
  "li_Skip ops count l =
     (if int count > li_limit l
      then (if li_limit l < 0 then (False, l)
            else (False, l\<lparr>li_input := snd (zi_Skip ops (nat (li_limit l)) (li_input l)), li_limit := 0\<rparr>))
      else case zi_Skip ops count (li_input l) of
        (False, s) \<Rightarrow> (False, l\<lparr>li_input := s\<rparr>)
      | (True, s) \<Rightarrow> (True, l\<lparr>li_input := s, li_limit := li_limit l - int count\<rparr>))"

definition li_ByteCount :: "'s zero_copy_input_ops \<Rightarrow> 's LimitingInputStream \<Rightarrow> int" where
  "li_ByteCount ops l =
     (if li_limit l < 0 then zi_ByteCount ops (li_input l) + li_limit l - li_prior_bytes_read l
      else zi_ByteCount ops (li_input l) - li_prior_bytes_read l)"

definition limiting_ops :: "'s zero_copy_input_ops \<Rightarrow> 's LimitingInputStream zero_copy_input_ops" where
  "limiting_ops ops = \<lparr>zi_Next = li_Next ops, zi_BackUp = li_BackUp ops, zi_Skip = li_Skip ops, zi_ByteCount = li_ByteCount ops\<rparr>"

section \<open>What an input stream promises\<close>

text \<open>
  \<open>rest\<close> is what the stream will still deliver, and \<open>last'\<close> ends with the region the last \<open>Next\<close>
  returned, some of which may be given back; \<open>told\<close> says what a stream knows of its end once it has told the client. At its end a stream may answer either way when no byte is to be skipped.
\<close>

locale zero_copy_input =
  fixes ops :: "'s zero_copy_input_ops" and ok :: "'s \<Rightarrow> bool" and rest :: "'s \<Rightarrow> bytes" and last' :: "'s \<Rightarrow> bytes"
    and told :: "'s \<Rightarrow> bool"
  assumes next_region: "ok s \<Longrightarrow> zi_Next ops s = (Some bs, t) \<Longrightarrow>
      ok t \<and> bs \<noteq> [] \<and> rest s = bs @ rest t \<and> (\<exists>earlier. last' t = earlier @ bs) \<and>
      zi_ByteCount ops t = zi_ByteCount ops s + int (length bs)"
    and next_end: "ok s \<Longrightarrow> zi_Next ops s = (None, t) \<Longrightarrow>
      ok t \<and> rest s = [] \<and> rest t = [] \<and> zi_ByteCount ops t = zi_ByteCount ops s \<and> told t"
    and back_up: "ok s \<Longrightarrow> last' s \<noteq> [] \<Longrightarrow> n \<le> length (last' s) \<Longrightarrow>
      \<exists>t. zi_BackUp ops n s = Some t \<and> ok t \<and> rest t = drop (length (last' s) - n) (last' s) @ rest s \<and>
        zi_ByteCount ops t = zi_ByteCount ops s - int n"
    and skip: "ok s \<Longrightarrow> zi_Skip ops n s = (b, t) \<Longrightarrow>
      ok t \<and> rest t = drop n (rest s) \<and> zi_ByteCount ops t = zi_ByteCount ops s + int (min n (length (rest s))) \<and>
      (0 < n \<longrightarrow> b = (n \<le> length (rest s))) \<and> (\<not> b \<longrightarrow> rest t = [])"

text \<open>A client that takes region after region.\<close>

fun read_all :: "'s zero_copy_input_ops \<Rightarrow> nat \<Rightarrow> 's \<Rightarrow> bytes \<times> 's" where
  "read_all ops 0 s = ([], s)"
| "read_all ops (Suc fuel) s =
     (case zi_Next ops s of
        (None, s) \<Rightarrow> ([], s)
      | (Some bs, s) \<Rightarrow> let (bytes, s) = read_all ops fuel s in (bs @ bytes, s))"

context zero_copy_input
begin

lemma read_all_rest:
  assumes "ok s" "length (rest s) < fuel"
  obtains t where "read_all ops fuel s = (rest s, t)" "ok t" "rest t = []"
    "zi_ByteCount ops t = zi_ByteCount ops s + int (length (rest s))"
proof -
  have "\<exists>t. read_all ops fuel s = (rest s, t) \<and> ok t \<and> rest t = [] \<and>
      zi_ByteCount ops t = zi_ByteCount ops s + int (length (rest s))"
    using assms
  proof (induction fuel arbitrary: s)
    case (Suc fuel)
    obtain r t where n: "zi_Next ops s = (r, t)" by force
    show ?case
    proof (cases r)
      case None
      with next_end [OF Suc.prems(1)] n show ?thesis by simp
    next
      case (Some bs)
      note t = next_region [OF Suc.prems(1) n [unfolded Some]]
      then have "length (rest t) < fuel" using Suc.prems(2) by (cases bs) auto
      with Suc.IH t obtain u where "read_all ops fuel t = (rest t, u)" "ok u" "rest u = []"
        "zi_ByteCount ops u = zi_ByteCount ops t + int (length (rest t))" by blast
      with t n Some show ?thesis by simp
    qed
  qed simp
  then show thesis using that by blast
qed

end

context zero_copy_input
begin

lemma skip_read_all:
  assumes "ok s" "length (rest s) < fuel" "zi_Skip ops n s = (b, t)"
  obtains u where "read_all ops fuel t = (drop n (rest s), u)" "zi_ByteCount ops u = zi_ByteCount ops s + int (length (rest s))"
proof -
  note t = skip [OF assms(1,3)]
  from t assms(2) have "ok t" "length (rest t) < fuel" by auto
  from read_all_rest [OF this] t that show thesis by (auto simp: min_def split: if_splits)
qed

end

subsection \<open>Arrays\<close>

definition array_rest :: "ArrayInputStream \<Rightarrow> bytes" where
  "array_rest z = drop (i_position z) (i_data z)"

definition array_last :: "ArrayInputStream \<Rightarrow> bytes" where
  "array_last z = take (i_last_returned_size z) (drop (i_position z - i_last_returned_size z) (i_data z))"

interpretation array_input: zero_copy_input array_input_ops array_input_ok array_rest array_last "\<lambda>z. True"
proof unfold_locales
  fix z :: ArrayInputStream and t bs n b
  assume ok: "array_input_ok z"
  show "array_input_ok t \<and> bs \<noteq> [] \<and> array_rest z = bs @ array_rest t \<and> (\<exists>earlier. array_last t = earlier @ bs) \<and>
      zi_ByteCount array_input_ops t = zi_ByteCount array_input_ops z + int (length bs)"
    if "zi_Next array_input_ops z = (Some bs, t)"
  proof -
    let ?n = "min (i_block_size z) (length (i_data z) - i_position z)"
    have t: "i_position z < length (i_data z)" "bs = take ?n (drop (i_position z) (i_data z))"
      "t = z\<lparr>i_last_returned_size := ?n, i_position := i_position z + ?n\<rparr>"
      using that by (auto simp: array_input_ops_def array_input_Next_def in_Next_def Let_def split: if_splits)
    have "drop (i_position z) (i_data z) = take ?n (drop (i_position z) (i_data z)) @ drop (i_position z + ?n) (i_data z)"
      using append_take_drop_id [of ?n "drop (i_position z) (i_data z)"] by (simp only: drop_drop add.commute)
    moreover have "0 < ?n" using t(1) ok by (auto simp: array_input_ok_def)
    ultimately show ?thesis using ok t
      by (auto simp: array_input_ok_def array_rest_def array_last_def array_input_ops_def in_ByteCount_def)
  qed
  show "array_input_ok t \<and> array_rest z = [] \<and> array_rest t = [] \<and> zi_ByteCount array_input_ops t = zi_ByteCount array_input_ops z \<and> True"
    if "zi_Next array_input_ops z = (None, t)"
    using that ok
    by (auto simp: array_input_ops_def array_input_Next_def in_Next_def Let_def array_input_ok_def array_rest_def in_ByteCount_def split: if_splits)
  show "\<exists>t. zi_BackUp array_input_ops n z = Some t \<and> array_input_ok t \<and>
      array_rest t = drop (length (array_last z) - n) (array_last z) @ array_rest z \<and>
      zi_ByteCount array_input_ops t = zi_ByteCount array_input_ops z - int n"
    if "array_last z \<noteq> []" "n \<le> length (array_last z)"
  proof -
    have l: "length (array_last z) = i_last_returned_size z" using ok by (auto simp: array_last_def array_input_ok_def)
    have n: "0 < i_last_returned_size z" "n \<le> i_last_returned_size z"
      using that unfolding l [symmetric] by simp_all
    have p: "i_last_returned_size z \<le> i_position z" using ok by (simp add: array_input_ok_def)
    have "drop (i_last_returned_size z - n) (array_last z) = take n (drop (i_position z - n) (i_data z))"
      using n p by (simp add: array_last_def drop_take)
    moreover have "drop n (drop (i_position z - n) (i_data z)) = drop (i_position z) (i_data z)" using n p by simp
    ultimately have "drop (i_position z - n) (i_data z) = drop (i_last_returned_size z - n) (array_last z) @ drop (i_position z) (i_data z)"
      using append_take_drop_id [of n "drop (i_position z - n) (i_data z)"] by (simp only:)
    then show ?thesis using n ok l
      by (auto simp: array_input_ops_def in_BackUp_def array_input_ok_def array_rest_def in_ByteCount_def)
  qed
  show "array_input_ok t \<and> array_rest t = drop n (array_rest z) \<and>
      zi_ByteCount array_input_ops t = zi_ByteCount array_input_ops z + int (min n (length (array_rest z))) \<and>
      (0 < n \<longrightarrow> b = (n \<le> length (array_rest z))) \<and> (\<not> b \<longrightarrow> array_rest t = [])"
    if "zi_Skip array_input_ops n z = (b, t)"
    using that ok
    by (auto simp: array_input_ops_def in_Skip_def array_input_ok_def array_rest_def in_ByteCount_def Let_def add.commute split: if_splits)
qed

subsection \<open>The first bytes\<close>

text \<open>The hidden bytes are the end of the region below that lies beyond the limit.\<close>

context zero_copy_input
begin

definition limited_ok :: "'s LimitingInputStream \<Rightarrow> bool" where
  "limited_ok l \<longleftrightarrow> ok (li_input l) \<and> (li_limit l < 0 \<longrightarrow> nat (- li_limit l) \<le> length (last' (li_input l)))"

definition limited_rest :: "'s LimitingInputStream \<Rightarrow> bytes" where
  "limited_rest l = take (nat (li_limit l)) (rest (li_input l))"

definition limited_told :: "'s LimitingInputStream \<Rightarrow> bool" where
  "limited_told l \<longleftrightarrow> li_limit l \<le> 0 \<or> told (li_input l)"

definition limited_last :: "'s LimitingInputStream \<Rightarrow> bytes" where
  "limited_last l = take (length (last' (li_input l)) - nat (- li_limit l)) (last' (li_input l))"

lemma limited_Next:
  assumes "limited_ok l" "li_Next ops l = (Some bs, k)"
  shows "limited_ok k" "bs \<noteq> []" "limited_rest l = bs @ limited_rest k" "\<exists>earlier. limited_last k = earlier @ bs"
    "li_ByteCount ops k = li_ByteCount ops l + int (length bs)"
proof -
  have pos: "0 < li_limit l" using assms(2) by (auto simp: li_Next_def split: if_splits)
  obtain cs t where n: "zi_Next ops (li_input l) = (Some cs, t)"
    using assms(2) pos by (auto simp: li_Next_def split: prod.splits option.splits)
  define limit where "limit = li_limit l - int (length cs)"
  have r: "bs = (if limit < 0 then take (nat (int (length cs) + limit)) cs else cs)" "k = l\<lparr>li_input := t, li_limit := limit\<rparr>"
    using assms(2) pos n by (auto simp: li_Next_def limit_def Let_def)
  have t: "ok t" "cs \<noteq> []" "rest (li_input l) = cs @ rest t" "zi_ByteCount ops t = zi_ByteCount ops (li_input l) + int (length cs)"
    using next_region [OF _ n] assms(1) by (auto simp: limited_ok_def)
  obtain earlier where e: "last' t = earlier @ cs" using next_region [OF _ n] assms(1) by (auto simp: limited_ok_def)
  show "limited_ok k" using t(1) e pos by (auto simp: limited_ok_def r(2) limit_def)
  show "bs \<noteq> []" using t(2) pos by (auto simp: r(1) limit_def)
  show "limited_rest l = bs @ limited_rest k"
    using t(3) pos by (auto simp: limited_rest_def r limit_def nat_diff_distrib)
  have "limited_last k = earlier @ bs"
    using e pos by (auto simp: limited_last_def r limit_def nat_diff_distrib)
  then show "\<exists>earlier. limited_last k = earlier @ bs" by blast
  show "li_ByteCount ops k = li_ByteCount ops l + int (length bs)"
    using t(4) pos by (auto simp: li_ByteCount_def r limit_def)
qed

lemma limited_Next_end:
  assumes "limited_ok l" "li_Next ops l = (None, k)"
  shows "limited_ok k \<and> limited_rest l = [] \<and> limited_rest k = [] \<and> li_ByteCount ops k = li_ByteCount ops l \<and> limited_told k"
proof (cases "li_limit l \<le> 0")
  case True
  then show ?thesis using assms by (auto simp: li_Next_def limited_rest_def limited_told_def)
next
  case False
  then obtain t where n: "zi_Next ops (li_input l) = (None, t)" "k = l\<lparr>li_input := t\<rparr>"
    using assms(2) by (auto simp: li_Next_def Let_def split: prod.splits option.splits)
  then show ?thesis using next_end [OF _ n(1)] assms(1) False
    by (auto simp: limited_ok_def limited_rest_def li_ByteCount_def limited_told_def)
qed

lemma limited_BackUp:
  assumes "limited_ok l" "limited_last l \<noteq> []" "n \<le> length (limited_last l)"
  shows "\<exists>k. li_BackUp ops n l = Some k \<and> limited_ok k \<and>
      limited_rest k = drop (length (limited_last l) - n) (limited_last l) @ limited_rest l \<and>
      li_ByteCount ops k = li_ByteCount ops l - int n"
proof -
  let ?last = "last' (li_input l)" and ?hidden = "nat (- li_limit l)"
  have last: "?last \<noteq> []" "n + ?hidden \<le> length ?last"
    using assms by (auto simp: limited_last_def limited_ok_def)
  obtain t where t: "zi_BackUp ops (n + ?hidden) (li_input l) = Some t" "ok t"
    "rest t = drop (length ?last - (n + ?hidden)) ?last @ rest (li_input l)"
    "zi_ByteCount ops t = zi_ByteCount ops (li_input l) - int (n + ?hidden)"
    using back_up [OF _ last] assms(1) by (auto simp: limited_ok_def)
  show ?thesis
  proof (cases "li_limit l < 0")
    case True
    have "limited_rest (l\<lparr>li_input := t, li_limit := int n\<rparr>) = drop (length (limited_last l) - n) (limited_last l) @ limited_rest l"
      using True last(2) t(3) by (simp add: limited_rest_def limited_last_def drop_take add.commute)
    moreover have "nat (int n - li_limit l) = n + ?hidden" using True by linarith
    then have "li_BackUp ops n l = Some (l\<lparr>li_input := t, li_limit := int n\<rparr>)" using True t(1) by (simp add: li_BackUp_def)
    ultimately show ?thesis using True t(2,4) by (auto simp: limited_ok_def li_ByteCount_def)
  next
    case False
    have "limited_rest (l\<lparr>li_input := t, li_limit := li_limit l + int n\<rparr>) = drop (length (limited_last l) - n) (limited_last l) @ limited_rest l"
      using False last(2) t(3) by (simp add: limited_rest_def limited_last_def nat_add_distrib)
    then show ?thesis using False t by (auto simp: li_BackUp_def limited_ok_def li_ByteCount_def)
  qed
qed

lemma limited_Skip:
  assumes "limited_ok l" "li_Skip ops n l = (b, k)"
  shows "limited_ok k \<and> limited_rest k = drop n (limited_rest l) \<and>
      li_ByteCount ops k = li_ByteCount ops l + int (min n (length (limited_rest l))) \<and>
      (0 < n \<longrightarrow> b = (n \<le> length (limited_rest l))) \<and> (\<not> b \<longrightarrow> limited_rest k = [])"
proof -
  have ok: "ok (li_input l)" using assms(1) by (simp add: limited_ok_def)
  consider (beyond) "li_limit l < 0" | (over) "0 \<le> li_limit l" "int n > li_limit l" | (within) "int n \<le> li_limit l"
    by linarith
  then show ?thesis
  proof cases
    case beyond
    then show ?thesis using assms by (simp add: li_Skip_def limited_rest_def)
  next
    case over
    obtain c t where s: "zi_Skip ops (nat (li_limit l)) (li_input l) = (c, t)" by force
    have "b = False" "k = l\<lparr>li_input := t, li_limit := 0\<rparr>" using assms(2) over s by (auto simp: li_Skip_def)
    then show ?thesis using skip [OF ok s] over
      by (auto simp: limited_ok_def limited_rest_def li_ByteCount_def min_def)
  next
    case within
    obtain c t where s: "zi_Skip ops n (li_input l) = (c, t)" by force
    note t = skip [OF ok s]
    have r: "b = c" "k = l\<lparr>li_input := t, li_limit := (if c then li_limit l - int n else li_limit l)\<rparr>"
      using assms(2) within s by (cases c; auto simp: li_Skip_def)+
    show ?thesis
    proof (cases c)
      case True
      then show ?thesis using t within r
        by (auto simp: limited_ok_def limited_rest_def li_ByteCount_def drop_take nat_diff_distrib')
    next
      case False
      then have "length (rest (li_input l)) \<le> n" using t by (metis drop_eq_Nil)
      then show ?thesis using t within r False
        by (auto simp: limited_ok_def limited_rest_def li_ByteCount_def min_def)
    qed
  qed
qed

lemma limiting_is_stream: "zero_copy_input (limiting_ops ops) limited_ok limited_rest limited_last limited_told"
proof (unfold_locales, unfold limiting_ops_def zero_copy_input_ops.simps)
qed (blast dest: limited_Next limited_Next_end limited_Skip intro: limited_BackUp)+

text \<open>What is below and not part of the limited stream stays where it is, and the destructor gives it back.\<close>

definition beyond_limit :: "'s LimitingInputStream \<Rightarrow> bytes" where
  "beyond_limit l = (if li_limit l < 0 then drop (length (last' (li_input l)) - nat (- li_limit l)) (last' (li_input l)) @ rest (li_input l)
     else drop (nat (li_limit l)) (rest (li_input l)))"

lemma destroy_limiting_rest:
  assumes "limited_ok l"
  obtains s where "destroy_limiting ops l = Some s" "ok s" "rest s = limited_rest l @ beyond_limit l"
    "zi_ByteCount ops s = li_ByteCount ops l + li_prior_bytes_read l"
proof (cases "li_limit l < 0")
  case True
  then have "last' (li_input l) \<noteq> []" "nat (- li_limit l) \<le> length (last' (li_input l))" "ok (li_input l)"
    using assms by (auto simp: limited_ok_def)
  from back_up [OF this(3,1,2)] True that show ?thesis
    by (auto simp: destroy_limiting_def beyond_limit_def limited_rest_def li_ByteCount_def)
next
  case False
  with assms that [of "li_input l"] show ?thesis
    by (simp add: destroy_limiting_def beyond_limit_def limited_rest_def limited_ok_def li_ByteCount_def)
qed

lemma beyond_Next:
  assumes "limited_ok l" "li_Next ops l = (r, k)"
  shows "beyond_limit k = beyond_limit l \<and> li_prior_bytes_read k = li_prior_bytes_read l"
proof (cases "li_limit l \<le> 0")
  case True
  then show ?thesis using assms(2) by (simp add: li_Next_def)
next
  case pos: False
  obtain q t where n: "zi_Next ops (li_input l) = (q, t)" by force
  show ?thesis
  proof (cases q)
    case None
    then show ?thesis using next_end [OF _ n [unfolded None]] assms pos n
      by (auto simp: li_Next_def beyond_limit_def limited_ok_def)
  next
    case (Some cs)
    obtain earlier where "rest (li_input l) = cs @ rest t" "last' t = earlier @ cs"
      using next_region [OF _ n [unfolded Some]] assms(1) by (auto simp: limited_ok_def)
    then show ?thesis using assms(2) n Some pos
      by (auto simp: li_Next_def beyond_limit_def Let_def nat_diff_distrib')
  qed
qed

lemma beyond_read_all:
  assumes "limited_ok l" "read_all (limiting_ops ops) fuel l = (bs, k)"
  shows "beyond_limit k = beyond_limit l \<and> li_prior_bytes_read k = li_prior_bytes_read l"
  using assms
proof (induction fuel arbitrary: l bs)
  case (Suc fuel)
  obtain r m where n: "li_Next ops l = (r, m)" by force
  then have next': "zi_Next (limiting_ops ops) l = (r, m)" by (simp add: limiting_ops_def)
  note b = beyond_Next [OF Suc.prems(1) n]
  show ?case
  proof (cases r)
    case None
    with Suc.prems(2) next' b show ?thesis by simp
  next
    case (Some cs)
    obtain ds where "read_all (limiting_ops ops) fuel m = (ds, k)"
      using Suc.prems(2) next' Some by (auto split: prod.splits)
    with Suc.IH limited_Next(1) [OF Suc.prems(1) n [unfolded Some]] b show ?thesis by simp
  qed
qed simp

end

subsection \<open>One after the other\<close>

context zero_copy_input
begin

definition streams_ok :: "'s list \<Rightarrow> bool" where
  "streams_ok ss \<longleftrightarrow> (\<forall>s\<in>set ss. ok s) \<and> (\<forall>s\<in>set (tl ss). zi_ByteCount ops s = 0)"

definition streams_rest :: "'s list \<Rightarrow> bytes" where
  "streams_rest ss = concat (map rest ss)"

definition streams_last :: "'s list \<Rightarrow> bytes" where
  "streams_last ss = (case ss of [] \<Rightarrow> [] | s # _ \<Rightarrow> last' s)"

definition streams_ByteCount :: "'s list \<Rightarrow> int \<Rightarrow> int" where
  "streams_ByteCount ss retired = (case ss of [] \<Rightarrow> retired | s # _ \<Rightarrow> retired + zi_ByteCount ops s)"

lemma streams_simps [simp]:
  "streams_ok []" "streams_ok (s # ss) \<longleftrightarrow> ok s \<and> (\<forall>s\<in>set ss. ok s \<and> zi_ByteCount ops s = 0)"
  "streams_rest [] = []" "streams_rest (s # ss) = rest s @ streams_rest ss"
  "streams_last [] = []" "streams_last (s # ss) = last' s"
  "streams_ByteCount [] retired = retired" "streams_ByteCount (s # ss) retired = retired + zi_ByteCount ops s"
  by (auto simp: streams_ok_def streams_rest_def streams_last_def streams_ByteCount_def)

lemma streams_tl:
  assumes "streams_ok (s # ss)"
  shows "streams_ok ss" "streams_ByteCount ss retired = retired"
  using assms by (cases ss; simp)+

lemma concat_Next_loop:
  assumes "streams_ok ss" "cc_Next_loop ops ss retired = (r, ts, retired')"
  shows "streams_ok ts \<and>
      (case r of
         Some bs \<Rightarrow> bs \<noteq> [] \<and> streams_rest ss = bs @ streams_rest ts \<and> (\<exists>earlier. streams_last ts = earlier @ bs) \<and>
           streams_ByteCount ts retired' = streams_ByteCount ss retired + int (length bs)
       | None \<Rightarrow> streams_rest ss = [] \<and> ts = [] \<and> streams_ByteCount ts retired' = streams_ByteCount ss retired)"
  using assms
proof (induction ss arbitrary: retired)
  case (Cons s ss)
  obtain q t where n: "zi_Next ops s = (q, t)" by force
  have ok: "ok s" using Cons.prems(1) by simp
  show ?case
  proof (cases q)
    case None
    note t = next_end [OF ok n [unfolded None]]
    have "cc_Next_loop ops ss (retired + zi_ByteCount ops t) = (r, ts, retired')" using Cons.prems(2) n None by simp
    from Cons.IH [OF streams_tl(1) [OF Cons.prems(1)] this] show ?thesis
      using t by (auto simp: streams_tl(2) [OF Cons.prems(1)] split: option.splits)
  next
    case (Some bs)
    then show ?thesis using next_region [OF ok n [unfolded Some]] Cons.prems n by auto
  qed
qed simp

lemma concat_Skip_loop:
  assumes "streams_ok ss" "cc_Skip_loop ops (int n) ss retired = (b, ts, retired')"
  shows "streams_ok ts \<and> streams_rest ts = drop n (streams_rest ss) \<and>
      streams_ByteCount ts retired' = streams_ByteCount ss retired + int (min n (length (streams_rest ss))) \<and>
      (0 < n \<longrightarrow> b = (n \<le> length (streams_rest ss))) \<and> (\<not> b \<longrightarrow> streams_rest ts = [])"
  using assms
proof (induction ss arbitrary: n retired)
  case (Cons s ss)
  obtain c t where s: "zi_Skip ops n s = (c, t)" by force
  have ok: "ok s" using Cons.prems(1) by simp
  note t = skip [OF ok s]
  show ?case
  proof (cases c)
    case True
    then have r: "b" "ts = t # ss" "retired' = retired" using Cons.prems(2) s by auto
    have "n \<le> length (rest s)" using t True by auto
    then show ?thesis using t r Cons.prems(1) by auto
  next
    case False
    then have short: "length (rest s) \<le> n" using t by (metis drop_eq_Nil)
    have "zi_ByteCount ops s + int n - zi_ByteCount ops t = int (n - length (rest s))" using t short by simp
    then have "cc_Skip_loop ops (int (n - length (rest s))) ss (retired + zi_ByteCount ops t) = (b, ts, retired')"
      using Cons.prems(2) s False by (simp add: Let_def)
    from Cons.IH [OF streams_tl(1) [OF Cons.prems(1)] this] show ?thesis
      using t short False by (auto simp: streams_tl(2) [OF Cons.prems(1)])
  qed
qed simp

definition concat_ok :: "'s ConcatenatingInputStream \<Rightarrow> bool" where
  "concat_ok c = streams_ok (cc_streams c)"

definition concat_rest :: "'s ConcatenatingInputStream \<Rightarrow> bytes" where
  "concat_rest c = streams_rest (cc_streams c)"

definition concat_last :: "'s ConcatenatingInputStream \<Rightarrow> bytes" where
  "concat_last c = streams_last (cc_streams c)"

lemma concat_ByteCount: "cc_ByteCount ops c = streams_ByteCount (cc_streams c) (cc_bytes_retired c)"
  by (simp add: cc_ByteCount_def streams_ByteCount_def)

lemmas concat_defs = concat_ok_def concat_rest_def concat_last_def concat_ByteCount

lemma concat_Next:
  assumes "concat_ok c" "cc_Next ops c = (r, d)"
  shows "concat_ok d \<and>
      (case r of
         Some bs \<Rightarrow> bs \<noteq> [] \<and> concat_rest c = bs @ concat_rest d \<and> (\<exists>earlier. concat_last d = earlier @ bs) \<and>
           cc_ByteCount ops d = cc_ByteCount ops c + int (length bs)
       | None \<Rightarrow> concat_rest c = [] \<and> concat_rest d = [] \<and> cc_ByteCount ops d = cc_ByteCount ops c \<and> cc_streams d = [])"
proof -
  obtain ts retired' where l: "cc_Next_loop ops (cc_streams c) (cc_bytes_retired c) = (r, ts, retired')"
    "d = \<lparr>cc_streams = ts, cc_bytes_retired = retired'\<rparr>"
    using assms(2) by (auto simp: cc_Next_def split: prod.splits)
  from concat_Next_loop [OF _ l(1)] assms(1) show ?thesis
    by (auto simp: concat_defs l(2) split: option.splits)
qed

lemma concat_BackUp:
  assumes "concat_ok c" "concat_last c \<noteq> []" "n \<le> length (concat_last c)"
  shows "\<exists>d. cc_BackUp ops n c = Some d \<and> concat_ok d \<and>
      concat_rest d = drop (length (concat_last c) - n) (concat_last c) @ concat_rest c \<and>
      cc_ByteCount ops d = cc_ByteCount ops c - int n"
proof (cases "cc_streams c")
  case (Cons s ss)
  then have "ok s" "last' s \<noteq> []" "n \<le> length (last' s)" using assms by (simp_all add: concat_defs)
  from back_up [OF this] Cons assms(1) show ?thesis by (auto simp: concat_defs cc_BackUp_def)
qed (use assms in \<open>simp add: concat_defs\<close>)

lemma concat_Skip:
  assumes "concat_ok c" "cc_Skip ops n c = (b, d)"
  shows "concat_ok d \<and> concat_rest d = drop n (concat_rest c) \<and>
      cc_ByteCount ops d = cc_ByteCount ops c + int (min n (length (concat_rest c))) \<and>
      (0 < n \<longrightarrow> b = (n \<le> length (concat_rest c))) \<and> (\<not> b \<longrightarrow> concat_rest d = [])"
proof -
  obtain ts retired' where l: "cc_Skip_loop ops (int n) (cc_streams c) (cc_bytes_retired c) = (b, ts, retired')"
    "d = \<lparr>cc_streams = ts, cc_bytes_retired = retired'\<rparr>"
    using assms(2) by (auto simp: cc_Skip_def split: prod.splits)
  from concat_Skip_loop [OF _ l(1)] assms(1) show ?thesis by (auto simp: concat_defs l(2))
qed

lemma concatenating_is_stream: "zero_copy_input (concatenating_ops ops) concat_ok concat_rest concat_last (\<lambda>c. cc_streams c = [])"
proof (unfold_locales, unfold concatenating_ops_def zero_copy_input_ops.simps)
qed (auto dest: concat_Next concat_Skip intro: concat_BackUp)

end

subsection \<open>Copying streams\<close>

text \<open>A stream that has no errors: \<open>content\<close> is what it holds, \<open>ended\<close> what it remembers when it has read to its end.\<close>

locale copying_reader =
  fixes Read :: "nat \<Rightarrow> 'c \<Rightarrow> bytes option \<times> 'c" and sound :: "'c \<Rightarrow> bool" and content :: "'c \<Rightarrow> bytes" and ended :: "'c \<Rightarrow> bool"
  assumes read_some: "sound c \<Longrightarrow> 0 < n \<Longrightarrow> \<exists>bs d. Read n c = (Some bs, d) \<and> sound d \<and> content c = bs @ content d \<and>
      length bs \<le> n \<and> (bs = [] \<longrightarrow> content c = [] \<and> ended d)"
begin

lemma Skip_loop_content:
  assumes "sound c"
  shows "\<exists>d. copying_Skip_loop Read count skipped c = (skipped + min (count - skipped) (length (content c)), d) \<and>
    sound d \<and> content d = drop (count - skipped) (content c)"
  using assms
proof (induction "count - skipped" arbitrary: skipped c rule: less_induct)
  case less
  show ?case
  proof (cases "skipped < count")
    case True
    obtain bs d where r: "Read (min (count - skipped) 4096) c = (Some bs, d)" "sound d" "content c = bs @ content d"
      "length bs \<le> count - skipped" "bs = [] \<longrightarrow> content c = []"
      using read_some [OF less.prems, of "min (count - skipped) 4096"] True by auto
    show ?thesis
    proof (cases "bs = []")
      case True
      then show ?thesis using r \<open>skipped < count\<close> by (simp add: copying_Skip_loop.simps)
    next
      case False
      then have "count - (skipped + length bs) < count - skipped" using True by (cases bs) auto
      from less.hyps [OF this r(2)] show ?thesis
        using r False True by (auto simp: copying_Skip_loop.simps [of Read count skipped])
    qed
  next
    case False
    then show ?thesis using less.prems by (simp add: copying_Skip_loop.simps)
  qed
qed

lemma copying_Skip_content:
  assumes "sound c"
  shows "\<exists>d. copying_Skip Read n c = (min n (length (content c)), d) \<and> sound d \<and> content d = drop n (content c)"
  using Skip_loop_content [OF assms, of n 0] by (simp add: copying_Skip_def)

end

locale copying_input = copying_reader "ci_Read ops" sound content ended
  for ops :: "'c copying_input_ops" and sound content ended +
  assumes skip_some: "sound c \<Longrightarrow> \<exists>d. ci_Skip ops n c = (min n (length (content c)), d) \<and> sound d \<and> content d = drop n (content c)"
begin

definition adaptor_ok :: "'c CopyingInputStreamAdaptor \<Rightarrow> bool" where
  "adaptor_ok a \<longleftrightarrow> \<not> ci_failed a \<and> sound (ci_copying_stream a) \<and> 0 < ci_buffer_size a \<and> ci_backup_bytes a \<le> ci_buffer_used a"

definition backed_up :: "'c CopyingInputStreamAdaptor \<Rightarrow> bytes" where
  "backed_up a = (case ci_buffer a of None \<Rightarrow> [] | Some bs \<Rightarrow> drop (length bs - ci_backup_bytes a) bs)"

definition adaptor_rest :: "'c CopyingInputStreamAdaptor \<Rightarrow> bytes" where
  "adaptor_rest a = backed_up a @ content (ci_copying_stream a)"

definition adaptor_last :: "'c CopyingInputStreamAdaptor \<Rightarrow> bytes" where
  "adaptor_last a = (if ci_backup_bytes a = 0 then (case ci_buffer a of None \<Rightarrow> [] | Some bs \<Rightarrow> bs) else [])"

lemmas adaptor_defs = adaptor_ok_def adaptor_rest_def adaptor_last_def backed_up_def adaptor_ByteCount_def ci_buffer_used_def

lemma adaptor_Next:
  assumes "adaptor_ok a" "adaptor_Next ops a = (r, b)"
  shows "adaptor_ok b \<and>
      (case r of
         Some bs \<Rightarrow> bs \<noteq> [] \<and> adaptor_rest a = bs @ adaptor_rest b \<and> (\<exists>earlier. adaptor_last b = earlier @ bs) \<and>
           adaptor_ByteCount b = adaptor_ByteCount a + int (length bs)
       | None \<Rightarrow> adaptor_rest a = [] \<and> adaptor_rest b = [] \<and> adaptor_ByteCount b = adaptor_ByteCount a \<and> ended (ci_copying_stream b))"
proof (cases "ci_backup_bytes a > 0")
  case True
  then obtain buf where buf: "ci_buffer a = Some buf" using assms(1) by (auto simp: adaptor_defs split: option.splits)
  then have le: "ci_backup_bytes a \<le> length buf" using assms(1) by (simp add: adaptor_defs)
  have r: "r = Some (drop (length buf - ci_backup_bytes a) buf)" "b = a\<lparr>ci_backup_bytes := 0\<rparr>"
    using assms True buf by (auto simp: adaptor_Next_def AllocateBufferIfNeeded_def adaptor_defs)
  have "\<exists>earlier. buf = earlier @ drop (length buf - ci_backup_bytes a) buf"
    by (metis append_take_drop_id)
  moreover have last_b: "adaptor_last b = buf" by (simp add: r(2) adaptor_last_def buf)
  moreover have "drop (length buf - ci_backup_bytes a) buf \<noteq> []" "adaptor_ok b"
    "adaptor_rest a = drop (length buf - ci_backup_bytes a) buf @ adaptor_rest b"
    "adaptor_ByteCount b = adaptor_ByteCount a + int (length (drop (length buf - ci_backup_bytes a) buf))"
    using assms(1) True buf le by (auto simp: r(2) adaptor_defs)
  ultimately show ?thesis unfolding r(1) option.case last_b by blast
next
  case False
  define a' where "a' = AllocateBufferIfNeeded a"
  have a': "ci_backup_bytes a' = 0" "ci_buffer_size a' = ci_buffer_size a" "ci_copying_stream a' = ci_copying_stream a"
    "ci_position a' = ci_position a" "ci_failed a' = ci_failed a"
    using False by (simp_all add: a'_def AllocateBufferIfNeeded_def)
  obtain bs d where d: "ci_Read ops (ci_buffer_size a) (ci_copying_stream a) = (Some bs, d)" "sound d"
    "content (ci_copying_stream a) = bs @ content d" "bs = [] \<longrightarrow> content (ci_copying_stream a) = [] \<and> ended d"
    using read_some [of "ci_copying_stream a" "ci_buffer_size a"] assms(1) by (auto simp: adaptor_ok_def)
  have rest_a: "adaptor_rest a = content (ci_copying_stream a)" using False by (simp add: adaptor_defs split: option.splits)
  have n: "adaptor_Next ops a = (if bs = [] then (None, FreeBuffer (a'\<lparr>ci_copying_stream := d\<rparr>))
      else (Some bs, a'\<lparr>ci_copying_stream := d, ci_buffer := Some bs, ci_position := ci_position a' + int (length bs)\<rparr>))"
    using assms(1) d(1) a' by (simp add: adaptor_Next_def adaptor_ok_def Let_def flip: a'_def)
  show ?thesis
  proof (cases "bs = []")
    case True
    then have "r = None" "b = FreeBuffer (a'\<lparr>ci_copying_stream := d\<rparr>)" using n assms(2) by auto
    then show ?thesis using True assms(1) d a' rest_a False by (auto simp: adaptor_defs FreeBuffer_def)
  next
    case nonempty: False
    then have "r = Some bs" "b = a'\<lparr>ci_copying_stream := d, ci_buffer := Some bs, ci_position := ci_position a' + int (length bs)\<rparr>"
      using n assms(2) by auto
    then show ?thesis using nonempty assms(1) d a' rest_a False by (auto simp: adaptor_defs)
  qed
qed

lemma adaptor_BackUp:
  assumes "adaptor_ok a" "adaptor_last a \<noteq> []" "n \<le> length (adaptor_last a)"
  shows "\<exists>b. adaptor_BackUp n a = Some b \<and> adaptor_ok b \<and>
      adaptor_rest b = drop (length (adaptor_last a) - n) (adaptor_last a) @ adaptor_rest a \<and>
      adaptor_ByteCount b = adaptor_ByteCount a - int n"
  using assms by (auto simp: adaptor_defs adaptor_BackUp_def split: if_splits option.splits)

lemma adaptor_Skip:
  assumes "adaptor_ok a" "adaptor_Skip ops n a = (r, b)"
  shows "adaptor_ok b \<and> adaptor_rest b = drop n (adaptor_rest a) \<and>
      adaptor_ByteCount b = adaptor_ByteCount a + int (min n (length (adaptor_rest a))) \<and>
      (0 < n \<longrightarrow> r = (n \<le> length (adaptor_rest a))) \<and> (\<not> r \<longrightarrow> adaptor_rest b = [])"
proof -
  have len: "length (backed_up a) = ci_backup_bytes a" using assms(1) by (auto simp: adaptor_defs split: option.splits)
  show ?thesis
  proof (cases "n \<le> ci_backup_bytes a")
    case True
    then have "r" "b = a\<lparr>ci_backup_bytes := ci_backup_bytes a - n\<rparr>"
      using assms by (auto simp: adaptor_Skip_def adaptor_ok_def)
    moreover have "backed_up (a\<lparr>ci_backup_bytes := ci_backup_bytes a - n\<rparr>) = drop n (backed_up a)"
      using True assms(1) by (auto simp: backed_up_def adaptor_ok_def ci_buffer_used_def add.commute split: option.splits)
    ultimately show ?thesis using True len assms(1)
      by (auto simp: adaptor_rest_def adaptor_ok_def adaptor_ByteCount_def ci_buffer_used_def)
  next
    case False
    let ?m = "n - ci_backup_bytes a" and ?c = "ci_copying_stream a"
    obtain d where d: "ci_Skip ops ?m ?c = (min ?m (length (content ?c)), d)" "sound d" "content d = drop ?m (content ?c)"
      using skip_some [of ?c ?m] assms(1) by (auto simp: adaptor_ok_def)
    have "r = (min ?m (length (content ?c)) = ?m)"
      "b = a\<lparr>ci_backup_bytes := 0, ci_copying_stream := d, ci_position := ci_position a + int (min ?m (length (content ?c)))\<rparr>"
      using assms d(1) False by (auto simp: adaptor_Skip_def adaptor_ok_def Let_def)
    moreover have "backed_up (a\<lparr>ci_backup_bytes := 0, ci_copying_stream := d, ci_position := p\<rparr>) = []" for p
      by (simp add: backed_up_def split: option.splits)
    ultimately show ?thesis using False d(2,3) len assms(1)
      by (auto simp: adaptor_rest_def adaptor_ok_def adaptor_ByteCount_def ci_buffer_used_def)
  qed
qed

lemma adaptor_is_stream: "zero_copy_input (adaptor_ops ops) adaptor_ok adaptor_rest adaptor_last (\<lambda>a. ended (ci_copying_stream a))"
proof (unfold_locales, unfold adaptor_ops_def zero_copy_input_ops.simps)
qed (auto dest: adaptor_Next adaptor_Skip intro: adaptor_BackUp)

lemma adaptor_start:
  assumes "sound c"
  shows "adaptor_ok (CopyingInputStreamAdaptor0 c n)" "adaptor_rest (CopyingInputStreamAdaptor0 c n) = content c"
    "adaptor_ByteCount (CopyingInputStreamAdaptor0 c n) = 0"
  using assms by (auto simp: CopyingInputStreamAdaptor0_def adaptor_defs kDefaultBlockSize_def)

lemma adaptor_skip_read:
  assumes "sound c" "length (content c) < fuel"
  shows "\<exists>a b. adaptor_Skip ops n (CopyingInputStreamAdaptor0 c k) = (n \<le> length (content c), a) \<and>
    read_all (adaptor_ops ops) fuel a = (drop n (content c), b) \<and> adaptor_ByteCount b = int (length (content c))"
proof -
  let ?z = "CopyingInputStreamAdaptor0 c k"
  note z = adaptor_start [OF assms(1), of k]
  obtain r a where a: "adaptor_Skip ops n ?z = (r, a)" by force
  have zero: "r" if "n = 0" using a that by (simp add: adaptor_Skip_def CopyingInputStreamAdaptor0_def)
  with adaptor_Skip [OF z(1) a] have "r = (n \<le> length (content c))" unfolding z(2) by (cases "n = 0") simp_all
  moreover have "zi_Skip (adaptor_ops ops) n ?z = (r, a)" using a by (simp add: adaptor_ops_def)
  from zero_copy_input.skip_read_all [OF adaptor_is_stream z(1) _ this, of fuel] obtain b where
    "read_all (adaptor_ops ops) fuel a = (drop n (content c), b)" "adaptor_ByteCount b = int (length (content c))"
    using assms(2) z(2,3) by (auto simp: adaptor_ops_def)
  ultimately show ?thesis using a by blast
qed

end

section \<open>The streams of the library\<close>

definition istream_sound :: "istream \<Rightarrow> bool" where
  "istream_sound s \<longleftrightarrow> (is_fail s \<or> is_eof s \<longrightarrow> is_eof s \<and> is_data s = [])"

lemma istream_reader: "copying_reader istream_Read istream_sound is_data is_eof"
  by unfold_locales (auto simp: istream_Read_def istream_read_def istream_sound_def Let_def)

interpretation std_istream: copying_input istream_ops istream_sound is_data is_eof
  using istream_reader copying_reader.copying_Skip_content [OF istream_reader]
  by (simp add: copying_input_def copying_input_axioms_def istream_ops_def)

text \<open>A file is read to its end without an error, interruptions aside.\<close>

fun answers_content :: "read_answer list \<Rightarrow> bytes" where
  "answers_content [] = []"
| "answers_content (GotBytes bs # as) = bs @ answers_content as"
| "answers_content (GotErrno e # as) = answers_content as"

fun read_ok :: "read_answer \<Rightarrow> bool" where
  "read_ok (GotBytes bs) \<longleftrightarrow> bs \<noteq> []"
| "read_ok (GotErrno e) \<longleftrightarrow> e = EINTR"

definition file_sound :: "CopyingFileInputStream \<Rightarrow> bool" where
  "file_sound f \<longleftrightarrow> \<not> fi_is_closed f \<and> fi_errno f = 0 \<and> (\<forall>a\<in>set (fi_answers f). read_ok a)"

lemma read_no_eintr_sound:
  assumes "\<forall>a\<in>set as. read_ok a" "0 < n"
  shows "\<exists>bs as'. read_no_eintr n as = (Inr bs, as') \<and> (\<forall>a\<in>set as'. read_ok a) \<and>
    answers_content as = bs @ answers_content as' \<and> length bs \<le> n \<and> (bs = [] \<longrightarrow> answers_content as = [])"
  using assms by (induction n as rule: read_no_eintr.induct) auto

lemma file_reader: "copying_reader fi_Read file_sound (\<lambda>f. answers_content (fi_answers f)) (\<lambda>f. True)"
proof
  fix f :: CopyingFileInputStream and n :: nat
  assume "file_sound f" "0 < n"
  with read_no_eintr_sound [of "fi_answers f" n] show "\<exists>bs d. fi_Read n f = (Some bs, d) \<and> file_sound d \<and>
      answers_content (fi_answers f) = bs @ answers_content (fi_answers d) \<and> length bs \<le> n \<and> (bs = [] \<longrightarrow> answers_content (fi_answers f) = [] \<and> True)"
    by (auto simp: file_sound_def fi_Read_def)
qed

lemma fi_Skip_eq: "fi_Skip n f = copying_Skip fi_Read n (f\<lparr>fi_previous_seek_failed := True\<rparr>)"
  by (simp add: fi_Skip_def lseek_succeeds_def)

interpretation posix_file: copying_input file_ops file_sound "\<lambda>f. answers_content (fi_answers f)" "\<lambda>f. True"
proof -
  have s: "\<exists>d. fi_Skip n f = (min n (length (answers_content (fi_answers f))), d) \<and> file_sound d \<and>
      answers_content (fi_answers d) = drop n (answers_content (fi_answers f))" if "file_sound f" for f n
    using copying_reader.copying_Skip_content [OF file_reader, of "f\<lparr>fi_previous_seek_failed := True\<rparr>" n] that
    by (simp add: fi_Skip_eq file_sound_def)
  show "copying_input file_ops file_sound (\<lambda>f. answers_content (fi_answers f)) (\<lambda>f. True)"
    using file_reader s by (simp add: copying_input_def copying_input_axioms_def file_ops_def)
qed

text \<open>The streams made of them.\<close>

interpretation istream_input: zero_copy_input "adaptor_ops istream_ops" std_istream.adaptor_ok std_istream.adaptor_rest std_istream.adaptor_last
    "\<lambda>a. is_eof (ci_copying_stream a)"
  by (rule std_istream.adaptor_is_stream)

interpretation file_input: zero_copy_input "adaptor_ops file_ops" posix_file.adaptor_ok posix_file.adaptor_rest posix_file.adaptor_last
    "\<lambda>a. True"
  by (rule posix_file.adaptor_is_stream)

interpretation arrays_input: zero_copy_input "concatenating_ops array_input_ops" array_input.concat_ok array_input.concat_rest array_input.concat_last
    "\<lambda>c. cc_streams c = []"
  by (rule array_input.concatenating_is_stream)

interpretation limited_arrays: zero_copy_input "limiting_ops (concatenating_ops array_input_ops)"
    arrays_input.limited_ok arrays_input.limited_rest arrays_input.limited_last arrays_input.limited_told
  by (rule arrays_input.limiting_is_stream)

definition arrays :: "(bytes \<times> int) list \<Rightarrow> ArrayInputStream ConcatenatingInputStream" where
  "arrays parts = ConcatenatingInputStream0 (map (\<lambda>(data, block_size). ArrayInputStream0 data block_size) parts)"

lemma arrays_start:
  assumes "\<forall>(data, block_size) \<in> set parts. int (length data) \<le> INT_MAX"
  shows "array_input.concat_ok (arrays parts)" "array_input.concat_rest (arrays parts) = concat (map fst parts)"
    "cc_ByteCount array_input_ops (arrays parts) = 0"
proof -
  have z: "zi_ByteCount array_input_ops (ArrayInputStream0 data b) = 0" "array_rest (ArrayInputStream0 data b) = data" for data b
    by (simp_all add: array_input_ops_def ArrayInputStream0_def in_ByteCount_def array_rest_def)
  show "array_input.concat_ok (arrays parts)" using assms
    by (cases parts) (auto simp: arrays_def ConcatenatingInputStream0_def array_input.concat_ok_def z intro!: ArrayInputStream0_ok)
  show "array_input.concat_rest (arrays parts) = concat (map fst parts)"
    by (simp add: arrays_def ConcatenatingInputStream0_def array_input.concat_rest_def array_input.streams_rest_def z case_prod_beta comp_def)
  show "cc_ByteCount array_input_ops (arrays parts) = 0"
    by (cases parts) (auto simp: arrays_def ConcatenatingInputStream0_def cc_ByteCount_def z)
qed

text \<open>C29: The first \<open>limit\<close> bytes of several arrays, one after the other, are read through a limiting stream over
  a concatenating one exactly, however the arrays are cut into blocks; and when the limiting stream is destroyed, the
  next reader of the arrays finds the bytes behind the limit, those of the block that was cut at the limit included.\<close>

theorem limited_arrays_deliver:
  assumes "\<forall>(data, block_size) \<in> set parts. int (length data) \<le> INT_MAX" "0 \<le> limit" "length (concat (map fst parts)) < fuel"
  shows "\<exists>l s t. read_all (limiting_ops (concatenating_ops array_input_ops)) fuel
        (LimitingInputStream0 (concatenating_ops array_input_ops) (arrays parts) limit) = (take (nat limit) (concat (map fst parts)), l) \<and>
      li_ByteCount (concatenating_ops array_input_ops) l = min limit (int (length (concat (map fst parts)))) \<and>
      destroy_limiting (concatenating_ops array_input_ops) l = Some s \<and>
      read_all (concatenating_ops array_input_ops) fuel s = (drop (nat limit) (concat (map fst parts)), t)"
proof -
  let ?ops = "concatenating_ops array_input_ops" and ?all = "concat (map fst parts)"
  let ?l = "LimitingInputStream0 ?ops (arrays parts) limit"
  note a = arrays_start [OF assms(1)]
  have l: "arrays_input.limited_ok ?l" "arrays_input.limited_rest ?l = take (nat limit) ?all" "li_ByteCount ?ops ?l = 0"
    "arrays_input.beyond_limit ?l = drop (nat limit) ?all"
    using a assms(2)
    by (simp_all add: LimitingInputStream0_def arrays_input.limited_ok_def arrays_input.limited_rest_def
      arrays_input.beyond_limit_def li_ByteCount_def concatenating_ops_def)
  have "length (arrays_input.limited_rest ?l) < fuel" using assms(3) by (simp add: l(2))
  from limited_arrays.read_all_rest [OF l(1) this] obtain k where k:
    "read_all (limiting_ops ?ops) fuel ?l = (take (nat limit) ?all, k)" "arrays_input.limited_ok k" "arrays_input.limited_rest k = []"
    "li_ByteCount ?ops k = int (length (take (nat limit) ?all))"
    unfolding l(2) by (auto simp: limiting_ops_def l(3) [unfolded limiting_ops_def])
  have beyond: "arrays_input.beyond_limit k = drop (nat limit) ?all"
    using arrays_input.beyond_read_all [OF l(1) k(1)] l(4) by simp
  from arrays_input.destroy_limiting_rest [OF k(2)] obtain s where s: "destroy_limiting ?ops k = Some s" "array_input.concat_ok s"
    "array_input.concat_rest s = drop (nat limit) ?all" unfolding k(3) beyond by auto
  have "length (array_input.concat_rest s) < fuel" using assms(3) by (simp add: s(3))
  from arrays_input.read_all_rest [OF s(2) this] obtain t where "read_all ?ops fuel s = (drop (nat limit) ?all, t)"
    unfolding s(3) by auto
  with k(1,4) s(1) assms(2) show ?thesis by (auto simp: min_def)
qed

lemma limited_arrays_deliver_witness:
  "\<exists>l s t. read_all (limiting_ops (concatenating_ops array_input_ops)) 6
        (LimitingInputStream0 (concatenating_ops array_input_ops) (arrays [([1, 2, 3], 2), ([4, 5], -1)]) 4) = ([1, 2, 3, 4], l) \<and>
      destroy_limiting (concatenating_ops array_input_ops) l = Some s \<and>
      read_all (concatenating_ops array_input_ops) 6 s = ([5], t)"
proof -
  have "concat (map fst [([1, 2, 3], 2::int), ([4, 5], -1)]) = [1, 2, 3, 4, 5 :: 8 word]" by simp
  from limited_arrays_deliver [where parts = "[([1, 2, 3], 2), ([4, 5], -1)]" and limit = 4 and fuel = 6, unfolded this]
  show ?thesis by (auto simp del: read_all.simps)
qed

text \<open>Skipping some bytes of a \<open>std::istream\<close> or of a file and reading the rest gives the bytes behind them,
  and the skip says whether there were as many: the buffer of the adaptor and the scratch buffer of the default
  \<open>Skip\<close> lose nothing, and it does not matter that reads are short or interrupted.\<close>

lemma copying_streams_deliver:
  assumes "length (answers_content answers) < fuel" "\<forall>a\<in>set answers. read_ok a"
    "is_data s = answers_content answers" "\<not> is_fail s" "\<not> is_eof s"
  shows "(\<exists>a b. adaptor_Skip istream_ops n (IstreamInputStream0 s block_size) = (n \<le> length (is_data s), a) \<and>
      read_all (adaptor_ops istream_ops) fuel a = (drop n (is_data s), b) \<and> adaptor_ByteCount b = int (length (is_data s))) \<and>
    (\<exists>a b. adaptor_Skip file_ops n (FileInputStream0 answers block_size) = (n \<le> length (answers_content answers), a) \<and>
      read_all (adaptor_ops file_ops) fuel a = (drop n (answers_content answers), b) \<and>
      adaptor_ByteCount b = int (length (answers_content answers)))"
proof
  have "istream_sound s" using assms(4,5) by (simp add: istream_sound_def)
  then show "\<exists>a b. adaptor_Skip istream_ops n (IstreamInputStream0 s block_size) = (n \<le> length (is_data s), a) \<and>
      read_all (adaptor_ops istream_ops) fuel a = (drop n (is_data s), b) \<and> adaptor_ByteCount b = int (length (is_data s))"
    unfolding IstreamInputStream0_def by (rule std_istream.adaptor_skip_read) (simp add: assms(1,3))
  have "file_sound (CopyingFileInputStream0 answers)" using assms(2) by (simp add: file_sound_def CopyingFileInputStream0_def)
  from posix_file.adaptor_skip_read [OF this, of fuel n block_size] assms(1)
  show "\<exists>a b. adaptor_Skip file_ops n (FileInputStream0 answers block_size) = (n \<le> length (answers_content answers), a) \<and>
      read_all (adaptor_ops file_ops) fuel a = (drop n (answers_content answers), b) \<and>
      adaptor_ByteCount b = int (length (answers_content answers))"
    by (simp add: FileInputStream0_def CopyingFileInputStream0_def)
qed

lemma copying_streams_deliver_witness:
  "\<exists>a b. adaptor_Skip file_ops 2 (FileInputStream0 [GotBytes [1], GotErrno EINTR, GotBytes [2, 3, 4]] 2) = (True, a) \<and>
    read_all (adaptor_ops file_ops) 5 a = ([3, 4], b)"
  using copying_streams_deliver [of "[GotBytes [1], GotErrno EINTR, GotBytes [2, 3, 4]]" 5
      "\<lparr>is_data = [1, 2, 3, 4], is_fail = False, is_eof = False\<rparr>" 2 2]
  by auto

text \<open>
  An error is final when \<open>Next\<close> meets it: the adaptor asks the stream below no more. When \<open>Skip\<close> meets it, nobody
  takes note: the skip fails as it does at the end of the stream, and the next \<open>Next\<close> reads on.
\<close>

lemma adaptor_failed:
  assumes "adaptor_Next ops a = (None, b)" "ci_Read ops (ci_buffer_size a) (ci_copying_stream a) = (None, c)"
    "ci_backup_bytes a = 0" "\<not> ci_failed a"
  shows "ci_failed b \<and> adaptor_Next ops b = (None, b) \<and> adaptor_Skip ops n b = (False, b)"
  using assms by (auto simp: adaptor_Next_def adaptor_Skip_def AllocateBufferIfNeeded_def FreeBuffer_def Let_def split: if_splits)

lemma skip_error_forgotten:
  assumes "e \<noteq> EINTR" "bs \<noteq> []" "length bs \<le> kDefaultBlockSize" "0 < n"
  obtains a where "adaptor_Skip file_ops n (FileInputStream0 [GotErrno e, GotBytes bs] 0) = (False, a)"
    "fi_errno (ci_copying_stream a) = e" "fst (adaptor_Next file_ops a) = Some bs"
  using that assms
  by (simp add: adaptor_Skip_def adaptor_Next_def FileInputStream0_def CopyingInputStreamAdaptor0_def CopyingFileInputStream0_def
    file_ops_def fi_Skip_eq copying_Skip_def copying_Skip_loop.simps fi_Read_def AllocateBufferIfNeeded_def kDefaultBlockSize_def)

end
