(* ===== verification/InputStreams.thy ===== *)
theory InputStreams
  imports InputAdaptors
begin

text \<open>
  A pointer to a \<open>ZeroCopyInputStream\<close> is a stream of one of the classes of the library, and a virtual call
  goes to the functions of its class: arrays, standard streams and files, the concatenation of a list of
  these, and one of them up to a limit. \<open>virtual_ops\<close> keeps the contract of \<open>zero_copy_input\<close>, so that what
  \<open>CodedInputStream\<close> does with a stream does not depend on its class.
\<close>

section \<open>Virtual calls\<close>

definition sum_ops :: "'a zero_copy_input_ops \<Rightarrow> 'b zero_copy_input_ops \<Rightarrow> ('a + 'b) zero_copy_input_ops" where
  "sum_ops p q =
     \<lparr>zi_Next = case_sum (\<lambda>x. apsnd Inl (zi_Next p x)) (\<lambda>y. apsnd Inr (zi_Next q y)),
      zi_BackUp = (\<lambda>n. case_sum (\<lambda>x. map_option Inl (zi_BackUp p n x)) (\<lambda>y. map_option Inr (zi_BackUp q n y))),
      zi_Skip = (\<lambda>n. case_sum (\<lambda>x. apsnd Inl (zi_Skip p n x)) (\<lambda>y. apsnd Inr (zi_Skip q n y))),
      zi_ByteCount = case_sum (zi_ByteCount p) (zi_ByteCount q)\<rparr>"

type_synonym plain_stream = "ArrayInputStream + istream CopyingInputStreamAdaptor + CopyingFileInputStream CopyingInputStreamAdaptor"

type_synonym ZeroCopyInputStream = "plain_stream + plain_stream ConcatenatingInputStream + plain_stream LimitingInputStream"

definition plain_ops :: "plain_stream zero_copy_input_ops" where
  "plain_ops = sum_ops array_input_ops (sum_ops (adaptor_ops istream_ops) (adaptor_ops file_ops))"

definition virtual_ops :: "ZeroCopyInputStream zero_copy_input_ops" where
  "virtual_ops = sum_ops plain_ops (sum_ops (concatenating_ops plain_ops) (limiting_ops plain_ops))"

definition ArrayIn :: "ArrayInputStream \<Rightarrow> ZeroCopyInputStream" where
  "ArrayIn z = Inl (Inl z)"

definition IstreamIn :: "istream CopyingInputStreamAdaptor \<Rightarrow> ZeroCopyInputStream" where
  "IstreamIn z = Inl (Inr (Inl z))"

definition FileIn :: "CopyingFileInputStream CopyingInputStreamAdaptor \<Rightarrow> ZeroCopyInputStream" where
  "FileIn z = Inl (Inr (Inr z))"

section \<open>Nothing is handed out for ever\<close>

text \<open>
  \<open>unread\<close> bounds what a stream still has, in any state it can be in: a region that is not empty comes out
  of it. The loops of the decoder end by it.
\<close>

locale shrinking_input =
  fixes ops :: "'s zero_copy_input_ops" and unread :: "'s \<Rightarrow> nat"
  assumes shrinks: "zi_Next ops s = (Some bs, t) \<Longrightarrow> bs \<noteq> [] \<Longrightarrow> unread t < unread s"
begin

lemma concat_shrinks:
  "cc_Next_loop ops ss retired = (Some bs, ts, r) \<Longrightarrow> bs \<noteq> [] \<Longrightarrow> sum_list (map unread ts) < sum_list (map unread ss)"
proof (induction ss arbitrary: retired)
  case (Cons s ss)
  obtain q t where n: "zi_Next ops s = (q, t)" by force
  show ?case
  proof (cases q)
    case None
    with Cons.prems n have "cc_Next_loop ops ss (retired + zi_ByteCount ops t) = (Some bs, ts, r)" by simp
    from Cons.IH [OF this Cons.prems(2)] show ?thesis by simp
  next
    case (Some cs)
    with Cons.prems n shrinks [of s cs t] show ?thesis by auto
  qed
qed simp

lemma concatenating_shrinks: "shrinking_input (concatenating_ops ops) (\<lambda>c. sum_list (map unread (cc_streams c)))"
  by unfold_locales (auto simp: concatenating_ops_def cc_Next_def split: prod.splits dest: concat_shrinks)

lemma limiting_shrinks: "shrinking_input (limiting_ops ops) (\<lambda>l. min (nat (li_limit l)) (unread (li_input l)))"
proof
  fix l bs k
  assume n: "zi_Next (limiting_ops ops) l = (Some bs, k)" and bs: "bs \<noteq> []"
  then obtain cs t where t: "zi_Next ops (li_input l) = (Some cs, t)" "li_input k = t" "cs \<noteq> []"
    "0 < li_limit l" "li_limit k = li_limit l - int (length cs)"
    by (auto simp: limiting_ops_def li_Next_def Let_def split: if_splits prod.splits option.splits)
  have "0 < length cs" using t(3) by simp
  with t(4,5) have "nat (li_limit k) < nat (li_limit l)" by linarith
  moreover have "unread (li_input k) < unread (li_input l)" using shrinks [OF t(1,3)] t(2) by simp
  ultimately show "min (nat (li_limit k)) (unread (li_input k)) < min (nat (li_limit l)) (unread (li_input l))"
    by (auto simp: min_less_iff_disj)
qed

end

lemma sum_shrinks:
  assumes "shrinking_input p u" "shrinking_input q v"
  shows "shrinking_input (sum_ops p q) (case_sum u v)"
  by unfold_locales
    (auto simp: sum_ops_def apsnd_def map_prod_def split: sum.splits prod.splits
      dest: shrinking_input.shrinks [OF assms(1)] shrinking_input.shrinks [OF assms(2)])

definition array_unread :: "ArrayInputStream \<Rightarrow> nat" where
  "array_unread z = length (i_data z) - i_position z"

definition adaptor_unread :: "('c \<Rightarrow> nat) \<Rightarrow> 'c CopyingInputStreamAdaptor \<Rightarrow> nat" where
  "adaptor_unread u a = ci_backup_bytes a + u (ci_copying_stream a)"

lemma adaptor_shrinks:
  assumes "\<And>n c bs d. ci_Read ops n c = (Some bs, d) \<Longrightarrow> bs \<noteq> [] \<Longrightarrow> u d < u c"
  shows "shrinking_input (adaptor_ops ops) (adaptor_unread u)"
  by unfold_locales
    (auto simp: adaptor_ops_def adaptor_Next_def adaptor_unread_def AllocateBufferIfNeeded_def Let_def
      split: if_splits prod.splits option.splits dest: assms)

lemma array_shrinks: "shrinking_input array_input_ops array_unread"
  by unfold_locales
    (auto simp: array_input_ops_def array_input_Next_def in_Next_def array_unread_def Let_def split: if_splits)

lemma istream_shrinks: "ci_Read istream_ops n c = (Some bs, d) \<Longrightarrow> bs \<noteq> [] \<Longrightarrow> length (is_data d) < length (is_data c)"
  by (auto simp: istream_ops_def istream_Read_def istream_read_def Let_def split: if_splits)

lemma read_no_eintr_content:
  "read_no_eintr n as = (Inr bs, as') \<Longrightarrow> answers_content as = bs @ answers_content as'"
  by (induction n as rule: read_no_eintr.induct) (auto split: if_splits)

lemma file_shrinks:
  assumes "ci_Read file_ops n f = (Some bs, g)" "bs \<noteq> []"
  shows "length (answers_content (fi_answers g)) < length (answers_content (fi_answers f))"
  using assms read_no_eintr_content [of n "fi_answers f" bs "fi_answers g"]
  by (auto simp: file_ops_def fi_Read_def split: prod.splits sum.splits)

definition plain_unread :: "plain_stream \<Rightarrow> nat" where
  "plain_unread = case_sum array_unread (case_sum (adaptor_unread (\<lambda>s. length (is_data s)))
     (adaptor_unread (\<lambda>f. length (answers_content (fi_answers f)))))"

definition unread :: "ZeroCopyInputStream \<Rightarrow> nat" where
  "unread = case_sum plain_unread (case_sum (\<lambda>c. sum_list (map plain_unread (cc_streams c))) (\<lambda>l. min (nat (li_limit l)) (plain_unread (li_input l))))"

lemma plain_shrinks: "shrinking_input plain_ops plain_unread"
  unfolding plain_ops_def plain_unread_def
  by (intro sum_shrinks array_shrinks adaptor_shrinks istream_shrinks file_shrinks)

interpretation virtual_shrinks: shrinking_input virtual_ops unread
  unfolding virtual_ops_def unread_def
  by (intro sum_shrinks plain_shrinks shrinking_input.concatenating_shrinks shrinking_input.limiting_shrinks)

section \<open>One contract for all\<close>

lemma sum_calls:
  "zi_Next (sum_ops p q) (Inl x) = (r, t) \<longleftrightarrow> (\<exists>y. zi_Next p x = (r, y) \<and> t = Inl y)"
  "zi_Next (sum_ops p q) (Inr z) = (r, t) \<longleftrightarrow> (\<exists>y. zi_Next q z = (r, y) \<and> t = Inr y)"
  "zi_Skip (sum_ops p q) n (Inl x) = (b, t) \<longleftrightarrow> (\<exists>y. zi_Skip p n x = (b, y) \<and> t = Inl y)"
  "zi_Skip (sum_ops p q) n (Inr z) = (b, t) \<longleftrightarrow> (\<exists>y. zi_Skip q n z = (b, y) \<and> t = Inr y)"
  "zi_ByteCount (sum_ops p q) (Inl x) = zi_ByteCount p x" "zi_ByteCount (sum_ops p q) (Inr z) = zi_ByteCount q z"
  by (auto simp: sum_ops_def apsnd_def map_prod_def split: prod.splits)

lemma sum_is_stream:
  assumes p: "zero_copy_input p ok rest last' told" and q: "zero_copy_input q ok' rest' last'' told'"
  shows "zero_copy_input (sum_ops p q) (case_sum ok ok') (case_sum rest rest') (case_sum last' last'') (case_sum told told')"
proof unfold_locales
  fix s t bs n b
  assume s: "case_sum ok ok' s"
  show "case_sum ok ok' t \<and> bs \<noteq> [] \<and> case_sum rest rest' s = bs @ case_sum rest rest' t \<and>
      (\<exists>earlier. case_sum last' last'' t = earlier @ bs) \<and> zi_ByteCount (sum_ops p q) t = zi_ByteCount (sum_ops p q) s + int (length bs)"
    if n: "zi_Next (sum_ops p q) s = (Some bs, t)"
  proof (cases s)
    case (Inl x)
    then obtain y where "zi_Next p x = (Some bs, y)" "t = Inl y" using n by (auto simp: sum_calls)
    with zero_copy_input.next_region [OF p, of x bs y] s Inl show ?thesis by (simp add: sum_calls)
  next
    case (Inr x)
    then obtain y where "zi_Next q x = (Some bs, y)" "t = Inr y" using n by (auto simp: sum_calls)
    with zero_copy_input.next_region [OF q, of x bs y] s Inr show ?thesis by (simp add: sum_calls)
  qed
  show "case_sum ok ok' t \<and> case_sum rest rest' s = [] \<and> case_sum rest rest' t = [] \<and>
      zi_ByteCount (sum_ops p q) t = zi_ByteCount (sum_ops p q) s \<and> case_sum told told' t"
    if n: "zi_Next (sum_ops p q) s = (None, t)"
  proof (cases s)
    case (Inl x)
    then obtain y where "zi_Next p x = (None, y)" "t = Inl y" using n by (auto simp: sum_calls)
    with zero_copy_input.next_end [OF p, of x y] s Inl show ?thesis by (simp add: sum_calls)
  next
    case (Inr x)
    then obtain y where "zi_Next q x = (None, y)" "t = Inr y" using n by (auto simp: sum_calls)
    with zero_copy_input.next_end [OF q, of x y] s Inr show ?thesis by (simp add: sum_calls)
  qed
  show "\<exists>t. zi_BackUp (sum_ops p q) n s = Some t \<and> case_sum ok ok' t \<and>
      case_sum rest rest' t = drop (length (case_sum last' last'' s) - n) (case_sum last' last'' s) @ case_sum rest rest' s \<and>
      zi_ByteCount (sum_ops p q) t = zi_ByteCount (sum_ops p q) s - int n"
    if n: "case_sum last' last'' s \<noteq> []" "n \<le> length (case_sum last' last'' s)"
  proof (cases s)
    case (Inl x)
    with s n have "ok x" "last' x \<noteq> []" "n \<le> length (last' x)" by simp_all
    from zero_copy_input.back_up [OF p this] Inl show ?thesis by (auto simp: sum_ops_def)
  next
    case (Inr x)
    with s n have "ok' x" "last'' x \<noteq> []" "n \<le> length (last'' x)" by simp_all
    from zero_copy_input.back_up [OF q this] Inr show ?thesis by (auto simp: sum_ops_def)
  qed
  show "case_sum ok ok' t \<and> case_sum rest rest' t = drop n (case_sum rest rest' s) \<and>
      zi_ByteCount (sum_ops p q) t = zi_ByteCount (sum_ops p q) s + int (min n (length (case_sum rest rest' s))) \<and>
      (0 < n \<longrightarrow> b = (n \<le> length (case_sum rest rest' s))) \<and> (\<not> b \<longrightarrow> case_sum rest rest' t = [])"
    if n: "zi_Skip (sum_ops p q) n s = (b, t)"
  proof (cases s)
    case (Inl x)
    then obtain y where "zi_Skip p n x = (b, y)" "t = Inl y" using n by (auto simp: sum_calls)
    with zero_copy_input.skip [OF p, of x n b y] s Inl show ?thesis by (auto simp: sum_calls)
  next
    case (Inr x)
    then obtain y where "zi_Skip q n x = (b, y)" "t = Inr y" using n by (auto simp: sum_calls)
    with zero_copy_input.skip [OF q, of x n b y] s Inr show ?thesis by (auto simp: sum_calls)
  qed
qed

definition plain_ok :: "plain_stream \<Rightarrow> bool" where
  "plain_ok = case_sum array_input_ok (case_sum std_istream.adaptor_ok posix_file.adaptor_ok)"

definition plain_rest :: "plain_stream \<Rightarrow> bytes" where
  "plain_rest = case_sum array_rest (case_sum std_istream.adaptor_rest posix_file.adaptor_rest)"

definition plain_last :: "plain_stream \<Rightarrow> bytes" where
  "plain_last = case_sum array_last (case_sum std_istream.adaptor_last posix_file.adaptor_last)"

definition plain_told :: "plain_stream \<Rightarrow> bool" where
  "plain_told = case_sum (\<lambda>_. True) (case_sum (\<lambda>a. is_eof (ci_copying_stream a)) (\<lambda>_. True))"

interpretation plain: zero_copy_input plain_ops plain_ok plain_rest plain_last plain_told
  unfolding plain_ops_def plain_ok_def plain_rest_def plain_last_def plain_told_def
  by (intro sum_is_stream array_input.zero_copy_input_axioms istream_input.zero_copy_input_axioms file_input.zero_copy_input_axioms)

definition stream_ok :: "ZeroCopyInputStream \<Rightarrow> bool" where
  "stream_ok = case_sum plain_ok (case_sum plain.concat_ok plain.limited_ok)"

definition stream_rest :: "ZeroCopyInputStream \<Rightarrow> bytes" where
  "stream_rest = case_sum plain_rest (case_sum plain.concat_rest plain.limited_rest)"

definition stream_last :: "ZeroCopyInputStream \<Rightarrow> bytes" where
  "stream_last = case_sum plain_last (case_sum plain.concat_last plain.limited_last)"

definition stream_told :: "ZeroCopyInputStream \<Rightarrow> bool" where
  "stream_told = case_sum plain_told (case_sum (\<lambda>c. cc_streams c = []) plain.limited_told)"

interpretation virtual_input: zero_copy_input virtual_ops stream_ok stream_rest stream_last stream_told
  unfolding virtual_ops_def stream_ok_def stream_rest_def stream_last_def stream_told_def
  by (intro sum_is_stream plain.zero_copy_input_axioms plain.concatenating_is_stream plain.limiting_is_stream)

lemma adaptor_rest_unread:
  "std_istream.adaptor_ok a \<Longrightarrow> length (std_istream.adaptor_rest a) = adaptor_unread (\<lambda>s. length (is_data s)) a"
  "posix_file.adaptor_ok b \<Longrightarrow> length (posix_file.adaptor_rest b) = adaptor_unread (\<lambda>f. length (answers_content (fi_answers f))) b"
  by (auto simp: adaptor_unread_def std_istream.adaptor_defs posix_file.adaptor_defs split: option.splits)

lemma plain_rest_unread: "plain_ok s \<Longrightarrow> length (plain_rest s) = plain_unread s"
  by (auto simp: plain_ok_def plain_rest_def plain_unread_def array_rest_def array_unread_def adaptor_rest_unread split: sum.splits)

lemma stream_rest_unread: "stream_ok s \<Longrightarrow> length (stream_rest s) = unread s"
  by (auto simp: stream_ok_def stream_rest_def unread_def plain.concat_ok_def plain.concat_rest_def plain.streams_ok_def
    plain.streams_rest_def plain.limited_ok_def plain.limited_rest_def plain_rest_unread length_concat comp_def
    cong: map_cong split: sum.splits)

end
