(* ===== verification/CodedInput.thy ===== *)
theory CodedInput
  imports Varint InputStreams
begin

text \<open>
  \<open>io::CodedInputStream\<close> (\<open>io/coded_stream.h\<close>, \<open>io/coded_stream.cc\<close>) over a flat array, as the message parser
  \<open>ParseFromArray\<close> uses it, and over a \<open>ZeroCopyInputStream\<close> of any class, which hands the bytes out in regions. Over a
  flat array \<open>input_\<close> is \<open>NULL\<close> for the life of the stream. The pointers \<open>cbuffer\<close> and \<open>cbuffer_end\<close> are
  offsets into \<open>cdata\<close>, the array or the last region, and \<open>NULL\<close> is an empty buffer; the other fields keep their names without the
  trailing underscore, which a HOL name cannot have. The ghost flag \<open>null_input\<close> is set where the code
  would call a method of a null \<open>input_\<close>; \<open>flat\<close> is the invariant that keeps it clear. This theory has
  the facts on flat streams; \<open>StreamInput\<close> shows that the regions make no difference.

  A read returns whether it succeeded, the value it stored, and the stream.
\<close>

section \<open>The stream\<close>

record cis =
  cdata :: bytes
  cbuffer :: nat
  cbuffer_end :: nat
  total_bytes_read :: int
  overflow_bytes :: int
  last_tag :: u32
  legitimate_message_end :: bool
  current_limit :: int
  buffer_size_after_limit :: int
  total_bytes_limit :: int
  recursion_budget :: int
  recursion_limit :: int
  null_input :: bool
  cinput :: "ZeroCopyInputStream option"

definition default_recursion_limit :: int where
  "default_recursion_limit = 100"

definition CodedInputStream :: "bytes \<Rightarrow> int \<Rightarrow> cis" where
  "CodedInputStream buffer size' =
     \<lparr>cdata = buffer, cbuffer = 0, cbuffer_end = nat size', total_bytes_read = size',
      overflow_bytes = 0, last_tag = 0, legitimate_message_end = False,
      current_limit = size', buffer_size_after_limit = 0,
      total_bytes_limit = INT_MAX, recursion_budget = default_recursion_limit,
      recursion_limit = default_recursion_limit, null_input = False, cinput = None\<rparr>"

definition BufferSize :: "cis \<Rightarrow> int" where
  "BufferSize s = int (cbuffer_end s) - int (cbuffer s)"

definition Advance :: "nat \<Rightarrow> cis \<Rightarrow> cis" where
  "Advance amount s = s\<lparr>cbuffer := cbuffer s + amount\<rparr>"

text \<open>The bytes from \<open>cbuffer\<close> up to \<open>cbuffer_end\<close>: all a read may look at.\<close>

definition avail :: "cis \<Rightarrow> bytes" where
  "avail s = take (cbuffer_end s - cbuffer s) (drop (cbuffer s) (cdata s))"

definition CurrentPosition :: "cis \<Rightarrow> int" where
  "CurrentPosition s = total_bytes_read s - (BufferSize s + buffer_size_after_limit s)"

section \<open>Limits and the recursion budget\<close>

definition RecomputeBufferLimits :: "cis \<Rightarrow> cis" where
  "RecomputeBufferLimits s =
     (let end' = int (cbuffer_end s) + buffer_size_after_limit s;
          closest_limit = min (current_limit s) (total_bytes_limit s)
      in if closest_limit < total_bytes_read s
         then (let after = total_bytes_read s - closest_limit
               in s\<lparr>buffer_size_after_limit := after, cbuffer_end := nat (end' - after)\<rparr>)
         else s\<lparr>buffer_size_after_limit := 0, cbuffer_end := nat end'\<rparr>)"

definition PushLimit :: "int \<Rightarrow> cis \<Rightarrow> int \<times> cis" where
  "PushLimit byte_limit s =
     (let current_position = CurrentPosition s; old_limit = current_limit s
      in if byte_limit \<ge> 0 \<and> byte_limit \<le> INT_MAX - current_position \<and>
            byte_limit < current_limit s - current_position
         then (old_limit,
               RecomputeBufferLimits (s\<lparr>current_limit := current_position + byte_limit\<rparr>))
         else (old_limit, s))"

definition PopLimit :: "int \<Rightarrow> cis \<Rightarrow> cis" where
  "PopLimit limit s =
     (RecomputeBufferLimits (s\<lparr>current_limit := limit\<rparr>))\<lparr>legitimate_message_end := False\<rparr>"

definition IncrementRecursionDepthAndPushLimit :: "int \<Rightarrow> cis \<Rightarrow> int \<times> int \<times> cis" where
  "IncrementRecursionDepthAndPushLimit byte_limit s =
     (let (old_limit, s) = PushLimit byte_limit s;
          s = s\<lparr>recursion_budget := recursion_budget s - 1\<rparr>
      in (old_limit, recursion_budget s, s))"

definition ConsumedEntireMessage :: "cis \<Rightarrow> bool" where
  "ConsumedEntireMessage s = legitimate_message_end s"

definition DecrementRecursionDepthAndPopLimit :: "int \<Rightarrow> cis \<Rightarrow> bool \<times> cis" where
  "DecrementRecursionDepthAndPopLimit limit s =
     (let result = ConsumedEntireMessage s; s = PopLimit limit s
      in (result, s\<lparr>recursion_budget := recursion_budget s + 1\<rparr>))"

definition IncrementRecursionDepth :: "cis \<Rightarrow> bool \<times> cis" where
  "IncrementRecursionDepth s =
     (let s = s\<lparr>recursion_budget := recursion_budget s - 1\<rparr>
      in (recursion_budget s \<ge> 0, s))"

definition DecrementRecursionDepth :: "cis \<Rightarrow> cis" where
  "DecrementRecursionDepth s =
     (if recursion_budget s < recursion_limit s
      then s\<lparr>recursion_budget := recursion_budget s + 1\<rparr> else s)"

definition BytesUntilLimit :: "cis \<Rightarrow> int" where
  "BytesUntilLimit s =
     (if current_limit s = INT_MAX then -1 else current_limit s - CurrentPosition s)"

section \<open>Refresh, raw bytes and strings\<close>

text \<open>
  \<open>NextNonEmpty\<close> repeats \<open>Next\<close> while it returns empty regions. A stream that is \<open>stream_ok\<close> returns none, so that one
  round is enough; a stream of empty regions would be asked for ever, and ends here.
\<close>

definition NextNonEmpty :: "ZeroCopyInputStream \<Rightarrow> bytes option \<times> ZeroCopyInputStream" where
  "NextNonEmpty z =
     (case zi_Next virtual_ops z of
        (Some bs, z') \<Rightarrow> (if bs = [] then None else Some bs, z')
      | (None, z') \<Rightarrow> (None, z'))"

text \<open>
  \<open>Refresh\<close> stops at a limit; past the limit test it asks \<open>input_\<close> for the next region. A stream longer
  than an \<open>int\<close> can count is cut off at \<open>INT_MAX\<close>.
\<close>

definition new_buffer :: "bytes \<Rightarrow> ZeroCopyInputStream \<Rightarrow> cis \<Rightarrow> cis" where
  "new_buffer void_buffer z s =
     (let buffer_size = length void_buffer;
          s = s\<lparr>cinput := Some z, cdata := void_buffer, cbuffer := 0, cbuffer_end := buffer_size\<rparr>;
          s = (if total_bytes_read s \<le> INT_MAX - int buffer_size
               then s\<lparr>total_bytes_read := total_bytes_read s + int buffer_size\<rparr>
               else let overflow = total_bytes_read s - (INT_MAX - int buffer_size)
                    in s\<lparr>overflow_bytes := overflow, cbuffer_end := nat (int (cbuffer_end s) - overflow),
                         total_bytes_read := INT_MAX\<rparr>)
      in RecomputeBufferLimits s)"

definition Refresh :: "cis \<Rightarrow> bool \<times> cis" where
  "Refresh s =
     (if buffer_size_after_limit s > 0 \<or> overflow_bytes s > 0 \<or>
         total_bytes_read s = current_limit s
      then (False, s)
      else case cinput s of
        None \<Rightarrow> (False, s\<lparr>null_input := True\<rparr>)
      | Some z \<Rightarrow>
          (case NextNonEmpty z of
             (Some void_buffer, z) \<Rightarrow> (True, new_buffer void_buffer z s)
           | (None, z) \<Rightarrow> (False, s\<lparr>cinput := Some z, cbuffer := 0, cbuffer_end := 0\<rparr>)))"

text \<open>The constructor over a stream asks for the first region at once.\<close>

definition CodedInputStream_of :: "ZeroCopyInputStream \<Rightarrow> cis" where
  "CodedInputStream_of input =
     snd (Refresh \<lparr>cdata = [], cbuffer = 0, cbuffer_end = 0, total_bytes_read = 0,
       overflow_bytes = 0, last_tag = 0, legitimate_message_end = False,
       current_limit = INT_MAX, buffer_size_after_limit = 0,
       total_bytes_limit = INT_MAX, recursion_budget = default_recursion_limit,
       recursion_limit = default_recursion_limit, null_input = False, cinput = Some input\<rparr>)"

text \<open>The destructor gives back what was not read.\<close>

definition BackUpInputToCurrentPosition :: "cis \<Rightarrow> cis option" where
  "BackUpInputToCurrentPosition s =
     (case cinput s of
        None \<Rightarrow> Some s
      | Some z \<Rightarrow>
          let backup_bytes = BufferSize s + buffer_size_after_limit s + overflow_bytes s
          in if backup_bytes > 0
             then map_option (\<lambda>z. s\<lparr>cinput := Some z,
                    total_bytes_read := total_bytes_read s - (BufferSize s + buffer_size_after_limit s),
                    cbuffer_end := cbuffer s, buffer_size_after_limit := 0, overflow_bytes := 0\<rparr>)
                  (zi_BackUp virtual_ops (nat backup_bytes) z)
             else Some s)"

text \<open>Every region that \<open>Refresh\<close> gets takes bytes out of \<open>input_\<close>.\<close>

definition unasked :: "cis \<Rightarrow> nat" where
  "unasked s = (case cinput s of None \<Rightarrow> 0 | Some z \<Rightarrow> unread z)"

lemma RecomputeBufferLimits_cinput [simp]: "cinput (RecomputeBufferLimits s) = cinput s"
  by (simp add: RecomputeBufferLimits_def Let_def)

lemma new_buffer_cinput [simp]: "cinput (new_buffer bs z s) = Some z"
  by (simp add: new_buffer_def Let_def)

lemma unasked_Advance [simp]: "unasked (Advance n s) = unasked s"
  by (simp add: unasked_def Advance_def)

lemma Refresh_unasked: "Refresh s = (True, t) \<Longrightarrow> unasked t < unasked s"
  by (auto simp: Refresh_def NextNonEmpty_def unasked_def split: if_splits option.splits prod.splits dest: virtual_shrinks.shrinks)

function FillBuffer :: "cis \<Rightarrow> bool \<times> cis" where
  "FillBuffer s =
     (if cbuffer s = cbuffer_end s
      then (case Refresh s of
              (True, s') \<Rightarrow> FillBuffer s'
            | (False, s') \<Rightarrow> (False, s'))
      else (True, s))"
  by pat_completeness auto
termination
  by (relation "measure unasked") (auto dest: sym Refresh_unasked)

function ReadRaw :: "bytes \<Rightarrow> int \<Rightarrow> cis \<Rightarrow> bool \<times> bytes \<times> cis" where
  "ReadRaw acc size' s =
     (let current_buffer_size = BufferSize s
      in if current_buffer_size < size'
         then (let acc = acc @ take (nat current_buffer_size) (avail s);
                   size' = size' - current_buffer_size;
                   s = Advance (nat current_buffer_size) s
               in case Refresh s of
                    (True, s') \<Rightarrow> ReadRaw acc size' s'
                  | (False, s') \<Rightarrow> (False, acc, s'))
         else (True, acc @ take (nat size') (avail s), Advance (nat size') s))"
  by pat_completeness auto
termination
  by (relation "measure (\<lambda>(acc, size', s). unasked s)") (auto dest!: sym [of "(True, _)"] Refresh_unasked)

declare FillBuffer.simps [simp del] ReadRaw.simps [simp del]

text \<open>
  \<open>ReadStringFallback\<close> clears the string and then appends buffer after buffer, as \<open>ReadRaw\<close>
  does into its array; \<open>reserve\<close> changes only the capacity.
\<close>

definition ReadStringFallback :: "int \<Rightarrow> cis \<Rightarrow> bool \<times> bytes \<times> cis" where
  "ReadStringFallback size' s = ReadRaw [] size' s"

definition InternalReadStringInline :: "bytes \<Rightarrow> int \<Rightarrow> cis \<Rightarrow> bool \<times> bytes \<times> cis" where
  "InternalReadStringInline buffer size' s =
     (if size' < 0 then (False, buffer, s)
      else if BufferSize s \<ge> size'
           then (True, take (nat size') (avail s), Advance (nat size') s)
           else ReadStringFallback size' s)"

definition ReadString :: "bytes \<Rightarrow> int \<Rightarrow> cis \<Rightarrow> bool \<times> bytes \<times> cis" where
  "ReadString buffer size' s =
     (if size' < 0 then (False, buffer, s) else InternalReadStringInline buffer size' s)"

text \<open>\<open>cbuffer = NULL; cbuffer_end = cbuffer\<close> leaves an empty buffer.\<close>

definition input_Skip :: "int \<Rightarrow> cis \<Rightarrow> bool \<times> cis" where
  "input_Skip count s =
     (case cinput s of
        None \<Rightarrow> (False, s\<lparr>null_input := True\<rparr>)
      | Some z \<Rightarrow> (let (ok, z) = zi_Skip virtual_ops (nat count) z in (ok, s\<lparr>cinput := Some z\<rparr>)))"

definition SkipFallback :: "int \<Rightarrow> int \<Rightarrow> cis \<Rightarrow> bool \<times> cis" where
  "SkipFallback count original_buffer_size s =
     (if buffer_size_after_limit s > 0
      then (False, Advance (nat original_buffer_size) s)
      else
        let count = count - original_buffer_size;
            s = s\<lparr>cbuffer := cbuffer_end s\<rparr>;
            closest_limit = min (current_limit s) (total_bytes_limit s);
            bytes_until_limit = closest_limit - total_bytes_read s
        in if bytes_until_limit < count
           then (False, if bytes_until_limit > 0
                        then snd (input_Skip bytes_until_limit (s\<lparr>total_bytes_read := closest_limit\<rparr>)) else s)
           else input_Skip count (s\<lparr>total_bytes_read := total_bytes_read s + count\<rparr>))"

definition Skip :: "int \<Rightarrow> cis \<Rightarrow> bool \<times> cis" where
  "Skip count s =
     (if count < 0 then (False, s)
      else let original_buffer_size = BufferSize s
           in if count \<le> original_buffer_size then (True, Advance (nat count) s)
              else SkipFallback count original_buffer_size s)"

section \<open>Integers and tags\<close>

text \<open>
  Ten bytes in the buffer, or a last byte that ends a varint: the unrolled readers stay
  inside the buffer.
\<close>

definition fast_varint :: "cis \<Rightarrow> bool" where
  "fast_varint s \<longleftrightarrow>
     BufferSize s \<ge> int kMaxVarintBytes \<or>
     (cbuffer_end s > cbuffer s \<and> cdata s ! (cbuffer_end s - 1) AND 0x80 = 0)"

fun ReadVarint64Slow_loop :: "nat \<Rightarrow> nat \<Rightarrow> u64 \<Rightarrow> cis \<Rightarrow> bool \<times> u64 \<times> cis" where
  "ReadVarint64Slow_loop 0 count result s = (False, 0, s)"
| "ReadVarint64Slow_loop (Suc left) count result s =
     (case FillBuffer s of
        (False, s) \<Rightarrow> (False, 0, s)
      | (True, s) \<Rightarrow>
          let b = ucast (cdata s ! cbuffer s) :: u32;
              result = result OR push_bit (7 * count) (ucast (b AND 0x7F));
              s = Advance 1 s
          in if b AND 0x80 \<noteq> 0 then ReadVarint64Slow_loop left (count + 1) result s
             else (True, result, s))"

definition ReadVarint64Slow :: "cis \<Rightarrow> bool \<times> u64 \<times> cis" where
  "ReadVarint64Slow s = ReadVarint64Slow_loop kMaxVarintBytes 0 0 s"

definition ReadVarint64Fallback :: "cis \<Rightarrow> u64 \<times> bool \<times> cis" where
  "ReadVarint64Fallback s =
     (if fast_varint s
      then (case ReadVarint64FromArray (avail s) of
              None \<Rightarrow> (0, False, s)
            | Some (n, temp) \<Rightarrow> (temp, True, Advance n s))
      else (let (success, temp, s) = ReadVarint64Slow s in (temp, success, s)))"

definition ReadVarint64 :: "cis \<Rightarrow> bool \<times> u64 \<times> cis" where
  "ReadVarint64 s =
     (if cbuffer s < cbuffer_end s \<and> cdata s ! cbuffer s < 0x80
      then (True, ucast (cdata s ! cbuffer s), Advance 1 s)
      else (let (v, ok, s) = ReadVarint64Fallback s in (ok, v, s)))"

definition ReadVarint32Slow :: "cis \<Rightarrow> bool \<times> u32 \<times> cis" where
  "ReadVarint32Slow s = (let (v, ok, s) = ReadVarint64Fallback s in (ok, ucast v, s))"

definition ReadVarint32Fallback :: "u32 \<Rightarrow> cis \<Rightarrow> int \<times> cis" where
  "ReadVarint32Fallback first_byte_or_zero s =
     (if fast_varint s
      then (case ReadVarint32FromArray first_byte_or_zero (avail s) of
              None \<Rightarrow> (-1, s)
            | Some (n, temp) \<Rightarrow> (uint temp, Advance n s))
      else (let (ok, temp, s) = ReadVarint32Slow s in (if ok then uint temp else -1, s)))"

definition ReadVarint32 :: "cis \<Rightarrow> bool \<times> u32 \<times> cis" where
  "ReadVarint32 s =
     (let v = (if cbuffer s < cbuffer_end s then ucast (cdata s ! cbuffer s) else 0) :: u32
      in if cbuffer s < cbuffer_end s \<and> v < 0x80 then (True, v, Advance 1 s)
         else (let (result, s) = ReadVarint32Fallback v s
               in (result \<ge> 0, word_of_int result, s)))"

definition ReadVarintSizeAsIntSlow :: "cis \<Rightarrow> int \<times> cis" where
  "ReadVarintSizeAsIntSlow s =
     (let (v, ok, s) = ReadVarint64Fallback s
      in (if \<not> ok \<or> uint v > INT_MAX then -1 else uint v, s))"

definition ReadVarintSizeAsIntFallback :: "cis \<Rightarrow> int \<times> cis" where
  "ReadVarintSizeAsIntFallback s =
     (if fast_varint s
      then (case ReadVarint64FromArray (avail s) of
              None \<Rightarrow> (-1, s)
            | Some (n, temp) \<Rightarrow>
                if uint temp > INT_MAX then (-1, s) else (uint temp, Advance n s))
      else ReadVarintSizeAsIntSlow s)"

definition ReadVarintSizeAsInt :: "cis \<Rightarrow> bool \<times> int \<times> cis" where
  "ReadVarintSizeAsInt s =
     (if cbuffer s < cbuffer_end s \<and> cdata s ! cbuffer s < 0x80
      then (True, uint (cdata s ! cbuffer s), Advance 1 s)
      else (let (v, s) = ReadVarintSizeAsIntFallback s in (v \<ge> 0, v, s)))"

definition ReadLittleEndian32Fallback :: "cis \<Rightarrow> bool \<times> u32 \<times> cis" where
  "ReadLittleEndian32Fallback s =
     (if BufferSize s \<ge> 4
      then (True, ReadLittleEndian32FromArray (avail s), Advance 4 s)
      else (let (ok, bytes, s) = ReadRaw [] 4 s
            in (ok, if ok then ReadLittleEndian32FromArray bytes else 0, s)))"

definition ReadLittleEndian64Fallback :: "cis \<Rightarrow> bool \<times> u64 \<times> cis" where
  "ReadLittleEndian64Fallback s =
     (if BufferSize s \<ge> 8
      then (True, ReadLittleEndian64FromArray (avail s), Advance 8 s)
      else (let (ok, bytes, s) = ReadRaw [] 8 s
            in (ok, if ok then ReadLittleEndian64FromArray bytes else 0, s)))"

definition ReadLittleEndian32 :: "cis \<Rightarrow> bool \<times> u32 \<times> cis" where
  "ReadLittleEndian32 s =
     (if BufferSize s \<ge> 4
      then (True, ReadLittleEndian32FromArray (avail s), Advance 4 s)
      else ReadLittleEndian32Fallback s)"

definition ReadLittleEndian64 :: "cis \<Rightarrow> bool \<times> u64 \<times> cis" where
  "ReadLittleEndian64 s =
     (if BufferSize s \<ge> 8
      then (True, ReadLittleEndian64FromArray (avail s), Advance 8 s)
      else ReadLittleEndian64Fallback s)"

definition ReadTagSlow :: "cis \<Rightarrow> u32 \<times> cis" where
  "ReadTagSlow s =
     (let (at_end, s) = (if cbuffer s = cbuffer_end s
                         then (let (ok, s) = Refresh s in (\<not> ok, s)) else (False, s))
      in if at_end
         then (let current_position = total_bytes_read s - buffer_size_after_limit s
               in (0, s\<lparr>legitimate_message_end :=
                         (if current_position \<ge> total_bytes_limit s
                          then current_limit s = total_bytes_limit s else True)\<rparr>))
         else (let (ok, result, s) = ReadVarint64 s in (if ok then ucast result else 0, s)))"

definition ReadTagFallback :: "u32 \<Rightarrow> cis \<Rightarrow> u32 \<times> cis" where
  "ReadTagFallback first_byte_or_zero s =
     (let buf_size = BufferSize s
      in if buf_size \<ge> int kMaxVarintBytes \<or>
            (buf_size > 0 \<and> cdata s ! (cbuffer_end s - 1) AND 0x80 = 0)
         then (if first_byte_or_zero = 0 then (0, Advance 1 s)
               else case ReadVarint32FromArray first_byte_or_zero (avail s) of
                      None \<Rightarrow> (0, s)
                    | Some (n, tag) \<Rightarrow> (tag, Advance n s))
         else if buf_size = 0 \<and>
                 (buffer_size_after_limit s > 0 \<or> total_bytes_read s = current_limit s) \<and>
                 total_bytes_read s - buffer_size_after_limit s < total_bytes_limit s
              then (0, s\<lparr>legitimate_message_end := True\<rparr>)
              else ReadTagSlow s)"

definition ReadTagNoLastTag :: "cis \<Rightarrow> u32 \<times> cis" where
  "ReadTagNoLastTag s =
     (let v = (if cbuffer s < cbuffer_end s then ucast (cdata s ! cbuffer s) else 0) :: u32
      in if cbuffer s < cbuffer_end s \<and> v < 0x80 then (v, Advance 1 s)
         else ReadTagFallback v s)"

definition ReadTag :: "cis \<Rightarrow> u32 \<times> cis" where
  "ReadTag s = (let (tag, s) = ReadTagNoLastTag s in (tag, s\<lparr>last_tag := tag\<rparr>))"

definition ReadTagWithCutoffNoLastTag :: "u32 \<Rightarrow> cis \<Rightarrow> u32 \<times> bool \<times> cis" where
  "ReadTagWithCutoffNoLastTag cutoff s =
     (let b0 = cdata s ! cbuffer s; b1 = cdata s ! (cbuffer s + 1);
          first_byte_or_zero = (if cbuffer s < cbuffer_end s then ucast b0 else 0) :: u32
      in if cbuffer s < cbuffer_end s \<and> 0 < sint b0
         then (let tag = ucast b0 in (tag, cutoff \<ge> 0x7f \<or> tag \<le> cutoff, Advance 1 s))
         else if cbuffer s < cbuffer_end s \<and> cutoff \<ge> 0x80 \<and>
                 cbuffer s + 1 < cbuffer_end s \<and> (b0 AND NOT b1) \<ge> 0x80
         then (let tag = push_bit 7 1 * ucast b1 + (ucast b0 - 0x80)
               in (tag, cutoff \<ge> push_bit 7 0x7f + 0x7f \<or> tag \<le> cutoff, Advance 2 s))
         else (let (tag, s) = ReadTagFallback first_byte_or_zero s
               in (tag, tag - 1 < cutoff, s)))"

definition LastTagWas :: "u32 \<Rightarrow> cis \<Rightarrow> bool" where
  "LastTagWas expected s \<longleftrightarrow> last_tag s = expected"

definition ExpectAtEnd :: "cis \<Rightarrow> bool \<times> cis" where
  "ExpectAtEnd s =
     (if cbuffer s = cbuffer_end s \<and>
         (buffer_size_after_limit s \<noteq> 0 \<or> total_bytes_read s = current_limit s)
      then (True, s\<lparr>last_tag := 0, legitimate_message_end := True\<rparr>)
      else (False, s))"

section \<open>Flat streams\<close>

definition flat :: "cis \<Rightarrow> bool" where
  "flat s \<longleftrightarrow>
     cbuffer s \<le> cbuffer_end s \<and> cbuffer_end s \<le> length (cdata s) \<and>
     current_limit s = int (cbuffer_end s) \<and>
     total_bytes_read s = int (length (cdata s)) \<and>
     buffer_size_after_limit s = int (length (cdata s)) - int (cbuffer_end s) \<and>
     total_bytes_limit s = INT_MAX \<and> int (length (cdata s)) \<le> INT_MAX \<and>
     overflow_bytes s = 0 \<and> \<not> null_input s \<and> cinput s = None"

lemma Advance_simps [simp]:
  "cdata (Advance n s) = cdata s" "cbuffer (Advance n s) = cbuffer s + n"
  "cbuffer_end (Advance n s) = cbuffer_end s" "total_bytes_read (Advance n s) = total_bytes_read s"
  "overflow_bytes (Advance n s) = overflow_bytes s" "last_tag (Advance n s) = last_tag s"
  "legitimate_message_end (Advance n s) = legitimate_message_end s"
  "current_limit (Advance n s) = current_limit s"
  "buffer_size_after_limit (Advance n s) = buffer_size_after_limit s"
  "total_bytes_limit (Advance n s) = total_bytes_limit s"
  "recursion_budget (Advance n s) = recursion_budget s"
  "recursion_limit (Advance n s) = recursion_limit s"
  "null_input (Advance n s) = null_input s" "cinput (Advance n s) = cinput s"
  by (simp_all add: Advance_def)

lemma Advance_0 [simp]: "Advance 0 s = s"
  by (simp add: Advance_def)

lemma Advance_Advance [simp]: "Advance m (Advance n s) = Advance (n + m) s"
  by (simp add: Advance_def add.assoc)

lemma avail_Advance [simp]: "avail (Advance n s) = drop n (avail s)"
  by (simp add: avail_def Advance_def drop_take add.commute)

lemma avail_updates [simp]:
  "avail (s\<lparr>last_tag := t\<rparr>) = avail s" "avail (s\<lparr>legitimate_message_end := b\<rparr>) = avail s"
  "avail (s\<lparr>recursion_budget := k\<rparr>) = avail s"
  by (simp_all add: avail_def)

lemma flat_updates [simp]:
  "flat (s\<lparr>last_tag := t\<rparr>) = flat s" "flat (s\<lparr>legitimate_message_end := b\<rparr>) = flat s"
  "flat (s\<lparr>recursion_budget := k\<rparr>) = flat s"
  by (simp_all add: flat_def)

text \<open>What the readers look at is inside the array.\<close>

definition buffered :: "cis \<Rightarrow> bool" where
  "buffered s \<longleftrightarrow> cbuffer s \<le> cbuffer_end s \<and> length (avail s) = cbuffer_end s - cbuffer s"

lemma flat_buffered: "flat s \<Longrightarrow> buffered s"
  by (auto simp: flat_def avail_def buffered_def)

lemma length_avail: "buffered s \<Longrightarrow> length (avail s) = cbuffer_end s - cbuffer s"
  by (simp add: buffered_def)

lemma BufferSize_avail: "buffered s \<Longrightarrow> BufferSize s = int (length (avail s))"
  by (simp add: BufferSize_def buffered_def)

lemma flat_Advance [simp]: "flat s \<Longrightarrow> n \<le> length (avail s) \<Longrightarrow> flat (Advance n s)"
  by (auto simp: flat_def avail_def)

lemma flat_CodedInputStream:
  "int (length bs) \<le> INT_MAX \<Longrightarrow> flat (CodedInputStream bs (int (length bs)))"
  by (auto simp: flat_def CodedInputStream_def)

lemma avail_CodedInputStream [simp]: "avail (CodedInputStream bs (int (length bs))) = bs"
  by (simp add: avail_def CodedInputStream_def)

lemma buffer_lt: "buffered s \<Longrightarrow> (cbuffer s < cbuffer_end s) = (avail s \<noteq> [])"
  by (cases "avail s") (auto simp: buffered_def)

lemma buffer_eq: "buffered s \<Longrightarrow> (cbuffer s = cbuffer_end s) = (avail s = [])"
  using buffer_lt [of s] by (auto simp: buffered_def)

lemma data_avail: "buffered s \<Longrightarrow> i < length (avail s) \<Longrightarrow> cdata s ! (cbuffer s + i) = avail s ! i"
proof -
  assume b: "buffered s" "i < length (avail s)"
  then have "cbuffer s \<le> length (cdata s)" by (auto simp: avail_def)
  with b show ?thesis by (simp add: buffered_def) (simp add: avail_def)
qed

lemma data_buffer: "buffered s \<Longrightarrow> avail s = b # bs \<Longrightarrow> cdata s ! cbuffer s = b"
  using data_avail [of s 0] by simp

lemma data_buffer1: "buffered s \<Longrightarrow> avail s = b # c # bs \<Longrightarrow> cdata s ! Suc (cbuffer s) = c"
  using data_avail [of s 1] by simp

lemma data_last: "buffered s \<Longrightarrow> avail s \<noteq> [] \<Longrightarrow> cdata s ! (cbuffer_end s - Suc 0) = last (avail s)"
  using data_avail [of s "length (avail s) - 1"] buffer_lt [of s]
  by (simp add: last_conv_nth) (simp add: buffered_def)

lemma fast_varint_avail: "buffered s \<Longrightarrow> fast_varint s = varint_safe 10 (avail s)"
  by (auto simp: fast_varint_def varint_safe_def BufferSize_avail buffer_lt data_last)

lemmas length_avail_flat = length_avail [OF flat_buffered]
  and BufferSize_flat = BufferSize_avail [OF flat_buffered]
  and buffer_lt_flat = buffer_lt [OF flat_buffered] and buffer_eq_flat = buffer_eq [OF flat_buffered]
  and data_buffer_flat = data_buffer [OF flat_buffered] and data_buffer1_flat = data_buffer1 [OF flat_buffered]
  and data_last_flat = data_last [OF flat_buffered] and fast_varint_flat = fast_varint_avail [OF flat_buffered]

lemma Refresh_flat [flat_simps]: "flat s \<Longrightarrow> Refresh s = (False, s)"
  by (auto simp: Refresh_def flat_def)

lemma FillBuffer_flat [flat_simps]: "flat s \<Longrightarrow> FillBuffer s = (avail s \<noteq> [], s)"
  by (simp add: FillBuffer.simps buffer_eq_flat Refresh_flat)

lemma CurrentPosition_flat: "flat s \<Longrightarrow> CurrentPosition s = int (cbuffer s)"
  by (auto simp: CurrentPosition_def BufferSize_def flat_def)

subsection \<open>Varints\<close>

lemma byte_lt_128 [simp]: "(b :: u8) < 128 \<longleftrightarrow> unat b < 128"
  by (simp add: word_less_nat_alt)

lemma byte32_lt_128 [simp]: "(ucast (b :: u8) :: u32) < 128 \<longleftrightarrow> unat b < 128"
  by (simp add: word_less_nat_alt)

lemma low_bits_u64: "(ucast ((ucast (b :: u8) :: u32) AND 0x7F) :: u64) = of_nat (unat b mod 128)"
proof -
  have mask: "(0x7F :: u32) = mask 7" by (simp add: mask_eq_exp_minus_1)
  have "unat ((ucast b :: u32) AND 0x7F) = take_bit 7 (unat b)"
    by (simp only: mask take_bit_eq_mask [symmetric] unsigned_take_bit_eq unat_ucast_byte32)
  also have "\<dots> = unat b mod 128" by (simp add: take_bit_eq_mod)
  finally have "unat ((ucast b :: u32) AND 0x7F) = unat b mod 128" .
  then have "(of_nat (unat ((ucast b :: u32) AND 0x7F)) :: u64) = of_nat (unat b mod 128)"
    by (simp only:)
  then show ?thesis by (simp only: of_nat_unat)
qed

lemma ReadVarint64Slow_loop_step:
  assumes f: "flat s" and a: "avail s = b # bs"
  shows "ReadVarint64Slow_loop (Suc left) count result s =
     (let result = result OR push_bit (7 * count) (ucast ((ucast b :: u32) AND 0x7F))
      in if unat b < 128 then (True, result, Advance 1 s)
         else ReadVarint64Slow_loop left (Suc count) result (Advance 1 s))"
  using data_buffer_flat [OF f a] a by (simp add: FillBuffer_flat [OF f] Let_def)

lemma ReadVarint64Slow_loop_flat:
  assumes "flat s" "r < 128 ^ count" 
  shows "ReadVarint64Slow_loop left count (of_nat r) s =
     (case varint_dec left (avail s) of
        Some (v, n) \<Rightarrow> (True, of_nat (r + 128 ^ count * v), Advance n s)
      | None \<Rightarrow> (False, 0, Advance (min left (length (avail s))) s))"
  using assms
proof (induction left arbitrary: count r s)
  case 0
  then show ?case by simp
next
  case (Suc left)
  show ?case
  proof (cases "avail s")
    case Nil
    then show ?thesis using Suc.prems by (simp add: flat_simps)
  next
    case (Cons b bs)
    define r' where "r' = r + 128 ^ count * (unat b mod 128)"
    have e: "(128::nat) ^ count = 2 ^ (7 * count)" by (simp add: power_mult)
    have "r < 2 ^ (7 * count)" using Suc.prems(2) by (simp only: e)
    then have n: "r OR push_bit (7 * count) (unat b mod 128) = r'"
      by (simp only: or_push_bit_nat e r'_def mult.commute)
    have "(of_nat r :: u64) OR push_bit (7 * count) (ucast ((ucast b :: u32) AND 0x7F))
        = of_nat (r OR push_bit (7 * count) (unat b mod 128))"
      by (simp only: low_bits_u64 push_bit_of_nat of_nat_or_eq)
    note orr = this [unfolded n]
    have f: "flat (Advance 1 s)" using Suc.prems(1) Cons by simp
    show ?thesis
    proof (cases "unat b < 128")
      case True
      then have sum: "r + 128 ^ count * unat b = r'" by (simp add: r'_def)
      have "ReadVarint64Slow_loop (Suc left) count (of_nat r) s = (True, of_nat r', Advance 1 s)"
        using True by (simp only: ReadVarint64Slow_loop_step [OF Suc.prems(1) Cons] Let_def orr if_True)
      moreover have "varint_dec (Suc left) (avail s) = Some (unat b, 1)"
        using Cons True by simp
      ultimately show ?thesis by (simp only: option.case prod.case sum)
    next
      case False
      have m: "unat b mod 128 = unat b - 128"
      proof -
        have "unat b - 128 < 128" using u8_less [of b] by linarith
        then have "(unat b - 128) mod 128 = unat b - 128" by (rule mod_less)
        then show ?thesis using False by (simp only: le_mod_geq not_less)
      qed
      have "r' < 128 ^ Suc count"
      proof -
        have "r + 128 ^ count * (unat b mod 128) < 128 ^ count * (1 + unat b mod 128)"
          using Suc.prems(2) by simp
        also have "\<dots> \<le> 128 ^ count * 128"
          by (rule mult_le_mono2) (simp add: Suc_leI)
        finally show ?thesis by (simp only: r'_def power_Suc2)
      qed
      note ih = Suc.IH [OF f this]
      have sum: "r' + 128 ^ Suc count * v = r + 128 ^ count * (unat b - 128 + 128 * v)" for v
        by (simp add: r'_def m add_mult_distrib2)
      have step: "ReadVarint64Slow_loop (Suc left) count (of_nat r) s =
          ReadVarint64Slow_loop left (Suc count) (of_nat r') (Advance 1 s)"
        using False by (simp only: ReadVarint64Slow_loop_step [OF Suc.prems(1) Cons] Let_def orr if_False)
      have dec: "varint_dec (Suc left) (avail s) =
          map_option (\<lambda>(v, n). (unat b - 128 + 128 * v, Suc n)) (varint_dec left bs)"
        using Cons False by simp
      have a: "avail (Advance 1 s) = bs" "min (Suc left) (length (avail s)) = Suc (min left (length bs))"
        using Cons by simp_all
      show ?thesis
      proof (cases "varint_dec left bs")
        case None
        show ?thesis unfolding step ih dec a None by simp
      next
        case (Some x)
        obtain v n where x: "x = (v, n)" by force
        show ?thesis unfolding step ih dec a Some x by (simp only: option.map option.case prod.case sum Advance_Advance plus_1_eq_Suc)
      qed
    qed
  qed
qed

text \<open>How far a failing varint read moves: not at all on the fast path.\<close>

definition varint_fail :: "cis \<Rightarrow> nat" where
  "varint_fail s = (if fast_varint s then 0 else min 10 (length (avail s)))"

lemma varint_fail_le: "varint_fail s \<le> length (avail s)"
  by (simp add: varint_fail_def)

lemma ReadVarint64Fallback_flat [flat_simps]:
  assumes "flat s"
  shows "ReadVarint64Fallback s =
     (case varint_dec 10 (avail s) of
        Some (v, n) \<Rightarrow> (of_nat v, True, Advance n s)
      | None \<Rightarrow> (0, False, Advance (varint_fail s) s))"
proof (cases "fast_varint s")
  case True
  then have "varint_safe 10 (avail s)" by (simp add: fast_varint_flat [OF assms])
  then show ?thesis
    using True by (simp add: ReadVarint64Fallback_def ReadVarint64FromArray_eq varint_fail_def
        split: option.splits)
next
  case False
  then show ?thesis
    using ReadVarint64Slow_loop_flat [OF assms, of 0 0 10]
    by (simp add: ReadVarint64Fallback_def ReadVarint64Slow_def varint_fail_def split: option.splits)
qed

lemma varint_dec_Nil [simp]: "varint_dec k [] = None"
  by (cases k) auto

lemma varint_dec_small: "unat b < 128 \<Longrightarrow> varint_dec 10 (b # bs) = Some (unat b, 1)"
  by (simp add: eval_nat_numeral)

lemma ReadVarint64_flat [flat_simps]:
  assumes "flat s"
  shows "ReadVarint64 s =
     (case varint_dec 10 (avail s) of
        Some (v, n) \<Rightarrow> (True, of_nat v, Advance n s)
      | None \<Rightarrow> (False, 0, Advance (varint_fail s) s))"
proof (cases "avail s")
  case Nil
  then show ?thesis using assms
    by (simp add: ReadVarint64_def buffer_lt_flat ReadVarint64Fallback_flat split: option.splits)
next
  case (Cons b bs)
  note b = data_buffer_flat [OF assms Cons]
  show ?thesis
  proof (cases "unat b < 128")
    case True
    then show ?thesis using assms Cons
      by (simp add: ReadVarint64_def buffer_lt_flat b varint_dec_small)
  next
    case False
    then show ?thesis using assms
      by (simp add: ReadVarint64_def b ReadVarint64Fallback_flat split: option.splits)
  qed
qed

lemma ReadVarint32Fallback_fast:
  assumes b: "buffered s" and safe: "varint_safe 10 (avail s)"
    and first: "v = ucast (hd (avail s))" "128 \<le> unat (hd (avail s))"
  shows "ReadVarint32Fallback v s =
     (case varint_dec 10 (avail s) of Some (w, n) \<Rightarrow> (uint (of_nat w :: u32), Advance n s) | None \<Rightarrow> (-1, s))"
proof -
  have "avail s \<noteq> []" using safe by (auto simp: varint_safe_def)
  with first have "v = byte32 (avail s) 0" "128 \<le> unat (avail s ! 0)" by (simp_all add: hd_conv_nth)
  from ReadVarint32FromArray_eq [OF safe this] safe show ?thesis
    by (simp add: ReadVarint32Fallback_def fast_varint_avail [OF b] split: option.splits)
qed

lemma ucast_of_nat_u64: "(ucast (of_nat v :: u64) :: u32) = of_nat v"
  by (rule unsigned_word_eqI) (simp add: unsigned_ucast_eq unsigned_of_nat take_bit_take_bit)

lemma ReadVarint32Fallback_flat:
  assumes "flat s" "avail s \<noteq> [] \<Longrightarrow> v = ucast (hd (avail s)) \<and> 128 \<le> unat (hd (avail s))"
  shows "ReadVarint32Fallback v s =
     (case varint_dec 10 (avail s) of
        Some (v, n) \<Rightarrow> (uint (of_nat v :: u32), Advance n s)
      | None \<Rightarrow> (-1, Advance (varint_fail s) s))"
proof (cases "fast_varint s")
  case True
  then have safe: "varint_safe 10 (avail s)" by (simp add: fast_varint_flat [OF assms(1)])
  then have "avail s \<noteq> []" by (auto simp: varint_safe_def)
  with ReadVarint32Fallback_fast [OF flat_buffered [OF assms(1)] safe] assms(2) True show ?thesis
    by (cases "varint_dec 10 (avail s)") (auto simp: varint_fail_def)
next
  case False
  then show ?thesis
    using ReadVarint64Fallback_flat [OF assms(1)]
    by (simp add: ReadVarint32Fallback_def ReadVarint32Slow_def ucast_of_nat_u64 split: option.splits)
qed

lemma ReadVarint32_flat [flat_simps]:
  assumes "flat s"
  shows "ReadVarint32 s =
     (case varint_dec 10 (avail s) of
        Some (v, n) \<Rightarrow> (True, of_nat v, Advance n s)
      | None \<Rightarrow> (False, -1, Advance (varint_fail s) s))"
proof (cases "avail s")
  case Nil
  then show ?thesis using assms
    using ReadVarint32Fallback_flat [OF assms, of 0]
    by (simp add: ReadVarint32_def buffer_lt_flat)
next
  case (Cons b bs)
  note b = data_buffer_flat [OF assms Cons]
  show ?thesis
  proof (cases "unat b < 128")
    case True
    then show ?thesis using assms Cons
      by (simp add: ReadVarint32_def buffer_lt_flat b varint_dec_small Let_def)
  next
    case False
    then show ?thesis using assms Cons
      by (simp add: ReadVarint32_def buffer_lt_flat b ReadVarint32Fallback_flat Let_def split: option.splits)
  qed
qed

lemma uint_of_nat_u64: "uint (of_nat v :: u64) = int (v mod 2 ^ 64)"
  by (simp add: unsigned_of_nat take_bit_eq_mod of_nat_mod)

lemma ReadVarintSizeAsInt_flat [flat_simps]:
  assumes "flat s"
  shows "ReadVarintSizeAsInt s =
     (case varint_dec 10 (avail s) of
        Some (v, n) \<Rightarrow>
          if int (v mod 2 ^ 64) \<le> INT_MAX then (True, int (v mod 2 ^ 64), Advance n s)
          else (False, -1, if fast_varint s then s else Advance n s)
      | None \<Rightarrow> (False, -1, Advance (varint_fail s) s))"
proof (cases "avail s")
  case Nil
  then have "\<not> fast_varint s" using assms by (simp add: fast_varint_flat varint_safe_def)
  with Nil show ?thesis using assms
    by (simp add: ReadVarintSizeAsInt_def buffer_lt_flat ReadVarintSizeAsIntFallback_def
        ReadVarintSizeAsIntSlow_def ReadVarint64Fallback_flat)
next
  case (Cons b bs)
  note b = data_buffer_flat [OF assms Cons]
  show ?thesis
  proof (cases "unat b < 128")
    case True
    then have "unat b mod 2 ^ 64 = unat b" by simp
    moreover have "int (unat b) \<le> INT_MAX" using True by linarith
    ultimately show ?thesis using assms Cons True
      by (simp add: ReadVarintSizeAsInt_def buffer_lt_flat b varint_dec_small)
  next
    case False
    have fast: "ReadVarint64FromArray (avail s) = map_option (\<lambda>(v, n). (n, of_nat v)) (varint_dec 10 (avail s))"
      if "fast_varint s"
      using that assms by (simp add: fast_varint_flat ReadVarint64FromArray_eq)
    from False show ?thesis using assms Cons fast
      by (auto simp: ReadVarintSizeAsInt_def buffer_lt_flat b ReadVarintSizeAsIntFallback_def varint_fail_def
          ReadVarintSizeAsIntSlow_def ReadVarint64Fallback_flat uint_of_nat_u64 split: option.splits)
  qed
qed

subsection \<open>Tags\<close>

text \<open>What reading a tag comes to: 0 and a legitimate end when nothing is left.\<close>

definition tag_spec :: "cis \<Rightarrow> u32 \<times> cis" where
  "tag_spec s =
     (if avail s = [] then (0, s\<lparr>legitimate_message_end := True\<rparr>)
      else case varint_dec 10 (avail s) of
             Some (v, n) \<Rightarrow> (of_nat v, Advance n s)
           | None \<Rightarrow> (0, Advance (varint_fail s) s))"

lemma ReadTagSlow_flat: "flat s \<Longrightarrow> ReadTagSlow s = tag_spec s"
proof -
  assume f: "flat s"
  then have "total_bytes_read s - buffer_size_after_limit s = current_limit s"
    and "current_limit s \<le> total_bytes_limit s" by (auto simp: flat_def)
  then show ?thesis using f
    by (auto simp: ReadTagSlow_def tag_spec_def buffer_eq_flat Refresh_flat ReadVarint64_flat
        ucast_of_nat_u64 split: option.splits)
qed

text \<open>The unrolled reader, and when it is taken.\<close>

lemma ReadTagFallback_fast:
  assumes b: "buffered s" and safe: "varint_safe 10 (avail s)"
    and first: "v = ucast (hd (avail s))" "v = 0 \<or> 128 \<le> unat (hd (avail s))"
  shows "ReadTagFallback v s =
    (case varint_dec 10 (avail s) of Some (w, n) \<Rightarrow> (of_nat w, Advance n s) | None \<Rightarrow> (0, s))"
proof -
  obtain b bs where c: "avail s = b # bs" using safe by (cases "avail s") (auto simp: varint_safe_def)
  have *: "ReadTagFallback v s = (if v = 0 then (0, Advance 1 s)
               else case ReadVarint32FromArray v (avail s) of
                      None \<Rightarrow> (0, s)
                    | Some (n, tag) \<Rightarrow> (tag, Advance n s))"
    using assms(1,2) by (auto simp: ReadTagFallback_def varint_safe_def BufferSize_avail data_last Let_def)
  show ?thesis
  proof (cases "v = 0")
    case True
    with first c have "unat (ucast b :: u32) = 0" by simp
    then have "unat b = 0" by (simp only: unat_ucast_byte32)
    then have "b = 0" by (simp only: unat_eq_zero)
    then show ?thesis using True * c varint_dec_small [of b bs] by simp
  next
    case False
    with first c have "v = byte32 (avail s) 0" "128 \<le> unat (avail s ! 0)" by simp_all
    from ReadVarint32FromArray_eq [OF safe this] show ?thesis
      using False by (simp add: * split: option.splits)
  qed
qed

lemma ReadTagFallback_slow:
  assumes "buffered s" "\<not> varint_safe 10 (avail s)" "avail s \<noteq> []"
  shows "ReadTagFallback v s = ReadTagSlow s"
  using assms by (auto simp: ReadTagFallback_def varint_safe_def BufferSize_avail data_last Let_def)

lemma ReadTagFallback_flat:
  assumes f: "flat s"
    and first: "avail s \<noteq> [] \<Longrightarrow> v = ucast (hd (avail s)) \<and> (v = 0 \<or> 128 \<le> unat (hd (avail s)))"
  shows "ReadTagFallback v s = tag_spec s"
proof (cases "avail s")
  case Nil
  then show ?thesis using f
    by (auto simp: ReadTagFallback_def BufferSize_flat ReadTagSlow_flat tag_spec_def flat_def)
next
  case (Cons b bs)
  then have ne: "avail s \<noteq> []" by simp
  note v = first [OF ne]
  show ?thesis
  proof (cases "varint_safe 10 (avail s)")
    case True
    from ReadTagFallback_fast [OF flat_buffered [OF f] True] v ne True show ?thesis
      by (auto simp: tag_spec_def varint_fail_def fast_varint_flat [OF f] split: option.splits)
  next
    case False
    then show ?thesis
      using ReadTagFallback_slow [OF flat_buffered [OF f] _ ne] by (simp add: ReadTagSlow_flat [OF f])
  qed
qed

lemma ReadTagNoLastTag_flat: 
  assumes f: "flat s" shows "ReadTagNoLastTag s = tag_spec s"
proof (cases "avail s")
  case Nil
  then show ?thesis using f ReadTagFallback_flat [OF f, of 0]
    by (simp add: ReadTagNoLastTag_def buffer_lt_flat)
next
  case (Cons b bs)
  note b = data_buffer_flat [OF f Cons]
  show ?thesis
  proof (cases "unat b < 128")
    case True
    then show ?thesis using f Cons varint_dec_small [OF True, of bs]
      by (simp add: ReadTagNoLastTag_def buffer_lt_flat b tag_spec_def Let_def)
  next
    case False
    then show ?thesis using f Cons
      by (simp add: ReadTagNoLastTag_def buffer_lt_flat b ReadTagFallback_flat)
  qed
qed

lemma ReadTag_flat [flat_simps]:
  "flat s \<Longrightarrow> ReadTag s = (let (tag, s) = tag_spec s in (tag, s\<lparr>last_tag := tag\<rparr>))"
  by (simp add: ReadTag_def ReadTagNoLastTag_flat)


text \<open>
  The reader with a cutoff returns the same tag and stream; its flag says whether the tag
  is at most the cutoff. (For the two-byte spelling of tag 0 the flag is set, and no caller
  looks at it: every parse loop treats tag 0 as the end.)
\<close>

lemma sint_byte: "0 < sint (b :: u8) \<longleftrightarrow> 0 < unat b \<and> unat b < 128"
proof -
  show ?thesis
  proof (cases "unat b < 128")
    case True
    then have "\<not> bit (uint b) 7" by (simp add: bit7_byte bit_uint_iff)
    then have "sint b = take_bit 7 (uint b)"
      by (simp add: sint_uint signed_take_bit_eq_if_positive)
    also have "\<dots> = int (unat b)"
      using take_bit_nat_eq_self [of "unat b" 7] True by (simp only: uint_nat take_bit_of_nat) simp
    finally have "sint b = int (unat b)" .
    then show ?thesis using True by (simp only: of_nat_0_less_iff simp_thms)
  next
    case False
    then have "sint b < 0" using bit_last_iff [of b] by (simp add: bit7_byte)
    with False show ?thesis by simp
  qed
qed

lemma and_not_byte: "(b AND NOT c) \<ge> (0x80 :: u8) \<longleftrightarrow> 128 \<le> unat b \<and> unat c < 128"
proof -
  have "(b AND NOT c) \<ge> (0x80 :: u8) \<longleftrightarrow> bit (b AND NOT c) 7"
    by (simp add: bit7_byte word_le_nat_alt)
  also have "\<dots> \<longleftrightarrow> bit b 7 \<and> \<not> bit c 7" by (simp add: bit_simps)
  finally show ?thesis by (simp add: bit7_byte not_le)
qed

text \<open>The tag and the place come from one of the inlined paths, or from the general reader.\<close>

definition cutoff_fallback :: "u32 \<Rightarrow> u32 \<Rightarrow> cis \<Rightarrow> u32 \<times> bool \<times> cis" where
  "cutoff_fallback v cutoff s = (let (tag, s) = ReadTagFallback v s in (tag, tag - 1 < cutoff, s))"

lemma tag_less_cutoff: "t \<noteq> 0 \<Longrightarrow> (t - 1 < cutoff) = (t \<le> cutoff)" for t :: u32
proof -
  assume t: "t \<noteq> 0"
  then have "unat (t - 1) = unat t - 1" by (rule unat_minus_one)
  moreover have "0 < unat t" using t by (simp add: unat_gt_0)
  ultimately show ?thesis unfolding word_less_nat_alt word_le_nat_alt by auto
qed

lemma ReadTagWithCutoff_paths:
  assumes f: "buffered s"
  obtains (inlined) w n where "varint_dec 10 (avail s) = Some (w, n)"
      "ReadTagWithCutoffNoLastTag cutoff s = (of_nat w, of_nat w \<le> cutoff, Advance n s)"
  | (fallback) v where "ReadTagWithCutoffNoLastTag cutoff s = cutoff_fallback v cutoff s"
      "avail s \<noteq> [] \<Longrightarrow> v = ucast (hd (avail s)) \<and> (v = 0 \<or> 128 \<le> unat (hd (avail s)))"
proof (cases "avail s")
  case Nil
  then have "ReadTagWithCutoffNoLastTag cutoff s = cutoff_fallback 0 cutoff s"
    using f by (simp add: ReadTagWithCutoffNoLastTag_def cutoff_fallback_def buffer_lt Let_def)
  with Nil fallback show thesis by blast
next
  case (Cons b bs)
  note b = data_buffer [OF f Cons]
  have lt: "cbuffer s < cbuffer_end s" using f Cons by (simp add: buffer_lt)
  consider (one) "0 < sint b" | (two) c cs where "\<not> 0 < sint b" "0x80 \<le> cutoff" "bs = c # cs"
      "(b AND NOT c) \<ge> 0x80"
    | (slow) "\<not> 0 < sint b"
      "\<not> (cbuffer s < cbuffer_end s \<and> cutoff \<ge> 0x80 \<and> cbuffer s + 1 < cbuffer_end s \<and>
         (b AND NOT (cdata s ! (cbuffer s + 1))) \<ge> 0x80)"
  proof (cases bs)
    case Nil
    then have "\<not> cbuffer s + 1 < cbuffer_end s" using Cons length_avail [OF f] by simp
    with that show ?thesis by blast
  next
    case (Cons c cs)
    then have "cdata s ! (cbuffer s + 1) = c" using data_buffer1 [OF f] \<open>avail s = b # bs\<close> by simp
    with that Cons show ?thesis by auto
  qed
  then show thesis
  proof cases
    case one
    then have u: "0 < unat b" "unat b < 128" by (simp_all add: sint_byte)
    then have dec: "varint_dec 10 (avail s) = Some (unat b, 1)" using Cons varint_dec_small [OF u(2), of bs] by simp
    have "(ucast b :: u32) \<le> 0x7f" using u by (simp add: word_le_nat_alt)
    then have r: "ReadTagWithCutoffNoLastTag cutoff s = (ucast b, ucast b \<le> cutoff, Advance 1 s)"
      using one lt by (auto simp: ReadTagWithCutoffNoLastTag_def b Let_def intro: order_trans)
    have e: "(of_nat (unat b) :: u32) = ucast b" by simp
    show thesis by (rule inlined [OF dec]) (simp only: e r)
  next
    case slow
    have "ReadTagWithCutoffNoLastTag cutoff s = cutoff_fallback (ucast b) cutoff s"
      using slow lt by (simp only: ReadTagWithCutoffNoLastTag_def cutoff_fallback_def b Let_def if_False if_True simp_thms)
    then show thesis using fallback slow(1) Cons by (auto simp: sint_byte unat_eq_zero)
  next
    case two
    then have u: "128 \<le> unat b" "unat c < 128" by (simp_all only: and_not_byte)
    have eq: "cdata s ! (cbuffer s + 1) = c" "cbuffer s + 1 < cbuffer_end s"
      using Cons two(3) data_buffer1 [OF f] length_avail [OF f] by auto
    have dec: "varint_dec 10 (avail s) = Some (unat b - 128 + 128 * unat c, 2)"
      using u Cons two(3) by (simp add: eval_nat_numeral)
    define tag where "tag = (push_bit 7 1 * ucast c + (ucast b - 0x80) :: u32)"
    have tag: "tag = of_nat (unat b - 128 + 128 * unat c)"
    proof -
      have "(ucast b - 0x80 :: u32) = of_nat (unat b - 128)"
        by (simp only: ucast_byte32 of_nat_diff [OF u(1)] of_nat_numeral)
      then show ?thesis
        by (simp add: tag_def push_bit_eq_mult ucast_byte32 add.commute del: of_nat_unat of_nat_diff)
    qed
    have "unat b - 128 + 128 * unat c \<le> 16383" using u u8_less [of b] by linarith
    then have "unat tag \<le> 16383"
      by (simp only: tag unat_of_nat) (simp add: mod_if)
    then have "tag \<le> push_bit 7 0x7f + 0x7f"
      by (simp add: word_le_nat_alt push_bit_eq_mult)
    then have "(cutoff \<ge> push_bit 7 0x7f + 0x7f \<or> tag \<le> cutoff) = (tag \<le> cutoff)"
      by (auto intro: order_trans)
    with eq two lt have "ReadTagWithCutoffNoLastTag cutoff s = (tag, tag \<le> cutoff, Advance 2 s)"
      by (simp only: ReadTagWithCutoffNoLastTag_def b Let_def if_False if_True simp_thms tag_def [symmetric])
    then show thesis by (intro inlined [OF dec]) (simp only: tag)
  qed
qed

lemma ReadTagWithCutoffNoLastTag_flat [flat_simps]:
  assumes f: "flat s"
  shows "\<exists>flag. ReadTagWithCutoffNoLastTag cutoff s = (fst (tag_spec s), flag, snd (tag_spec s)) \<and>
     (fst (tag_spec s) \<noteq> 0 \<longrightarrow> flag = (fst (tag_spec s) \<le> cutoff))"
proof (rule ReadTagWithCutoff_paths [OF flat_buffered [OF f], of cutoff])
  fix w n assume "varint_dec 10 (avail s) = Some (w, n)"
    "ReadTagWithCutoffNoLastTag cutoff s = (of_nat w, of_nat w \<le> cutoff, Advance n s)"
  then show ?thesis by (cases "avail s") (auto simp: tag_spec_def simp del: varint_dec.simps)
next
  fix v assume r: "ReadTagWithCutoffNoLastTag cutoff s = cutoff_fallback v cutoff s"
    and "avail s \<noteq> [] \<Longrightarrow> v = ucast (hd (avail s)) \<and> (v = 0 \<or> 128 \<le> unat (hd (avail s)))"
  then have "ReadTagFallback v s = tag_spec s" by (intro ReadTagFallback_flat [OF f])
  with r show ?thesis by (simp add: cutoff_fallback_def case_prod_unfold Let_def tag_less_cutoff)
qed

subsection \<open>Raw bytes and strings\<close>

lemma ReadRaw_flat [flat_simps]:
  assumes "flat s"
  shows "ReadRaw acc (int n) s =
     (if n \<le> length (avail s) then (True, acc @ take n (avail s), Advance n s)
      else (False, acc @ avail s, Advance (length (avail s)) s))"
  using assms by (simp add: ReadRaw.simps [of acc] BufferSize_flat Refresh_flat Let_def)

lemma ReadString_flat [flat_simps]:
  assumes "flat s"
  shows "ReadString buffer (int n) s =
     (if n \<le> length (avail s) then (True, take n (avail s), Advance n s)
      else (False, avail s, Advance (length (avail s)) s))"
  using assms
  by (simp add: ReadString_def InternalReadStringInline_def ReadStringFallback_def ReadRaw_flat BufferSize_flat)

lemma ReadLittleEndian32_flat [flat_simps]:
  assumes "flat s"
  shows "ReadLittleEndian32 s =
     (if 4 \<le> length (avail s) then (True, ReadLittleEndian32FromArray (avail s), Advance 4 s)
      else (False, 0, Advance (length (avail s)) s))"
  using assms ReadRaw_flat [OF assms, of "[]" 4]
  by (simp add: ReadLittleEndian32_def ReadLittleEndian32Fallback_def BufferSize_flat)

lemma ReadLittleEndian64_flat [flat_simps]:
  assumes "flat s"
  shows "ReadLittleEndian64 s =
     (if 8 \<le> length (avail s) then (True, ReadLittleEndian64FromArray (avail s), Advance 8 s)
      else (False, 0, Advance (length (avail s)) s))"
  using assms ReadRaw_flat [OF assms, of "[]" 8]
  by (simp add: ReadLittleEndian64_def ReadLittleEndian64Fallback_def BufferSize_flat)

lemma Skip_flat [flat_simps]:
  assumes "flat s"
  shows "Skip (int n) s =
     (if n \<le> length (avail s) then (True, Advance n s) else (False, Advance (length (avail s)) s))"
proof -
  have "s\<lparr>cbuffer := cbuffer_end s\<rparr> = Advance (length (avail s)) s"
    using assms by (simp add: Advance_def length_avail_flat flat_def)
  then show ?thesis using assms
    by (auto simp: Skip_def SkipFallback_def BufferSize_flat Let_def) (auto simp: flat_def)
qed

subsection \<open>Limits\<close>

definition limit_to :: "nat \<Rightarrow> cis \<Rightarrow> cis" where
  "limit_to end' s = s\<lparr>cbuffer_end := end', current_limit := int end',
     buffer_size_after_limit := int (length (cdata s)) - int end'\<rparr>"

lemma limit_to_simps [simp]:
  "cdata (limit_to e s) = cdata s" "cbuffer (limit_to e s) = cbuffer s"
  "cbuffer_end (limit_to e s) = e" "current_limit (limit_to e s) = int e"
  "recursion_budget (limit_to e s) = recursion_budget s"
  "recursion_limit (limit_to e s) = recursion_limit s" "last_tag (limit_to e s) = last_tag s"
  "legitimate_message_end (limit_to e s) = legitimate_message_end s"
  "limit_to e (limit_to d s) = limit_to e s"
  by (simp_all add: limit_to_def)

lemma flat_limit_to [simp]:
  "flat s \<Longrightarrow> cbuffer s \<le> e \<Longrightarrow> e \<le> length (cdata s) \<Longrightarrow> flat (limit_to e s)"
  by (simp add: flat_def limit_to_def)

lemma limit_to_same: "flat s \<Longrightarrow> limit_to (cbuffer_end s) s = s"
  by (cases s) (simp add: flat_def limit_to_def)

lemma avail_limit_to:
  "flat s \<Longrightarrow> n \<le> length (avail s) \<Longrightarrow> avail (limit_to (cbuffer s + n) s) = take n (avail s)"
  by (simp add: avail_def limit_to_def flat_def)

lemma PushLimit_flat [flat_simps]:
  assumes "flat s"
  shows "PushLimit (int n) s =
     (int (cbuffer_end s), limit_to (cbuffer s + min n (length (avail s))) s)"
proof -
  have f: "cbuffer s \<le> cbuffer_end s" "cbuffer_end s \<le> length (cdata s)"
    "current_limit s = int (cbuffer_end s)" "total_bytes_read s = int (length (cdata s))"
    "buffer_size_after_limit s = int (length (cdata s)) - int (cbuffer_end s)"
    "total_bytes_limit s = INT_MAX" "int (length (cdata s)) \<le> INT_MAX"
    using assms by (auto simp: flat_def)
  show ?thesis
  proof (cases "n < length (avail s)")
    case True
    then have n: "cbuffer s + n < cbuffer_end s" using length_avail_flat [OF assms] by linarith
    have "RecomputeBufferLimits (s\<lparr>current_limit := int (cbuffer s) + int n\<rparr>) = limit_to (cbuffer s + n) s"
      using n f by (simp add: RecomputeBufferLimits_def limit_to_def Let_def)
    moreover have "int n \<le> INT_MAX - int (cbuffer s)" "int n < current_limit s - int (cbuffer s)"
      using n f by linarith+
    ultimately show ?thesis
      using True by (simp add: PushLimit_def CurrentPosition_flat [OF assms] f(3))
  next
    case False
    then have "cbuffer s + min n (length (avail s)) = cbuffer_end s" "\<not> int n < current_limit s - int (cbuffer s)"
      using length_avail_flat [OF assms] f by simp_all
    then show ?thesis
      by (simp add: PushLimit_def CurrentPosition_flat [OF assms] limit_to_same [OF assms] f(3))
  qed
qed

lemma PopLimit_flat [flat_simps]:
  assumes "flat s" "cbuffer_end s \<le> e" "e \<le> length (cdata s)"
  shows "PopLimit (int e) s = (limit_to e s)\<lparr>legitimate_message_end := False\<rparr>"
  using assms
  by (simp add: PopLimit_def RecomputeBufferLimits_def limit_to_def flat_def Let_def)

section \<open>What the stream promises\<close>

text \<open>Whichever of its paths a varint read takes (the inlined first byte, the unrolled array
  reader, the byte-by-byte loop), it returns the value of the reference decoder and steps over
  exactly its bytes, and it fails exactly when ten bytes or the stream end before the varint
  does. The 32-bit read keeps the low half of the value.\<close>

lemma stream_varints:
  assumes "flat s"
  shows "ReadVarint64 s = (case varint_dec 10 (avail s) of
        Some (v, n) \<Rightarrow> (True, of_nat v, Advance n s)
      | None \<Rightarrow> (False, 0, Advance (varint_fail s) s)) \<and>
    ReadVarint32 s = (case varint_dec 10 (avail s) of
        Some (v, n) \<Rightarrow> (True, of_nat v, Advance n s)
      | None \<Rightarrow> (False, -1, Advance (varint_fail s) s))"
  using ReadVarint64_flat [OF assms] ReadVarint32_flat [OF assms] by simp

lemma stream_varints_witness:
  "fst (ReadVarint64 (CodedInputStream [172, 2] 2)) = True"
proof -
  have "flat (CodedInputStream [172, 2] 2)" "avail (CodedInputStream [172, 2] 2) = [172, 2]"
    using flat_CodedInputStream [of "[172, 2]"] avail_CodedInputStream [of "[172, 2]"] by simp_all
  moreover have "varint_dec 10 [172, 2] = Some (300, 2)"
    using varint_dec.simps(3) [of 9 172 "[2]"] varint_dec.simps(3) [of 8 2 "[]"] by simp
  ultimately show ?thesis using stream_varints [of "CodedInputStream [172, 2] 2"] by simp
qed

text \<open>A limit pushed for a nested message shows exactly the bytes the length allows, and no more
  than the stream has; popping it with the value \<open>PushLimit\<close> returned, wherever inside the limit
  the stream then is, gives back every byte behind that place.\<close>

lemma limits_nest:
  assumes "flat s" "k \<le> min n (length (avail s))"
  shows "case PushLimit (int n) s of (old, t) \<Rightarrow>
    flat t \<and> avail t = take n (avail s) \<and>
    avail (PopLimit old (Advance k t)) = drop k (avail s) \<and> flat (PopLimit old (Advance k t))"
proof -
  let ?m = "min n (length (avail s))"
  let ?t = "limit_to (cbuffer s + ?m) s"
  have c: "cbuffer s + ?m \<le> cbuffer_end s" "cbuffer_end s \<le> length (cdata s)" "cbuffer s + ?m \<le> length (cdata s)"
    using assms(1) length_avail_flat [OF assms(1)] by (auto simp: flat_def)
  have t: "flat ?t" "avail ?t = take ?m (avail s)"
    using flat_limit_to [OF assms(1), of "cbuffer s + ?m"] avail_limit_to [OF assms(1), of ?m] c by simp_all
  then have k: "flat (Advance k ?t)" using assms(2) by (intro flat_Advance) simp_all
  have pop: "PopLimit (int (cbuffer_end s)) (Advance k ?t) =
      (limit_to (cbuffer_end s) (Advance k ?t))\<lparr>legitimate_message_end := False\<rparr>"
    using k c by (intro PopLimit_flat) simp_all
  have fit: "cbuffer s + k \<le> cbuffer_end s" using assms(2) c(1) by linarith
  have "avail (PopLimit (int (cbuffer_end s)) (Advance k ?t)) = drop k (avail s)"
    unfolding pop by (simp add: avail_def drop_take add.commute)
  moreover have "flat (PopLimit (int (cbuffer_end s)) (Advance k ?t))"
    unfolding pop using k fit c by (simp add: flat_limit_to)
  ultimately show ?thesis
    using t by (simp add: PushLimit_flat [OF assms(1)] min_def)
qed

lemma limits_nest_witness:
  "avail (snd (PushLimit 1 (CodedInputStream [7, 8] 2))) = [7]"
proof -
  have "flat (CodedInputStream [7, 8] 2)" "avail (CodedInputStream [7, 8] 2) = [7, 8]"
    using flat_CodedInputStream [of "[7, 8]"] avail_CodedInputStream [of "[7, 8]"] by simp_all
  with limits_nest [of "CodedInputStream [7, 8] 2" 1 1] show ?thesis by (auto split: prod.splits)
qed

text \<open>The tag reader specialised for one- and two-byte tags returns the tag and the stream that
  the general reader returns, and its flag says whether the tag is within the cutoff.\<close>

lemma tag_reader_with_cutoff:
  assumes "flat s" "ReadTagNoLastTag s = (tag, t)" "tag \<noteq> 0"
  shows "ReadTagWithCutoffNoLastTag cutoff s = (tag, tag \<le> cutoff, t)"
proof -
  have "tag_spec s = (tag, t)" using ReadTagNoLastTag_flat [OF assms(1)] assms(2) by simp
  then show ?thesis using ReadTagWithCutoffNoLastTag_flat [OF assms(1), of cutoff] assms(3) by auto
qed

lemma tag_reader_witness:
  "fst (ReadTagWithCutoffNoLastTag 127 (CodedInputStream [10, 0] 2)) = 10"
proof -
  have f: "flat (CodedInputStream [10, 0] 2)" "avail (CodedInputStream [10, 0] 2) = [10, 0]"
    using flat_CodedInputStream [of "[10, 0]"] avail_CodedInputStream [of "[10, 0]"] by simp_all
  have "varint_dec 10 [10, 0] = Some (10, 1)" using varint_dec.simps(3) [of 9 10 "[0]"] by simp
  with f have "ReadTagNoLastTag (CodedInputStream [10, 0] 2) = (10, Advance 1 (CodedInputStream [10, 0] 2))"
    by (simp add: ReadTagNoLastTag_flat tag_spec_def del: varint_dec.simps)
  from tag_reader_with_cutoff [OF f(1) this, of 127] show ?thesis by simp
qed

end
