(* ===== verification/Utf8.thy ===== *)
theory Utf8
  imports Varint
begin

text \<open>
  The UTF-8 validator of \<open>stubs/structurally_valid.cc\<close>, which decides whether the parser
  accepts a \<open>string\<close> field: the state table, the table scan with its aligned eight-byte
  skip, the ASCII front end, and the three functions built on them. Pointers into the
  string are offsets; \<open>addr\<close> is the address of its first byte, which the code looks at modulo 8.
  The words the skip loads are little-endian, as on the platforms the project builds for.
  \<open>utf8_encode\<close> is the standard's encoding of a scalar value, and the validator is proved to
  accept exactly the encodings of scalar values.
\<close>

section \<open>The state table\<close>

abbreviation kExitIllegalStructure :: nat where "kExitIllegalStructure \<equiv> 240"
abbreviation kExitOK :: nat where "kExitOK \<equiv> 241"
abbreviation kExitReject :: nat where "kExitReject \<equiv> 242"
abbreviation kExitDoAgain :: nat where "kExitDoAgain \<equiv> 253"

text \<open>The nine blocks of 256 entries, run by run; \<open>X\<close> is \<open>X__\<close> of the source.\<close>

definition state_blocks :: "nat list list" where
  "state_blocks =
     (let X = kExitIllegalStructure; R = kExitReject in
      [replicate 128 0 @ replicate 66 X @ replicate 30 1 @
         2 # replicate 12 3 @ 7 # replicate 2 3 @ 4 # replicate 3 5 @ 6 # replicate 11 X,
       replicate 128 X @ replicate 64 0 @ replicate 64 X,
       replicate 160 X @ replicate 32 1 @ replicate 64 X,
       replicate 128 X @ replicate 64 1 @ replicate 64 X,
       replicate 144 X @ replicate 48 3 @ replicate 64 X,
       replicate 128 X @ replicate 64 3 @ replicate 64 X,
       replicate 128 X @ replicate 16 3 @ replicate 112 X,
       replicate 128 X @ replicate 32 1 @ replicate 32 8 @ replicate 64 X,
       replicate 128 X @ replicate 64 R @ replicate 64 X])"

definition utf8acceptnonsurrogates :: "nat list" where
  "utf8acceptnonsurrogates = concat state_blocks"

definition utf8acceptnonsurrogates_fast :: "nat list" where
  "utf8acceptnonsurrogates_fast = replicate 128 0 @ replicate 128 1"

record UTF8StateMachineObj =
  state0 :: nat
  state0_size :: nat
  entry_shift :: nat
  losub :: u32
  hiadd :: u32
  state_table :: "nat list"
  fast_state :: "nat list"

definition utf8acceptnonsurrogates_obj :: UTF8StateMachineObj where
  "utf8acceptnonsurrogates_obj =
     \<lparr>state0 = 0, state0_size = 256, entry_shift = 8, losub = 0x20202020, hiadd = 0,
      state_table = utf8acceptnonsurrogates, fast_state = utf8acceptnonsurrogates_fast\<rparr>"

section \<open>The scan\<close>

text \<open>\<open>Tbl\<close> is the offset of the current block in the table.\<close>

definition InStateZero :: "UTF8StateMachineObj \<Rightarrow> nat \<Rightarrow> bool" where
  "InStateZero st Tbl \<longleftrightarrow> Tbl < state0 st + state0_size st \<and> state0 st \<le> Tbl"

function align_scan :: "UTF8StateMachineObj \<Rightarrow> nat \<Rightarrow> bytes \<Rightarrow> nat \<Rightarrow> nat" where
  "align_scan st addr str src =
     (if (addr + src) mod 8 \<noteq> 0 \<and> src < length str \<and> fast_state st ! unat (str ! src) = 0
      then align_scan st addr str (src + 1) else src)"
  by pat_completeness auto
termination by (relation "measure (\<lambda>(st, addr, str, src). length str - src)") auto

definition load32 :: "bytes \<Rightarrow> nat \<Rightarrow> u32" where
  "load32 str src = ReadLittleEndian32FromArray (drop src str)"

function fast8_scan :: "UTF8StateMachineObj \<Rightarrow> bytes \<Rightarrow> nat \<Rightarrow> nat" where
  "fast8_scan st str src =
     (if src + 7 < length str
      then let s0123 = load32 str src; s4567 = load32 str (src + 4); src' = src + 8;
               temp = (s0123 - losub st) OR (s0123 + hiadd st) OR
                      (s4567 - losub st) OR (s4567 + hiadd st);
               T = (\<lambda>i. fast_state st ! unat (str ! i))
           in if temp AND 0x80808080 \<noteq> 0
              then if T (src' - 8) OR T (src' - 7) OR (T (src' - 6) OR T (src' - 5)) \<noteq> 0
                   then src' - 8
                   else if T (src' - 4) OR T (src' - 3) OR (T (src' - 2) OR T (src' - 1)) \<noteq> 0
                   then src' - 4
                   else fast8_scan st str src'
              else fast8_scan st str src'
      else src)"
  by pat_completeness auto
termination by (relation "measure (\<lambda>(st, str, src). length str - src)") auto

text \<open>The byte-at-a-time scan returns \<open>src\<close>, the last entry \<open>e\<close> and the block \<open>Tbl\<close>.\<close>

function table_scan :: "UTF8StateMachineObj \<Rightarrow> bytes \<Rightarrow> nat \<Rightarrow> nat \<Rightarrow> nat \<Rightarrow> nat \<times> nat \<times> nat" where
  "table_scan st str src e Tbl =
     (if src < length str
      then let c = str ! src; e = state_table st ! (Tbl + unat c); src = src + 1
           in if e \<ge> kExitIllegalStructure then (src, e, Tbl)
              else table_scan st str src e (state0 st + push_bit (entry_shift st) e)
      else (src, e, Tbl))"
  by pat_completeness auto
termination by (relation "measure (\<lambda>(st, str, src, e, Tbl). length str - src)") auto

declare align_scan.simps [simp del] fast8_scan.simps [simp del] table_scan.simps [simp del]

fun back_up :: "bytes \<Rightarrow> nat \<Rightarrow> nat" where
  "back_up str 0 = 0"
| "back_up str (Suc src) =
     (if src > 0 \<and> str ! src AND 0xc0 = 0x80 then back_up str src else src)"

text \<open>From the exits on: the code and the position, backed up to the start of a character.\<close>

fun scan_exit :: "UTF8StateMachineObj \<Rightarrow> bytes \<Rightarrow> nat \<times> nat \<times> nat \<Rightarrow> nat \<times> nat" where
  "scan_exit st str (src, e, Tbl) =
     (if e \<ge> kExitIllegalStructure
      then (e, if \<not> InStateZero st Tbl then back_up str (src - 1) else src - 1)
      else if \<not> InStateZero st Tbl then (kExitIllegalStructure, back_up str src)
      else (kExitOK, src))"

text \<open>One pass from the label \<open>DoAgain\<close>.\<close>

definition scan_pass :: "UTF8StateMachineObj \<Rightarrow> nat \<Rightarrow> bytes \<Rightarrow> nat \<Rightarrow> nat \<times> nat" where
  "scan_pass st addr str src =
     (let src = align_scan st addr str src;
          src = (if (addr + src) mod 8 = 0 then fast8_scan st str src else src)
      in scan_exit st str (table_scan st str src 0 (state0 st)))"

section \<open>Well-formed UTF-8\<close>

text \<open>The byte ranges that may follow each lead byte.\<close>

definition utf8_ranges :: "u8 \<Rightarrow> (nat \<times> nat) list option" where
  "utf8_ranges c =
     (let b = unat c; any = (0x80, 0xBF)
      in if b < 0x80 then Some []
         else if b < 0xC2 then None
         else if b < 0xE0 then Some [any]
         else if b = 0xE0 then Some [(0xA0, 0xBF), any]
         else if b < 0xED then Some [any, any]
         else if b = 0xED then Some [(0x80, 0x9F), any]
         else if b < 0xF0 then Some [any, any]
         else if b = 0xF0 then Some [(0x90, 0xBF), any, any]
         else if b < 0xF4 then Some [any, any, any]
         else if b = 0xF4 then Some [(0x80, 0x8F), any, any]
         else None)"

fun conts :: "(nat \<times> nat) list \<Rightarrow> bytes \<Rightarrow> bool" where
  "conts [] bs = True"
| "conts (r # rs) [] = False"
| "conts (r # rs) (c # cs) = (fst r \<le> unat c \<and> unat c \<le> snd r \<and> conts rs cs)"

definition utf8_char :: "bytes \<Rightarrow> nat option" where
  "utf8_char bs =
     (case bs of [] \<Rightarrow> None
      | b # cs \<Rightarrow> (case utf8_ranges b of None \<Rightarrow> None
                 | Some rs \<Rightarrow> if conts rs cs then Some (Suc (length rs)) else None))"

lemma utf8_char_pos: "utf8_char bs = Some n \<Longrightarrow> 0 < n \<and> bs \<noteq> []"
  by (auto simp: utf8_char_def split: list.splits option.splits if_splits)

lemma conts_length: "conts rs cs \<Longrightarrow> length rs \<le> length cs"
  by (induction rs cs rule: conts.induct) auto

lemma utf8_char_le: "utf8_char bs = Some n \<Longrightarrow> n \<le> length bs"
  by (auto simp: utf8_char_def dest: conts_length split: list.splits option.splits if_splits)

text \<open>The length of the longest prefix of whole characters.\<close>

function utf8_spn :: "bytes \<Rightarrow> nat" where
  "utf8_spn bs = (case utf8_char bs of None \<Rightarrow> 0 | Some n \<Rightarrow> n + utf8_spn (drop n bs))"
  by pat_completeness auto
termination by (relation "measure length") (auto dest: utf8_char_pos)

declare utf8_spn.simps [simp del]

lemma utf8_spn_le: "utf8_spn bs \<le> length bs"
proof (induction bs rule: utf8_spn.induct)
  case (1 bs)
  then show ?case
    using utf8_char_le by (subst utf8_spn.simps) (fastforce split: option.splits)
qed

section \<open>What the table says\<close>

lemma nth_concat_blocks:
  "(\<And>b. b \<in> set bs \<Longrightarrow> length b = m) \<Longrightarrow> k < length bs \<Longrightarrow> n < m \<Longrightarrow> concat bs ! (m * k + n) = bs ! k ! n"
proof (induction bs arbitrary: k)
  case (Cons b bs)
  then show ?case by (cases k) (auto simp: nth_append)
qed simp

lemma state_table_nth:
  "k < 9 \<Longrightarrow> state_table utf8acceptnonsurrogates_obj ! (256 * k + unat (c :: u8)) = state_blocks ! k ! unat c"
  unfolding utf8acceptnonsurrogates_obj_def utf8acceptnonsurrogates_def UTF8StateMachineObj.simps
  by (rule nth_concat_blocks) (auto simp: state_blocks_def Let_def)

lemma nine_nth:
  "[a, b, c, d, e, f, g, h, i] ! 0 = a" "[a, b, c, d, e, f, g, h, i] ! 1 = b"
  "[a, b, c, d, e, f, g, h, i] ! 2 = c" "[a, b, c, d, e, f, g, h, i] ! 3 = d"
  "[a, b, c, d, e, f, g, h, i] ! 4 = e" "[a, b, c, d, e, f, g, h, i] ! 5 = f"
  "[a, b, c, d, e, f, g, h, i] ! 6 = g" "[a, b, c, d, e, f, g, h, i] ! 7 = h"
  "[a, b, c, d, e, f, g, h, i] ! 8 = i"
  by simp_all

lemma state_blocks_nth:
  "state_blocks ! 0 = replicate 128 0 @ replicate 66 240 @ replicate 30 1 @
         2 # replicate 12 3 @ 7 # replicate 2 3 @ 4 # replicate 3 5 @ 6 # replicate 11 240"
  "state_blocks ! 1 = replicate 128 240 @ replicate 64 0 @ replicate 64 240"
  "state_blocks ! 2 = replicate 160 240 @ replicate 32 1 @ replicate 64 240"
  "state_blocks ! 3 = replicate 128 240 @ replicate 64 1 @ replicate 64 240"
  "state_blocks ! 4 = replicate 144 240 @ replicate 48 3 @ replicate 64 240"
  "state_blocks ! 5 = replicate 128 240 @ replicate 64 3 @ replicate 64 240"
  "state_blocks ! 6 = replicate 128 240 @ replicate 16 3 @ replicate 112 240"
  "state_blocks ! 7 = replicate 128 240 @ replicate 32 1 @ replicate 32 8 @ replicate 64 240"
  "state_blocks ! 8 = replicate 128 240 @ replicate 64 242 @ replicate 64 240"
  unfolding state_blocks_def Let_def by (rule nine_nth)+

text \<open>
  The ranges still expected in each state; nothing satisfies state 8, which a surrogate's
  second byte leads to.
\<close>

definition state_ranges :: "nat \<Rightarrow> (nat \<times> nat) list" where
  "state_ranges k =
     [[], [(128, 191)], [(160, 191), (128, 191)], [(128, 191), (128, 191)],
      [(144, 191), (128, 191), (128, 191)], [(128, 191), (128, 191), (128, 191)],
      [(128, 143), (128, 191), (128, 191)], [(128, 159), (128, 191)], [(1, 0)]] ! k"

lemma state_ranges_simps:
  "state_ranges 0 = []" "state_ranges 1 = [(128, 191)]"
  "state_ranges 2 = [(160, 191), (128, 191)]" "state_ranges 3 = [(128, 191), (128, 191)]"
  "state_ranges 4 = [(144, 191), (128, 191), (128, 191)]"
  "state_ranges 5 = [(128, 191), (128, 191), (128, 191)]"
  "state_ranges 6 = [(128, 143), (128, 191), (128, 191)]"
  "state_ranges 7 = [(128, 159), (128, 191)]" "state_ranges 8 = [(1, 0)]"
  by (simp_all only: state_ranges_def nine_nth)

lemma state_block0:
  "n < 256 \<Longrightarrow> state_blocks ! 0 ! n =
     (if n < 128 then 0 else if n < 194 then 240 else if n < 224 then 1 else if n = 224 then 2
      else if n < 237 then 3 else if n = 237 then 7 else if n < 240 then 3 else if n = 240 then 4
      else if n < 244 then 5 else if n = 244 then 6 else 240)"
  unfolding state_blocks_nth by (auto simp: nth_append nth_Cons' not_less)

lemma state_blocks_cont:
  assumes "n < 256"
  shows "state_blocks ! 1 ! n = (if n < 128 then 240 else if n < 192 then 0 else 240)"
  "state_blocks ! 2 ! n = (if n < 160 then 240 else if n < 192 then 1 else 240)"
  "state_blocks ! 3 ! n = (if n < 128 then 240 else if n < 192 then 1 else 240)"
  "state_blocks ! 4 ! n = (if n < 144 then 240 else if n < 192 then 3 else 240)"
  "state_blocks ! 5 ! n = (if n < 128 then 240 else if n < 192 then 3 else 240)"
  "state_blocks ! 6 ! n = (if n < 128 then 240 else if n < 144 then 3 else 240)"
  "state_blocks ! 7 ! n =
     (if n < 128 then 240 else if n < 160 then 1 else if n < 192 then 8 else 240)"
  "state_blocks ! 8 ! n = (if n < 128 then 240 else if n < 192 then 242 else 240)"
  unfolding state_blocks_nth using assms by (auto simp: nth_append)

lemma conts_none [simp]: "\<not> conts [(Suc 0, 0)] cs"
  by (cases cs) auto

text \<open>The first block sorts lead bytes by what must follow.\<close>

lemma entry_lead:
  "(case utf8_ranges c of
      None \<Rightarrow> state_blocks ! 0 ! unat c = 240
    | Some rs \<Rightarrow> state_blocks ! 0 ! unat c < 9 \<and> state_blocks ! 0 ! unat c \<noteq> 8 \<and>
               state_ranges (state_blocks ! 0 ! unat c) = rs)"
  using u8_less [of c] 
  by (simp only: state_block0 utf8_ranges_def Let_def) (simp add: state_ranges_simps state_ranges_simps(2) [simplified])

text \<open>In the other states a byte is a step through the ranges, or an error.\<close>

lemma entry_cont:
  assumes "0 < k" "k < 9"
  shows "(state_blocks ! k ! unat c \<in> {240, 242} \<and> \<not> conts (state_ranges k) (c # cs)) \<or>
         (state_blocks ! k ! unat c < 9 \<and> 128 \<le> unat c \<and> unat c < 192 \<and>
            conts (state_ranges k) (c # cs) = conts (state_ranges (state_blocks ! k ! unat c)) cs \<and>
            (conts (state_ranges k) (c # cs) \<longrightarrow>
               length (state_ranges k) = Suc (length (state_ranges (state_blocks ! k ! unat c)))))"
proof -
  note simps = state_blocks_cont [OF u8_less] state_ranges_simps state_ranges_simps(2) [simplified]
  from assms consider "k = 1" | "k = 2" | "k = 3" | "k = 4" | "k = 5" | "k = 6" | "k = 7" | "k = 8"
    by linarith
  then show ?thesis
  proof cases
    case 1 then show ?thesis by (simp only: simps) (auto simp: simps)
  next
    case 2 then show ?thesis by (simp only: simps) (auto simp: simps)
  next
    case 3 then show ?thesis by (simp only: simps) (auto simp: simps)
  next
    case 4 then show ?thesis by (simp only: simps) (auto simp: simps)
  next
    case 5 then show ?thesis by (simp only: simps) (auto simp: simps)
  next
    case 6 then show ?thesis by (simp only: simps) (auto simp: simps)
  next
    case 7 then show ?thesis by (simp only: simps) (auto simp: simps)
  next
    case 8 then show ?thesis by (simp only: simps) (auto simp: simps)
  qed
qed

section \<open>Scanning\<close>

abbreviation scan_obj :: UTF8StateMachineObj where "scan_obj \<equiv> utf8acceptnonsurrogates_obj"

lemma st_simps [simp]: "state0 scan_obj = 0" "entry_shift scan_obj = 8" "losub scan_obj = 0x20202020" "hiadd scan_obj = 0"
  "fast_state scan_obj = utf8acceptnonsurrogates_fast"
  by (simp_all add: utf8acceptnonsurrogates_obj_def)

lemma InStateZero_block [simp]: "InStateZero scan_obj (256 * k) \<longleftrightarrow> k = 0"
  by (auto simp: InStateZero_def utf8acceptnonsurrogates_obj_def)

lemma fast_nth: "utf8acceptnonsurrogates_fast ! unat (c :: u8) = (if unat c < 128 then 0 else 1)"
proof -
  have "unat c - 128 < 128" using u8_less [of c] by linarith
  then show ?thesis by (simp add: utf8acceptnonsurrogates_fast_def nth_append)
qed

abbreviation is_cont :: "u8 \<Rightarrow> bool" where "is_cont c \<equiv> 128 \<le> unat c \<and> unat c < 192"

lemma cont_mask: "c AND 0xc0 = (0x80 :: u8) \<longleftrightarrow> is_cont c"
proof -
  have m: "(0xc0 :: u8) = NOT (mask 6)"
    by (simp add: mask_eq_exp_minus_1 not_eq_complement)
  have "c AND 0xc0 = push_bit 6 (drop_bit 6 c)"
    unfolding m by (rule bit_eqI) (auto simp: bit_simps)
  moreover have "unat (push_bit 6 (drop_bit 6 c)) = unat c div 64 * 64"
  proof -
    have "unat c div 64 * 64 < 256" using u8_less [of c] by linarith
    then show ?thesis
      by (simp add: push_bit_eq_mult unat_mult_lem unat_word_ariths(2) unat_drop_bit_eq drop_bit_eq_div unat_div)
  qed
  ultimately have "unat (c AND 0xc0) = unat c div 64 * 64" by simp
  moreover have "(c AND 0xc0 = 0x80) \<longleftrightarrow> unat (c AND 0xc0) = 128"
    by (simp add: word_unat_eq_iff)
  ultimately show ?thesis by auto
qed

lemma back_up_lead:
  assumes "p < src" "\<And>i. p < i \<Longrightarrow> i < src \<Longrightarrow> is_cont (str ! i)" "p = 0 \<or> \<not> is_cont (str ! p)"
  shows "back_up str src = p"
  using assms
proof (induction src)
  case (Suc n)
  show ?case
  proof (cases "p = n")
    case True
    with Suc.prems show ?thesis by (auto simp: cont_mask)
  next
    case False
    with Suc show ?thesis by (auto simp: cont_mask)
  qed
qed simp

lemma scan_step:
  assumes "k < 9" "src < length str"
  shows "table_scan scan_obj str src e (256 * k) =
     (let e' = state_blocks ! k ! unat (str ! src)
      in if e' \<ge> 240 then (src + 1, e', 256 * k) else table_scan scan_obj str (src + 1) e' (256 * e'))"
proof -
  have "push_bit 8 n = 256 * n" for n :: nat by (simp add: push_bit_eq_mult)
  with assms show ?thesis
    by (subst table_scan.simps) (simp add: Let_def state_table_nth)
qed

lemma scan_end: "src = length str \<Longrightarrow> table_scan scan_obj str src e Tbl = (src, e, Tbl)"
  by (simp add: table_scan.simps)

lemma scan_inside:
  assumes "0 < k" "k < 9" "src \<le> length str" "conts (state_ranges k) (drop src str)"
  shows "table_scan scan_obj str src e (256 * k) = table_scan scan_obj str (src + length (state_ranges k)) 0 0"
  using assms
proof (induction "length str - src" arbitrary: src k e)
  case 0
  then have "state_ranges k = []" by (cases "state_ranges k") auto
  moreover have "state_ranges k \<noteq> []"
    using 0(2,3) by (auto simp: less_Suc_eq eval_nat_numeral state_ranges_def)
  ultimately show ?case by simp
next
  case (Suc n)
  then have lt: "src < length str" by simp
  then have d: "drop src str = str ! src # drop (Suc src) str" by (simp add: Cons_nth_drop_Suc)
  let ?k = "state_blocks ! k ! unat (str ! src)"
  from entry_cont [OF Suc.prems(1,2), of "str ! src" "drop (Suc src) str"] Suc.prems(4) d
  have k: "?k < 9" "conts (state_ranges ?k) (drop (Suc src) str)"
    "length (state_ranges k) = Suc (length (state_ranges ?k))" by auto
  have "table_scan scan_obj str src e (256 * k) = table_scan scan_obj str (Suc src) ?k (256 * ?k)"
    using k(1) by (simp add: scan_step [OF Suc.prems(2) lt] Let_def)
  also have "\<dots> = table_scan scan_obj str (Suc src + length (state_ranges ?k)) 0 0"
  proof (cases "?k = 0")
    case True
    then show ?thesis by (simp add: state_ranges_simps)
  next
    case False
    then show ?thesis using Suc.hyps k lt by (intro Suc.hyps(1)) auto
  qed
  finally show ?case by (simp add: k(3))
qed

lemma scan_outside:
  assumes "0 < k" "k < 9" "src \<le> length str" "\<not> conts (state_ranges k) (drop src str)"
    and "p < src" "\<And>i. p < i \<Longrightarrow> i < src \<Longrightarrow> is_cont (str ! i)" "p = 0 \<or> \<not> is_cont (str ! p)"
  shows "\<exists>e\<in>{240, 242}. scan_exit scan_obj str (table_scan scan_obj str src k (256 * k)) = (e, p)"
  using assms
proof (induction "length str - src" arbitrary: src k)
  case 0
  then have "src = length str" by simp
  then show ?case using 0 back_up_lead [of p src str] by (simp add: scan_end)
next
  case (Suc n)
  then have lt: "src < length str" by simp
  then have d: "drop src str = str ! src # drop (Suc src) str" by (simp add: Cons_nth_drop_Suc)
  let ?k = "state_blocks ! k ! unat (str ! src)"
  show ?case
  proof (cases "?k \<in> {240, 242}")
    case True
    then have "table_scan scan_obj str src k (256 * k) = (Suc src, ?k, 256 * k)"
      by (auto simp add: scan_step [OF Suc.prems(2) lt] Let_def)
    with True Suc.prems back_up_lead [of p src str] show ?thesis by auto
  next
    case False
    with entry_cont [OF Suc.prems(1,2), of "str ! src" "drop (Suc src) str"] Suc.prems(4) d
    have k: "?k < 9" "\<not> conts (state_ranges ?k) (drop (Suc src) str)" "is_cont (str ! src)" by auto
    then have "0 < ?k" by (auto simp: state_ranges_simps intro!: gr0I)
    moreover have "table_scan scan_obj str src k (256 * k) = table_scan scan_obj str (Suc src) ?k (256 * ?k)"
      using k(1) by (simp add: scan_step [OF Suc.prems(2) lt] Let_def)
    moreover have "is_cont (str ! i)" if "p < i" "i < Suc src" for i
      using that Suc.prems(6) k(3) by (cases "i = src") auto
    ultimately show ?thesis
      using Suc.hyps(1) [of "Suc src" ?k] Suc.hyps(2) Suc.prems lt k by simp
  qed
qed

lemma scan_spn:
  "src \<le> length str \<Longrightarrow>
   \<exists>e. scan_exit scan_obj str (table_scan scan_obj str src 0 0) = (e, src + utf8_spn (drop src str)) \<and>
     (if src + utf8_spn (drop src str) = length str then e = kExitOK else e \<in> {240, 242})"
proof (induction "length str - src" arbitrary: src rule: less_induct)
  case less
  show ?case
  proof (cases "src = length str")
    case True
    then show ?thesis using InStateZero_block [of 0] by (simp add: scan_end utf8_spn.simps utf8_char_def)
  next
    case False
    with less.prems have lt: "src < length str" by simp
    then have d: "drop src str = str ! src # drop (Suc src) str" by (simp add: Cons_nth_drop_Suc)
    let ?c = "str ! src" let ?k = "state_blocks ! 0 ! unat ?c"
    have step: "table_scan scan_obj str src 0 0 =
       (if ?k \<ge> 240 then (src + 1, ?k, 0) else table_scan scan_obj str (src + 1) ?k (256 * ?k))"
      using scan_step [of 0 src str 0] lt by (simp add: Let_def)
    show ?thesis
    proof (cases "utf8_ranges ?c")
      case None
      then have "?k = 240" using entry_lead [of ?c] by simp
      moreover have "utf8_spn (drop src str) = 0"
        using d None by (simp add: utf8_spn.simps utf8_char_def)
      ultimately show ?thesis using step InStateZero_block [of 0] lt by simp
    next
      case (Some rs)
      then have k: "?k < 9" "state_ranges ?k = rs" using entry_lead [of ?c] by simp_all
      show ?thesis
      proof (cases "conts rs (drop (Suc src) str)")
        case True
        then have c: "utf8_char (drop src str) = Some (Suc (length rs))"
          using d Some by (simp add: utf8_char_def)
        then have spn: "utf8_spn (drop src str) = Suc (length rs) + utf8_spn (drop (src + Suc (length rs)) str)"
          by (simp add: utf8_spn.simps [of "drop src str"] add.commute)
        have le: "src + Suc (length rs) \<le> length str"
          using utf8_char_le [OF c] lt by simp
        have "table_scan scan_obj str src 0 0 = table_scan scan_obj str (src + Suc (length rs)) 0 0"
        proof (cases "?k = 0")
          case True
          with step k show ?thesis by (simp add: state_ranges_simps)
        next
          case False
          then show ?thesis
            using step k scan_inside [of ?k "Suc src" str ?k] lt \<open>conts rs _\<close> by simp
        qed
        then show ?thesis
          using less.hyps [of "src + Suc (length rs)"] le lt spn by (simp add: add.assoc)
      next
        case False
        then have spn: "utf8_spn (drop src str) = 0"
          using d Some by (simp add: utf8_spn.simps utf8_char_def)
        have "0 < ?k" using k False by (auto simp: state_ranges_simps intro!: gr0I)
        moreover have "\<not> is_cont ?c" using Some by (auto simp: utf8_ranges_def Let_def split: if_splits)
        ultimately have "\<exists>e\<in>{240, 242}. scan_exit scan_obj str (table_scan scan_obj str (Suc src) ?k (256 * ?k)) = (e, src)"
          using k False lt by (intro scan_outside) auto
        with step k spn lt show ?thesis by auto
      qed
    qed
  qed
qed

subsection \<open>Skipping ASCII\<close>

definition ascii_to :: "bytes \<Rightarrow> nat \<Rightarrow> nat \<Rightarrow> bool" where
  "ascii_to str src src' \<longleftrightarrow>
     src \<le> src' \<and> src' \<le> length str \<and> (\<forall>i. src \<le> i \<and> i < src' \<longrightarrow> unat (str ! i) < 128)"

lemma ascii_to_refl: "src \<le> length str \<Longrightarrow> ascii_to str src src"
  by (simp add: ascii_to_def)

lemma ascii_to_trans: "ascii_to str a b \<Longrightarrow> ascii_to str b c \<Longrightarrow> ascii_to str a c"
  unfolding ascii_to_def by (metis le_trans not_le)

lemma ascii_to_Suc: "src < length str \<Longrightarrow> unat (str ! src) < 128 \<Longrightarrow> ascii_to str src (Suc src)"
  by (auto simp: ascii_to_def less_Suc_eq)

lemma utf8_spn_ascii: "unat c < 128 \<Longrightarrow> utf8_spn (c # cs) = Suc (utf8_spn cs)"
  by (subst utf8_spn.simps) (simp add: utf8_char_def utf8_ranges_def Let_def)

lemma utf8_spn_ascii_to:
  "ascii_to str src src' \<Longrightarrow> src' + utf8_spn (drop src' str) = src + utf8_spn (drop src str)"
proof (induction "src' - src" arbitrary: src)
  case 0
  then show ?case by (simp add: ascii_to_def)
next
  case (Suc n)
  then have "src < length str" "unat (str ! src) < 128" "ascii_to str (Suc src) src'"
    by (auto simp: ascii_to_def)
  then show ?case
    using Suc.hyps(1) [of "Suc src"] Suc.hyps(2) utf8_spn_ascii [of "str ! src" "drop (Suc src) str"]
    by (simp add: Cons_nth_drop_Suc)
qed

lemma align_scan_ascii: "src \<le> length str \<Longrightarrow> ascii_to str src (align_scan scan_obj addr str src)"
proof (induction "length str - src" arbitrary: src)
  case 0
  then show ?case by (subst align_scan.simps) (simp add: ascii_to_refl)
next
  case (Suc n)
  then have lt: "src < length str" by simp
  have ih: "ascii_to str (Suc src) (align_scan scan_obj addr str (Suc src))"
    using Suc.hyps lt by (intro Suc.hyps(1)) auto
  have "unat (str ! src) < 128" if "fast_state scan_obj ! unat (str ! src) = 0"
    using that fast_nth [of "str ! src"] by (simp split: if_splits)
  with ih lt show ?case
    by (subst align_scan.simps) (auto simp: ascii_to_refl intro: ascii_to_trans [OF ascii_to_Suc])
qed

lemma and_high_bits:
  "(x :: u32) AND 0x80808080 = 0 \<longleftrightarrow> \<not> bit x 7 \<and> \<not> bit x 15 \<and> \<not> bit x 23 \<and> \<not> bit x 31"
proof -
  have m: "(0x80808080 :: u32) = 2 ^ 7 OR 2 ^ 15 OR 2 ^ 23 OR 2 ^ 31" by simp
  show ?thesis
    unfolding m by (simp only: bit.conj_disj_distrib or_eq_0_iff and_exp_eq_0_iff_not_bit)
qed

lemma load32_and:
  assumes "src + 3 < length str"
  shows "load32 str src AND 0x80808080 = 0 \<longleftrightarrow>
     unat (str ! src) < 128 \<and> unat (str ! (src + 1)) < 128 \<and>
     unat (str ! (src + 2)) < 128 \<and> unat (str ! (src + 3)) < 128"
proof -
  have "\<not> bit (b :: u8) 15" "\<not> bit b 23" "\<not> bit b 31" for b
    by (auto dest: bit_imp_le_length)
  with assms show ?thesis
    unfolding and_high_bits
    by (simp add: load32_def ReadLittleEndian32FromArray_def bit_simps bit7_byte not_le add.commute)
qed

lemma ascii_run4:
  assumes "src + 3 < length str" "unat (str ! (src + 0)) < 128" "unat (str ! (src + 1)) < 128"
    "unat (str ! (src + 2)) < 128" "unat (str ! (src + 3)) < 128"
  shows "ascii_to str src (src + 4)"
  unfolding ascii_to_def
proof (intro conjI allI impI)
  fix i assume "src \<le> i \<and> i < src + 4"
  then consider "i = src + 0" | "i = src + 1" | "i = src + 2" | "i = src + 3" by linarith
  then show "unat (str ! i) < 128" using assms by cases simp_all
qed (use assms in auto)

lemma load32_ascii:
  "src + 3 < length str \<Longrightarrow> load32 str src AND 0x80808080 = 0 \<Longrightarrow> ascii_to str src (src + 4)"
  using load32_and [of src str] by (intro ascii_run4) simp_all

lemma fast8_scan_ascii: "src \<le> length str \<Longrightarrow> ascii_to str src (fast8_scan scan_obj str src)"
proof (induction "length str - src" arbitrary: src rule: less_induct)
  case less
  show ?case
  proof (cases "src + 7 < length str")
    case False
    then show ?thesis using less.prems by (subst fast8_scan.simps) (simp add: ascii_to_refl)
  next
    case True
    let ?T = "\<lambda>i. fast_state scan_obj ! unat (str ! i)"
    let ?temp = "(load32 str src - 0x20202020) OR (load32 str src + 0) OR
      (load32 str (src + 4) - 0x20202020) OR (load32 str (src + 4) + 0)"
    let ?lo = "?T (src + 0) OR ?T (src + 1) OR (?T (src + 2) OR ?T (src + 3))"
    let ?hi = "?T (src + 4) OR ?T (src + 5) OR (?T (src + 6) OR ?T (src + 7))"
    have T: "?T i = 0 \<longleftrightarrow> unat (str ! i) < 128" for i by (simp add: fast_nth)
    have lo: "ascii_to str src (src + 4)" if "?lo = 0"
    proof (rule ascii_run4)
      show "src + 3 < length str" using True by simp
      from that show "unat (str ! (src + 0)) < 128" "unat (str ! (src + 1)) < 128"
        "unat (str ! (src + 2)) < 128" "unat (str ! (src + 3)) < 128"
        by (simp_all only: or_eq_0_iff T)
    qed
    have hi: "ascii_to str (src + 4) (src + 4 + 4)" if "?hi = 0"
    proof (rule ascii_run4)
      show "src + 4 + 3 < length str" using True by simp
      from that show "unat (str ! (src + 4 + 0)) < 128" "unat (str ! (src + 4 + 1)) < 128"
        "unat (str ! (src + 4 + 2)) < 128" "unat (str ! (src + 4 + 3)) < 128"
        by (simp_all only: or_eq_0_iff T add.assoc add_0_right numeral_plus_one add_num_simps one_plus_numeral numeral_plus_numeral semiring_norm)
    qed
    have temp: "?lo = 0 \<and> ?hi = 0" if "?temp AND 0x80808080 = 0"
    proof -
      from that have "load32 str src AND 0x80808080 = 0" "load32 str (src + 4) AND 0x80808080 = 0"
        by (simp_all add: bit.conj_disj_distrib2 or_eq_0_iff)
      then show ?thesis using True load32_and [of src str] load32_and [of "src + 4" str]
        by (simp add: T fast_nth add.commute)
    qed
    have ih: "ascii_to str (src + 8) (fast8_scan scan_obj str (src + 8))"
      using True by (intro less.hyps) auto
    have eq: "fast8_scan scan_obj str src =
      (if ?temp AND 0x80808080 \<noteq> 0
       then if ?lo \<noteq> 0 then src else if ?hi \<noteq> 0 then src + 4 else fast8_scan scan_obj str (src + 8)
       else fast8_scan scan_obj str (src + 8))"
    proof -
      have ix: "src + 8 - 8 = src + 0" "src + 8 - 7 = src + 1" "src + 8 - 6 = src + 2" "src + 8 - 5 = src + 3"
        "src + 8 - 4 = src + 4" "src + 8 - 3 = src + 5" "src + 8 - 2 = src + 6" "src + 8 - 1 = src + 7"
        by simp_all
      show ?thesis
        by (subst fast8_scan.simps) (simp only: True if_True Let_def ix st_simps add_0_right)
    qed
    have all: "ascii_to str src (src + 8)" if "?lo = 0" "?hi = 0"
      using ascii_to_trans [OF lo hi] that by (simp add: add.assoc)
    show ?thesis
      unfolding eq using lo all temp ih less.prems
      by (auto simp: ascii_to_refl intro: ascii_to_trans)
  qed
qed

lemma scan_pass_spn:
  "src \<le> length str \<Longrightarrow>
   \<exists>e. scan_pass scan_obj addr str src = (e, src + utf8_spn (drop src str)) \<and>
     (if src + utf8_spn (drop src str) = length str then e = kExitOK else e \<in> {240, 242})"
proof -
  assume le: "src \<le> length str"
  define src1 where "src1 = align_scan scan_obj addr str src"
  define src2 where "src2 = (if (addr + src1) mod 8 = 0 then fast8_scan scan_obj str src1 else src1)"
  have a: "ascii_to str src src1" unfolding src1_def using le by (rule align_scan_ascii)
  have "ascii_to str src1 src2"
    using a by (auto simp: src2_def ascii_to_def intro: fast8_scan_ascii [unfolded ascii_to_def, rule_format])
      (use a fast8_scan_ascii [of src1 str] in \<open>auto simp: ascii_to_def\<close>)
  with a have "ascii_to str src src2" by (rule ascii_to_trans)
  then have "src2 + utf8_spn (drop src2 str) = src + utf8_spn (drop src str)" "src2 \<le> length str"
    by (simp_all add: utf8_spn_ascii_to) (simp add: ascii_to_def)
  with scan_spn [of src2 str]
  show ?thesis by (simp add: scan_pass_def Let_def src1_def [symmetric] src2_def [symmetric])
qed

lemma scan_pass_not_DoAgain: "src \<le> length str \<Longrightarrow> fst (scan_pass scan_obj addr str src) \<noteq> kExitDoAgain"
  using scan_pass_spn [of src str addr] by (auto split: if_splits)

section \<open>The entry points\<close>

text \<open>\<open>goto DoAgain\<close> is never taken: no entry of the table is \<open>kExitDoAgain\<close>.\<close>

function scan_from :: "nat \<Rightarrow> bytes \<Rightarrow> nat \<Rightarrow> nat \<times> nat" where
  "scan_from addr str src =
     (if src \<le> length str \<and> fst (scan_pass utf8acceptnonsurrogates_obj addr str src) = kExitDoAgain
      then scan_from addr str (snd (scan_pass utf8acceptnonsurrogates_obj addr str src))
      else scan_pass utf8acceptnonsurrogates_obj addr str src)"
  by pat_completeness auto
termination by (relation "measure (\<lambda>_. 0)") (auto simp: scan_pass_not_DoAgain)

declare scan_from.simps [simp del]

definition UTF8GenericScan :: "nat \<Rightarrow> bytes \<Rightarrow> nat \<times> nat" where
  "UTF8GenericScan addr str = (if length str = 0 then (kExitOK, 0) else scan_from addr str 0)"

text \<open>\<open>UTF8GenericScanFastAscii\<close>: the two loops that step over ASCII before each scan.\<close>

function align_ascii :: "nat \<Rightarrow> bytes \<Rightarrow> nat \<Rightarrow> nat" where
  "align_ascii addr str src =
     (if (addr + src) mod 8 \<noteq> 0 \<and> src < length str \<and> str ! src < 0x80
      then align_ascii addr str (src + 1) else src)"
  by pat_completeness auto
termination by (relation "measure (\<lambda>(addr, str, src). length str - src)") auto

function fast8_ascii :: "bytes \<Rightarrow> nat \<Rightarrow> nat" where
  "fast8_ascii str src =
     (if src + 7 < length str \<and> (load32 str src OR load32 str (src + 4)) AND 0x80808080 = 0
      then fast8_ascii str (src + 8) else src)"
  by pat_completeness auto
termination by (relation "measure (\<lambda>(str, src). length str - src)") auto

function byte_ascii :: "bytes \<Rightarrow> nat \<Rightarrow> nat" where
  "byte_ascii str src =
     (if src < length str \<and> str ! src < 0x80 then byte_ascii str (src + 1) else src)"
  by pat_completeness auto
termination by (relation "measure (\<lambda>(str, src). length str - src)") auto

declare align_ascii.simps [simp del] fast8_ascii.simps [simp del] byte_ascii.simps [simp del]

definition fast_ascii_pass :: "nat \<Rightarrow> bytes \<Rightarrow> nat \<Rightarrow> nat \<times> nat" where
  "fast_ascii_pass addr str src =
     (let src = align_ascii addr str src;
          src = (if (addr + src) mod 8 = 0 then fast8_ascii str src else src);
          src = byte_ascii str src;
          (exit_reason, rest_consumed) = UTF8GenericScan (addr + src) (drop src str)
      in (exit_reason, src + rest_consumed))"

lemma byte_lt_0x80: "(c :: u8) < 0x80 \<longleftrightarrow> unat c < 128"
  by (simp add: word_less_nat_alt)

lemma align_ascii_ascii: "src \<le> length str \<Longrightarrow> ascii_to str src (align_ascii addr str src)"
proof (induction "length str - src" arbitrary: src)
  case 0
  then show ?case by (subst align_ascii.simps) (simp add: ascii_to_refl)
next
  case (Suc n)
  then have lt: "src < length str" by simp
  have "ascii_to str (Suc src) (align_ascii addr str (Suc src))"
    using Suc.hyps lt by (intro Suc.hyps(1)) auto
  with lt show ?case
    by (subst align_ascii.simps)
      (auto simp: ascii_to_refl byte_lt_0x80 intro: ascii_to_trans [OF ascii_to_Suc])
qed

lemma byte_ascii_ascii: "src \<le> length str \<Longrightarrow> ascii_to str src (byte_ascii str src)"
proof (induction "length str - src" arbitrary: src)
  case 0
  then show ?case by (subst byte_ascii.simps) (simp add: ascii_to_refl)
next
  case (Suc n)
  then have lt: "src < length str" by simp
  have "ascii_to str (Suc src) (byte_ascii str (Suc src))"
    using Suc.hyps lt by (intro Suc.hyps(1)) auto
  with lt show ?case
    by (subst byte_ascii.simps)
      (auto simp: ascii_to_refl byte_lt_0x80 intro: ascii_to_trans [OF ascii_to_Suc])
qed

lemma fast8_ascii_ascii: "src \<le> length str \<Longrightarrow> ascii_to str src (fast8_ascii str src)"
proof (induction "length str - src" arbitrary: src rule: less_induct)
  case less
  show ?case
  proof (cases "src + 7 < length str \<and> (load32 str src OR load32 str (src + 4)) AND 0x80808080 = 0")
    case False
    then show ?thesis
      by (subst fast8_ascii.simps) (simp only: if_False ascii_to_refl [OF less.prems])
  next
    case True
    then have "load32 str src AND 0x80808080 = 0" "load32 str (src + 4) AND 0x80808080 = 0"
      by (simp_all add: bit.conj_disj_distrib2 or_eq_0_iff)
    with True have "ascii_to str src (src + 8)"
      using ascii_to_trans [OF load32_ascii [of src str] load32_ascii [of "src + 4" str]]
      by (simp add: add.assoc)
    moreover have "ascii_to str (src + 8) (fast8_ascii str (src + 8))"
      using True by (intro less.hyps) auto
    ultimately show ?thesis
      using True by (subst fast8_ascii.simps) (auto intro: ascii_to_trans)
  qed
qed


lemma scan_from_spn:
  assumes "src \<le> length str"
  shows "\<exists>e. scan_from addr str src = (e, src + utf8_spn (drop src str)) \<and>
     (if src + utf8_spn (drop src str) = length str then e = kExitOK else e \<in> {240, 242})"
  using scan_pass_spn [OF assms, of addr] scan_pass_not_DoAgain [OF assms, of addr]
  by (subst (1) scan_from.simps) simp

lemma UTF8GenericScan_spn:
  "\<exists>e. UTF8GenericScan addr str = (e, utf8_spn str) \<and>
     (if utf8_spn str = length str then e = kExitOK else e \<in> {240, 242})"
  using scan_from_spn [of 0 str addr] by (auto simp: UTF8GenericScan_def utf8_spn.simps utf8_char_def)

lemma fast_ascii_pass_spn:
  assumes "src \<le> length str"
  shows "\<exists>e. fast_ascii_pass addr str src = (e, src + utf8_spn (drop src str)) \<and>
     (if src + utf8_spn (drop src str) = length str then e = kExitOK else e \<in> {240, 242})"
proof -
  define src1 where "src1 = align_ascii addr str src"
  define src2 where "src2 = (if (addr + src1) mod 8 = 0 then fast8_ascii str src1 else src1)"
  define src3 where "src3 = byte_ascii str src2"
  have a: "ascii_to str src src1" unfolding src1_def by (rule align_ascii_ascii [OF assms])
  then have "src1 \<le> length str" by (simp add: ascii_to_def)
  then have b: "ascii_to str src1 src2" by (auto simp: src2_def fast8_ascii_ascii ascii_to_refl)
  then have "src2 \<le> length str" by (simp add: ascii_to_def)
  then have c: "ascii_to str src2 src3" unfolding src3_def by (rule byte_ascii_ascii)
  have "ascii_to str src src3" using a b c by (blast intro: ascii_to_trans)
  then have "src3 + utf8_spn (drop src3 str) = src + utf8_spn (drop src str)" "src3 \<le> length str"
    by (simp_all add: utf8_spn_ascii_to) (simp add: ascii_to_def)
  note eq = this
  obtain e where e: "UTF8GenericScan (addr + src3) (drop src3 str) = (e, utf8_spn (drop src3 str))"
    "if utf8_spn (drop src3 str) = length (drop src3 str) then e = kExitOK else e \<in> {240, 242}"
    using UTF8GenericScan_spn by blast
  have "(utf8_spn (drop src3 str) = length (drop src3 str)) = (src + utf8_spn (drop src str) = length str)"
    using eq by simp linarith
  with e(2) have "if src + utf8_spn (drop src str) = length str then e = kExitOK else e \<in> {240, 242}"
    by simp
  moreover have "fast_ascii_pass addr str src = (e, src + utf8_spn (drop src str))"
    using e(1) eq
    by (simp add: fast_ascii_pass_def Let_def src1_def [symmetric] src2_def [symmetric] src3_def [symmetric])
  ultimately show ?thesis by blast
qed

text \<open>\<open>while (exit_reason == kExitDoAgain)\<close> never repeats.\<close>

lemma fast_ascii_pass_not_DoAgain:
  "src \<le> length str \<Longrightarrow> fst (fast_ascii_pass addr str src) \<noteq> kExitDoAgain"
  using fast_ascii_pass_spn [of src str addr] by (auto split: if_splits)

function fast_ascii_from :: "nat \<Rightarrow> bytes \<Rightarrow> nat \<Rightarrow> nat \<times> nat" where
  "fast_ascii_from addr str src =
     (if src \<le> length str \<and> fst (fast_ascii_pass addr str src) = kExitDoAgain
      then fast_ascii_from addr str (snd (fast_ascii_pass addr str src))
      else fast_ascii_pass addr str src)"
  by pat_completeness auto
termination by (relation "measure (\<lambda>_. 0)") (auto simp: fast_ascii_pass_not_DoAgain)

declare fast_ascii_from.simps [simp del]

definition UTF8GenericScanFastAscii :: "nat \<Rightarrow> bytes \<Rightarrow> nat \<times> nat" where
  "UTF8GenericScanFastAscii addr str =
     (if length str = 0 then (kExitOK, 0) else fast_ascii_from addr str 0)"

definition IsStructurallyValidUTF8 :: "bool \<Rightarrow> nat \<Rightarrow> bytes \<Rightarrow> bool" where
  "IsStructurallyValidUTF8 module_initialized addr buf =
     (if \<not> module_initialized then True
      else let (e, bytes_consumed) = UTF8GenericScanFastAscii addr buf
           in bytes_consumed = length buf)"

definition UTF8SpnStructurallyValid :: "bool \<Rightarrow> nat \<Rightarrow> bytes \<Rightarrow> nat" where
  "UTF8SpnStructurallyValid module_initialized addr str =
     (if \<not> module_initialized then length str else snd (UTF8GenericScanFastAscii addr str))"

text \<open>The loop of \<open>UTF8CoerceToStructurallyValid\<close>: \<open>dst\<close> is what is already in \<open>idst\<close>.\<close>

function coerce_loop :: "bool \<Rightarrow> nat \<Rightarrow> bytes \<Rightarrow> u8 \<Rightarrow> nat \<Rightarrow> bytes \<Rightarrow> bytes" where
  "coerce_loop init addr isrc replace_char src dst =
     (if src < length isrc
      then let dst = dst @ [replace_char]; src = src + 1; str2 = drop src isrc;
               n = UTF8SpnStructurallyValid init (addr + src) str2
           in coerce_loop init addr isrc replace_char (src + n) (dst @ take n str2)
      else dst)"
  by pat_completeness auto
termination by (relation "measure (\<lambda>(_, _, isrc, _, src, _). length isrc - src)") auto

declare coerce_loop.simps [simp del]

definition UTF8CoerceToStructurallyValid :: "bool \<Rightarrow> nat \<Rightarrow> bytes \<Rightarrow> u8 \<Rightarrow> bytes" where
  "UTF8CoerceToStructurallyValid init addr src_str replace_char =
     (let n = UTF8SpnStructurallyValid init addr src_str
      in if n = length src_str then src_str
         else coerce_loop init addr src_str replace_char n (take n src_str))"

lemma UTF8GenericScanFastAscii_spn:
  "\<exists>e. UTF8GenericScanFastAscii addr str = (e, utf8_spn str) \<and>
     (if utf8_spn str = length str then e = kExitOK else e \<in> {240, 242})"
  using fast_ascii_pass_spn [of 0 str addr] fast_ascii_pass_not_DoAgain [of 0 str addr]
  by (auto simp: UTF8GenericScanFastAscii_def fast_ascii_from.simps [of addr str 0] utf8_spn.simps [of "[]"] utf8_char_def)

lemma IsStructurallyValidUTF8_spn:
  "IsStructurallyValidUTF8 init addr buf \<longleftrightarrow> \<not> init \<or> utf8_spn buf = length buf"
  using UTF8GenericScanFastAscii_spn [of addr buf] by (auto simp: IsStructurallyValidUTF8_def)

lemma UTF8SpnStructurallyValid_spn:
  "UTF8SpnStructurallyValid True addr str = utf8_spn str"
  using UTF8GenericScanFastAscii_spn [of addr str] by (auto simp: UTF8SpnStructurallyValid_def)

section \<open>Encodings of scalar values\<close>

definition unicode_scalar :: "nat \<Rightarrow> bool" where
  "unicode_scalar c \<longleftrightarrow> c < 0xD800 \<or> 0xE000 \<le> c \<and> c < 0x110000"

definition utf8_encode :: "nat \<Rightarrow> bytes" where
  "utf8_encode c =
     (if c < 0x80 then [of_nat c]
      else if c < 0x800 then [of_nat (0xC0 + c div 64), of_nat (0x80 + c mod 64)]
      else if c < 0x10000
      then [of_nat (0xE0 + c div 4096), of_nat (0x80 + c div 64 mod 64), of_nat (0x80 + c mod 64)]
      else [of_nat (0xF0 + c div 262144), of_nat (0x80 + c div 4096 mod 64),
            of_nat (0x80 + c div 64 mod 64), of_nat (0x80 + c mod 64)])"

definition utf8_valid :: "bytes \<Rightarrow> bool" where
  "utf8_valid bs \<longleftrightarrow>
     (\<exists>cs. (\<forall>c\<in>set cs. unicode_scalar c) \<and> bs = concat (map utf8_encode cs))"

lemma unat_byte: "n < 256 \<Longrightarrow> unat (of_nat n :: u8) = n"
  by (simp add: unat_of_nat)

lemma conts_byte:
  "x < 64 \<Longrightarrow> conts ((lo, hi) # rs) (of_nat (0x80 + x) # cs) = (lo \<le> 0x80 + x \<and> 0x80 + x \<le> hi \<and> conts rs cs)"
  using unat_byte [of "0x80 + x"] by (simp only: conts.simps) simp

lemma conts_byte_any:
  "conts ((0x80, 0xBF) # rs) (of_nat (0x80 + n mod 64) # cs) = conts rs cs"
proof -
  have "n mod 64 < 64" by simp
  then show ?thesis using conts_byte [where x = "n mod 64" and lo = "0x80" and hi = "0xBF" and rs = rs and cs = cs] by linarith
qed

lemma utf8_char_Cons:
  "utf8_ranges b = Some rs \<Longrightarrow> conts rs cs \<Longrightarrow> utf8_char (b # cs) = Some (Suc (length rs))"
  by (simp add: utf8_char_def)

lemma utf8_ranges_byte:
  "l < 256 \<Longrightarrow> utf8_ranges (of_nat l) =
     (if l < 0x80 then Some []
      else if l < 0xC2 then None
      else if l < 0xE0 then Some [(0x80, 0xBF)]
      else if l = 0xE0 then Some [(0xA0, 0xBF), (0x80, 0xBF)]
      else if l < 0xED then Some [(0x80, 0xBF), (0x80, 0xBF)]
      else if l = 0xED then Some [(0x80, 0x9F), (0x80, 0xBF)]
      else if l < 0xF0 then Some [(0x80, 0xBF), (0x80, 0xBF)]
      else if l = 0xF0 then Some [(0x90, 0xBF), (0x80, 0xBF), (0x80, 0xBF)]
      else if l < 0xF4 then Some [(0x80, 0xBF), (0x80, 0xBF), (0x80, 0xBF)]
      else if l = 0xF4 then Some [(0x80, 0x8F), (0x80, 0xBF), (0x80, 0xBF)]
      else None)"
  by (simp only: utf8_ranges_def Let_def unat_byte)

lemma div_digits: "(c :: nat) = 64 * (c div 64) + c mod 64" "c mod 64 < 64"
  by simp_all

lemma utf8_char_encode:
  assumes "unicode_scalar c"
  shows "utf8_char (utf8_encode c @ rest) = Some (length (utf8_encode c))"
proof -
  consider "c < 0x80" | "0x80 \<le> c" "c < 0x800" | "0x800 \<le> c" "c < 0x10000" "c < 0xD800 \<or> 0xE000 \<le> c"
    | "0x10000 \<le> c" "c < 0x110000"
    using assms unfolding unicode_scalar_def by linarith
  then show ?thesis
  proof cases
    case 1
    then have "utf8_ranges (of_nat c) = Some []" by (simp add: utf8_ranges_byte)
    from utf8_char_Cons [OF this, of rest] 1 show ?thesis by (simp add: utf8_encode_def)
  next
    case 2
    have "c div 64 < 32" "2 \<le> c div 64" using 2 div_digits [of c] by linarith+
    then have "utf8_ranges (of_nat (0xC0 + c div 64)) = Some [(0x80, 0xBF)]"
      using utf8_ranges_byte [of "0xC0 + c div 64"] by simp
    then have "utf8_char (of_nat (0xC0 + c div 64) # of_nat (0x80 + c mod 64) # rest) = Some 2"
      using utf8_char_Cons conts_byte_any [of "[]" c rest] by fastforce
    then show ?thesis using 2 by (simp add: utf8_encode_def)
  next
    case 3
    define q l x where qlx: "q = c div 64" "l = q div 64" "x = q mod 64"
    have q: "32 \<le> q" "q < 1024" "q < 864 \<or> 896 \<le> q"
      using 3 div_digits [of c] unfolding qlx by linarith+
    have l: "q = 64 * l + x" "x < 64" by (simp_all add: qlx)
    have cl: "c div 4096 = l" by (simp add: qlx div_mult2_eq [symmetric])
    have "l < 16" using q l by linarith
    then have r: "utf8_ranges (of_nat (0xE0 + l)) =
       Some [if l = 0 then (0xA0, 0xBF) else if l = 13 then (0x80, 0x9F) else (0x80, 0xBF), (0x80, 0xBF)]"
      using utf8_ranges_byte [of "0xE0 + l"] by auto
    have "conts [if l = 0 then (0xA0, 0xBF) else if l = 13 then (0x80, 0x9F) else (0x80, 0xBF), (0x80, 0xBF)]
        (of_nat (0x80 + x) # of_nat (0x80 + c mod 64) # rest)"
    proof -
      have "\<exists>lo hi. (if l = 0 then (0xA0, 0xBF) else if l = 13 then (0x80, 0x9F) else (0x80, 0xBF)) = (lo, hi) \<and> lo \<le> 0x80 + x \<and> 0x80 + x \<le> hi"
        using q l by auto
      then obtain lo hi where "(if l = 0 then (0xA0, 0xBF) else if l = 13 then (0x80, 0x9F) else (0x80, 0xBF)) = (lo, hi)" "lo \<le> 0x80 + x" "0x80 + x \<le> hi"
        by blast
      then show ?thesis using l(2) by (simp only: conts_byte conts_byte_any conts.simps(1) simp_thms)
    qed
    from utf8_char_Cons [OF r this] show ?thesis
      using 3 by (simp add: utf8_encode_def cl qlx(1) [symmetric] qlx(3) [symmetric] del: of_nat_add of_nat_numeral)
  next
    case 4
    define q m l x where qlx: "q = c div 64" "m = q div 64" "l = m div 64" "x = m mod 64"
    have "1024 \<le> q" "q < 17408"
      using 4 div_digits [of c] unfolding qlx by linarith+
    then have m: "16 \<le> m" "m < 272" using div_digits [of q] unfolding qlx(2) by linarith+
    have l: "m = 64 * l + x" "x < 64" by (simp_all add: qlx)
    have cl: "c div 262144 = l" "c div 4096 = m" by (simp_all add: qlx div_mult2_eq [symmetric])
    have "l < 5" using m l by linarith
    then have r: "utf8_ranges (of_nat (0xF0 + l)) =
       Some [if l = 0 then (0x90, 0xBF) else if l = 4 then (0x80, 0x8F) else (0x80, 0xBF), (0x80, 0xBF), (0x80, 0xBF)]"
      using utf8_ranges_byte [of "0xF0 + l"] by auto
    have "conts [if l = 0 then (0x90, 0xBF) else if l = 4 then (0x80, 0x8F) else (0x80, 0xBF), (0x80, 0xBF), (0x80, 0xBF)]
        (of_nat (0x80 + x) # of_nat (0x80 + q mod 64) # of_nat (0x80 + c mod 64) # rest)"
    proof -
      have "\<exists>lo hi. (if l = 0 then (0x90, 0xBF) else if l = 4 then (0x80, 0x8F) else (0x80, 0xBF)) = (lo, hi) \<and> lo \<le> 0x80 + x \<and> 0x80 + x \<le> hi"
        using m l by auto
      then obtain lo hi where "(if l = 0 then (0x90, 0xBF) else if l = 4 then (0x80, 0x8F) else (0x80, 0xBF)) = (lo, hi)" "lo \<le> 0x80 + x" "0x80 + x \<le> hi"
        by blast
      then show ?thesis using l(2) by (simp only: conts_byte conts_byte_any conts.simps(1) simp_thms)
    qed
    from utf8_char_Cons [OF r this] show ?thesis
      using 4 by (simp add: utf8_encode_def cl qlx(1) [symmetric] qlx(4) [symmetric] del: of_nat_add of_nat_numeral)
  qed
qed


lemma byte_of_nat: "n = unat b \<Longrightarrow> (of_nat n :: u8) = b"
  by simp

lemma cont_digit:
  assumes "0x80 \<le> d" "d \<le> 0xBF"
  shows "(64 * h + (d - 0x80)) div 64 = h" "(64 * h + (d - 0x80)) mod 64 = (d - 0x80 :: nat)"
proof -
  have "d - 0x80 < 64" using assms by linarith
  then show "(64 * h + (d - 0x80)) div 64 = h" "(64 * h + (d - 0x80)) mod 64 = d - 0x80"
    by simp_all
qed

lemma conts_Cons:
  "conts (r # rs) cs \<longleftrightarrow> (\<exists>c ds. cs = c # ds \<and> fst r \<le> unat c \<and> unat c \<le> snd r \<and> conts rs ds)"
  by (cases cs) auto

lemma utf8_ranges_cases:
  assumes "utf8_ranges b = Some rs"
  obtains (one) "unat b < 0x80" "rs = []"
  | (two) "0xC2 \<le> unat b" "unat b < 0xE0" "rs = [(0x80, 0xBF)]"
  | (three) lo hi where "0xE0 \<le> unat b" "unat b < 0xF0" "rs = [(lo, hi), (0x80, 0xBF)]"
      "0x80 \<le> lo" "hi \<le> 0xBF" "unat b = 0xE0 \<longrightarrow> lo = 0xA0" "unat b = 0xED \<longrightarrow> hi = 0x9F"
  | (four) lo hi where "0xF0 \<le> unat b" "unat b < 0xF5" "rs = [(lo, hi), (0x80, 0xBF), (0x80, 0xBF)]"
      "0x80 \<le> lo" "hi \<le> 0xBF" "unat b = 0xF0 \<longrightarrow> lo = 0x90" "unat b = 0xF4 \<longrightarrow> hi = 0x8F"
  using assms unfolding utf8_ranges_def Let_def
  by (auto split: if_splits)

lemma utf8_char_decode:
  assumes "utf8_char bs = Some n"
  shows "\<exists>c. unicode_scalar c \<and> take n bs = utf8_encode c"
proof -
  from assms obtain b cs rs where bs: "bs = b # cs" and r: "utf8_ranges b = Some rs"
    and c: "conts rs cs" and n: "n = Suc (length rs)"
    by (auto simp: utf8_char_def split: list.splits option.splits if_splits)
  from r show ?thesis
  proof (cases rule: utf8_ranges_cases)
    case one
    then have "unicode_scalar (unat b) \<and> take n bs = utf8_encode (unat b)"
      by (simp add: n bs unicode_scalar_def utf8_encode_def)
    then show ?thesis ..
  next
    case two
    from c two(3) obtain c1 ds where cs: "cs = c1 # ds" "0x80 \<le> unat c1" "unat c1 \<le> 0xBF"
      by (auto simp: conts_Cons)
    define k where "k = 64 * (unat b - 0xC0) + (unat c1 - 0x80)"
    have q: "k div 64 = unat b - 0xC0" "k mod 64 = unat c1 - 0x80"
      unfolding k_def by (rule cont_digit [OF cs(2,3)])+
    have "0x80 \<le> k" "k < 0x800" using two cs unfolding k_def by linarith+
    moreover have "of_nat (0xC0 + k div 64) = b" "of_nat (0x80 + k mod 64) = c1"
      unfolding q using two cs by (auto intro!: byte_of_nat simp del: of_nat_add of_nat_diff)
    ultimately have "unicode_scalar k \<and> take n bs = utf8_encode k"
      by (simp add: n bs cs two(3) unicode_scalar_def utf8_encode_def del: of_nat_add of_nat_numeral)
    then show ?thesis ..
  next
    case (three lo hi)
    from c three(3) obtain c1 c2 ds where cs: "cs = c1 # c2 # ds" "lo \<le> unat c1" "unat c1 \<le> hi"
      "0x80 \<le> unat c2" "unat c2 \<le> 0xBF"
      by (auto simp: conts_Cons)
    define q where "q = 64 * (unat b - 0xE0) + (unat c1 - 0x80)"
    define k where "k = 64 * q + (unat c2 - 0x80)"
    have c1: "0x80 \<le> unat c1" "unat c1 \<le> 0xBF" using three cs by linarith+
    have q: "q div 64 = unat b - 0xE0" "q mod 64 = unat c1 - 0x80" unfolding q_def by (rule cont_digit [OF c1])+
    have k: "k div 64 = q" "k mod 64 = unat c2 - 0x80" unfolding k_def by (rule cont_digit [OF cs(4,5)])+
    have kq: "k div 4096 = q div 64" using k(1) by (simp add: div_mult2_eq [symmetric])
    have "32 \<le> q" "q < 1024" using three cs c1 unfolding q_def by linarith+
    moreover have "q < 864 \<or> 896 \<le> q"
    proof -
      consider "unat b < 0xED" | "unat b = 0xED" "unat c1 \<le> 0x9F" | "0xED < unat b"
        using three cs by linarith
      then show ?thesis using c1 unfolding q_def by cases linarith+
    qed
    ultimately have "0x800 \<le> k" "k < 0x10000" "k < 0xD800 \<or> 0xE000 \<le> k"
      using cs unfolding k_def by linarith+
    moreover have "of_nat (0xE0 + k div 4096) = b" "of_nat (0x80 + k div 64 mod 64) = c1"
      "of_nat (0x80 + k mod 64) = c2"
      unfolding kq k q using three cs c1 by (auto intro!: byte_of_nat simp del: of_nat_add of_nat_diff)
    ultimately have "unicode_scalar k \<and> take n bs = utf8_encode k"
      by (auto simp add: n bs cs three(3) unicode_scalar_def utf8_encode_def simp del: of_nat_add of_nat_numeral)
    then show ?thesis ..
  next
    case (four lo hi)
    from c four(3) obtain c1 c2 c3 ds where cs: "cs = c1 # c2 # c3 # ds" "lo \<le> unat c1" "unat c1 \<le> hi"
      "0x80 \<le> unat c2" "unat c2 \<le> 0xBF" "0x80 \<le> unat c3" "unat c3 \<le> 0xBF"
      by (auto simp: conts_Cons)
    define m where "m = 64 * (unat b - 0xF0) + (unat c1 - 0x80)"
    define q where "q = 64 * m + (unat c2 - 0x80)"
    define k where "k = 64 * q + (unat c3 - 0x80)"
    have c1: "0x80 \<le> unat c1" "unat c1 \<le> 0xBF" using four cs by linarith+
    have m: "m div 64 = unat b - 0xF0" "m mod 64 = unat c1 - 0x80" unfolding m_def by (rule cont_digit [OF c1])+
    have q: "q div 64 = m" "q mod 64 = unat c2 - 0x80" unfolding q_def by (rule cont_digit [OF cs(4,5)])+
    have k: "k div 64 = q" "k mod 64 = unat c3 - 0x80" unfolding k_def by (rule cont_digit [OF cs(6,7)])+
    have kq: "k div 4096 = m" "k div 262144 = m div 64"
      using k(1) q(1) by (simp_all add: div_mult2_eq [symmetric] flip: k(1) q(1))
    have "16 \<le> m" "m < 272" using four cs c1 unfolding m_def by linarith+
    then have "1024 \<le> q" "q < 17408" using cs unfolding q_def by linarith+
    then have "0x10000 \<le> k" "k < 0x110000"
      using cs unfolding k_def by linarith+
    moreover have "of_nat (0xF0 + k div 262144) = b" "of_nat (0x80 + k div 4096 mod 64) = c1"
      "of_nat (0x80 + k div 64 mod 64) = c2" "of_nat (0x80 + k mod 64) = c3"
      unfolding kq k q m using four cs c1 by (auto intro!: byte_of_nat simp del: of_nat_add of_nat_diff)
    ultimately have "unicode_scalar k \<and> take n bs = utf8_encode k"
      by (simp add: n bs cs four(3) unicode_scalar_def utf8_encode_def del: of_nat_add of_nat_numeral)
    then show ?thesis ..
  qed
qed

lemma utf8_validI: "unicode_scalar c \<Longrightarrow> utf8_valid bs \<Longrightarrow> utf8_valid (utf8_encode c @ bs)"
proof -
  assume c: "unicode_scalar c" and "utf8_valid bs"
  then obtain cs where "\<forall>c\<in>set cs. unicode_scalar c" "bs = concat (map utf8_encode cs)"
    unfolding utf8_valid_def by blast
  with c have "(\<forall>c\<in>set (c # cs). unicode_scalar c) \<and> utf8_encode c @ bs = concat (map utf8_encode (c # cs))"
    by simp
  then show ?thesis unfolding utf8_valid_def by blast
qed

lemma utf8_valid_Nil [simp]: "utf8_valid []"
  unfolding utf8_valid_def by (rule exI [of _ "[]"]) simp

lemma utf8_valid_append: "utf8_valid a \<Longrightarrow> utf8_valid b \<Longrightarrow> utf8_valid (a @ b)"
proof -
  assume "utf8_valid a" "utf8_valid b"
  then obtain cs ds where "\<forall>c\<in>set cs. unicode_scalar c" "a = concat (map utf8_encode cs)"
    "\<forall>c\<in>set ds. unicode_scalar c" "b = concat (map utf8_encode ds)"
    unfolding utf8_valid_def by blast
  then have "(\<forall>c\<in>set (cs @ ds). unicode_scalar c) \<and> a @ b = concat (map utf8_encode (cs @ ds))"
    by auto
  then show ?thesis unfolding utf8_valid_def by blast
qed

text \<open>The prefix the scan stops after is well formed, and it is the whole of a well-formed string.\<close>

lemma utf8_spn_valid: "utf8_valid (take (utf8_spn bs) bs)"
proof (induction bs rule: utf8_spn.induct)
  case (1 bs)
  show ?case
  proof (cases "utf8_char bs")
    case None
    then show ?thesis by (simp add: utf8_spn.simps [of bs])
  next
    case (Some n)
    then obtain c where "unicode_scalar c" "take n bs = utf8_encode c" using utf8_char_decode by blast
    then show ?thesis
      using 1 [OF Some] utf8_validI Some by (simp add: utf8_spn.simps [of bs] take_add)
  qed
qed

lemma utf8_spn_encode: "unicode_scalar c \<Longrightarrow> utf8_spn (utf8_encode c @ rest) = length (utf8_encode c) + utf8_spn rest"
  by (simp add: utf8_spn.simps [of "utf8_encode c @ rest"] utf8_char_encode)

lemma utf8_spn_valid_append: "utf8_valid bs \<Longrightarrow> utf8_spn (bs @ rest) = length bs + utf8_spn rest"
proof -
  have "\<forall>c\<in>set cs. unicode_scalar c \<Longrightarrow>
      utf8_spn (concat (map utf8_encode cs) @ rest) = length (concat (map utf8_encode cs)) + utf8_spn rest" for cs
    by (induction cs) (auto simp: utf8_spn_encode)
  then show "utf8_valid bs \<Longrightarrow> ?thesis" unfolding utf8_valid_def by auto
qed

lemma utf8_spn_iff: "utf8_spn bs = length bs \<longleftrightarrow> utf8_valid bs"
proof
  assume "utf8_spn bs = length bs"
  with utf8_spn_valid [of bs] show "utf8_valid bs" by simp
next
  assume "utf8_valid bs"
  from utf8_spn_valid_append [OF this, of "[]"] show "utf8_spn bs = length bs"
    by (simp add: utf8_spn.simps [of "[]"] utf8_char_def)
qed

lemma IsStructurallyValidUTF8_iff [simp]: "IsStructurallyValidUTF8 True addr buf = utf8_valid buf"
  by (simp add: IsStructurallyValidUTF8_spn utf8_spn_iff)

lemma utf8_valid_ascii: "list_all (\<lambda>b. unat b < 128) bs \<Longrightarrow> utf8_valid bs"
  by (simp add: utf8_spn_iff [symmetric], induction bs)
    (auto simp: utf8_spn_ascii utf8_spn.simps [of "[]"] utf8_char_def)

lemma coerce_loop_valid:
  assumes "unat r < 128" "src \<le> length isrc" "length dst = src" "utf8_valid dst"
  shows "length (coerce_loop True addr isrc r src dst) = length isrc \<and>
     utf8_valid (coerce_loop True addr isrc r src dst)"
  using assms(2-)
proof (induction "length isrc - src" arbitrary: src dst rule: less_induct)
  case less
  show ?case
  proof (cases "src < length isrc")
    case False
    with less.prems show ?thesis by (subst (1 2) coerce_loop.simps) auto
  next
    case True
    let ?str2 = "drop (src + 1) isrc"
    let ?n = "utf8_spn ?str2" let ?dst = "(dst @ [r]) @ take ?n ?str2"
    have "utf8_valid [r]" using assms(1) by (intro utf8_valid_ascii) simp
    then have v: "utf8_valid ?dst"
      using less.prems utf8_spn_valid by (intro utf8_valid_append)
    have n: "?n \<le> length isrc - (src + 1)" using utf8_spn_le [of ?str2] by simp
    then have len: "length ?dst = src + 1 + ?n" using less.prems by simp
    have "coerce_loop True addr isrc r src dst = coerce_loop True addr isrc r (src + 1 + ?n) ?dst"
      using True by (subst coerce_loop.simps) (simp add: Let_def UTF8SpnStructurallyValid_spn)
    with less.hyps [OF _ _ len v] True n show ?thesis by simp
  qed
qed

text \<open>
  C40: the validator accepts exactly the byte strings that are the UTF-8 encoding of a
  sequence of Unicode scalar values, wherever the string lies in memory.
\<close>

theorem IsStructurallyValidUTF8_correct:
  "IsStructurallyValidUTF8 True addr buf \<longleftrightarrow>
     (\<exists>cs. list_all unicode_scalar cs \<and> buf = concat (map utf8_encode cs))"
  by (simp add: utf8_valid_def list_all_iff)

text \<open>
  \<open>UTF8SpnStructurallyValid\<close> returns the length of the longest well-formed prefix.
\<close>

lemma UTF8SpnStructurallyValid_longest:
  "utf8_valid (take (UTF8SpnStructurallyValid True addr str) str) \<and>
   (\<forall>n. n \<le> length str \<and> utf8_valid (take n str) \<longrightarrow> n \<le> UTF8SpnStructurallyValid True addr str)"
proof (intro conjI allI impI)
  fix n assume "n \<le> length str \<and> utf8_valid (take n str)"
  then show "n \<le> UTF8SpnStructurallyValid True addr str"
    using utf8_spn_valid_append [of "take n str" "drop n str"]
    by (simp add: UTF8SpnStructurallyValid_spn)
qed (simp add: UTF8SpnStructurallyValid_spn utf8_spn_valid)

text \<open>
  coercing with an ASCII replacement byte gives a well-formed string of the same length,
  and leaves a string that is already well formed alone.
\<close>

lemma UTF8Coerce_valid:
  assumes "unat replace_char < 128"
  shows "length (UTF8CoerceToStructurallyValid True addr str replace_char) = length str \<and>
     utf8_valid (UTF8CoerceToStructurallyValid True addr str replace_char) \<and>
     (utf8_valid str \<longrightarrow> UTF8CoerceToStructurallyValid True addr str replace_char = str)"
  using coerce_loop_valid [OF assms utf8_spn_le [of str] _ utf8_spn_valid] utf8_spn_le [of str]
  by (auto simp: UTF8CoerceToStructurallyValid_def Let_def UTF8SpnStructurallyValid_spn utf8_spn_iff)

lemma UTF8Coerce_witness:
  "length (UTF8CoerceToStructurallyValid True 0 [97, 200] 63) = 2"
  using UTF8Coerce_valid [of 63 0 "[97, 200]"] by simp

lemma UTF8SpnStructurallyValid_witness:
  "utf8_valid (take (UTF8SpnStructurallyValid True 3 [97, 200]) [97, 200])"
  using UTF8SpnStructurallyValid_longest [of 3 "[97, 200]"] by (rule conjunct1)

end
