(* ===== verification/WireFormat.thy ===== *)
theory WireFormat
  imports CodedInput Utf8
begin

text \<open>
  The wire format of fields: tags, the primitive writers, readers and sizes of
  \<open>internal::WireFormatLite\<close> (\<open>wire_format_lite.h\<close>, \<open>wire_format_lite_inl.h\<close>,
  \<open>wire_format_lite.cc\<close>), the \<open>UnknownFieldSet\<close> a message keeps what it does not know in
  (\<open>unknown_field_set.h\<close>, \<open>unknown_field_set.cc\<close>), and skipping, sizing and writing of
  unknown fields by \<open>internal::WireFormat\<close> (\<open>wire_format.cc\<close>). Field numbers are the 32-bit
  words they are cast to; signed values are words too, read by \<open>sint\<close>.
\<close>

section \<open>Tags\<close>

datatype WireType = WIRETYPE_VARINT | WIRETYPE_FIXED64 | WIRETYPE_LENGTH_DELIMITED
  | WIRETYPE_START_GROUP | WIRETYPE_END_GROUP | WIRETYPE_FIXED32

definition wire_code :: "WireType \<Rightarrow> u32" where
  "wire_code type =
     (case type of WIRETYPE_VARINT \<Rightarrow> 0 | WIRETYPE_FIXED64 \<Rightarrow> 1 | WIRETYPE_LENGTH_DELIMITED \<Rightarrow> 2
      | WIRETYPE_START_GROUP \<Rightarrow> 3 | WIRETYPE_END_GROUP \<Rightarrow> 4 | WIRETYPE_FIXED32 \<Rightarrow> 5)"

definition kTagTypeBits :: nat where "kTagTypeBits = 3"

definition kTagTypeMask :: u32 where "kTagTypeMask = push_bit kTagTypeBits 1 - 1"

definition MakeTag :: "u32 \<Rightarrow> WireType \<Rightarrow> u32" where
  "MakeTag field_number type = push_bit kTagTypeBits field_number OR wire_code type"

text \<open>\<open>None\<close> is a cast outside the enumeration, which every switch sends to \<open>default\<close>.\<close>

definition GetTagWireType :: "u32 \<Rightarrow> WireType option" where
  "GetTagWireType tag =
     (let t = tag AND kTagTypeMask
      in if t = 0 then Some WIRETYPE_VARINT else if t = 1 then Some WIRETYPE_FIXED64
         else if t = 2 then Some WIRETYPE_LENGTH_DELIMITED
         else if t = 3 then Some WIRETYPE_START_GROUP
         else if t = 4 then Some WIRETYPE_END_GROUP
         else if t = 5 then Some WIRETYPE_FIXED32 else None)"

definition GetTagFieldNumber :: "u32 \<Rightarrow> u32" where
  "GetTagFieldNumber tag = drop_bit kTagTypeBits tag"

definition TagSize :: "u32 \<Rightarrow> bool \<Rightarrow> nat" where
  "TagSize field_number is_group =
     (let result = VarintSize32 (push_bit kTagTypeBits field_number)
      in if is_group then result * 2 else result)"

section \<open>Zig-zag\<close>

definition ZigZagEncode32 :: "u32 \<Rightarrow> u32" where
  "ZigZagEncode32 n = push_bit 1 n XOR signed_drop_bit 31 n"

definition ZigZagDecode32 :: "u32 \<Rightarrow> u32" where
  "ZigZagDecode32 n = drop_bit 1 n XOR - (n AND 1)"

definition ZigZagEncode64 :: "u64 \<Rightarrow> u64" where
  "ZigZagEncode64 n = push_bit 1 n XOR signed_drop_bit 63 n"

definition ZigZagDecode64 :: "u64 \<Rightarrow> u64" where
  "ZigZagDecode64 n = drop_bit 1 n XOR - (n AND 1)"

section \<open>Primitive values\<close>

text \<open>\<open>WriteStringWithSizeToArray\<close> of \<open>coded_stream.cc\<close>.\<close>

definition WriteStringWithSizeToArray :: "bytes \<Rightarrow> bytes" where
  "WriteStringWithSizeToArray str = WriteVarint32ToArray (of_nat (length str)) @ str"

definition WriteTagToArray :: "u32 \<Rightarrow> WireType \<Rightarrow> bytes" where
  "WriteTagToArray field_number type = WriteTagToArray0 (MakeTag field_number type)"

definition WriteInt32ToArray :: "u32 \<Rightarrow> u32 \<Rightarrow> bytes" where
  "WriteInt32ToArray field_number v =
     WriteTagToArray field_number WIRETYPE_VARINT @ WriteVarint32SignExtendedToArray v"

definition WriteInt64ToArray :: "u32 \<Rightarrow> u64 \<Rightarrow> bytes" where
  "WriteInt64ToArray field_number v =
     WriteTagToArray field_number WIRETYPE_VARINT @ WriteVarint64ToArray v"

definition WriteUInt32ToArray :: "u32 \<Rightarrow> u32 \<Rightarrow> bytes" where
  "WriteUInt32ToArray field_number v =
     WriteTagToArray field_number WIRETYPE_VARINT @ WriteVarint32ToArray v"

definition WriteUInt64ToArray :: "u32 \<Rightarrow> u64 \<Rightarrow> bytes" where
  "WriteUInt64ToArray field_number v =
     WriteTagToArray field_number WIRETYPE_VARINT @ WriteVarint64ToArray v"

definition WriteSInt32ToArray :: "u32 \<Rightarrow> u32 \<Rightarrow> bytes" where
  "WriteSInt32ToArray field_number v =
     WriteTagToArray field_number WIRETYPE_VARINT @ WriteVarint32ToArray (ZigZagEncode32 v)"

definition WriteSInt64ToArray :: "u32 \<Rightarrow> u64 \<Rightarrow> bytes" where
  "WriteSInt64ToArray field_number v =
     WriteTagToArray field_number WIRETYPE_VARINT @ WriteVarint64ToArray (ZigZagEncode64 v)"

definition WriteFixed32ToArray :: "u32 \<Rightarrow> u32 \<Rightarrow> bytes" where
  "WriteFixed32ToArray field_number v =
     WriteTagToArray field_number WIRETYPE_FIXED32 @ WriteLittleEndian32ToArray v"

definition WriteFixed64ToArray :: "u32 \<Rightarrow> u64 \<Rightarrow> bytes" where
  "WriteFixed64ToArray field_number v =
     WriteTagToArray field_number WIRETYPE_FIXED64 @ WriteLittleEndian64ToArray v"

definition WriteBytesToArray :: "u32 \<Rightarrow> bytes \<Rightarrow> bytes" where
  "WriteBytesToArray field_number v =
     WriteTagToArray field_number WIRETYPE_LENGTH_DELIMITED @ WriteStringWithSizeToArray v"

definition WriteStringToArray :: "u32 \<Rightarrow> bytes \<Rightarrow> bytes" where
  "WriteStringToArray field_number v =
     WriteTagToArray field_number WIRETYPE_LENGTH_DELIMITED @ WriteStringWithSizeToArray v"

definition Int32Size :: "u32 \<Rightarrow> nat" where "Int32Size v = VarintSize32SignExtended v"
definition Int64Size :: "u64 \<Rightarrow> nat" where "Int64Size v = VarintSize64 v"
definition UInt32Size :: "u32 \<Rightarrow> nat" where "UInt32Size v = VarintSize32 v"
definition UInt64Size :: "u64 \<Rightarrow> nat" where "UInt64Size v = VarintSize64 v"
definition SInt32Size :: "u32 \<Rightarrow> nat" where "SInt32Size v = VarintSize32 (ZigZagEncode32 v)"
definition SInt64Size :: "u64 \<Rightarrow> nat" where "SInt64Size v = VarintSize64 (ZigZagEncode64 v)"

definition LengthDelimitedSize :: "nat \<Rightarrow> nat" where
  "LengthDelimitedSize len = len + VarintSize32 (of_nat len)"

definition StringSize :: "bytes \<Rightarrow> nat" where "StringSize v = LengthDelimitedSize (length v)"
definition BytesSize :: "bytes \<Rightarrow> nat" where "BytesSize v = LengthDelimitedSize (length v)"

text \<open>A failed \<open>ReadPrimitive\<close> leaves \<open>*value\<close> alone, or whatever the stream stored there.\<close>

definition ReadUInt32 :: "cis \<Rightarrow> bool \<times> u32 \<times> cis" where
  "ReadUInt32 input = ReadVarint32 input"

definition ReadUInt64 :: "cis \<Rightarrow> bool \<times> u64 \<times> cis" where
  "ReadUInt64 input = ReadVarint64 input"

definition ReadSInt32 :: "u32 \<Rightarrow> cis \<Rightarrow> bool \<times> u32 \<times> cis" where
  "ReadSInt32 old input =
     (let (ok, temp, input) = ReadVarint32 input
      in (ok, if ok then ZigZagDecode32 temp else old, input))"

definition ReadSInt64 :: "u64 \<Rightarrow> cis \<Rightarrow> bool \<times> u64 \<times> cis" where
  "ReadSInt64 old input =
     (let (ok, temp, input) = ReadVarint64 input
      in (ok, if ok then ZigZagDecode64 temp else old, input))"

definition ReadFixed32 :: "cis \<Rightarrow> bool \<times> u32 \<times> cis" where
  "ReadFixed32 input = ReadLittleEndian32 input"

definition ReadFixed64 :: "cis \<Rightarrow> bool \<times> u64 \<times> cis" where
  "ReadFixed64 input = ReadLittleEndian64 input"

text \<open>\<open>ReadBytesToString\<close>: the length is cast to \<open>int\<close>. On failure \<open>*value\<close> may have changed.\<close>

definition ReadBytes :: "bytes \<Rightarrow> cis \<Rightarrow> bool \<times> bytes \<times> cis" where
  "ReadBytes old input =
     (let (ok, len, input) = ReadVarint32 input
      in if ok then InternalReadStringInline old (sint len) input else (False, old, input))"

definition VerifyUtf8String :: "bool \<Rightarrow> nat \<Rightarrow> bytes \<Rightarrow> bool" where
  "VerifyUtf8String module_initialized addr data =
     (if \<not> IsStructurallyValidUTF8 module_initialized addr data then False else True)"

section \<open>Unknown fields\<close>

text \<open>
  The fields in order of arrival. \<open>fields_\<close> is \<open>NULL\<close> exactly when there are none, so a list
  is the whole state.
\<close>

datatype UnknownField =
    TYPE_VARINT u32 u64
  | TYPE_FIXED32 u32 u32
  | TYPE_FIXED64 u32 u64
  | TYPE_LENGTH_DELIMITED u32 bytes
  | TYPE_GROUP u32 "UnknownField list"

type_synonym UnknownFieldSet = "UnknownField list"

definition AddVarint :: "u32 \<Rightarrow> u64 \<Rightarrow> UnknownFieldSet \<Rightarrow> UnknownFieldSet" where
  "AddVarint number v ufs = ufs @ [TYPE_VARINT number v]"

definition AddFixed32 :: "u32 \<Rightarrow> u32 \<Rightarrow> UnknownFieldSet \<Rightarrow> UnknownFieldSet" where
  "AddFixed32 number v ufs = ufs @ [TYPE_FIXED32 number v]"

definition AddFixed64 :: "u32 \<Rightarrow> u64 \<Rightarrow> UnknownFieldSet \<Rightarrow> UnknownFieldSet" where
  "AddFixed64 number v ufs = ufs @ [TYPE_FIXED64 number v]"

text \<open>
  \<open>AddLengthDelimited\<close> and \<open>AddGroup\<close> return a pointer into the new last field; the last
  argument is what the caller makes of it.
\<close>

definition AddLengthDelimited :: "u32 \<Rightarrow> bytes \<Rightarrow> UnknownFieldSet \<Rightarrow> UnknownFieldSet" where
  "AddLengthDelimited number v ufs = ufs @ [TYPE_LENGTH_DELIMITED number v]"

definition AddGroup :: "u32 \<Rightarrow> UnknownFieldSet \<Rightarrow> UnknownFieldSet \<Rightarrow> UnknownFieldSet" where
  "AddGroup number g ufs = ufs @ [TYPE_GROUP number g]"

text \<open>Copying is deep, so a copied field is an equal value.\<close>

definition UFS_MergeFrom :: "UnknownFieldSet \<Rightarrow> UnknownFieldSet \<Rightarrow> UnknownFieldSet" where
  "UFS_MergeFrom other ufs = ufs @ other"

definition UFS_MergeFromAndDestroy :: "UnknownFieldSet \<Rightarrow> UnknownFieldSet \<Rightarrow> UnknownFieldSet \<times> UnknownFieldSet" where
  "UFS_MergeFromAndDestroy other ufs = (ufs @ other, [])"

definition UFS_Clear :: "UnknownFieldSet \<Rightarrow> UnknownFieldSet" where
  "UFS_Clear ufs = []"

definition UFS_field_count :: "UnknownFieldSet \<Rightarrow> nat" where
  "UFS_field_count ufs = length ufs"

fun field_number :: "UnknownField \<Rightarrow> u32" where
  "field_number (TYPE_VARINT n _) = n"
| "field_number (TYPE_FIXED32 n _) = n"
| "field_number (TYPE_FIXED64 n _) = n"
| "field_number (TYPE_LENGTH_DELIMITED n _) = n"
| "field_number (TYPE_GROUP n _) = n"

definition UFS_DeleteSubrange :: "nat \<Rightarrow> nat \<Rightarrow> UnknownFieldSet \<Rightarrow> UnknownFieldSet" where
  "UFS_DeleteSubrange start num ufs = take start ufs @ drop (start + num) ufs"

text \<open>The loop of \<open>DeleteByNumber\<close>: \<open>left\<close> fields have been kept at the front.\<close>

fun DeleteByNumber_loop :: "u32 \<Rightarrow> nat \<Rightarrow> nat \<Rightarrow> nat \<Rightarrow> UnknownFieldSet \<Rightarrow> UnknownFieldSet" where
  "DeleteByNumber_loop number 0 i left ufs = take left ufs"
| "DeleteByNumber_loop number (Suc n) i left ufs =
     (if field_number (ufs ! i) = number
      then DeleteByNumber_loop number n (i + 1) left ufs
      else let ufs = (if i \<noteq> left then ufs[left := ufs ! i] else ufs)
           in DeleteByNumber_loop number n (i + 1) (left + 1) ufs)"

definition UFS_DeleteByNumber :: "u32 \<Rightarrow> UnknownFieldSet \<Rightarrow> UnknownFieldSet" where
  "UFS_DeleteByNumber number ufs = DeleteByNumber_loop number (length ufs) 0 0 ufs"

subsection \<open>Writing and sizing\<close>

fun SerializeUnknownField :: "UnknownField \<Rightarrow> bytes"
  and SerializeUnknownFieldsToArray :: "UnknownFieldSet \<Rightarrow> bytes" where
  "SerializeUnknownField (TYPE_VARINT n v) = WriteInt64ToArray n v"
| "SerializeUnknownField (TYPE_FIXED32 n v) = WriteFixed32ToArray n v"
| "SerializeUnknownField (TYPE_FIXED64 n v) = WriteFixed64ToArray n v"
| "SerializeUnknownField (TYPE_LENGTH_DELIMITED n v) = WriteBytesToArray n v"
| "SerializeUnknownField (TYPE_GROUP n g) =
     WriteTagToArray n WIRETYPE_START_GROUP @ SerializeUnknownFieldsToArray g @
     WriteTagToArray n WIRETYPE_END_GROUP"
| "SerializeUnknownFieldsToArray [] = []"
| "SerializeUnknownFieldsToArray (f # fs) =
     SerializeUnknownField f @ SerializeUnknownFieldsToArray fs"

fun ComputeUnknownFieldSize :: "UnknownField \<Rightarrow> nat"
  and ComputeUnknownFieldsSize :: "UnknownFieldSet \<Rightarrow> nat" where
  "ComputeUnknownFieldSize (TYPE_VARINT n v) =
     VarintSize32 (MakeTag n WIRETYPE_VARINT) + VarintSize64 v"
| "ComputeUnknownFieldSize (TYPE_FIXED32 n v) = VarintSize32 (MakeTag n WIRETYPE_FIXED32) + 4"
| "ComputeUnknownFieldSize (TYPE_FIXED64 n v) = VarintSize32 (MakeTag n WIRETYPE_FIXED64) + 8"
| "ComputeUnknownFieldSize (TYPE_LENGTH_DELIMITED n v) =
     VarintSize32 (MakeTag n WIRETYPE_LENGTH_DELIMITED) + VarintSize32 (of_nat (length v)) + length v"
| "ComputeUnknownFieldSize (TYPE_GROUP n g) =
     VarintSize32 (MakeTag n WIRETYPE_START_GROUP) + ComputeUnknownFieldsSize g +
     VarintSize32 (MakeTag n WIRETYPE_END_GROUP)"
| "ComputeUnknownFieldsSize [] = 0"
| "ComputeUnknownFieldsSize (f # fs) = ComputeUnknownFieldSize f + ComputeUnknownFieldsSize fs"

subsection \<open>Skipping\<close>

text \<open>
  \<open>unknown_fields\<close> is \<open>None\<close> for \<open>NULL\<close>. A call returns success, the fields and the stream;
  a field added before the failure stays. The first argument bounds the rounds of the loop
  of \<open>SkipMessage\<close>, and \<open>None\<close> means it was too small.
\<close>

fun SkipField :: "nat \<Rightarrow> u32 \<Rightarrow> UnknownFieldSet option \<Rightarrow> cis \<Rightarrow>
    (bool \<times> UnknownFieldSet option \<times> cis) option"
  and SkipMessage :: "nat \<Rightarrow> UnknownFieldSet option \<Rightarrow> cis \<Rightarrow>
    (bool \<times> UnknownFieldSet option \<times> cis) option" where
  "SkipField fuel tag unknown_fields input =
     (let number = GetTagFieldNumber tag
      in if number = 0 then Some (False, unknown_fields, input)
         else case GetTagWireType tag of
           Some WIRETYPE_VARINT \<Rightarrow>
             (let (ok, v, input) = ReadVarint64 input
              in Some (ok, if ok then map_option (AddVarint number v) unknown_fields
                           else unknown_fields, input))
         | Some WIRETYPE_FIXED64 \<Rightarrow>
             (let (ok, v, input) = ReadLittleEndian64 input
              in Some (ok, if ok then map_option (AddFixed64 number v) unknown_fields
                           else unknown_fields, input))
         | Some WIRETYPE_LENGTH_DELIMITED \<Rightarrow>
             (let (ok, len, input) = ReadVarint32 input
              in if \<not> ok then Some (False, unknown_fields, input)
                 else case unknown_fields of
                        None \<Rightarrow> (let (ok, input) = Skip (sint len) input in Some (ok, None, input))
                      | Some ufs \<Rightarrow>
                          (let (ok, v, input) = ReadString [] (sint len) input
                           in Some (ok, Some (AddLengthDelimited number v ufs), input)))
         | Some WIRETYPE_START_GROUP \<Rightarrow>
             (let (ok, input) = IncrementRecursionDepth input
              in if \<not> ok then Some (False, unknown_fields, input)
                 else case SkipMessage fuel (map_option (\<lambda>_. []) unknown_fields) input of
                        None \<Rightarrow> None
                      | Some (ok, grp, input) \<Rightarrow>
                          let unknown_fields =
                                map_option (\<lambda>ufs. AddGroup number (the grp) ufs) unknown_fields
                          in if \<not> ok then Some (False, unknown_fields, input)
                             else let input = DecrementRecursionDepth input
                                  in Some (LastTagWas (MakeTag (GetTagFieldNumber tag) WIRETYPE_END_GROUP) input,
                                           unknown_fields, input))
         | Some WIRETYPE_END_GROUP \<Rightarrow> Some (False, unknown_fields, input)
         | Some WIRETYPE_FIXED32 \<Rightarrow>
             (let (ok, v, input) = ReadLittleEndian32 input
              in Some (ok, if ok then map_option (AddFixed32 number v) unknown_fields
                           else unknown_fields, input))
         | None \<Rightarrow> Some (False, unknown_fields, input))"
| "SkipMessage 0 unknown_fields input = None"
| "SkipMessage (Suc fuel) unknown_fields input =
     (let (tag, input) = ReadTag input
      in if tag = 0 then Some (True, unknown_fields, input)
         else if GetTagWireType tag = Some WIRETYPE_END_GROUP then Some (True, unknown_fields, input)
         else case SkipField fuel tag unknown_fields input of
                None \<Rightarrow> None
              | Some (ok, unknown_fields, input) \<Rightarrow>
                  if ok then SkipMessage fuel unknown_fields input
                  else Some (False, unknown_fields, input))"

declare SkipField.simps [simp del] SkipMessage.simps [simp del]

definition UFS_MergeFromCodedStream :: "nat \<Rightarrow> cis \<Rightarrow> UnknownFieldSet \<Rightarrow> (bool \<times> UnknownFieldSet \<times> cis) option" where
  "UFS_MergeFromCodedStream fuel input ufs =
     (case SkipMessage fuel (Some []) input of
        None \<Rightarrow> None
      | Some (ok, other, input) \<Rightarrow>
          if ok \<and> ConsumedEntireMessage input
          then Some (True, fst (UFS_MergeFromAndDestroy (the other) ufs), input)
          else Some (False, ufs, input))"

definition UFS_ParseFromCodedStream :: "nat \<Rightarrow> cis \<Rightarrow> UnknownFieldSet \<Rightarrow> (bool \<times> UnknownFieldSet \<times> cis) option" where
  "UFS_ParseFromCodedStream fuel input ufs = UFS_MergeFromCodedStream fuel input (UFS_Clear ufs)"

section \<open>Metadata\<close>

text \<open>
  \<open>InternalMetadataWithArena\<close> of a message off any arena: \<open>None\<close> until
  \<open>mutable_unknown_fields\<close> has made the container, and never \<open>None\<close> again.
\<close>

type_synonym Metadata = "UnknownFieldSet option"

definition have_unknown_fields :: "Metadata \<Rightarrow> bool" where
  "have_unknown_fields m \<longleftrightarrow> m \<noteq> None"

definition unknown_fields :: "Metadata \<Rightarrow> UnknownFieldSet" where
  "unknown_fields m = (case m of Some ufs \<Rightarrow> ufs | None \<Rightarrow> [])"

definition mutable_unknown_fields :: "Metadata \<Rightarrow> Metadata" where
  "mutable_unknown_fields m = (if have_unknown_fields m then m else Some [])"

definition Metadata_Swap :: "Metadata \<Rightarrow> Metadata \<Rightarrow> Metadata \<times> Metadata" where
  "Metadata_Swap m other =
     (if have_unknown_fields m \<or> have_unknown_fields other
      then (mutable_unknown_fields other, mutable_unknown_fields m) else (m, other))"

definition Metadata_MergeFrom :: "Metadata \<Rightarrow> Metadata \<Rightarrow> Metadata" where
  "Metadata_MergeFrom other m =
     (if have_unknown_fields other
      then map_option (UFS_MergeFrom (unknown_fields other)) (mutable_unknown_fields m) else m)"

definition Metadata_Clear :: "Metadata \<Rightarrow> Metadata" where
  "Metadata_Clear m =
     (if have_unknown_fields m then map_option UFS_Clear (mutable_unknown_fields m) else m)"

lemma unknown_fields_simps [simp]:
  "unknown_fields None = []" "unknown_fields (Some fs) = fs"
  "unknown_fields (mutable_unknown_fields m) = unknown_fields m"
  "unknown_fields (Metadata_MergeFrom other m) = unknown_fields m @ unknown_fields other"
  "unknown_fields (Metadata_Clear m) = []"
  "unknown_fields (fst (Metadata_Swap m other)) = unknown_fields other"
  "unknown_fields (snd (Metadata_Swap m other)) = unknown_fields m"
  by (auto simp: unknown_fields_def mutable_unknown_fields_def have_unknown_fields_def
      Metadata_MergeFrom_def Metadata_Clear_def Metadata_Swap_def UFS_MergeFrom_def UFS_Clear_def
      split: option.splits)

section \<open>Tags and zig-zag\<close>

lemma wire_code_less: "unat (wire_code t) < 8"
  by (cases t) (simp_all add: wire_code_def)

lemma MakeTag_unat: "unat n < 2 ^ 29 \<Longrightarrow> unat (MakeTag n t) = 8 * unat n + unat (wire_code t)"
proof -
  assume n: "unat n < 2 ^ 29"
  have "unat (push_bit 3 n) = 8 * unat n"
    using n by (simp add: push_bit_eq_mult unat_word_ariths(2) mult.commute)
  moreover have "unat (push_bit 3 n OR wire_code t) = unat (wire_code t) OR push_bit 3 (unat n)"
    using calculation by (simp add: unsigned_or_eq push_bit_eq_mult or.commute mult.commute)
  moreover have "unat (wire_code t) OR push_bit 3 (unat n) = unat (wire_code t) + unat n * 2 ^ 3"
    by (rule or_push_bit_nat) (simp add: wire_code_less)
  ultimately show ?thesis by (simp add: MakeTag_def kTagTypeBits_def)
qed

lemma GetTagFieldNumber_MakeTag:
  "unat n < 2 ^ 29 \<Longrightarrow> GetTagFieldNumber (MakeTag n t) = n"
proof -
  assume n: "unat n < 2 ^ 29"
  have "unat (GetTagFieldNumber (MakeTag n t)) = unat n"
    using MakeTag_unat [OF n, of t] wire_code_less [of t]
    by (simp add: GetTagFieldNumber_def kTagTypeBits_def unat_drop_bit_eq drop_bit_eq_div unat_div)
  then show ?thesis by (simp only: word_unat_eq_iff)
qed

lemma kTagTypeMask_eq: "kTagTypeMask = mask 3"
  by (simp add: kTagTypeMask_def kTagTypeBits_def mask_eq_exp_minus_1 push_bit_eq_mult)

lemma GetTagWireType_MakeTag: "GetTagWireType (MakeTag n t) = Some t"
proof -
  have "MakeTag n t AND kTagTypeMask = wire_code t"
  proof (rule bit_word_eqI)
    fix i assume "i < LENGTH(32)"
    have "i < 3" if "bit (wire_code t) i"
    proof (rule ccontr)
      assume "\<not> i < 3"
      from that have "bit (unat (wire_code t)) i" by (simp add: bit_unsigned_iff)
      then have "2 ^ i \<le> unat (wire_code t)" by (metis bit_iff_odd div_less even_zero not_le)
      moreover have "(2::nat) ^ 3 \<le> 2 ^ i" using \<open>\<not> i < 3\<close> by (intro power_increasing) simp_all
      ultimately show False using wire_code_less [of t] by simp
    qed
    then show "bit (MakeTag n t AND kTagTypeMask) i = bit (wire_code t) i"
      using \<open>i < LENGTH(32)\<close>
      by (auto simp: kTagTypeMask_eq MakeTag_def kTagTypeBits_def bit_simps not_less)
  qed
  then show ?thesis by (cases t) (simp_all add: GetTagWireType_def Let_def wire_code_def)
qed

lemma MakeTag_nonzero: "0 < unat n \<Longrightarrow> unat n < 2 ^ 29 \<Longrightarrow> MakeTag n t \<noteq> 0"
  using MakeTag_unat [of n t] by (auto simp: unat_eq_zero)

lemma bit_signed_drop_bit_sign:
  "i < LENGTH('a) \<Longrightarrow> bit (signed_drop_bit (LENGTH('a) - Suc 0) (n :: 'a :: len word)) i = bit n (LENGTH('a) - Suc 0)"
  by (cases i) (auto simp: bit_signed_drop_bit_iff)

lemma bit_minus_and_1: "i < LENGTH('a) \<Longrightarrow> bit (- (n AND 1) :: 'a :: len word) i = bit n 0"
  by (cases "bit n 0") (auto simp: and_one_eq bit_0 mod_2_eq_odd)

lemma ZigZag32_decode: "ZigZagDecode32 (ZigZagEncode32 n) = n"
proof (rule bit_word_eqI)
  fix i assume i: "i < LENGTH(32)"
  have s: "bit (signed_drop_bit 31 n) j = bit n 31" if "j < 32" for j
    using that bit_signed_drop_bit_sign [where 'a = 32, of j n] by simp
  have m: "bit (- (ZigZagEncode32 n AND 1)) i = bit (ZigZagEncode32 n) 0"
    using i by (rule bit_minus_and_1)
  have "bit (ZigZagEncode32 n) 0 = bit n 31"
    unfolding ZigZagEncode32_def bit_xor_iff bit_push_bit_iff by (simp add: s)
  moreover have "bit (drop_bit 1 (ZigZagEncode32 n)) i = (if i = 31 then False else bit n i \<noteq> bit n 31)"
    unfolding ZigZagEncode32_def bit_drop_bit_eq bit_xor_iff bit_push_bit_iff comp_def
    using i s by (auto simp: bit_imp_le_length dest: bit_imp_le_length)
  ultimately show "bit (ZigZagDecode32 (ZigZagEncode32 n)) i = bit n i"
    using m by (auto simp: ZigZagDecode32_def bit_xor_iff)
qed

lemma ZigZag64_decode: "ZigZagDecode64 (ZigZagEncode64 n) = n"
proof (rule bit_word_eqI)
  fix i assume i: "i < LENGTH(64)"
  have s: "bit (signed_drop_bit 63 n) j = bit n 63" if "j < 64" for j
    using that bit_signed_drop_bit_sign [where 'a = 64, of j n] by simp
  have m: "bit (- (ZigZagEncode64 n AND 1)) i = bit (ZigZagEncode64 n) 0"
    using i by (rule bit_minus_and_1)
  have "bit (ZigZagEncode64 n) 0 = bit n 63"
    unfolding ZigZagEncode64_def bit_xor_iff bit_push_bit_iff by (simp add: s)
  moreover have "bit (drop_bit 1 (ZigZagEncode64 n)) i = (if i = 63 then False else bit n i \<noteq> bit n 63)"
    unfolding ZigZagEncode64_def bit_drop_bit_eq bit_xor_iff bit_push_bit_iff comp_def
    using i s by (auto simp: bit_imp_le_length dest: bit_imp_le_length)
  ultimately show "bit (ZigZagDecode64 (ZigZagEncode64 n)) i = bit n i"
    using m by (auto simp: ZigZagDecode64_def bit_xor_iff)
qed

section \<open>Sizes\<close>

lemma length_varints [simp]:
  "length (WriteVarint32ToArray v) = VarintSize32 v" "length (WriteVarint64ToArray w) = VarintSize64 w"
  by (simp_all add: WriteVarint32ToArray_enc WriteVarint64ToArray_enc VarintSize32_length VarintSize64_length)

lemma length_WriteTagToArray [simp]: "length (WriteTagToArray n t) = VarintSize32 (MakeTag n t)"
  by (simp add: WriteTagToArray_def WriteTagToArray0_def)

lemma length_WriteStringWithSize [simp]:
  "length (WriteStringWithSizeToArray v) = LengthDelimitedSize (length v)"
  by (simp add: WriteStringWithSizeToArray_def LengthDelimitedSize_def)

lemma unknown_size:
  "length (SerializeUnknownField f) = ComputeUnknownFieldSize f"
  "length (SerializeUnknownFieldsToArray fs) = ComputeUnknownFieldsSize fs"
  by (induction f and fs rule: SerializeUnknownField_SerializeUnknownFieldsToArray.induct)
    (simp_all add: WriteInt64ToArray_def WriteFixed32ToArray_def WriteFixed64ToArray_def WriteBytesToArray_def
      LengthDelimitedSize_def)

lemma serialize_append [simp]:
  "SerializeUnknownFieldsToArray (fs @ gs) = SerializeUnknownFieldsToArray fs @ SerializeUnknownFieldsToArray gs"
  by (induction fs) simp_all

section \<open>Deleting by number\<close>

lemma DeleteByNumber_loop_filter:
  "left \<le> i \<Longrightarrow> i + n = length ufs \<Longrightarrow>
   DeleteByNumber_loop number n i left ufs =
     take left ufs @ filter (\<lambda>f. field_number f \<noteq> number) (drop i ufs)"
proof (induction n arbitrary: i left ufs)
  case (Suc n)
  then have d: "drop i ufs = ufs ! i # drop (Suc i) ufs" by (simp add: Cons_nth_drop_Suc)
  show ?case
  proof (cases "field_number (ufs ! i) = number")
    case True
    then show ?thesis using Suc.IH [of left "Suc i" ufs] Suc.prems d by simp
  next
    case False
    let ?u = "if i \<noteq> left then ufs[left := ufs ! i] else ufs"
    have "drop (Suc i) ?u = drop (Suc i) ufs" "take (Suc left) ?u = take left ufs @ [ufs ! i]" "length ?u = length ufs"
      using Suc.prems by (auto simp: take_Suc_conv_app_nth take_update_cancel list_update_append drop_update_cancel)
    then show ?thesis
      using Suc.IH [of "Suc left" "Suc i" ?u] Suc.prems d False by (simp add: Let_def)
  qed
qed simp

lemma UFS_DeleteByNumber_filter:
  "UFS_DeleteByNumber number ufs = filter (\<lambda>f. field_number f \<noteq> number) ufs"
  by (simp add: UFS_DeleteByNumber_def DeleteByNumber_loop_filter)


section \<open>Progress\<close>

text \<open>\<open>advanced s t\<close>: \<open>t\<close> is the flat stream \<open>s\<close> some bytes further on, with the same limits.\<close>

definition advanced :: "cis \<Rightarrow> cis \<Rightarrow> bool" where
  "advanced s t \<longleftrightarrow> flat t \<and> cdata t = cdata s \<and> cbuffer_end t = cbuffer_end s \<and>
     cbuffer s \<le> cbuffer t \<and> recursion_limit t = recursion_limit s"

lemma advanced_refl: "flat s \<Longrightarrow> advanced s s"
  by (simp add: advanced_def)

lemma advanced_trans [trans]: "advanced s t \<Longrightarrow> advanced t u \<Longrightarrow> advanced s u"
  by (auto simp: advanced_def)

lemma advanced_flat: "advanced s t \<Longrightarrow> flat t"
  by (simp add: advanced_def)

lemma advanced_avail: "flat s \<Longrightarrow> advanced s t \<Longrightarrow> avail t = drop (cbuffer t - cbuffer s) (avail s)"
  by (simp add: advanced_def avail_def drop_take)

lemma advanced_length: "flat s \<Longrightarrow> advanced s t \<Longrightarrow> length (avail t) \<le> length (avail s)"
  using advanced_avail by simp

lemma advanced_Advance: "flat s \<Longrightarrow> n \<le> length (avail s) \<Longrightarrow> advanced s (Advance n s)"
  by (simp add: advanced_def)

lemma advanced_updates [simp]:
  "advanced s (t\<lparr>last_tag := x\<rparr>) = advanced s t"
  "advanced s (t\<lparr>legitimate_message_end := b\<rparr>) = advanced s t"
  "advanced s (t\<lparr>recursion_budget := k\<rparr>) = advanced s t"
  "advanced (s\<lparr>last_tag := x\<rparr>) t = advanced s t"
  "advanced (s\<lparr>legitimate_message_end := b\<rparr>) t = advanced s t"
  "advanced (s\<lparr>recursion_budget := k\<rparr>) t = advanced s t"
  by (simp_all add: advanced_def)

lemma advanced_varint_fail: "flat s \<Longrightarrow> advanced s (Advance (varint_fail s) s)"
  using advanced_Advance varint_fail_le by blast

lemma advanced_varint: "flat s \<Longrightarrow> varint_dec 10 (avail s) = Some (v, n) \<Longrightarrow> advanced s (Advance n s)"
  using advanced_Advance varint_dec_less by blast

named_theorems advances "a read advances the stream"

lemma ReadVarint64_advances [advances]: "flat s \<Longrightarrow> ReadVarint64 s = (ok, v, t) \<Longrightarrow> advanced s t"
  by (auto simp: ReadVarint64_flat advanced_varint advanced_varint_fail split: option.splits)

lemma ReadVarint32_advances [advances]: "flat s \<Longrightarrow> ReadVarint32 s = (ok, v, t) \<Longrightarrow> advanced s t"
  by (auto simp: ReadVarint32_flat advanced_varint advanced_varint_fail split: option.splits)

lemma ReadVarintSizeAsInt_advances [advances]:
  "flat s \<Longrightarrow> ReadVarintSizeAsInt s = (ok, v, t) \<Longrightarrow> advanced s t"
  by (auto simp: ReadVarintSizeAsInt_flat advanced_varint advanced_varint_fail advanced_refl
      split: option.splits if_splits)

lemma ReadLittleEndian32_advances [advances]: "flat s \<Longrightarrow> ReadLittleEndian32 s = (ok, v, t) \<Longrightarrow> advanced s t"
  by (auto simp: ReadLittleEndian32_flat advanced_Advance split: if_splits)

lemma ReadLittleEndian64_advances [advances]: "flat s \<Longrightarrow> ReadLittleEndian64 s = (ok, v, t) \<Longrightarrow> advanced s t"
  by (auto simp: ReadLittleEndian64_flat advanced_Advance split: if_splits)

lemma ReadString_advances [advances]: "flat s \<Longrightarrow> ReadString buf size' s = (ok, v, t) \<Longrightarrow> advanced s t"
proof (cases "size' < 0")
  case True
  then show "flat s \<Longrightarrow> ReadString buf size' s = (ok, v, t) \<Longrightarrow> advanced s t"
    by (simp add: ReadString_def advanced_refl)
next
  case False
  then obtain n where "size' = int n" by (metis not_less zero_le_imp_eq_int)
  then show "flat s \<Longrightarrow> ReadString buf size' s = (ok, v, t) \<Longrightarrow> advanced s t"
    by (auto simp: ReadString_flat advanced_Advance split: if_splits)
qed

lemma InternalReadStringInline_eq: "InternalReadStringInline buf size' s = ReadString buf size' s"
  by (simp add: ReadString_def InternalReadStringInline_def)

lemma ReadBytes_advances [advances]: "flat s \<Longrightarrow> ReadBytes old s = (ok, v, t) \<Longrightarrow> advanced s t"
proof -
  assume f: "flat s" and r: "ReadBytes old s = (ok, v, t)"
  obtain ok1 len s1 where l: "ReadVarint32 s = (ok1, len, s1)" by (cases "ReadVarint32 s") auto
  note a = ReadVarint32_advances [OF f l]
  then show "advanced s t"
    using r l ReadString_advances [OF advanced_flat [OF a], of old "sint len" ok v t] advanced_trans [OF a]
    by (auto simp: ReadBytes_def InternalReadStringInline_eq split: if_splits)
qed

lemma Skip_advances [advances]: "flat s \<Longrightarrow> Skip count s = (ok, t) \<Longrightarrow> advanced s t"
proof (cases "count < 0")
  case True
  then show "flat s \<Longrightarrow> Skip count s = (ok, t) \<Longrightarrow> advanced s t"
    by (simp add: Skip_def advanced_refl)
next
  case False
  then obtain n where "count = int n" by (metis not_less zero_le_imp_eq_int)
  then show "flat s \<Longrightarrow> Skip count s = (ok, t) \<Longrightarrow> advanced s t"
    by (auto simp: Skip_flat advanced_Advance split: if_splits)
qed

lemma tag_spec_advances: 
  assumes "flat s" "tag_spec s = (tag, t)"
  shows "advanced s t" "tag \<noteq> 0 \<Longrightarrow> length (avail t) < length (avail s)"
proof -
  show "advanced s t" using assms
    by (auto simp: tag_spec_def advanced_refl advanced_varint advanced_varint_fail split: if_splits option.splits)
  assume "tag \<noteq> 0"
  with assms show "length (avail t) < length (avail s)"
    by (auto simp: tag_spec_def dest: varint_dec_less split: if_splits option.splits)
qed

lemma ReadTag_advances:
  assumes "flat s" "ReadTag s = (tag, t)"
  shows "advanced s t" "tag \<noteq> 0 \<Longrightarrow> length (avail t) < length (avail s)"
  using tag_spec_advances [OF assms(1)] assms
  by (auto simp: ReadTag_flat Let_def split: prod.splits)

lemma ReadTagWithCutoff_advances:
  assumes "flat s" "ReadTagWithCutoffNoLastTag cutoff s = (tag, b, t)"
  shows "advanced s t" "tag \<noteq> 0 \<Longrightarrow> length (avail t) < length (avail s)"
  using tag_spec_advances [OF assms(1), of "fst (tag_spec s)" "snd (tag_spec s)"]
    ReadTagWithCutoffNoLastTag_flat [OF assms(1), of cutoff] assms(2)
  by auto

text \<open>
  A skip ends whatever the bytes are: each round of the loop takes a tag off the stream. It
  fills in a set of unknown fields exactly when it was given one.
\<close>

definition skip_ends :: "nat \<Rightarrow> bool" where
  "skip_ends fuel \<longleftrightarrow> (\<forall>ufs s. flat s \<and> length (avail s) < fuel \<longrightarrow>
     (\<exists>ok ufs' t. SkipMessage fuel ufs s = Some (ok, ufs', t) \<and> advanced s t \<and> (ufs' = None \<longleftrightarrow> ufs = None)))"

lemma SkipField_ends:
  assumes "skip_ends fuel" "flat s" "length (avail s) < fuel"
  shows "\<exists>ok ufs' t. SkipField fuel tag ufs s = Some (ok, ufs', t) \<and> advanced s t \<and> (ufs' = None \<longleftrightarrow> ufs = None)"
proof -
  note [split] = prod.splits option.splits
  note f = assms(2)
  show ?thesis
  proof (cases "GetTagFieldNumber tag = 0")
    case True
    then have "SkipField fuel tag ufs s = Some (False, ufs, s)" by (simp add: SkipField.simps)
    then show ?thesis using advanced_refl [OF f] by blast
  next
    case number: False
    show ?thesis
    proof (cases "GetTagWireType tag")
      case None
      then have "SkipField fuel tag ufs s = Some (False, ufs, s)" using number by (simp add: SkipField.simps)
      then show ?thesis using advanced_refl [OF f] by blast
    next
      case (Some w)
      show ?thesis
      proof (cases w)
        case WIRETYPE_VARINT
        with Some number f show ?thesis
          by (cases "ReadVarint64 s") (auto simp: SkipField.simps Let_def ReadVarint64_advances)
      next
        case WIRETYPE_FIXED64
        with Some number f show ?thesis
          by (cases "ReadLittleEndian64 s") (auto simp: SkipField.simps Let_def ReadLittleEndian64_advances)
      next
        case WIRETYPE_FIXED32
        with Some number f show ?thesis
          by (cases "ReadLittleEndian32 s") (auto simp: SkipField.simps Let_def ReadLittleEndian32_advances)
      next
        case WIRETYPE_END_GROUP
        with Some number have "SkipField fuel tag ufs s = Some (False, ufs, s)" by (simp add: SkipField.simps)
        then show ?thesis using advanced_refl [OF f] by blast
      next
        case WIRETYPE_LENGTH_DELIMITED
        obtain ok len s1 where l: "ReadVarint32 s = (ok, len, s1)" by (cases "ReadVarint32 s") auto
        note a = ReadVarint32_advances [OF f l]
        show ?thesis
        proof (cases ufs)
          case None
          with WIRETYPE_LENGTH_DELIMITED Some number l a show ?thesis
            by (cases "Skip (sint len) s1")
              (auto simp: SkipField.simps Let_def intro: advanced_trans [OF a] Skip_advances [OF advanced_flat [OF a]])
        next
          case (Some fs)
          with WIRETYPE_LENGTH_DELIMITED \<open>GetTagWireType tag = Some w\<close> number l a show ?thesis
            by (cases "ReadString [] (sint len) s1")
              (auto simp: SkipField.simps Let_def intro: advanced_trans [OF a] ReadString_advances [OF advanced_flat [OF a]])
        qed
      next
        case WIRETYPE_START_GROUP
        let ?s1 = "s\<lparr>recursion_budget := recursion_budget s - 1\<rparr>"
        have a: "advanced s ?s1" using f by (simp add: advanced_refl)
        show ?thesis
        proof (cases "recursion_budget s - 1 \<ge> 0")
          case False
          with WIRETYPE_START_GROUP Some number have "SkipField fuel tag ufs s = Some (False, ufs, ?s1)"
            by (simp add: SkipField.simps Let_def IncrementRecursionDepth_def)
          then show ?thesis using a by blast
        next
          case True
          have "flat ?s1" "length (avail ?s1) < fuel" using assms by simp_all
          then obtain ok grp t where m: "SkipMessage fuel (map_option (\<lambda>_. []) ufs) ?s1 = Some (ok, grp, t)"
            "advanced ?s1 t" "grp = None \<longleftrightarrow> ufs = None"
            using assms(1) [unfolded skip_ends_def, rule_format, of ?s1 "map_option (\<lambda>_. []) ufs"] by auto
          let ?ufs = "map_option (\<lambda>fs. AddGroup (GetTagFieldNumber tag) (the grp) fs) ufs"
          let ?t = "DecrementRecursionDepth t"
          have "SkipField fuel tag ufs s =
              (if ok then Some (LastTagWas (MakeTag (GetTagFieldNumber tag) WIRETYPE_END_GROUP) ?t, ?ufs, ?t)
               else Some (False, ?ufs, t))"
            using WIRETYPE_START_GROUP Some number True m(1)
            by (simp add: SkipField.simps Let_def IncrementRecursionDepth_def)
          moreover have "advanced s t" "advanced s ?t" using m(2) by (auto simp: DecrementRecursionDepth_def)
          moreover have "?ufs = None \<longleftrightarrow> ufs = None" by simp
          ultimately show ?thesis by (cases ok) (simp_all only: if_True if_False, blast+)
        qed
      qed
    qed
  qed
qed

lemma SkipMessage_ends: "skip_ends fuel"
proof (induction fuel)
  case 0
  then show ?case by (simp add: skip_ends_def)
next
  case (Suc fuel)
  show ?case unfolding skip_ends_def
  proof (intro allI impI, elim conjE)
    fix ufs s assume f: "flat s" and len: "length (avail s) < Suc fuel"
    obtain tag s1 where tag: "ReadTag s = (tag, s1)" by force
    note adv = ReadTag_advances [OF f tag]
    note f1 = advanced_flat [OF adv(1)]
    show "\<exists>ok ufs' t. SkipMessage (Suc fuel) ufs s = Some (ok, ufs', t) \<and> advanced s t \<and> (ufs' = None \<longleftrightarrow> ufs = None)"
    proof (cases "tag = 0 \<or> GetTagWireType tag = Some WIRETYPE_END_GROUP")
      case True
      then show ?thesis using tag adv(1) by (auto simp: SkipMessage.simps)
    next
      case False
      then have len1: "length (avail s1) < fuel" using adv(2) len by simp
      obtain ok ufs1 s2 where sf: "SkipField fuel tag ufs s1 = Some (ok, ufs1, s2)" "advanced s1 s2" "ufs1 = None \<longleftrightarrow> ufs = None"
        using SkipField_ends [OF Suc f1 len1] by blast
      note a2 = advanced_trans [OF adv(1) sf(2)]
      have len2: "length (avail s2) < fuel" using advanced_length [OF f1 sf(2)] len1 by simp
      obtain ok' ufs2 s3 where sm: "SkipMessage fuel ufs1 s2 = Some (ok', ufs2, s3)" "advanced s2 s3" "ufs2 = None \<longleftrightarrow> ufs1 = None"
        using Suc len2 advanced_flat [OF sf(2)] unfolding skip_ends_def by blast
      show ?thesis
        using False tag sf sm a2 advanced_trans [OF a2 sm(2)]
        by (cases ok) (auto simp: SkipMessage.simps)
    qed
  qed
qed


section \<open>Reading unknown fields back\<close>

text \<open>What the parser itself can have produced, and the nesting it needs.\<close>

fun field_ok :: "UnknownField \<Rightarrow> bool" and fields_ok :: "UnknownFieldSet \<Rightarrow> bool" where
  "field_ok (TYPE_VARINT n _) = (0 < unat n \<and> unat n < 2 ^ 29)"
| "field_ok (TYPE_FIXED32 n _) = (0 < unat n \<and> unat n < 2 ^ 29)"
| "field_ok (TYPE_FIXED64 n _) = (0 < unat n \<and> unat n < 2 ^ 29)"
| "field_ok (TYPE_LENGTH_DELIMITED n v) = (0 < unat n \<and> unat n < 2 ^ 29 \<and> length v < 2 ^ 31)"
| "field_ok (TYPE_GROUP n g) = (0 < unat n \<and> unat n < 2 ^ 29 \<and> fields_ok g)"
| "fields_ok [] = True"
| "fields_ok (f # fs) = (field_ok f \<and> fields_ok fs)"

fun field_depth :: "UnknownField \<Rightarrow> nat" and fields_depth :: "UnknownFieldSet \<Rightarrow> nat" where
  "field_depth (TYPE_GROUP n g) = Suc (fields_depth g)"
| "field_depth (TYPE_VARINT n v) = 0"
| "field_depth (TYPE_FIXED32 n w) = 0"
| "field_depth (TYPE_FIXED64 n v) = 0"
| "field_depth (TYPE_LENGTH_DELIMITED n b) = 0"
| "fields_depth [] = 0"
| "fields_depth (f # fs) = max (field_depth f) (fields_depth fs)"

text \<open>A field is its tag and what follows the tag.\<close>

fun field_tag :: "UnknownField \<Rightarrow> u32" where
  "field_tag (TYPE_VARINT n _) = MakeTag n WIRETYPE_VARINT"
| "field_tag (TYPE_FIXED32 n _) = MakeTag n WIRETYPE_FIXED32"
| "field_tag (TYPE_FIXED64 n _) = MakeTag n WIRETYPE_FIXED64"
| "field_tag (TYPE_LENGTH_DELIMITED n _) = MakeTag n WIRETYPE_LENGTH_DELIMITED"
| "field_tag (TYPE_GROUP n _) = MakeTag n WIRETYPE_START_GROUP"

fun field_body :: "UnknownField \<Rightarrow> bytes" where
  "field_body (TYPE_VARINT n v) = WriteVarint64ToArray v"
| "field_body (TYPE_FIXED32 n v) = WriteLittleEndian32ToArray v"
| "field_body (TYPE_FIXED64 n v) = WriteLittleEndian64ToArray v"
| "field_body (TYPE_LENGTH_DELIMITED n v) = WriteStringWithSizeToArray v"
| "field_body (TYPE_GROUP n g) = SerializeUnknownFieldsToArray g @ WriteTagToArray n WIRETYPE_END_GROUP"

lemma field_tag_body: "SerializeUnknownField f = WriteVarint32ToArray (field_tag f) @ field_body f"
  by (cases f) (simp_all add: WriteInt64ToArray_def WriteFixed32ToArray_def WriteFixed64ToArray_def
      WriteBytesToArray_def WriteTagToArray_def WriteTagToArray0_def)

lemma field_tag_nonzero: "field_ok f \<Longrightarrow> field_tag f \<noteq> 0"
  by (cases f) (simp_all add: MakeTag_nonzero)

lemma field_tag_not_end: "GetTagWireType (field_tag f) \<noteq> Some WIRETYPE_END_GROUP"
  by (cases f) (simp_all add: GetTagWireType_MakeTag)

subsection \<open>Reading what was written\<close>

lemma varint_dec_32: "varint_dec 10 (WriteVarint32ToArray v @ rest) = Some (unat v, length (WriteVarint32ToArray v))"
  unfolding WriteVarint32ToArray_enc by (rule varint_dec_enc) (rule le_trans [OF length_varint_enc32], simp)

lemma varint_dec_64: "varint_dec 10 (WriteVarint64ToArray v @ rest) = Some (unat v, length (WriteVarint64ToArray v))"
  unfolding WriteVarint64ToArray_enc by (rule varint_dec_enc) (rule length_varint_enc64)

lemma VarintSize32_pos [simp]: "0 < VarintSize32 v"
  using varint_dec_less [OF varint_dec_32 [of v "[]"]] by simp

lemma ReadVarint32_written:
  "flat s \<Longrightarrow> avail s = WriteVarint32ToArray v @ rest \<Longrightarrow>
   ReadVarint32 s = (True, v, Advance (VarintSize32 v) s)"
  by (simp add: ReadVarint32_flat varint_dec_32)

lemma ReadVarint64_written:
  "flat s \<Longrightarrow> avail s = WriteVarint64ToArray v @ rest \<Longrightarrow>
   ReadVarint64 s = (True, v, Advance (VarintSize64 v) s)"
  by (simp add: ReadVarint64_flat varint_dec_64)

lemma tag_spec_written:
  "flat s \<Longrightarrow> avail s = WriteVarint32ToArray v @ rest \<Longrightarrow> tag_spec s = (v, Advance (VarintSize32 v) s)"
  using VarintSize32_pos [of v] 
  by (auto simp add: tag_spec_def varint_dec_32 simp flip: length_varints(1) simp del: length_varints VarintSize32_pos)

lemma ReadTag_written:
  "flat s \<Longrightarrow> avail s = WriteVarint32ToArray v @ rest \<Longrightarrow>
   ReadTag s = (v, (Advance (VarintSize32 v) s)\<lparr>last_tag := v\<rparr>)"
  by (simp add: ReadTag_flat tag_spec_written)

lemma sint_small: "n < 2 ^ 31 \<Longrightarrow> sint (of_nat n :: u32) = int n"
  by (simp add: signed_of_nat signed_take_bit_int_eq_self)

lemma unat_small: "n < 2 ^ 31 \<Longrightarrow> unat (of_nat n :: u32) = n"
  by (simp add: unat_of_nat)

lemma ReadString_written:
  "flat s \<Longrightarrow> avail s = v @ rest \<Longrightarrow> ReadString old (int (length v)) s = (True, v, Advance (length v) s)"
  by (simp add: ReadString_flat)

lemma ReadBytes_written:
  assumes "flat s" "avail s = WriteStringWithSizeToArray v @ rest" "length v < 2 ^ 31"
  shows "ReadBytes old s = (True, v, Advance (LengthDelimitedSize (length v)) s)"
proof -
  let ?n = "VarintSize32 (of_nat (length v))"
  have a: "avail s = WriteVarint32ToArray (of_nat (length v)) @ v @ rest"
    using assms(2) by (simp add: WriteStringWithSizeToArray_def)
  have "ReadVarint32 s = (True, of_nat (length v), Advance ?n s)"
    using ReadVarint32_written [OF assms(1) a] .
  moreover have "flat (Advance ?n s)" using assms(1) a by simp
  moreover have "avail (Advance ?n s) = v @ rest" using a by simp
  ultimately show ?thesis
    using assms(3)
    by (simp add: ReadBytes_def InternalReadStringInline_eq sint_small ReadString_written LengthDelimitedSize_def add.commute)
qed

lemma Advance_updates [simp]:
  "Advance n (s\<lparr>last_tag := t\<rparr>) = (Advance n s)\<lparr>last_tag := t\<rparr>"
  "Advance n (s\<lparr>recursion_budget := k\<rparr>) = (Advance n s)\<lparr>recursion_budget := k\<rparr>"
  "Advance n (s\<lparr>legitimate_message_end := b\<rparr>) = (Advance n s)\<lparr>legitimate_message_end := b\<rparr>"
  by (simp_all add: Advance_def)

lemma SkipField_written_group:
  assumes inner: "\<And>s rest fuel. flat s \<Longrightarrow> avail s = SerializeUnknownFieldsToArray g @ rest \<Longrightarrow>
      int (fields_depth g) \<le> recursion_budget s \<Longrightarrow> recursion_budget s \<le> recursion_limit s \<Longrightarrow>
      length (avail s) < fuel \<Longrightarrow>
      \<exists>fuel' lt. length rest < fuel' \<and> SkipMessage fuel (Some []) s =
        SkipMessage fuel' (Some g) ((Advance (length (SerializeUnknownFieldsToArray g)) s)\<lparr>last_tag := lt\<rparr>)"
    and n: "0 < unat n" "unat n < 2 ^ 29"
    and s: "flat s" "avail s = field_body (TYPE_GROUP n g) @ rest" 
      "int (Suc (fields_depth g)) \<le> recursion_budget s" "recursion_budget s \<le> recursion_limit s"
      "length (avail s) < fuel"
  shows "\<exists>lt. SkipField fuel (MakeTag n WIRETYPE_START_GROUP) (Some ufs) s =
     Some (True, Some (ufs @ [TYPE_GROUP n g]),
       (Advance (length (field_body (TYPE_GROUP n g))) s)\<lparr>last_tag := lt\<rparr>)"
proof -
  let ?s1 = "s\<lparr>recursion_budget := recursion_budget s - 1\<rparr>"
  let ?m = "length (SerializeUnknownFieldsToArray g)"
  let ?fin = "MakeTag n WIRETYPE_END_GROUP"
  have "avail ?s1 = SerializeUnknownFieldsToArray g @ WriteTagToArray n WIRETYPE_END_GROUP @ rest"
    using s(2) by simp
  then obtain fuel' lt where len: "length (WriteTagToArray n WIRETYPE_END_GROUP @ rest) < fuel'"
    and sm: "SkipMessage fuel (Some []) ?s1 = SkipMessage fuel' (Some g) ((Advance ?m ?s1)\<lparr>last_tag := lt\<rparr>)"
    using inner [of ?s1 _ fuel] s by fastforce
  let ?s2 = "(Advance ?m ?s1)\<lparr>last_tag := lt\<rparr>"
  obtain k where k: "fuel' = Suc k" using len by (cases fuel') auto
  have "flat ?s2" using s by simp
  moreover have "avail ?s2 = WriteVarint32ToArray ?fin @ rest"
    using s(2) by (simp add: WriteTagToArray_def WriteTagToArray0_def)
  ultimately have "ReadTag ?s2 = (?fin, (Advance (VarintSize32 ?fin) ?s2)\<lparr>last_tag := ?fin\<rparr>)"
    by (rule ReadTag_written)
  then have "SkipMessage fuel (Some []) ?s1 =
      Some (True, Some g, (Advance (VarintSize32 ?fin) ?s2)\<lparr>last_tag := ?fin\<rparr>)"
    unfolding sm k using n by (simp add: SkipMessage.simps MakeTag_nonzero GetTagWireType_MakeTag)
  then have "SkipField fuel (MakeTag n WIRETYPE_START_GROUP) (Some ufs) s =
     Some (True, Some (ufs @ [TYPE_GROUP n g]),
       (Advance (length (field_body (TYPE_GROUP n g))) s)\<lparr>last_tag := ?fin\<rparr>)"
    using n s(3,4)
    by (simp add: SkipField.simps GetTagFieldNumber_MakeTag GetTagWireType_MakeTag IncrementRecursionDepth_def
        DecrementRecursionDepth_def LastTagWas_def AddGroup_def Let_def unknown_size unat_gt_0)
  then show ?thesis by blast
qed

lemma unknown_roundtrip:
  "field_ok f \<Longrightarrow> flat s \<Longrightarrow> avail s = field_body f @ rest \<Longrightarrow> int (field_depth f) \<le> recursion_budget s \<Longrightarrow>
   recursion_budget s \<le> recursion_limit s \<Longrightarrow> length (avail s) < fuel \<Longrightarrow>
   \<exists>lt. SkipField fuel (field_tag f) (Some ufs) s =
     Some (True, Some (ufs @ [f]), (Advance (length (field_body f)) s)\<lparr>last_tag := lt\<rparr>)"
  "fields_ok fs \<Longrightarrow> flat s \<Longrightarrow> avail s = SerializeUnknownFieldsToArray fs @ rest \<Longrightarrow>
   int (fields_depth fs) \<le> recursion_budget s \<Longrightarrow>
   recursion_budget s \<le> recursion_limit s \<Longrightarrow> length (avail s) < fuel \<Longrightarrow>
   \<exists>fuel' lt. length rest < fuel' \<and> SkipMessage fuel (Some ufs) s =
     SkipMessage fuel' (Some (ufs @ fs)) ((Advance (length (SerializeUnknownFieldsToArray fs)) s)\<lparr>last_tag := lt\<rparr>)"
proof (induction f and fs arbitrary: s rest fuel ufs and s rest fuel ufs
    rule: SerializeUnknownField_SerializeUnknownFieldsToArray.induct)
  case (1 n v)
  then show ?case
    by (auto simp: SkipField.simps GetTagFieldNumber_MakeTag GetTagWireType_MakeTag ReadVarint64_written AddVarint_def Let_def
        intro!: exI [of _ "last_tag s"])
next
  case (2 n v)
  then show ?case
    by (auto simp: SkipField.simps GetTagFieldNumber_MakeTag GetTagWireType_MakeTag ReadLittleEndian32_flat
        ReadLittleEndian32_Write AddFixed32_def Let_def intro!: exI [of _ "last_tag s"])
next
  case (3 n v)
  then show ?case
    by (auto simp: SkipField.simps GetTagFieldNumber_MakeTag GetTagWireType_MakeTag ReadLittleEndian64_flat
        ReadLittleEndian64_Write AddFixed64_def Let_def intro!: exI [of _ "last_tag s"])
next
  case (4 n v)
  from 4(2,3) have r: "avail s = WriteVarint32ToArray (of_nat (length v)) @ v @ rest"
    by (simp add: WriteStringWithSizeToArray_def)
  let ?s1 = "Advance (VarintSize32 (of_nat (length v))) s"
  have l: "ReadVarint32 s = (True, of_nat (length v), ?s1)" using 4(2) r by (rule ReadVarint32_written)
  have "flat ?s1" "avail ?s1 = v @ rest" using 4(2) r by simp_all
  then have "ReadString [] (int (length v)) ?s1 = (True, v, Advance (length v) ?s1)"
    by (rule ReadString_written)
  with 4(1) l have "SkipField fuel (field_tag (TYPE_LENGTH_DELIMITED n v)) (Some ufs) s =
     Some (True, Some (ufs @ [TYPE_LENGTH_DELIMITED n v]), Advance (length v) ?s1)"
    by (simp add: SkipField.simps GetTagFieldNumber_MakeTag GetTagWireType_MakeTag sint_small
        AddLengthDelimited_def Let_def unat_gt_0)
  then show ?case
    by (auto simp: LengthDelimitedSize_def add.commute intro!: exI [of _ "last_tag s"])
next
  case (5 n g)
  from 5(2) have ok: "0 < unat n" "unat n < 2 ^ 29" "fields_ok g" by simp_all
  have d: "int (Suc (fields_depth g)) \<le> recursion_budget s" using 5(5) by simp
  show ?case unfolding field_tag.simps
  proof (rule SkipField_written_group [OF _ ok(1,2) 5(3,4) d 5(6,7)])
    fix s' rest' fuel'
    assume "flat s'" "avail s' = SerializeUnknownFieldsToArray g @ rest'"
      "int (fields_depth g) \<le> recursion_budget s'" "recursion_budget s' \<le> recursion_limit s'"
      "length (avail s') < fuel'"
    from "5.IH" [OF ok(3) this, of "[]"]
    show "\<exists>fuel'' lt. length rest' < fuel'' \<and> SkipMessage fuel' (Some []) s' =
        SkipMessage fuel'' (Some g) ((Advance (length (SerializeUnknownFieldsToArray g)) s')\<lparr>last_tag := lt\<rparr>)"
      by simp
  qed
next
  case 6
  then show ?case by (auto intro!: exI [of _ fuel] exI [of _ "last_tag s"])
next
  case (7 f fs)
  let ?tag = "field_tag f"
  from 7(8) obtain k where k: "fuel = Suc k" by (cases fuel) auto
  let ?s1 = "(Advance (VarintSize32 ?tag) s)\<lparr>last_tag := ?tag\<rparr>"
  have a: "avail s = WriteVarint32ToArray ?tag @ field_body f @ SerializeUnknownFieldsToArray fs @ rest"
    using 7(5) by (simp add: field_tag_body)
  have rt: "ReadTag s = (?tag, ?s1)" using 7(4) a by (rule ReadTag_written)
  have a1: "avail ?s1 = field_body f @ SerializeUnknownFieldsToArray fs @ rest" and f1: "flat ?s1"
    using a 7(4) by simp_all
  have len1: "length (avail ?s1) < k"
    using 7(8) VarintSize32_pos [of ?tag] unfolding k a a1 by (simp del: VarintSize32_pos)
  have "int (field_depth f) \<le> int (fields_depth (f # fs))" "int (fields_depth fs) \<le> int (fields_depth (f # fs))"
    by simp_all
  then have d: "int (field_depth f) \<le> recursion_budget s" "int (fields_depth fs) \<le> recursion_budget s"
    using 7(6) by linarith+
  obtain lt where sf: "SkipField k ?tag (Some ufs) ?s1 =
      Some (True, Some (ufs @ [f]), (Advance (length (field_body f)) ?s1)\<lparr>last_tag := lt\<rparr>)"
    using "7.IH"(1) [OF _ f1 a1 _ _ len1, of ufs] 7(3,7) d by auto
  let ?s2 = "(Advance (length (field_body f)) ?s1)\<lparr>last_tag := lt\<rparr>"
  have a2: "avail ?s2 = SerializeUnknownFieldsToArray fs @ rest" and f2: "flat ?s2"
    using a 7(4) by simp_all
  have len2: "length (avail ?s2) < k" using len1 unfolding a1 a2 by simp
  obtain fuel' lt' where sm: "length rest < fuel'" "SkipMessage k (Some (ufs @ [f])) ?s2 =
      SkipMessage fuel' (Some ((ufs @ [f]) @ fs)) ((Advance (length (SerializeUnknownFieldsToArray fs)) ?s2)\<lparr>last_tag := lt'\<rparr>)"
    using "7.IH"(2) [OF _ f2 a2 _ _ len2, of "ufs @ [f]"] 7(3,7) d by auto
  have "SkipMessage fuel (Some ufs) s = SkipMessage k (Some (ufs @ [f])) ?s2"
    using rt sf 7(3) field_tag_nonzero [of f] field_tag_not_end [of f]
    unfolding k by (simp add: SkipMessage.simps)
  with sm show ?case
    by (auto simp: field_tag_body add.assoc intro!: exI [of _ fuel'])
qed

section \<open>What the wire format promises\<close>

text \<open>A tag built from a field number below \<open>2 ^ 29\<close> and a wire type is not 0 (unless the number
  is) and gives both back; the mapping of tags is injective.\<close>

lemma tags_roundtrip:
  assumes "unat n < 2 ^ 29"
  shows "GetTagFieldNumber (MakeTag n t) = n \<and> GetTagWireType (MakeTag n t) = Some t \<and>
    (n \<noteq> 0 \<longrightarrow> MakeTag n t \<noteq> 0)"
  using assms GetTagFieldNumber_MakeTag GetTagWireType_MakeTag MakeTag_nonzero [of n t]
  by (simp add: unat_gt_0)

lemma tags_roundtrip_witness: "GetTagFieldNumber (MakeTag 20 WIRETYPE_LENGTH_DELIMITED) = 20"
  using tags_roundtrip [of 20 WIRETYPE_LENGTH_DELIMITED] by simp

text \<open>Zig-zag decoding inverts zig-zag encoding on every 32-bit and every 64-bit value.\<close>

lemma zigzag_roundtrip:
  "ZigZagDecode32 (ZigZagEncode32 n) = n \<and> ZigZagDecode64 (ZigZagEncode64 m) = m"
  by (simp add: ZigZag32_decode ZigZag64_decode)

text \<open>\<open>ComputeUnknownFieldsSize\<close> is the number of bytes \<open>SerializeUnknownFieldsToArray\<close> writes, groups
  of any nesting included.\<close>

lemma unknown_fields_size:
  "ComputeUnknownFieldsSize fs = length (SerializeUnknownFieldsToArray fs)"
  by (simp add: unknown_size)

text \<open>\<open>DeleteByNumber\<close>, which compacts the vector in place, removes exactly the fields of that
  number and keeps the order of the others.\<close>

theorem delete_by_number:
  "UFS_DeleteByNumber number ufs = filter (\<lambda>f. field_number f \<noteq> number) ufs"
  by (rule UFS_DeleteByNumber_filter)

text \<open>Skipping an unknown field ends whatever the bytes are, with more fuel than there are bytes,
  and leaves the stream only further on within the same limits.\<close>

lemma skip_total:
  assumes "flat s" "length (avail s) < fuel"
  shows "\<exists>ok ufs' t. SkipField fuel tag ufs s = Some (ok, ufs', t) \<and> flat t \<and> cdata t = cdata s \<and>
    cbuffer_end t = cbuffer_end s \<and> cbuffer s \<le> cbuffer t"
  using SkipField_ends [OF SkipMessage_ends assms, of tag ufs] by (auto simp: advanced_def)

lemma skip_total_witness:
  "\<exists>ok ufs' t. SkipField 4 11 None (CodedInputStream [11, 11, 12] 3) = Some (ok, ufs', t)"
proof -
  have "flat (CodedInputStream [11, 11, 12] 3)" "avail (CodedInputStream [11, 11, 12] 3) = [11, 11, 12]"
    using flat_CodedInputStream [of "[11, 11, 12]"] avail_CodedInputStream [of "[11, 11, 12]"] by simp_all
  then show ?thesis using skip_total [of "CodedInputStream [11, 11, 12] 3" 4 11 None] by auto
qed

text \<open>An unknown field that was serialised is read back as the same field by \<open>SkipField\<close>, groups
  included, as long as the recursion budget covers their nesting; the rest of the stream stays.\<close>

lemma unknown_field_roundtrip:
  assumes "field_ok f" "flat s" "avail s = field_body f @ rest" "int (field_depth f) \<le> recursion_budget s"
    "recursion_budget s \<le> recursion_limit s" "length (avail s) < fuel"
  shows "\<exists>t. SkipField fuel (field_tag f) (Some ufs) s = Some (True, Some (ufs @ [f]), t) \<and> avail t = rest"
  using unknown_roundtrip(1) [OF assms, of ufs] assms(3) by auto

lemma unknown_field_roundtrip_witness:
  "\<exists>t. SkipField 3 (field_tag (TYPE_VARINT 5 7)) (Some []) (CodedInputStream [7, 9] 2) =
     Some (True, Some [TYPE_VARINT 5 7], t) \<and> avail t = [9]"
proof -
  have f: "flat (CodedInputStream [7, 9] 2)" "avail (CodedInputStream [7, 9] 2) = [7, 9]"
    using flat_CodedInputStream [of "[7, 9]"] avail_CodedInputStream [of "[7, 9]"] by simp_all
  have "field_body (TYPE_VARINT 5 7) = [7]"
    by (simp add: WriteVarint64ToArray_enc varint_enc_small)
  with f unknown_field_roundtrip [of "TYPE_VARINT 5 7" "CodedInputStream [7, 9] 2" "[9]" 3 "[]"]
  show ?thesis by (simp add: CodedInputStream_def default_recursion_limit_def)
qed

end
