(* ===== verification/RepeatedPtr.thy ===== *)
theory RepeatedPtr
  imports Prelude
begin

text \<open>
  The two containers a generated message keeps its fields in, both without an arena:
  \<open>internal::ArenaStringPtr\<close> (\<open>arenastring.h\<close>), the pointer of a string field that is either the
  shared empty default or a string of its own, and \<open>internal::RepeatedPtrFieldBase\<close>
  (\<open>repeated_field.h\<close>, \<open>repeated_field.cc\<close>), the array of a repeated message field. The array
  keeps cleared elements behind the current ones and hands them out again, so a repeated
  field is more than the list of its elements: \<open>items\<close> is that list, and the locale
  \<open>element_handler\<close> says what the element type must promise for the operations to act on it
  as a list.
\<close>

section \<open>String fields\<close>

text \<open>\<open>Default_string\<close> is \<open>ptr_ == default_value\<close>; an owned string is never shared.\<close>

datatype ArenaStringPtr = Default_string | Owned_string bytes

definition GetNoArena :: "ArenaStringPtr \<Rightarrow> bytes" where
  "GetNoArena p = (case p of Default_string \<Rightarrow> [] | Owned_string v \<Rightarrow> v)"

definition UnsafeSetDefault :: ArenaStringPtr where
  "UnsafeSetDefault = Default_string"

definition SetNoArena :: "bytes \<Rightarrow> ArenaStringPtr \<Rightarrow> ArenaStringPtr" where
  "SetNoArena v p =
     (case p of Default_string \<Rightarrow> Owned_string v | Owned_string _ \<Rightarrow> Owned_string v)"

text \<open>Two pointers are equal only when both are the default.\<close>

definition AssignWithDefault :: "ArenaStringPtr \<Rightarrow> ArenaStringPtr \<Rightarrow> ArenaStringPtr" where
  "AssignWithDefault from p =
     (if p = Default_string \<and> from = Default_string then p else SetNoArena (GetNoArena from) p)"

definition MutableNoArena :: "ArenaStringPtr \<Rightarrow> ArenaStringPtr" where
  "MutableNoArena p = (case p of Default_string \<Rightarrow> Owned_string [] | Owned_string v \<Rightarrow> p)"

definition ReleaseNoArena :: "ArenaStringPtr \<Rightarrow> bytes option \<times> ArenaStringPtr" where
  "ReleaseNoArena p =
     (case p of Default_string \<Rightarrow> (None, p) | Owned_string v \<Rightarrow> (Some v, Default_string))"

definition SetAllocatedNoArena :: "bytes option \<Rightarrow> ArenaStringPtr \<Rightarrow> ArenaStringPtr" where
  "SetAllocatedNoArena v p = (case v of Some v \<Rightarrow> Owned_string v | None \<Rightarrow> Default_string)"

definition ClearToEmptyNoArena :: "ArenaStringPtr \<Rightarrow> ArenaStringPtr" where
  "ClearToEmptyNoArena p =
     (case p of Default_string \<Rightarrow> p | Owned_string _ \<Rightarrow> Owned_string [])"

definition ClearToDefaultNoArena :: "ArenaStringPtr \<Rightarrow> ArenaStringPtr" where
  "ClearToDefaultNoArena p =
     (case p of Default_string \<Rightarrow> p | Owned_string _ \<Rightarrow> Owned_string (GetNoArena Default_string))"

definition SwapArenaString :: "ArenaStringPtr \<times> ArenaStringPtr \<Rightarrow> ArenaStringPtr \<times> ArenaStringPtr" where
  "SwapArenaString ps = (snd ps, fst ps)"

lemma GetNoArena_simps [simp]:
  "GetNoArena Default_string = []" "GetNoArena (Owned_string v) = v"
  "GetNoArena UnsafeSetDefault = []"
  "GetNoArena (SetNoArena v p) = v" "GetNoArena (AssignWithDefault from p) = GetNoArena from"
  "GetNoArena (MutableNoArena p) = GetNoArena p" "GetNoArena (ClearToEmptyNoArena p) = []"
  "GetNoArena (ClearToDefaultNoArena p) = []" "GetNoArena (snd (ReleaseNoArena p)) = []"
  "GetNoArena (SetAllocatedNoArena q p) = (case q of Some v \<Rightarrow> v | None \<Rightarrow> [])"
  by (auto simp: GetNoArena_def UnsafeSetDefault_def SetNoArena_def AssignWithDefault_def
      MutableNoArena_def ClearToEmptyNoArena_def ClearToDefaultNoArena_def ReleaseNoArena_def
      SetAllocatedNoArena_def split: ArenaStringPtr.splits option.splits)

section \<open>Repeated fields\<close>

text \<open>
  \<open>elements\<close> holds the \<open>rep_->allocated_size\<close> allocated elements, current ones first;
  \<open>rep_\<close> is \<open>NULL\<close> exactly while \<open>total_size\<close> is 0.
\<close>

record 'a RepeatedPtrFieldBase =
  current_size :: nat
  total_size :: nat
  elements :: "'a list"

definition RepeatedPtrFieldBase0 :: "'a RepeatedPtrFieldBase" where
  "RepeatedPtrFieldBase0 = \<lparr>current_size = 0, total_size = 0, elements = []\<rparr>"

definition rep_NULL :: "'a RepeatedPtrFieldBase \<Rightarrow> bool" where
  "rep_NULL r \<longleftrightarrow> total_size r = 0"

definition allocated_size :: "'a RepeatedPtrFieldBase \<Rightarrow> nat" where
  "allocated_size r = length (elements r)"

definition kMinRepeatedFieldAllocationSize :: nat where
  "kMinRepeatedFieldAllocationSize = 4"

definition InternalExtend :: "nat \<Rightarrow> 'a RepeatedPtrFieldBase \<Rightarrow> 'a RepeatedPtrFieldBase" where
  "InternalExtend extend_amount r =
     (let new_size = current_size r + extend_amount
      in if total_size r \<ge> new_size then r
         else r\<lparr>total_size := max kMinRepeatedFieldAllocationSize (max (nat (c_int (int (total_size r) * 2))) new_size)\<rparr>)"

definition Reserve :: "nat \<Rightarrow> 'a RepeatedPtrFieldBase \<Rightarrow> 'a RepeatedPtrFieldBase" where
  "Reserve new_size r =
     (if new_size > current_size r then InternalExtend (new_size - current_size r) r else r)"

definition rep_size :: "'a RepeatedPtrFieldBase \<Rightarrow> nat" where
  "rep_size r = current_size r"

definition rep_Get :: "nat \<Rightarrow> 'a RepeatedPtrFieldBase \<Rightarrow> 'a" where
  "rep_Get index r = elements r ! index"

text \<open>What the holder of the pointer \<open>Mutable(index)\<close> returned does through it.\<close>

definition rep_Mutable :: "nat \<Rightarrow> ('a \<Rightarrow> 'a) \<Rightarrow> 'a RepeatedPtrFieldBase \<Rightarrow> 'a RepeatedPtrFieldBase" where
  "rep_Mutable index f r = r\<lparr>elements := (elements r)[index := f (elements r ! index)]\<rparr>"

text \<open>
  \<open>Add\<close> returns the index of the element whose pointer the code returns. It writes the new
  element at \<open>current_size_\<close>, which is then \<open>allocated_size\<close>.
\<close>

definition rep_Add :: "'a \<Rightarrow> 'a RepeatedPtrFieldBase \<Rightarrow> nat \<times> 'a RepeatedPtrFieldBase" where
  "rep_Add new r =
     (if \<not> rep_NULL r \<and> current_size r < allocated_size r
      then (current_size r, r\<lparr>current_size := current_size r + 1\<rparr>)
      else let r = (if rep_NULL r \<or> allocated_size r = total_size r
                    then Reserve (total_size r + 1) r else r)
           in (current_size r,
               r\<lparr>elements := elements r @ [new], current_size := current_size r + 1\<rparr>))"

definition RemoveLast :: "('a \<Rightarrow> 'a) \<Rightarrow> 'a RepeatedPtrFieldBase \<Rightarrow> 'a RepeatedPtrFieldBase" where
  "RemoveLast clear r = rep_Mutable (current_size r - 1) clear (r\<lparr>current_size := current_size r - 1\<rparr>)"

definition rep_Clear :: "('a \<Rightarrow> 'a) \<Rightarrow> 'a RepeatedPtrFieldBase \<Rightarrow> 'a RepeatedPtrFieldBase" where
  "rep_Clear clear r =
     (let n = current_size r
      in if n > 0
         then r\<lparr>elements := map clear (take n (elements r)) @ drop n (elements r), current_size := 0\<rparr>
         else r)"

text \<open>\<open>MergeFromInnerLoop\<close>: the first \<open>already_allocated\<close> slots hold cleared elements.\<close>

definition MergeFromInnerLoop :: "'a \<Rightarrow> ('a \<Rightarrow> 'a \<Rightarrow> 'a) \<Rightarrow> 'a list \<Rightarrow> 'a list \<Rightarrow> nat \<Rightarrow> nat \<Rightarrow> 'a list" where
  "MergeFromInnerLoop new merge our_elems other_elems len already_allocated =
     map (\<lambda>i. merge (other_elems ! i) (our_elems ! i)) [0..<min already_allocated len] @
     map (\<lambda>i. merge (other_elems ! i) new) [already_allocated..<len] @
     drop len our_elems"

definition rep_MergeFrom ::
  "'a \<Rightarrow> ('a \<Rightarrow> 'a \<Rightarrow> 'a) \<Rightarrow> 'a RepeatedPtrFieldBase \<Rightarrow> 'a RepeatedPtrFieldBase \<Rightarrow> 'a RepeatedPtrFieldBase" where
  "rep_MergeFrom new merge other r =
     (if current_size other = 0 then r
      else let other_size = current_size other; r = InternalExtend other_size r;
               allocated_elems = allocated_size r - current_size r;
               our_elems = drop (current_size r) (elements r)
           in r\<lparr>elements := take (current_size r) (elements r) @
                  MergeFromInnerLoop new merge our_elems (elements other) other_size allocated_elems,
                current_size := current_size r + other_size\<rparr>)"

text \<open>\<open>CopyFrom\<close> of another field; the test \<open>&other == this\<close> is false.\<close>

definition rep_CopyFrom ::
  "'a \<Rightarrow> ('a \<Rightarrow> 'a) \<Rightarrow> ('a \<Rightarrow> 'a \<Rightarrow> 'a) \<Rightarrow> 'a RepeatedPtrFieldBase \<Rightarrow> 'a RepeatedPtrFieldBase \<Rightarrow>
   'a RepeatedPtrFieldBase" where
  "rep_CopyFrom new clear merge other r = rep_MergeFrom new merge other (rep_Clear clear r)"

definition SwapElements :: "nat \<Rightarrow> nat \<Rightarrow> 'a RepeatedPtrFieldBase \<Rightarrow> 'a RepeatedPtrFieldBase" where
  "SwapElements index1 index2 r =
     r\<lparr>elements := (elements r)[index1 := elements r ! index2, index2 := elements r ! index1]\<rparr>"

definition CloseGap :: "nat \<Rightarrow> nat \<Rightarrow> 'a RepeatedPtrFieldBase \<Rightarrow> 'a RepeatedPtrFieldBase" where
  "CloseGap start num r =
     (if rep_NULL r then r
      else r\<lparr>elements := take start (elements r) @ drop (start + num) (elements r),
             current_size := current_size r - num\<rparr>)"

definition ClearedCount :: "'a RepeatedPtrFieldBase \<Rightarrow> nat" where
  "ClearedCount r = (if rep_NULL r then 0 else allocated_size r - current_size r)"

definition AddFromCleared :: "'a RepeatedPtrFieldBase \<Rightarrow> nat option \<times> 'a RepeatedPtrFieldBase" where
  "AddFromCleared r =
     (if \<not> rep_NULL r \<and> current_size r < allocated_size r
      then (Some (current_size r), r\<lparr>current_size := current_size r + 1\<rparr>) else (None, r))"

definition UnsafeArenaAddAllocated :: "'a \<Rightarrow> 'a RepeatedPtrFieldBase \<Rightarrow> 'a RepeatedPtrFieldBase" where
  "UnsafeArenaAddAllocated v r =
     (let cur = current_size r;
          (r, es) =
            (if rep_NULL r \<or> cur = total_size r
             then (Reserve (total_size r + 1) r, elements r @ [v])
             else if allocated_size r = total_size r then (r, elements r)
             else if cur < allocated_size r then (r, elements r @ [elements r ! cur])
             else (r, elements r @ [v]))
      in r\<lparr>elements := es[cur := v], current_size := cur + 1\<rparr>)"

text \<open>\<open>AddAllocated\<close> of a heap element; with no arena both copies of the fast path agree.\<close>

definition AddAllocatedInternal :: "'a \<Rightarrow> 'a RepeatedPtrFieldBase \<Rightarrow> 'a RepeatedPtrFieldBase" where
  "AddAllocatedInternal v r =
     (if \<not> rep_NULL r \<and> allocated_size r < total_size r
      then let es = (if current_size r < allocated_size r
                     then elements r @ [elements r ! current_size r] else elements r @ [v])
           in r\<lparr>elements := es[current_size r := v], current_size := current_size r + 1\<rparr>
      else UnsafeArenaAddAllocated v r)"

definition UnsafeArenaReleaseLast :: "'a RepeatedPtrFieldBase \<Rightarrow> 'a \<times> 'a RepeatedPtrFieldBase" where
  "UnsafeArenaReleaseLast r =
     (let cur = current_size r - 1; result = elements r ! cur; n = allocated_size r - 1;
          es = (if cur < n then (elements r)[cur := elements r ! n] else elements r)
      in (result, r\<lparr>elements := take n es, current_size := cur\<rparr>))"

definition AddCleared :: "'a \<Rightarrow> 'a RepeatedPtrFieldBase \<Rightarrow> 'a RepeatedPtrFieldBase" where
  "AddCleared v r =
     (let r = (if rep_NULL r \<or> allocated_size r = total_size r then Reserve (total_size r + 1) r else r)
      in r\<lparr>elements := elements r @ [v]\<rparr>)"

definition ReleaseCleared :: "'a RepeatedPtrFieldBase \<Rightarrow> 'a \<times> 'a RepeatedPtrFieldBase" where
  "ReleaseCleared r = (last (elements r), r\<lparr>elements := butlast (elements r)\<rparr>)"

definition rep_InternalSwap ::
  "'a RepeatedPtrFieldBase \<times> 'a RepeatedPtrFieldBase \<Rightarrow> 'a RepeatedPtrFieldBase \<times> 'a RepeatedPtrFieldBase" where
  "rep_InternalSwap rs = (snd rs, fst rs)"

text \<open>\<open>DeleteSubrange\<close> deletes \<open>num\<close> elements and closes the gap.\<close>

definition DeleteSubrange :: "nat \<Rightarrow> nat \<Rightarrow> 'a RepeatedPtrFieldBase \<Rightarrow> 'a RepeatedPtrFieldBase" where
  "DeleteSubrange start num r = (if num > 0 then CloseGap start num r else r)"

section \<open>A repeated field as a list\<close>

definition items :: "'a RepeatedPtrFieldBase \<Rightarrow> 'a list" where
  "items r = take (current_size r) (elements r)"

definition cleared :: "'a RepeatedPtrFieldBase \<Rightarrow> 'a list" where
  "cleared r = drop (current_size r) (elements r)"

definition rep_ok :: "'a RepeatedPtrFieldBase \<Rightarrow> bool" where
  "rep_ok r \<longleftrightarrow> current_size r \<le> allocated_size r \<and> allocated_size r \<le> total_size r"

text \<open>
  A handler creates, clears and merges elements; \<open>view\<close> is the value of an element that its
  users can see. A cleared element looks like a new one, merging acts on the values, and
  merging into a new element copies.
\<close>

locale element_handler =
  fixes new :: 'a and clear :: "'a \<Rightarrow> 'a" and merge :: "'a \<Rightarrow> 'a \<Rightarrow> 'a" and view :: "'a \<Rightarrow> 'b"
  assumes view_clear: "view (clear x) = view new"
    and view_merge_new: "view to = view new \<Longrightarrow> view (merge from to) = view from"
begin

definition view_items :: "'a RepeatedPtrFieldBase \<Rightarrow> 'b list" where
  "view_items r = map view (items r)"

definition inv :: "'a RepeatedPtrFieldBase \<Rightarrow> bool" where
  "inv r \<longleftrightarrow> rep_ok r \<and> (\<forall>x\<in>set (cleared r). view x = view new)"

lemma inv_new: "inv RepeatedPtrFieldBase0" "view_items RepeatedPtrFieldBase0 = []"
  by (simp_all add: inv_def rep_ok_def RepeatedPtrFieldBase0_def allocated_size_def cleared_def
      view_items_def items_def)

lemma view_items_length: "inv r \<Longrightarrow> length (view_items r) = rep_size r"
  by (simp add: inv_def rep_ok_def view_items_def items_def rep_size_def allocated_size_def)

lemma view_items_nth: "inv r \<Longrightarrow> i < rep_size r \<Longrightarrow> view_items r ! i = view (rep_Get i r)"
  by (simp add: inv_def rep_ok_def view_items_def items_def rep_size_def rep_Get_def allocated_size_def)

lemma Reserve_fields:
  "elements (Reserve n r) = elements r" "current_size (Reserve n r) = current_size r"
  "n \<le> total_size (Reserve n r) \<or> n \<le> current_size r" "total_size r \<le> total_size (Reserve n r)"
  by (auto simp: Reserve_def InternalExtend_def Let_def)

lemma inv_Clear: "inv r \<Longrightarrow> inv (rep_Clear clear r)"
  by (auto simp: inv_def rep_ok_def rep_Clear_def Let_def allocated_size_def cleared_def view_clear
      dest: in_set_takeD)

lemma view_items_Clear: "view_items (rep_Clear clear r) = []"
  by (auto simp: view_items_def items_def rep_Clear_def Let_def)

lemma inv_Add:
  assumes "inv r"
  shows "inv (snd (rep_Add new r))" "view_items (snd (rep_Add new r)) = view_items r @ [view new]"
    "fst (rep_Add new r) = rep_size r"
proof -
  let ?r = "snd (rep_Add new r)"
  have ok: "current_size r \<le> length (elements r)" "length (elements r) \<le> total_size r"
    and cl: "\<forall>x\<in>set (drop (current_size r) (elements r)). view x = view new"
    using assms by (auto simp: inv_def rep_ok_def allocated_size_def cleared_def)
  have "inv ?r \<and> view_items ?r = view_items r @ [view new]"
  proof (cases "current_size r < length (elements r)")
    case True
    then have "\<not> rep_NULL r" using ok by (auto simp: rep_NULL_def)
    with True have r: "?r = r\<lparr>current_size := current_size r + 1\<rparr>"
      by (simp add: rep_Add_def allocated_size_def)
    from True have "drop (current_size r) (elements r) =
        elements r ! current_size r # drop (Suc (current_size r)) (elements r)"
      by (simp add: Cons_nth_drop_Suc)
    with cl True ok show ?thesis
      unfolding r by (auto simp: inv_def rep_ok_def allocated_size_def cleared_def view_items_def items_def
          take_Suc_conv_app_nth)
  next
    case False
    then have full: "current_size r = length (elements r)" using ok by simp
    let ?q = "if rep_NULL r \<or> allocated_size r = total_size r then Reserve (total_size r + 1) r else r"
    have q: "elements ?q = elements r" "current_size ?q = current_size r" "length (elements r) < total_size ?q"
      using ok full Reserve_fields [where n = "total_size r + 1" and r = r]
      by (auto simp: allocated_size_def rep_NULL_def)
    have r: "?r = ?q\<lparr>elements := elements r @ [new], current_size := current_size r + 1\<rparr>"
      using False q by (simp add: rep_Add_def allocated_size_def Let_def)
    show ?thesis
      unfolding r using full q
      by (auto simp: inv_def rep_ok_def allocated_size_def cleared_def view_items_def items_def)
  qed
  then show "inv ?r" "view_items ?r = view_items r @ [view new]" by auto
  show "fst (rep_Add new r) = rep_size r"
    using Reserve_fields(2) [where r = r] by (auto simp: rep_Add_def rep_size_def Let_def)
qed

lemma inv_Mutable:
  assumes "inv r" "i < rep_size r"
  shows "inv (rep_Mutable i f r)"
    "view_items (rep_Mutable i f r) = (view_items r)[i := view (f (rep_Get i r))]"
  using assms
  by (auto simp: inv_def rep_ok_def allocated_size_def cleared_def view_items_def items_def rep_Mutable_def
      rep_size_def rep_Get_def take_update_swap map_update drop_update_cancel)

lemma MergeFromInnerLoop_view:
  assumes "\<forall>x\<in>set ours. view x = view new" "len \<le> length others"
  shows "map view (take len (MergeFromInnerLoop new merge ours others len (length ours)))
       = map view (take len others)"
    "drop len (MergeFromInnerLoop new merge ours others len (length ours)) = drop len ours"
    "length (MergeFromInnerLoop new merge ours others len (length ours)) = max len (length ours)"
proof -
  let ?a = "map (\<lambda>i. merge (others ! i) (ours ! i)) [0..<min (length ours) len]"
  let ?b = "map (\<lambda>i. merge (others ! i) new) [length ours..<len]"
  have l: "length (?a @ ?b) = len" by auto
  have m: "MergeFromInnerLoop new merge ours others len (length ours) = (?a @ ?b) @ drop len ours"
    by (simp add: MergeFromInnerLoop_def)
  show "drop len (MergeFromInnerLoop new merge ours others len (length ours)) = drop len ours"
    "length (MergeFromInnerLoop new merge ours others len (length ours)) = max len (length ours)"
    unfolding m using l by auto
  have "map view (?a @ ?b) = map view (take len others)"
  proof (rule nth_equalityI)
    fix i assume "i < length (map view (?a @ ?b))"
    then have i: "i < len" using l by simp
    show "map view (?a @ ?b) ! i = map view (take len others) ! i"
      using i assms by (auto simp: nth_append view_merge_new)
  qed (use l assms in simp)
  then show "map view (take len (MergeFromInnerLoop new merge ours others len (length ours)))
       = map view (take len others)"
    unfolding m using l by simp
qed

lemma inv_MergeFrom:
  assumes "inv r" "inv other"
  shows "inv (rep_MergeFrom new merge other r)"
    "view_items (rep_MergeFrom new merge other r) = view_items r @ view_items other"
proof -
  let ?n = "current_size other" let ?m = "rep_MergeFrom new merge other r"
  have ok: "current_size r \<le> length (elements r)" "length (elements r) \<le> total_size r"
    and cl: "\<forall>x\<in>set (drop (current_size r) (elements r)). view x = view new"
    using assms(1) by (auto simp: inv_def rep_ok_def allocated_size_def cleared_def)
  have n: "?n \<le> length (elements other)" using assms(2) by (auto simp: inv_def rep_ok_def allocated_size_def)
  have "inv ?m \<and> view_items ?m = view_items r @ view_items other"
  proof (cases "?n = 0")
    case True
    then show ?thesis using assms by (simp add: rep_MergeFrom_def view_items_def items_def)
  next
    case False
    let ?ours = "drop (current_size r) (elements r)"
    let ?e = "InternalExtend ?n r"
    let ?inner = "MergeFromInnerLoop new merge ?ours (elements other) ?n (length ?ours)"
    have e: "elements ?e = elements r" "current_size ?e = current_size r"
      "current_size r + ?n \<le> total_size ?e" "total_size r \<le> total_size ?e"
      by (auto simp: InternalExtend_def Let_def)
    have m: "?m = ?e\<lparr>elements := take (current_size r) (elements r) @ ?inner, current_size := current_size r + ?n\<rparr>"
      using False e by (simp add: rep_MergeFrom_def Let_def allocated_size_def)
    note inner = MergeFromInnerLoop_view [OF cl n]
    have "set (drop (?n + current_size r) (elements r)) \<subseteq> set (drop (current_size r) (elements r))"
      by (rule set_drop_subset_set_drop) simp
    with cl have "\<forall>x\<in>set (drop ?n ?inner). view x = view new" using inner(2) by auto
    then show ?thesis
      unfolding m using ok e inner n
      by (simp add: inv_def rep_ok_def allocated_size_def cleared_def view_items_def items_def)
  qed
  then show "inv ?m" "view_items ?m = view_items r @ view_items other" by auto
qed

lemma inv_CopyFrom:
  assumes "inv r" "inv other"
  shows "inv (rep_CopyFrom new clear merge other r)"
    "view_items (rep_CopyFrom new clear merge other r) = view_items other"
  using inv_MergeFrom [OF inv_Clear [OF assms(1)] assms(2)]
  by (simp_all add: rep_CopyFrom_def view_items_Clear)

lemma inv_RemoveLast:
  assumes "inv r" "0 < rep_size r"
  shows "inv (RemoveLast clear r)" "view_items (RemoveLast clear r) = butlast (view_items r)"
proof -
  obtain n where n: "current_size r = Suc n" using assms(2) by (cases "current_size r") (auto simp: rep_size_def)
  let ?es = "(elements r)[n := clear (elements r ! n)]"
  have ok: "Suc n \<le> length (elements r)" "length (elements r) \<le> total_size r"
    and cl: "\<forall>x\<in>set (drop (Suc n) (elements r)). view x = view new"
    using assms(1) n by (auto simp: inv_def rep_ok_def allocated_size_def cleared_def)
  have r: "RemoveLast clear r = r\<lparr>current_size := n, elements := ?es\<rparr>"
    by (simp add: RemoveLast_def rep_Mutable_def n)
  have "drop n ?es = clear (elements r ! n) # drop (Suc n) (elements r)"
    using ok by (simp add: Cons_nth_drop_Suc [symmetric] drop_update_cancel)
  then show "inv (RemoveLast clear r)"
    unfolding r using ok cl by (auto simp: inv_def rep_ok_def allocated_size_def cleared_def view_clear)
  show "view_items (RemoveLast clear r) = butlast (view_items r)"
    unfolding r using ok n by (simp add: view_items_def items_def butlast_take map_butlast [symmetric])
qed

lemma inv_DeleteSubrange:
  assumes "inv r" "start + num \<le> rep_size r"
  shows "inv (DeleteSubrange start num r)"
    "view_items (DeleteSubrange start num r) =
       take start (view_items r) @ drop (start + num) (view_items r)"
proof -
  have ok: "current_size r \<le> length (elements r)" "length (elements r) \<le> total_size r"
    and cl: "\<forall>x\<in>set (drop (current_size r) (elements r)). view x = view new"
    using assms(1) by (auto simp: inv_def rep_ok_def allocated_size_def cleared_def)
  have le: "start + num \<le> current_size r" using assms(2) by (simp add: rep_size_def)
  have "drop (current_size r - num) (take start (elements r) @ drop (start + num) (elements r)) =
      drop (current_size r) (elements r)"
    using le ok by simp
  then show "inv (DeleteSubrange start num r)"
    using assms(1) le ok cl
    by (auto simp: DeleteSubrange_def CloseGap_def inv_def rep_ok_def allocated_size_def cleared_def)
  show "view_items (DeleteSubrange start num r) =
       take start (view_items r) @ drop (start + num) (view_items r)"
  proof (cases "num = 0")
    case True
    then show ?thesis by (simp add: DeleteSubrange_def)
  next
    case False
    then show ?thesis using le ok
      by (simp add: DeleteSubrange_def CloseGap_def rep_NULL_def view_items_def items_def
        take_map drop_map drop_take add.commute min_absorb1)
  qed
qed

lemma inv_cases:
  assumes "inv r"
  obtains t xs zs where "r = \<lparr>current_size = length xs, total_size = t, elements = xs @ zs\<rparr>"
    "length xs + length zs \<le> t" "\<forall>x\<in>set zs. view x = view new"
proof (rule that)
  show "r = \<lparr>current_size = length (take (current_size r) (elements r)), total_size = total_size r,
      elements = take (current_size r) (elements r) @ drop (current_size r) (elements r)\<rparr>"
    using assms by (simp add: inv_def rep_ok_def allocated_size_def)
qed (use assms in \<open>auto simp: inv_def rep_ok_def allocated_size_def cleared_def\<close>)

lemma inv_AddAllocated:
  assumes "inv r"
  shows "inv (AddAllocatedInternal v r)" "view_items (AddAllocatedInternal v r) = view_items r @ [view v]"
proof -
  from assms obtain t xs zs where r: "r = \<lparr>current_size = length xs, total_size = t, elements = xs @ zs\<rparr>"
    and ok: "length xs + length zs \<le> t" "\<forall>x\<in>set zs. view x = view new"
    by (rule inv_cases)
  obtain t' where grow: "Reserve (t + 1) r = \<lparr>current_size = length xs, total_size = t', elements = xs @ zs\<rparr>"
    "t + 1 \<le> t' \<or> t + 1 \<le> length xs"
    using Reserve_fields [where n = "t + 1" and r = r] by (cases "Reserve (t + 1) r") (auto simp: r)
  note defs = AddAllocatedInternal_def UnsafeArenaAddAllocated_def inv_def rep_ok_def allocated_size_def
    cleared_def view_items_def items_def rep_NULL_def Let_def
  have "inv (AddAllocatedInternal v r) \<and> view_items (AddAllocatedInternal v r) = view_items r @ [view v]"
  proof (cases zs)
    case Nil
    with ok grow show ?thesis by (simp add: defs r)
  next
    case (Cons z zs')
    with ok grow show ?thesis by (auto simp add: defs r nth_append list_update_append)
  qed
  then show "inv (AddAllocatedInternal v r)" "view_items (AddAllocatedInternal v r) = view_items r @ [view v]"
    by auto
qed

lemma inv_ReleaseLast:
  assumes "inv r" "0 < rep_size r"
  shows "inv (snd (UnsafeArenaReleaseLast r))"
    "view_items (snd (UnsafeArenaReleaseLast r)) = butlast (view_items r)"
    "view (fst (UnsafeArenaReleaseLast r)) = last (view_items r)"
proof -
  from assms(1) obtain t us zs where r: "r = \<lparr>current_size = length us, total_size = t, elements = us @ zs\<rparr>"
    and ok: "length us + length zs \<le> t" "\<forall>x\<in>set zs. view x = view new"
    by (rule inv_cases)
  with assms(2) obtain xs y where us: "us = xs @ [y]" by (cases us rule: rev_cases) (auto simp: rep_size_def)
  note defs = UnsafeArenaReleaseLast_def inv_def rep_ok_def allocated_size_def cleared_def view_items_def
    items_def Let_def
  have "inv (snd (UnsafeArenaReleaseLast r)) \<and> view_items (snd (UnsafeArenaReleaseLast r)) = map view xs \<and>
     fst (UnsafeArenaReleaseLast r) = y"
  proof (cases zs rule: rev_cases)
    case Nil
    with ok us show ?thesis by (auto simp: defs r)
  next
    case (snoc zs' z)
    with ok us show ?thesis by (auto simp: defs r nth_append list_update_append)
  qed
  moreover have "view_items r = map view (xs @ [y])"
    using ok us by (simp add: view_items_def items_def r)
  ultimately show "inv (snd (UnsafeArenaReleaseLast r))"
    "view_items (snd (UnsafeArenaReleaseLast r)) = butlast (view_items r)"
    "view (fst (UnsafeArenaReleaseLast r)) = last (view_items r)"
    by auto
qed

end

end
