(* ===== verification/Message.thy ===== *)
theory Message
  imports WireFormat RepeatedPtr
begin

text \<open>
  The two message classes the protocol compiler generated for \<open>ConnectProtocol.proto\<close>
  (\<open>protoc/ConnectProtocol.pb.h\<close>, \<open>protoc/ConnectProtocol.pb.cc\<close>), with the parts of
  \<open>WireFormatLite\<close> (\<open>ReadMessage\<close>, \<open>InternalWriteMessageToArray\<close>, \<open>MessageSize\<close>) and of
  \<open>MessageLite\<close> (\<open>message_lite.cc\<close>) that work on messages. A method that changes its message
  returns the changed one; \<open>ByteSizeLong\<close> does, because it stores the size in
  \<open>_cached_size_\<close>, which serialising reads. \<open>proto3_preserve_unknown_\<close> keeps its initial value
  \<open>true\<close>. Strings are checked at address 0: the answer does not depend on the address.
\<close>

section \<open>Parameter\<close>

record Parameter =
  par_metadata :: Metadata
  par_key :: ArenaStringPtr
  par_value :: ArenaStringPtr
  par_cached_size :: int

definition Parameter0 :: Parameter where
  "Parameter0 = \<lparr>par_metadata = None, par_key = UnsafeSetDefault, par_value = UnsafeSetDefault,
     par_cached_size = 0\<rparr>"

definition key :: "Parameter \<Rightarrow> bytes" where "key m = GetNoArena (par_key m)"
definition par_value_get :: "Parameter \<Rightarrow> bytes" where "par_value_get m = GetNoArena (par_value m)"

definition set_key :: "bytes \<Rightarrow> Parameter \<Rightarrow> Parameter" where
  "set_key v m = m\<lparr>par_key := SetNoArena v (par_key m)\<rparr>"

definition set_value :: "bytes \<Rightarrow> Parameter \<Rightarrow> Parameter" where
  "set_value v m = m\<lparr>par_value := SetNoArena v (par_value m)\<rparr>"

definition clear_key :: "Parameter \<Rightarrow> Parameter" where
  "clear_key m = m\<lparr>par_key := ClearToEmptyNoArena (par_key m)\<rparr>"

definition clear_value :: "Parameter \<Rightarrow> Parameter" where
  "clear_value m = m\<lparr>par_value := ClearToEmptyNoArena (par_value m)\<rparr>"

definition release_key :: "Parameter \<Rightarrow> bytes option \<times> Parameter" where
  "release_key m = (let (v, p) = ReleaseNoArena (par_key m) in (v, m\<lparr>par_key := p\<rparr>))"

definition release_value :: "Parameter \<Rightarrow> bytes option \<times> Parameter" where
  "release_value m = (let (v, p) = ReleaseNoArena (par_value m) in (v, m\<lparr>par_value := p\<rparr>))"

definition set_allocated_key :: "bytes option \<Rightarrow> Parameter \<Rightarrow> Parameter" where
  "set_allocated_key v m = m\<lparr>par_key := SetAllocatedNoArena v (par_key m)\<rparr>"

definition set_allocated_value :: "bytes option \<Rightarrow> Parameter \<Rightarrow> Parameter" where
  "set_allocated_value v m = m\<lparr>par_value := SetAllocatedNoArena v (par_value m)\<rparr>"

definition Parameter_Clear :: "Parameter \<Rightarrow> Parameter" where
  "Parameter_Clear m =
     m\<lparr>par_key := ClearToEmptyNoArena (par_key m), par_value := ClearToEmptyNoArena (par_value m),
       par_metadata := Metadata_Clear (par_metadata m)\<rparr>"

definition Parameter_MergeFrom :: "Parameter \<Rightarrow> Parameter \<Rightarrow> Parameter" where
  "Parameter_MergeFrom from m =
     (let m = m\<lparr>par_metadata := Metadata_MergeFrom (par_metadata from) (par_metadata m)\<rparr>;
          m = (if length (key from) > 0
               then m\<lparr>par_key := AssignWithDefault (par_key from) (par_key m)\<rparr> else m)
      in if length (par_value_get from) > 0
         then m\<lparr>par_value := AssignWithDefault (par_value from) (par_value m)\<rparr> else m)"

definition Parameter_copy :: "Parameter \<Rightarrow> Parameter" where
  "Parameter_copy from =
     (let m = \<lparr>par_metadata = Metadata_MergeFrom (par_metadata from) None,
               par_key = UnsafeSetDefault, par_value = UnsafeSetDefault, par_cached_size = 0\<rparr>;
          m = (if length (key from) > 0
               then m\<lparr>par_key := AssignWithDefault (par_key from) (par_key m)\<rparr> else m)
      in if length (par_value_get from) > 0
         then m\<lparr>par_value := AssignWithDefault (par_value from) (par_value m)\<rparr> else m)"

definition Parameter_CopyFrom :: "Parameter \<Rightarrow> Parameter \<Rightarrow> Parameter" where
  "Parameter_CopyFrom from m = Parameter_MergeFrom from (Parameter_Clear m)"

definition Parameter_InternalSwap :: "Parameter \<Rightarrow> Parameter \<Rightarrow> Parameter \<times> Parameter" where
  "Parameter_InternalSwap m other =
     (let (u, v) = Metadata_Swap (par_metadata m) (par_metadata other)
      in (\<lparr>par_metadata = u, par_key = par_key other, par_value = par_value other,
           par_cached_size = par_cached_size other\<rparr>,
          \<lparr>par_metadata = v, par_key = par_key m, par_value = par_value m,
           par_cached_size = par_cached_size m\<rparr>))"

text \<open>\<open>ToCachedSize\<close> casts to a 32-bit \<open>int\<close>.\<close>

definition ToCachedSize :: "nat \<Rightarrow> int" where
  "ToCachedSize size' = sint (of_nat size' :: u32)"

definition Parameter_ByteSizeLong :: "Parameter \<Rightarrow> nat \<times> Parameter" where
  "Parameter_ByteSizeLong m =
     (let tsize = 0;
          tsize = (if have_unknown_fields (par_metadata m)
            then tsize + ComputeUnknownFieldsSize (unknown_fields (par_metadata m)) else tsize);
          tsize = (if length (key m) > 0 then tsize + (1 + StringSize (key m)) else tsize);
          tsize = (if length (par_value_get m) > 0
            then tsize + (1 + StringSize (par_value_get m)) else tsize)
      in (tsize, m\<lparr>par_cached_size := ToCachedSize tsize\<rparr>))"

text \<open>The UTF-8 checks while serialising only log.\<close>

definition Parameter_InternalSerialize :: "Parameter \<Rightarrow> bytes" where
  "Parameter_InternalSerialize m =
     (if length (key m) > 0 then WriteStringToArray 1 (key m) else []) @
     (if length (par_value_get m) > 0 then WriteStringToArray 2 (par_value_get m) else []) @
     (if have_unknown_fields (par_metadata m)
      then SerializeUnknownFieldsToArray (unknown_fields (par_metadata m)) else [])"

text \<open>
  A round of a parse loop goes on, ends with success or failure, or runs out of the bound
  \<open>fuel\<close> on the rounds of the loops inside it.
\<close>

datatype 'm step = Continue 'm cis | Done bool 'm cis | OutOfFuel

definition Parameter_handle_unusual :: "nat \<Rightarrow> u32 \<Rightarrow> Parameter \<Rightarrow> cis \<Rightarrow> Parameter step" where
  "Parameter_handle_unusual fuel tag m input =
     (if tag = 0 then Done True m input
      else case SkipField fuel tag (mutable_unknown_fields (par_metadata m)) input of
             None \<Rightarrow> OutOfFuel
           | Some (ok, u, input) \<Rightarrow>
               let m = m\<lparr>par_metadata := u\<rparr> in if ok then Continue m input else Done False m input)"

definition Parameter_parse_step :: "nat \<Rightarrow> Parameter \<Rightarrow> cis \<Rightarrow> Parameter step" where
  "Parameter_parse_step fuel m input =
     (let (tag, cut, input) = ReadTagWithCutoffNoLastTag 127 input
      in if \<not> cut then Parameter_handle_unusual fuel tag m input
         else if GetTagFieldNumber tag = 1
         then if (ucast tag :: u8) = 10
              then let (ok, v, input) = ReadBytes (GetNoArena (MutableNoArena (par_key m))) input;
                       m = m\<lparr>par_key := Owned_string v\<rparr>
                   in if ok \<and> VerifyUtf8String True 0 (key m) then Continue m input
                      else Done False m input
              else Parameter_handle_unusual fuel tag m input
         else if GetTagFieldNumber tag = 2
         then if (ucast tag :: u8) = 18
              then let (ok, v, input) = ReadBytes (GetNoArena (MutableNoArena (par_value m))) input;
                       m = m\<lparr>par_value := Owned_string v\<rparr>
                   in if ok \<and> VerifyUtf8String True 0 (par_value_get m) then Continue m input
                      else Done False m input
              else Parameter_handle_unusual fuel tag m input
         else Parameter_handle_unusual fuel tag m input)"

fun Parameter_MergePartial :: "nat \<Rightarrow> Parameter \<Rightarrow> cis \<Rightarrow> (bool \<times> Parameter \<times> cis) option" where
  "Parameter_MergePartial 0 m input = None"
| "Parameter_MergePartial (Suc fuel) m input =
     (case Parameter_parse_step fuel m input of
        Continue m input \<Rightarrow> Parameter_MergePartial fuel m input
      | Done ok m input \<Rightarrow> Some (ok, m, input)
      | OutOfFuel \<Rightarrow> None)"

section \<open>Messages inside messages\<close>

definition ReadMessage :: "nat \<Rightarrow> Parameter \<Rightarrow> cis \<Rightarrow> (bool \<times> Parameter \<times> cis) option" where
  "ReadMessage fuel m input =
     (let (ok, len, input) = ReadVarintSizeAsInt input
      in if \<not> ok then Some (False, m, input)
         else let (first, second, input) = IncrementRecursionDepthAndPushLimit len input
              in if second < 0 then Some (False, m, input)
                 else case Parameter_MergePartial fuel m input of
                        None \<Rightarrow> None
                      | Some (ok, m, input) \<Rightarrow>
                          if \<not> ok then Some (False, m, input)
                          else let (consumed, input) = DecrementRecursionDepthAndPopLimit first input
                               in Some (consumed, m, input))"

definition InternalWriteMessageToArray :: "u32 \<Rightarrow> Parameter \<Rightarrow> bytes" where
  "InternalWriteMessageToArray n m =
     WriteTagToArray n WIRETYPE_LENGTH_DELIMITED @
     WriteVarint32ToArray (word_of_int (par_cached_size m)) @ Parameter_InternalSerialize m"

section \<open>ConnectProtocol\<close>

record ConnectProtocol =
  metadata :: Metadata
  parametergroup :: "Parameter RepeatedPtrFieldBase"
  apiname_ptr :: ArenaStringPtr
  bytedata_ptr :: ArenaStringPtr
  statecode :: u32
  cached_size :: int

definition ConnectProtocol0 :: ConnectProtocol where
  "ConnectProtocol0 = \<lparr>metadata = None, parametergroup = RepeatedPtrFieldBase0,
     apiname_ptr = UnsafeSetDefault, bytedata_ptr = UnsafeSetDefault, statecode = 0, cached_size = 0\<rparr>"

definition apiname :: "ConnectProtocol \<Rightarrow> bytes" where "apiname m = GetNoArena (apiname_ptr m)"
definition bytedata :: "ConnectProtocol \<Rightarrow> bytes" where "bytedata m = GetNoArena (bytedata_ptr m)"

definition set_statecode :: "u32 \<Rightarrow> ConnectProtocol \<Rightarrow> ConnectProtocol" where
  "set_statecode v m = m\<lparr>statecode := v\<rparr>"

definition clear_statecode :: "ConnectProtocol \<Rightarrow> ConnectProtocol" where
  "clear_statecode m = m\<lparr>statecode := 0\<rparr>"

definition set_apiname :: "bytes \<Rightarrow> ConnectProtocol \<Rightarrow> ConnectProtocol" where
  "set_apiname v m = m\<lparr>apiname_ptr := SetNoArena v (apiname_ptr m)\<rparr>"

definition clear_apiname :: "ConnectProtocol \<Rightarrow> ConnectProtocol" where
  "clear_apiname m = m\<lparr>apiname_ptr := ClearToEmptyNoArena (apiname_ptr m)\<rparr>"

definition release_apiname :: "ConnectProtocol \<Rightarrow> bytes option \<times> ConnectProtocol" where
  "release_apiname m = (let (v, p) = ReleaseNoArena (apiname_ptr m) in (v, m\<lparr>apiname_ptr := p\<rparr>))"

definition set_allocated_apiname :: "bytes option \<Rightarrow> ConnectProtocol \<Rightarrow> ConnectProtocol" where
  "set_allocated_apiname v m = m\<lparr>apiname_ptr := SetAllocatedNoArena v (apiname_ptr m)\<rparr>"

definition set_bytedata :: "bytes \<Rightarrow> ConnectProtocol \<Rightarrow> ConnectProtocol" where
  "set_bytedata v m = m\<lparr>bytedata_ptr := SetNoArena v (bytedata_ptr m)\<rparr>"

definition clear_bytedata :: "ConnectProtocol \<Rightarrow> ConnectProtocol" where
  "clear_bytedata m = m\<lparr>bytedata_ptr := ClearToEmptyNoArena (bytedata_ptr m)\<rparr>"

definition release_bytedata :: "ConnectProtocol \<Rightarrow> bytes option \<times> ConnectProtocol" where
  "release_bytedata m = (let (v, p) = ReleaseNoArena (bytedata_ptr m) in (v, m\<lparr>bytedata_ptr := p\<rparr>))"

definition set_allocated_bytedata :: "bytes option \<Rightarrow> ConnectProtocol \<Rightarrow> ConnectProtocol" where
  "set_allocated_bytedata v m = m\<lparr>bytedata_ptr := SetAllocatedNoArena v (bytedata_ptr m)\<rparr>"

definition parametergroup_size :: "ConnectProtocol \<Rightarrow> nat" where
  "parametergroup_size m = rep_size (parametergroup m)"

definition parametergroup_get :: "nat \<Rightarrow> ConnectProtocol \<Rightarrow> Parameter" where
  "parametergroup_get index m = rep_Get index (parametergroup m)"

definition mutable_parametergroup :: "nat \<Rightarrow> (Parameter \<Rightarrow> Parameter) \<Rightarrow> ConnectProtocol \<Rightarrow> ConnectProtocol" where
  "mutable_parametergroup index f m = m\<lparr>parametergroup := rep_Mutable index f (parametergroup m)\<rparr>"

definition add_parametergroup :: "ConnectProtocol \<Rightarrow> nat \<times> ConnectProtocol" where
  "add_parametergroup m =
     (let (i, r) = rep_Add Parameter0 (parametergroup m) in (i, m\<lparr>parametergroup := r\<rparr>))"

definition clear_parametergroup :: "ConnectProtocol \<Rightarrow> ConnectProtocol" where
  "clear_parametergroup m = m\<lparr>parametergroup := rep_Clear Parameter_Clear (parametergroup m)\<rparr>"

definition ConnectProtocol_Clear :: "ConnectProtocol \<Rightarrow> ConnectProtocol" where
  "ConnectProtocol_Clear m =
     m\<lparr>parametergroup := rep_Clear Parameter_Clear (parametergroup m),
       apiname_ptr := ClearToEmptyNoArena (apiname_ptr m),
       bytedata_ptr := ClearToEmptyNoArena (bytedata_ptr m), statecode := 0,
       metadata := Metadata_Clear (metadata m)\<rparr>"

definition ConnectProtocol_MergeFrom :: "ConnectProtocol \<Rightarrow> ConnectProtocol \<Rightarrow> ConnectProtocol" where
  "ConnectProtocol_MergeFrom from m =
     (let m = m\<lparr>metadata := Metadata_MergeFrom (metadata from) (metadata m)\<rparr>;
          m = m\<lparr>parametergroup :=
                rep_MergeFrom Parameter0 Parameter_MergeFrom (parametergroup from) (parametergroup m)\<rparr>;
          m = (if length (apiname from) > 0
               then m\<lparr>apiname_ptr := AssignWithDefault (apiname_ptr from) (apiname_ptr m)\<rparr> else m);
          m = (if length (bytedata from) > 0
               then m\<lparr>bytedata_ptr := AssignWithDefault (bytedata_ptr from) (bytedata_ptr m)\<rparr> else m)
      in if statecode from \<noteq> 0 then set_statecode (statecode from) m else m)"

text \<open>
  The copy constructor: \<open>RepeatedPtrField\<close>'s copy constructor is \<open>CopyFrom\<close> into an empty
  field.
\<close>

definition ConnectProtocol_copy :: "ConnectProtocol \<Rightarrow> ConnectProtocol" where
  "ConnectProtocol_copy from =
     (let m = \<lparr>metadata = Metadata_MergeFrom (metadata from) None,
               parametergroup = rep_CopyFrom Parameter0 Parameter_Clear Parameter_MergeFrom
                 (parametergroup from) RepeatedPtrFieldBase0,
               apiname_ptr = UnsafeSetDefault, bytedata_ptr = UnsafeSetDefault,
               statecode = statecode from, cached_size = 0\<rparr>;
          m = (if length (apiname from) > 0
               then m\<lparr>apiname_ptr := AssignWithDefault (apiname_ptr from) (apiname_ptr m)\<rparr> else m)
      in if length (bytedata from) > 0
         then m\<lparr>bytedata_ptr := AssignWithDefault (bytedata_ptr from) (bytedata_ptr m)\<rparr> else m)"

definition ConnectProtocol_CopyFrom :: "ConnectProtocol \<Rightarrow> ConnectProtocol \<Rightarrow> ConnectProtocol" where
  "ConnectProtocol_CopyFrom from m = ConnectProtocol_MergeFrom from (ConnectProtocol_Clear m)"

definition ConnectProtocol_InternalSwap ::
  "ConnectProtocol \<Rightarrow> ConnectProtocol \<Rightarrow> ConnectProtocol \<times> ConnectProtocol" where
  "ConnectProtocol_InternalSwap m other =
     (let (u, v) = Metadata_Swap (metadata m) (metadata other);
          (p, q) = rep_InternalSwap (parametergroup m, parametergroup other);
          (a, b) = SwapArenaString (apiname_ptr m, apiname_ptr other);
          (c, d) = SwapArenaString (bytedata_ptr m, bytedata_ptr other)
      in (\<lparr>metadata = u, parametergroup = p, apiname_ptr = a, bytedata_ptr = c,
           statecode = statecode other, cached_size = cached_size other\<rparr>,
          \<lparr>metadata = v, parametergroup = q, apiname_ptr = b, bytedata_ptr = d,
           statecode = statecode m, cached_size = cached_size m\<rparr>))"

text \<open>The loop of \<open>ByteSizeLong\<close> over the parameters: it also stores the size of each.\<close>

fun parameters_size :: "nat \<Rightarrow> nat \<Rightarrow> nat \<Rightarrow> Parameter RepeatedPtrFieldBase \<Rightarrow> nat \<times> Parameter RepeatedPtrFieldBase" where
  "parameters_size 0 i tsize r = (tsize, r)"
| "parameters_size (Suc n) i tsize r =
     (let (size', m) = Parameter_ByteSizeLong (rep_Get i r)
      in parameters_size n (i + 1) (tsize + LengthDelimitedSize size') (rep_Mutable i (\<lambda>_. m) r))"

definition ByteSizeLong :: "ConnectProtocol \<Rightarrow> nat \<times> ConnectProtocol" where
  "ByteSizeLong m =
     (let tsize = 0;
          tsize = (if have_unknown_fields (metadata m)
            then tsize + ComputeUnknownFieldsSize (unknown_fields (metadata m)) else tsize);
          count = parametergroup_size m;
          tsize = tsize + 2 * count;
          (tsize, r) = parameters_size count 0 tsize (parametergroup m);
          m = m\<lparr>parametergroup := r\<rparr>;
          tsize = (if length (apiname m) > 0 then tsize + (1 + StringSize (apiname m)) else tsize);
          tsize = (if length (bytedata m) > 0 then tsize + (2 + BytesSize (bytedata m)) else tsize);
          tsize = (if statecode m \<noteq> 0 then tsize + (1 + UInt32Size (statecode m)) else tsize)
      in (tsize, m\<lparr>cached_size := ToCachedSize tsize\<rparr>))"

definition InternalSerialize :: "ConnectProtocol \<Rightarrow> bytes" where
  "InternalSerialize m =
     (if statecode m \<noteq> 0 then WriteUInt32ToArray 1 (statecode m) else []) @
     (if length (apiname m) > 0 then WriteStringToArray 2 (apiname m) else []) @
     concat (map (\<lambda>i. InternalWriteMessageToArray 20 (parametergroup_get i m)) [0..<parametergroup_size m]) @
     (if length (bytedata m) > 0 then WriteBytesToArray 21 (bytedata m) else []) @
     (if have_unknown_fields (metadata m)
      then SerializeUnknownFieldsToArray (unknown_fields (metadata m)) else [])"

definition handle_unusual :: "nat \<Rightarrow> u32 \<Rightarrow> ConnectProtocol \<Rightarrow> cis \<Rightarrow> ConnectProtocol step" where
  "handle_unusual fuel tag m input =
     (if tag = 0 then Done True m input
      else case SkipField fuel tag (mutable_unknown_fields (metadata m)) input of
             None \<Rightarrow> OutOfFuel
           | Some (ok, u, input) \<Rightarrow>
               let m = m\<lparr>metadata := u\<rparr> in if ok then Continue m input else Done False m input)"

definition parse_parameter :: "nat \<Rightarrow> ConnectProtocol \<Rightarrow> cis \<Rightarrow> ConnectProtocol step" where
  "parse_parameter fuel m input =
     (let (i, m) = add_parametergroup m
      in case ReadMessage fuel (parametergroup_get i m) input of
           None \<Rightarrow> OutOfFuel
         | Some (ok, p, input) \<Rightarrow>
             let m = mutable_parametergroup i (\<lambda>_. p) m
             in if ok then Continue m input else Done False m input)"

definition parse_step :: "nat \<Rightarrow> ConnectProtocol \<Rightarrow> cis \<Rightarrow> ConnectProtocol step" where
  "parse_step fuel m input =
     (let (tag, cut, input) = ReadTagWithCutoffNoLastTag 16383 input
      in if \<not> cut then handle_unusual fuel tag m input
         else if GetTagFieldNumber tag = 1
         then if (ucast tag :: u8) = 8
              then let (ok, v, input) = ReadUInt32 input; m = m\<lparr>statecode := v\<rparr>
                   in if ok then Continue m input else Done False m input
              else handle_unusual fuel tag m input
         else if GetTagFieldNumber tag = 2
         then if (ucast tag :: u8) = 18
              then let (ok, v, input) = ReadBytes (GetNoArena (MutableNoArena (apiname_ptr m))) input;
                       m = m\<lparr>apiname_ptr := Owned_string v\<rparr>
                   in if ok \<and> VerifyUtf8String True 0 (apiname m) then Continue m input
                      else Done False m input
              else handle_unusual fuel tag m input
         else if GetTagFieldNumber tag = 20
         then if (ucast tag :: u8) = 162 then parse_parameter fuel m input
              else handle_unusual fuel tag m input
         else if GetTagFieldNumber tag = 21
         then if (ucast tag :: u8) = 170
              then let (ok, v, input) = ReadBytes (GetNoArena (MutableNoArena (bytedata_ptr m))) input;
                       m = m\<lparr>bytedata_ptr := Owned_string v\<rparr>
                   in if ok then Continue m input else Done False m input
              else handle_unusual fuel tag m input
         else handle_unusual fuel tag m input)"

fun MergePartialFromCodedStream :: "nat \<Rightarrow> ConnectProtocol \<Rightarrow> cis \<Rightarrow> (bool \<times> ConnectProtocol \<times> cis) option" where
  "MergePartialFromCodedStream 0 m input = None"
| "MergePartialFromCodedStream (Suc fuel) m input =
     (case parse_step fuel m input of
        Continue m input \<Rightarrow> MergePartialFromCodedStream fuel m input
      | Done ok m input \<Rightarrow> Some (ok, m, input)
      | OutOfFuel \<Rightarrow> None)"

section \<open>Whole messages\<close>

text \<open>
  \<open>InlineParseFromArray\<close>. The fuel is one more than the number of bytes, and every round of a
  loop consumes a byte; \<open>parse_total\<close> shows that \<open>None\<close> never comes out.
\<close>

definition ParseFromArray :: "bytes \<Rightarrow> ConnectProtocol \<Rightarrow> (bool \<times> ConnectProtocol) option" where
  "ParseFromArray data m =
     (let input = CodedInputStream data (int (length data)); m = ConnectProtocol_Clear m
      in case MergePartialFromCodedStream (Suc (length data)) m input of
           None \<Rightarrow> None
         | Some (ok, m, input) \<Rightarrow> Some (ok \<and> ConsumedEntireMessage input, m))"

text \<open>
  \<open>SerializeToArray\<close>: refused because the array is too small, written, or stopped by
  \<open>ByteSizeConsistencyError\<close>, which is fatal, after writing.
\<close>

datatype serialize_result = Too_small | Written bytes | ByteSizeConsistencyError bytes

definition SerializeToArray :: "int \<Rightarrow> ConnectProtocol \<Rightarrow> serialize_result \<times> ConnectProtocol" where
  "SerializeToArray size' m =
     (let (n, m) = ByteSizeLong m; byte_size = ToCachedSize n
      in if size' < byte_size then (Too_small, m)
         else let bytes = InternalSerialize m
              in if int (length bytes) \<noteq> byte_size then (ByteSizeConsistencyError bytes, m)
                 else (Written bytes, m))"

section \<open>Values of messages\<close>

text \<open>What the accessors show of a message, and its encoding.\<close>

type_synonym parameter_view = "bytes \<times> bytes \<times> UnknownFieldSet"

definition parameter_view :: "Parameter \<Rightarrow> parameter_view" where
  "parameter_view m = (key m, par_value_get m, unknown_fields (par_metadata m))"

lemmas par_simps = key_def par_value_get_def

lemma parameter_view_simps [simp]:
  "parameter_view Parameter0 = ([], [], [])"
  "parameter_view (Parameter_Clear m) = ([], [], [])"
  by (simp_all add: parameter_view_def par_simps Parameter0_def Parameter_Clear_def)

lemma parameter_view_MergeFrom:
  "parameter_view (Parameter_MergeFrom from m) =
     (if key from = [] then key m else key from,
      if par_value_get from = [] then par_value_get m else par_value_get from,
      unknown_fields (par_metadata m) @ unknown_fields (par_metadata from))"
  by (simp add: parameter_view_def Parameter_MergeFrom_def par_simps Let_def)

interpretation par: element_handler Parameter0 Parameter_Clear Parameter_MergeFrom parameter_view
proof unfold_locales
  fix to "from" :: Parameter
  assume "parameter_view to = parameter_view Parameter0"
  then show "parameter_view (Parameter_MergeFrom from to) = parameter_view from"
    by (auto simp: parameter_view_MergeFrom) (auto simp: parameter_view_def)
qed simp

definition encode_parameter :: "parameter_view \<Rightarrow> bytes" where
  "encode_parameter v =
     (case v of (k, w, u) \<Rightarrow>
        (if k \<noteq> [] then WriteStringToArray 1 k else []) @
        (if w \<noteq> [] then WriteStringToArray 2 w else []) @ SerializeUnknownFieldsToArray u)"

lemma Parameter_InternalSerialize_view:
  "Parameter_InternalSerialize m = encode_parameter (parameter_view m)"
  by (auto simp: Parameter_InternalSerialize_def encode_parameter_def parameter_view_def
      have_unknown_fields_def unknown_fields_def split: option.splits)

record message_view =
  v_statecode :: u32
  v_apiname :: bytes
  v_parameters :: "parameter_view list"
  v_bytedata :: bytes
  v_unknown :: UnknownFieldSet

definition message_view :: "ConnectProtocol \<Rightarrow> message_view" where
  "message_view m = \<lparr>v_statecode = statecode m, v_apiname = apiname m,
     v_parameters = par.view_items (parametergroup m), v_bytedata = bytedata m,
     v_unknown = unknown_fields (metadata m)\<rparr>"

definition empty_view :: message_view where
  "empty_view = \<lparr>v_statecode = 0, v_apiname = [], v_parameters = [], v_bytedata = [], v_unknown = []\<rparr>"

definition encode_message :: "message_view \<Rightarrow> bytes" where
  "encode_message v =
     (if v_statecode v \<noteq> 0 then WriteUInt32ToArray 1 (v_statecode v) else []) @
     (if v_apiname v \<noteq> [] then WriteStringToArray 2 (v_apiname v) else []) @
     concat (map (\<lambda>p. WriteBytesToArray 20 (encode_parameter p)) (v_parameters v)) @
     (if v_bytedata v \<noteq> [] then WriteBytesToArray 21 (v_bytedata v) else []) @
     SerializeUnknownFieldsToArray (v_unknown v)"

definition message_ok :: "ConnectProtocol \<Rightarrow> bool" where
  "message_ok m \<longleftrightarrow> par.inv (parametergroup m)"

lemmas cp_simps = apiname_def bytedata_def set_statecode_def

lemma message_ok_new: "message_ok ConnectProtocol0" "message_view ConnectProtocol0 = empty_view"
  by (simp_all add: message_ok_def message_view_def empty_view_def ConnectProtocol0_def par.inv_new cp_simps)

lemma message_ok_Clear:
  "message_ok m \<Longrightarrow> message_ok (ConnectProtocol_Clear m)"
  "message_view (ConnectProtocol_Clear m) = empty_view"
  by (simp_all add: message_ok_def message_view_def empty_view_def ConnectProtocol_Clear_def par.inv_Clear
      par.view_items_Clear cp_simps)

definition merge_view :: "message_view \<Rightarrow> message_view \<Rightarrow> message_view" where
  "merge_view from v =
     \<lparr>v_statecode = (if v_statecode from \<noteq> 0 then v_statecode from else v_statecode v),
      v_apiname = (if v_apiname from \<noteq> [] then v_apiname from else v_apiname v),
      v_parameters = v_parameters v @ v_parameters from,
      v_bytedata = (if v_bytedata from \<noteq> [] then v_bytedata from else v_bytedata v),
      v_unknown = v_unknown v @ v_unknown from\<rparr>"

lemma message_ok_MergeFrom:
  assumes "message_ok m" "message_ok from"
  shows "message_ok (ConnectProtocol_MergeFrom from m)"
    "message_view (ConnectProtocol_MergeFrom from m) = merge_view (message_view from) (message_view m)"
  using assms
  by (simp_all add: message_ok_def message_view_def merge_view_def ConnectProtocol_MergeFrom_def Let_def
      par.inv_MergeFrom cp_simps)

lemma message_ok_CopyFrom:
  assumes "message_ok m" "message_ok from"
  shows "message_ok (ConnectProtocol_CopyFrom from m)"
    "message_view (ConnectProtocol_CopyFrom from m) = message_view from"
proof -
  note ok = message_ok_MergeFrom [OF message_ok_Clear(1) [OF assms(1)] assms(2)]
  show "message_ok (ConnectProtocol_CopyFrom from m)" using ok(1) by (simp add: ConnectProtocol_CopyFrom_def)
  show "message_view (ConnectProtocol_CopyFrom from m) = message_view from"
    using ok(2) by (simp add: ConnectProtocol_CopyFrom_def message_ok_Clear merge_view_def empty_view_def)
qed

lemma message_ok_copy:
  assumes "message_ok from"
  shows "message_ok (ConnectProtocol_copy from)" "message_view (ConnectProtocol_copy from) = message_view from"
proof -
  note r = par.inv_CopyFrom [OF par.inv_new(1), of "parametergroup from"]
  from assms show "message_ok (ConnectProtocol_copy from)"
    by (simp add: message_ok_def ConnectProtocol_copy_def Let_def r)
  from assms show "message_view (ConnectProtocol_copy from) = message_view from"
    by (simp add: message_ok_def message_view_def ConnectProtocol_copy_def Let_def r cp_simps)
qed

lemma message_view_Swap:
  "message_view (fst (ConnectProtocol_InternalSwap m other)) = message_view other"
  "message_view (snd (ConnectProtocol_InternalSwap m other)) = message_view m"
  by (auto simp: ConnectProtocol_InternalSwap_def message_view_def rep_InternalSwap_def SwapArenaString_def
      Let_def cp_simps split: prod.splits dest: arg_cong [where f = fst] arg_cong [where f = snd])

lemma message_ok_Swap:
  "message_ok m \<Longrightarrow> message_ok other \<Longrightarrow>
   message_ok (fst (ConnectProtocol_InternalSwap m other)) \<and> message_ok (snd (ConnectProtocol_InternalSwap m other))"
  by (simp add: ConnectProtocol_InternalSwap_def message_ok_def rep_InternalSwap_def SwapArenaString_def
      Let_def split: prod.splits)

lemma message_ok_add:
  assumes "message_ok m"
  shows "message_ok (snd (add_parametergroup m))"
    "message_view (snd (add_parametergroup m)) =
       (message_view m)\<lparr>v_parameters := v_parameters (message_view m) @ [([], [], [])]\<rparr>"
    "fst (add_parametergroup m) = length (v_parameters (message_view m))"
  using assms par.inv_Add [of "parametergroup m"]
  by (cases "rep_Add Parameter0 (parametergroup m)";
      simp add: add_parametergroup_def message_ok_def message_view_def cp_simps par.view_items_length)+

lemma message_ok_mutable:
  assumes "message_ok m" "i < parametergroup_size m"
  shows "message_ok (mutable_parametergroup i f m)"
    "message_view (mutable_parametergroup i f m) =
       (message_view m)\<lparr>v_parameters := (v_parameters (message_view m))[i := parameter_view (f (parametergroup_get i m))]\<rparr>"
  using assms par.inv_Mutable [of "parametergroup m" i f]
  by (simp_all add: mutable_parametergroup_def message_ok_def message_view_def cp_simps parametergroup_size_def
      parametergroup_get_def)

lemma parametergroup_view:
  assumes "message_ok m"
  shows "length (v_parameters (message_view m)) = parametergroup_size m"
    "i < parametergroup_size m \<Longrightarrow> v_parameters (message_view m) ! i = parameter_view (parametergroup_get i m)"
  using assms par.view_items_length [of "parametergroup m"] par.view_items_nth [of "parametergroup m" i]
  by (simp_all add: message_ok_def message_view_def parametergroup_size_def parametergroup_get_def)


lemma VarintSize32_small:
  "unat v < 128 \<Longrightarrow> VarintSize32 v = 1"
  "128 \<le> unat v \<Longrightarrow> unat v < 16384 \<Longrightarrow> VarintSize32 v = 2"
proof -
  assume "unat v < 128"
  then show "VarintSize32 v = 1" unfolding VarintSize32_length by (subst varint_enc.simps) simp
next
  assume v: "128 \<le> unat v" "unat v < 16384"
  then have "varint_enc (unat v div 128) = [of_nat (unat v div 128)]"
    by (subst varint_enc.simps) (simp add: div_less_iff_less_mult)
  with v show "VarintSize32 v = 2" unfolding VarintSize32_length by (subst varint_enc.simps) simp
qed

lemma VarintSize32_tags [simp]:
  "VarintSize32 (MakeTag 1 t) = 1" "VarintSize32 (MakeTag 2 t) = 1"
  "VarintSize32 (MakeTag 20 t) = 2" "VarintSize32 (MakeTag 21 t) = 2"
  using wire_code_less [of t] VarintSize32_small [of "MakeTag _ t"] by (simp_all add: MakeTag_unat)

section \<open>The size computed before writing\<close>

lemma length_encode_parameter:
  "length (encode_parameter (k, w, u)) =
     ComputeUnknownFieldsSize u + (if k \<noteq> [] then 1 + StringSize k else 0) + (if w \<noteq> [] then 1 + StringSize w else 0)"
  by (simp add: encode_parameter_def WriteStringToArray_def StringSize_def unknown_size)

lemma Parameter_ByteSizeLong_view:
  "fst (Parameter_ByteSizeLong m) = length (encode_parameter (parameter_view m))"
  "parameter_view (snd (Parameter_ByteSizeLong m)) = parameter_view m"
  "par_cached_size (snd (Parameter_ByteSizeLong m)) = ToCachedSize (length (encode_parameter (parameter_view m)))"
proof -
  have "fst (Parameter_ByteSizeLong m) = length (encode_parameter (parameter_view m))"
    by (auto simp: Parameter_ByteSizeLong_def Let_def parameter_view_def length_encode_parameter
        have_unknown_fields_def unknown_fields_def split: option.splits)
  then show "fst (Parameter_ByteSizeLong m) = length (encode_parameter (parameter_view m))"
    "par_cached_size (snd (Parameter_ByteSizeLong m)) = ToCachedSize (length (encode_parameter (parameter_view m)))"
    by (simp_all add: Parameter_ByteSizeLong_def Let_def)
  show "parameter_view (snd (Parameter_ByteSizeLong m)) = parameter_view m"
    by (simp add: Parameter_ByteSizeLong_def Let_def parameter_view_def par_simps)
qed

lemma ToCachedSize_word: "(word_of_int (ToCachedSize n) :: u32) = of_nat n"
  by (simp add: ToCachedSize_def)

lemma ToCachedSize_small: "n < 2 ^ 31 \<Longrightarrow> ToCachedSize n = int n"
  by (simp add: ToCachedSize_def sint_small)

text \<open>A parameter whose cached size is up to date is written as a length and its encoding.\<close>

definition size_cached :: "Parameter \<Rightarrow> bool" where
  "size_cached m \<longleftrightarrow> par_cached_size m = ToCachedSize (length (encode_parameter (parameter_view m)))"

lemma size_cached_ByteSizeLong: "size_cached (snd (Parameter_ByteSizeLong m))"
  by (simp add: size_cached_def Parameter_ByteSizeLong_view)

lemma InternalWriteMessageToArray_cached:
  "size_cached m \<Longrightarrow> InternalWriteMessageToArray n m = WriteBytesToArray n (encode_parameter (parameter_view m))"
  by (simp add: InternalWriteMessageToArray_def WriteBytesToArray_def WriteStringWithSizeToArray_def
      size_cached_def ToCachedSize_word Parameter_InternalSerialize_view)

text \<open>The loop replaces each parameter by one with its size stored.\<close>

lemma parameters_size_spec:
  assumes "i + n \<le> length (elements r)"
  shows "parameters_size n i tsize r =
    (tsize + (\<Sum>p\<leftarrow>take n (drop i (elements r)). LengthDelimitedSize (length (encode_parameter (parameter_view p)))),
     r\<lparr>elements := take i (elements r) @ map (snd \<circ> Parameter_ByteSizeLong) (take n (drop i (elements r))) @
                   drop (i + n) (elements r)\<rparr>)"
  using assms
proof (induction n arbitrary: i tsize r)
  case 0
  then show ?case by simp
next
  case (Suc n)
  let ?p = "elements r ! i"
  let ?r = "rep_Mutable i (\<lambda>_. snd (Parameter_ByteSizeLong ?p)) r"
  have d: "drop i (elements r) = ?p # drop (Suc i) (elements r)"
    using Suc.prems by (simp add: Cons_nth_drop_Suc)
  have e: "elements ?r = take i (elements r) @ snd (Parameter_ByteSizeLong ?p) # drop (Suc i) (elements r)"
    using Suc.prems by (simp add: rep_Mutable_def upd_conv_take_nth_drop)
  have "take (Suc i) (elements ?r) = take i (elements r) @ [snd (Parameter_ByteSizeLong ?p)]"
    "drop (Suc i) (elements ?r) = drop (Suc i) (elements r)"
    "drop (Suc (i + n)) (elements ?r) = drop (Suc (i + n)) (elements r)"
    unfolding e using Suc.prems by (simp_all add: add.commute)
  moreover have "Suc i + n \<le> length (elements ?r)" using Suc.prems by (simp add: rep_Mutable_def)
  ultimately show ?case
    using Suc.IH [of "Suc i" ?r] d
    by (simp add: Parameter_ByteSizeLong_view rep_Get_def case_prod_beta rep_Mutable_def)
qed

lemma ByteSizeLong_parameters:
  assumes "par.inv r"
  obtains r' where
    "\<And>tsize. parameters_size (rep_size r) 0 tsize r =
       (tsize + (\<Sum>v\<leftarrow>par.view_items r. LengthDelimitedSize (length (encode_parameter v))), r')"
    "par.inv r'" "par.view_items r' = par.view_items r" "\<forall>p\<in>set (items r'). size_cached p"
    "rep_size r' = rep_size r"
proof -
  let ?es = "elements r"
  let ?r = "r\<lparr>elements := map (snd \<circ> Parameter_ByteSizeLong) (items r) @ cleared r\<rparr>"
  have ok: "current_size r \<le> length ?es" using assms by (simp add: par.inv_def rep_ok_def allocated_size_def)
  then have "\<And>tsize. parameters_size (rep_size r) 0 tsize r =
       (tsize + (\<Sum>v\<leftarrow>par.view_items r. LengthDelimitedSize (length (encode_parameter v))), ?r)"
    using parameters_size_spec [of 0 "rep_size r" r]
    by (simp add: rep_size_def par.view_items_def items_def cleared_def comp_def)
  moreover have i: "items ?r = map (snd \<circ> Parameter_ByteSizeLong) (items r)" "cleared ?r = cleared r"
    using ok by (simp_all add: items_def cleared_def)
  moreover have "par.inv ?r" using assms i ok
    by (auto simp: par.inv_def rep_ok_def allocated_size_def items_def cleared_def)
  ultimately show thesis
    using that [of ?r] by (auto simp: par.view_items_def Parameter_ByteSizeLong_view size_cached_ByteSizeLong rep_size_def)
qed

text \<open>A message is ready for writing when its parameters carry their sizes.\<close>

definition sizes_cached :: "ConnectProtocol \<Rightarrow> bool" where
  "sizes_cached m \<longleftrightarrow> (\<forall>p\<in>set (items (parametergroup m)). size_cached p)"

lemma length_encode_message:
  "length (encode_message v) =
     ComputeUnknownFieldsSize (v_unknown v) + 2 * length (v_parameters v) +
     (\<Sum>p\<leftarrow>v_parameters v. LengthDelimitedSize (length (encode_parameter p))) +
     (if v_apiname v \<noteq> [] then 1 + StringSize (v_apiname v) else 0) +
     (if v_bytedata v \<noteq> [] then 2 + BytesSize (v_bytedata v) else 0) +
     (if v_statecode v \<noteq> 0 then 1 + UInt32Size (v_statecode v) else 0)"
proof -
  have p: "(\<Sum>p\<leftarrow>ps. Suc (Suc (LengthDelimitedSize (length (encode_parameter p))))) =
      2 * length ps + (\<Sum>p\<leftarrow>ps. LengthDelimitedSize (length (encode_parameter p)))" for ps
    by (induction ps) simp_all
  show ?thesis
    by (simp add: encode_message_def p length_concat comp_def WriteUInt32ToArray_def WriteStringToArray_def
        WriteBytesToArray_def unknown_size StringSize_def BytesSize_def UInt32Size_def)
qed

lemma ByteSizeLong_view:
  assumes "message_ok m"
  shows "fst (ByteSizeLong m) = length (encode_message (message_view m))"
    "message_ok (snd (ByteSizeLong m))" "message_view (snd (ByteSizeLong m)) = message_view m"
    "sizes_cached (snd (ByteSizeLong m))"
proof -
  have inv: "par.inv (parametergroup m)" using assms by (simp add: message_ok_def)
  obtain r' where r: "\<And>tsize. parameters_size (rep_size (parametergroup m)) 0 tsize (parametergroup m) =
       (tsize + (\<Sum>v\<leftarrow>par.view_items (parametergroup m). LengthDelimitedSize (length (encode_parameter v))), r')"
    and r': "par.inv r'" "par.view_items r' = par.view_items (parametergroup m)" "\<forall>p\<in>set (items r'). size_cached p"
    using ByteSizeLong_parameters [OF inv] by blast
  have u: "\<not> have_unknown_fields (metadata m) \<Longrightarrow> ComputeUnknownFieldsSize (unknown_fields (metadata m)) = 0"
    by (auto simp: have_unknown_fields_def unknown_fields_def split: option.splits)
  have s: "parametergroup_size m = length (v_parameters (message_view m))"
    using parametergroup_view(1) [OF assms] by simp
  show "fst (ByteSizeLong m) = length (encode_message (message_view m))"
    using r u s unfolding length_encode_message ByteSizeLong_def parametergroup_size_def Let_def
    by (simp add: message_view_def cp_simps)
  show "message_ok (snd (ByteSizeLong m))" "message_view (snd (ByteSizeLong m)) = message_view m"
    "sizes_cached (snd (ByteSizeLong m))"
    using r r' unfolding ByteSizeLong_def parametergroup_size_def Let_def
    by (simp_all add: message_view_def cp_simps message_ok_def sizes_cached_def)
qed

lemma parametergroup_items:
  assumes "message_ok m"
  shows "map (\<lambda>i. parametergroup_get i m) [0..<parametergroup_size m] = items (parametergroup m)"
proof (rule nth_equalityI)
  have len: "length (items (parametergroup m)) = parametergroup_size m"
    using par.view_items_length [of "parametergroup m"] assms
    by (simp add: message_ok_def par.view_items_def parametergroup_size_def)
  then show "length (map (\<lambda>i. parametergroup_get i m) [0..<parametergroup_size m]) = length (items (parametergroup m))"
    by simp
  fix i assume "i < length (map (\<lambda>i. parametergroup_get i m) [0..<parametergroup_size m])"
  then show "map (\<lambda>i. parametergroup_get i m) [0..<parametergroup_size m] ! i = items (parametergroup m) ! i"
    by (simp add: parametergroup_get_def rep_Get_def items_def parametergroup_size_def rep_size_def)
qed

lemma InternalSerialize_view:
  assumes "message_ok m" "sizes_cached m"
  shows "InternalSerialize m = encode_message (message_view m)"
proof -
  have "map (\<lambda>i. InternalWriteMessageToArray 20 (parametergroup_get i m)) [0..<parametergroup_size m] =
      map (InternalWriteMessageToArray 20) (items (parametergroup m))"
    by (simp add: parametergroup_items [OF assms(1), symmetric] comp_def)
  also have "\<dots> = map (\<lambda>p. WriteBytesToArray 20 (encode_parameter p)) (v_parameters (message_view m))"
    using assms(2) by (simp add: sizes_cached_def message_view_def par.view_items_def InternalWriteMessageToArray_cached)
  finally have p: "map (\<lambda>i. InternalWriteMessageToArray 20 (parametergroup_get i m)) [0..<parametergroup_size m] =
      map (\<lambda>p. WriteBytesToArray 20 (encode_parameter p)) (v_parameters (message_view m))" .
  show ?thesis unfolding InternalSerialize_def p
    by (auto simp: encode_message_def message_view_def have_unknown_fields_def unknown_fields_def split: option.splits)
qed

lemma SerializeToArray_view:
  assumes "message_ok m" "length (encode_message (message_view m)) < 2 ^ 31"
  shows "SerializeToArray size' m =
    (if size' < int (length (encode_message (message_view m))) then Too_small
     else Written (encode_message (message_view m)), snd (ByteSizeLong m))"
  using ByteSizeLong_view [OF assms(1)] InternalSerialize_view [of "snd (ByteSizeLong m)"] assms(2)
  by (simp add: SerializeToArray_def Let_def case_prod_beta ToCachedSize_small)

text \<open>The repeated field of parameters behaves as a list although it keeps cleared elements
  behind the current ones: \<open>RemoveLast\<close>, \<open>DeleteSubrange\<close>, \<open>AddAllocated\<close> and \<open>ReleaseLast\<close> act on the
  list of visible values and keep the field well formed.\<close>

lemma repeated_parameters:
  assumes "par.inv r" "0 < rep_size r" "start + num \<le> rep_size r"
  shows "par.view_items (RemoveLast Parameter_Clear r) = butlast (par.view_items r) \<and>
    par.view_items (DeleteSubrange start num r) = take start (par.view_items r) @ drop (start + num) (par.view_items r) \<and>
    par.view_items (AddAllocatedInternal p r) = par.view_items r @ [parameter_view p] \<and>
    parameter_view (fst (UnsafeArenaReleaseLast r)) = last (par.view_items r) \<and>
    par.inv (RemoveLast Parameter_Clear r) \<and> par.inv (DeleteSubrange start num r) \<and>
    par.inv (AddAllocatedInternal p r) \<and> par.inv (snd (UnsafeArenaReleaseLast r))"
  using par.inv_RemoveLast [OF assms(1,2)] par.inv_DeleteSubrange [OF assms(1,3)] par.inv_AddAllocated [OF assms(1)]
    par.inv_ReleaseLast [OF assms(1,2)] by simp

lemma repeated_parameters_witness:
  "par.view_items (RemoveLast Parameter_Clear (snd (rep_Add Parameter0 RepeatedPtrFieldBase0))) = []"
proof -
  let ?r = "snd (rep_Add Parameter0 RepeatedPtrFieldBase0)"
  have r: "par.inv ?r" "par.view_items ?r = [parameter_view Parameter0]"
    using par.inv_Add [OF par.inv_new(1)] par.inv_new(2) by simp_all
  moreover have "0 < rep_size ?r" using par.view_items_length [OF r(1)] r(2) by simp
  ultimately show ?thesis using repeated_parameters [of ?r 0 0] by simp
qed

end
