(* ===== verification/MessageParse.thy ===== *)
theory MessageParse
  imports Message
begin

text \<open>
  Parsing the messages of \<open>Message\<close>: a locale for a parse loop, with what every such loop does
  (it ends; it eats an encoding piece by piece), interpreted on the loops of \<open>Parameter\<close> and
  of \<open>ConnectProtocol\<close>; then parsing of what was written, of ill-formed and of truncated
  bytes, and the properties of the message classes.
\<close>

section \<open>Parse loops\<close>

text \<open>
  What a round of a parse loop leaves: it goes on with less to read, or it ends; when it ends
  well, the stream has only advanced.
\<close>

definition step_ends :: "cis \<Rightarrow> 'm step \<Rightarrow> bool" where
  "step_ends s r \<longleftrightarrow> (case r of
     Continue m t \<Rightarrow> advanced s t \<and> length (avail t) < length (avail s)
   | Done ok m t \<Rightarrow> flat t \<and> (ok \<longrightarrow> advanced s t)
   | OutOfFuel \<Rightarrow> False)"

lemma step_ends_simps [simp]:
  "step_ends s (Continue m t) \<longleftrightarrow> advanced s t \<and> length (avail t) < length (avail s)"
  "step_ends s (Done ok m t) \<longleftrightarrow> flat t \<and> (ok \<longrightarrow> advanced s t)"
  "\<not> step_ends s OutOfFuel"
  by (simp_all add: step_ends_def)

text \<open>\<open>after s n t\<close>: \<open>t\<close> is \<open>s\<close> with \<open>n\<close> bytes read, up to the two marks a tag leaves.\<close>

definition after :: "cis \<Rightarrow> nat \<Rightarrow> cis \<Rightarrow> bool" where
  "after s n t \<longleftrightarrow> t = (Advance n s)\<lparr>last_tag := last_tag t, legitimate_message_end := legitimate_message_end t\<rparr>"

lemma after_Advance [simp]:
  "after s n (Advance n s)" "after s n ((Advance n s)\<lparr>last_tag := x\<rparr>)"
  "after s n ((Advance n s)\<lparr>legitimate_message_end := b\<rparr>)" "after s 0 s"
  "after s 0 (s\<lparr>legitimate_message_end := b\<rparr>)"
  by (simp_all add: after_def Advance_def)

lemma after_fields:
  assumes "after s n t"
  shows "recursion_budget t = recursion_budget s" "recursion_limit t = recursion_limit s"
    "cbuffer_end t = cbuffer_end s" "cdata t = cdata s" "cbuffer t = cbuffer s + n"
  using arg_cong [OF assms [unfolded after_def], of recursion_budget]
    arg_cong [OF assms [unfolded after_def], of recursion_limit]
    arg_cong [OF assms [unfolded after_def], of cbuffer_end]
    arg_cong [OF assms [unfolded after_def], of cdata] arg_cong [OF assms [unfolded after_def], of cbuffer]
  by simp_all

lemma after_avail: "after s n t \<Longrightarrow> avail t = drop n (avail s)"
  by (simp add: avail_def after_fields drop_take add.commute)

lemma after_flat: "flat s \<Longrightarrow> after s n t \<Longrightarrow> n \<le> length (avail s) \<Longrightarrow> flat t"
  unfolding after_def by (erule ssubst) simp

lemma after_trans: "after s n t \<Longrightarrow> after t k u \<Longrightarrow> after s (n + k) u"
  by (cases s; cases t; cases u) (simp add: after_def Advance_def)

text \<open>
  A loop repeats a step until the step ends it. Every step that goes on reads something, and at
  the end of the bytes the step ends well.
\<close>

locale parse_loop =
  fixes step :: "nat \<Rightarrow> 'm \<Rightarrow> cis \<Rightarrow> 'm step"
    and loop :: "nat \<Rightarrow> 'm \<Rightarrow> cis \<Rightarrow> (bool \<times> 'm \<times> cis) option"
  assumes loop_0: "loop 0 m s = None"
    and loop_Suc: "loop (Suc fuel) m s =
      (case step fuel m s of
         Continue m t \<Rightarrow> loop fuel m t
       | Done ok m t \<Rightarrow> Some (ok, m, t)
       | OutOfFuel \<Rightarrow> None)"
    and ends: "flat s \<Longrightarrow> length (avail s) \<le> fuel \<Longrightarrow> step_ends s (step fuel m s)"
    and at_end: "flat s \<Longrightarrow> avail s = [] \<Longrightarrow> step fuel m s = Done True m (s\<lparr>legitimate_message_end := True\<rparr>)"
begin

lemma loop_ends:
  "flat s \<Longrightarrow> length (avail s) < fuel \<Longrightarrow>
   \<exists>ok m' t. loop fuel m s = Some (ok, m', t) \<and> flat t \<and> (ok \<longrightarrow> advanced s t)"
proof (induction fuel arbitrary: m s)
  case 0
  then show ?case by simp
next
  case (Suc fuel)
  from Suc.prems have e: "step_ends s (step fuel m s)" by (simp add: ends)
  show ?case
  proof (cases "step fuel m s")
    case (Continue m' t)
    then have a: "advanced s t" "length (avail t) < length (avail s)" using e by simp_all
    then obtain ok m'' u where "loop fuel m' t = Some (ok, m'', u)" "flat u" "ok \<longrightarrow> advanced t u"
      using Suc.IH [of t m'] Suc.prems(2) advanced_flat by fastforce
    then show ?thesis using Continue advanced_trans [OF a(1)] by (auto simp: loop_Suc)
  qed (use e in \<open>auto simp: loop_Suc\<close>)
qed

text \<open>The loop eats \<open>c\<close>, turning \<open>m\<close> into \<open>m'\<close>, when it may nest \<open>d\<close> deep.\<close>

definition eats :: "nat \<Rightarrow> bytes \<Rightarrow> 'm \<Rightarrow> 'm \<Rightarrow> bool" where
  "eats d c m m' \<longleftrightarrow> (\<forall>s rest fuel.
     flat s \<and> avail s = c @ rest \<and> int d \<le> recursion_budget s \<and> recursion_budget s \<le> recursion_limit s \<and>
     length (avail s) < fuel \<longrightarrow>
     (\<exists>fuel' t. loop fuel m s = loop fuel' m' t \<and> after s (length c) t \<and> length rest < fuel'))"

lemma eats_Nil: "eats d [] m m"
  unfolding eats_def by (auto intro!: exI after_Advance(4))

lemma eats_mono: "eats d c m m' \<Longrightarrow> d \<le> e \<Longrightarrow> eats e c m m'"
proof -
  assume e: "eats d c m m'" and "d \<le> e"
  then have "int e \<le> recursion_budget s \<Longrightarrow> int d \<le> recursion_budget s" for s by linarith
  with e show ?thesis unfolding eats_def by blast
qed

lemma eats_append:
  assumes "eats d c m m'" "eats d c' m' m''"
  shows "eats d (c @ c') m m''"
  unfolding eats_def
proof (intro allI impI, elim conjE)
  fix s rest fuel
  assume s: "flat s" "avail s = (c @ c') @ rest" "int d \<le> recursion_budget s"
    "recursion_budget s \<le> recursion_limit s" "length (avail s) < fuel"
  then obtain fuel1 t where t: "loop fuel m s = loop fuel1 m' t" "after s (length c) t" "length (c' @ rest) < fuel1"
    using assms(1) unfolding eats_def by (metis append.assoc)
  note at = after_fields [OF t(2)] after_avail [OF t(2)]
  have "flat t" "avail t = c' @ rest" using after_flat [OF s(1) t(2)] s(2) at(6) by simp_all
  then obtain fuel2 u where "loop fuel1 m' t = loop fuel2 m'' u" "after t (length c') u" "length rest < fuel2"
    using assms(2) [unfolded eats_def, rule_format, of t rest fuel1] s t(3) at by auto
  then show "\<exists>fuel' t. loop fuel m s = loop fuel' m'' t \<and> after s (length (c @ c')) t \<and> length rest < fuel'"
    using t after_trans by (metis length_append)
qed

text \<open>One round eats \<open>c\<close>.\<close>

lemma eats_step:
  assumes "c \<noteq> []" "\<And>s rest fuel. flat s \<Longrightarrow> avail s = c @ rest \<Longrightarrow> int d \<le> recursion_budget s \<Longrightarrow>
      recursion_budget s \<le> recursion_limit s \<Longrightarrow> length (avail s) \<le> fuel \<Longrightarrow>
      \<exists>t. step fuel m s = Continue m' t \<and> after s (length c) t"
  shows "eats d c m m'"
  unfolding eats_def
proof (intro allI impI, elim conjE)
  fix s rest fuel
  assume s: "flat s" "avail s = c @ rest" "int d \<le> recursion_budget s"
    "recursion_budget s \<le> recursion_limit s" "length (avail s) < fuel"
  then obtain k where k: "fuel = Suc k" by (cases fuel) auto
  then obtain t where "step k m s = Continue m' t" "after s (length c) t"
    using assms(2) [OF s(1-4), of k] s(5) by auto
  moreover have "length rest < k" using s(2,5) k assms(1) by (cases c) auto
  ultimately show "\<exists>fuel' t. loop fuel m s = loop fuel' m' t \<and> after s (length c) t \<and> length rest < fuel'"
    by (auto simp: k loop_Suc)
qed

lemma eats_whole:
  assumes "eats d (avail s) m m'" "flat s" "int d \<le> recursion_budget s"
    "recursion_budget s \<le> recursion_limit s" "length (avail s) < fuel"
  shows "\<exists>t. loop fuel m s = Some (True, m', t) \<and> after s (length (avail s)) t \<and> legitimate_message_end t"
proof -
  obtain fuel' t where t: "loop fuel m s = loop fuel' m' t" "after s (length (avail s)) t" "0 < fuel'"
    using assms(1) [unfolded eats_def, rule_format, of s "[]" fuel] assms(2-) by auto
  have "flat t" "avail t = []" using after_flat [OF assms(2) t(2)] after_avail [OF t(2)] by simp_all
  from at_end [OF this] t(3) have
    "loop fuel' m' t = Some (True, m', t\<lparr>legitimate_message_end := True\<rparr>)"
    by (cases fuel') (simp_all add: loop_Suc)
  moreover have "after s (length (avail s)) (t\<lparr>legitimate_message_end := True\<rparr>)"
    using t(2) by (cases t) (simp add: after_def)
  ultimately show ?thesis using t(1) by auto
qed

end

section \<open>Parsing ends\<close>

text \<open>A reader after the tag goes on or ends; the tag itself took a byte.\<close>

lemma step_ends_after:
  assumes "flat s" "advanced s t" "length (avail t) < length (avail s)" "advanced t u"
  shows "advanced s u" "length (avail u) < length (avail s)" "flat u"
  using assms advanced_trans [OF assms(2,4)] advanced_length [OF advanced_flat [OF assms(2)] assms(4)]
  by (auto simp: advanced_flat)

lemma SkipField_after:
  assumes "flat s" "advanced s t" "length (avail t) < length (avail s)" "length (avail s) \<le> fuel"
  obtains ok u v where "SkipField fuel tag ufs t = Some (ok, u, v)" "advanced t v"
  using SkipField_ends [OF SkipMessage_ends, of t fuel tag ufs] assms advanced_flat by fastforce

lemma handle_unusual_ends:
  assumes "flat s" "advanced s t" "tag \<noteq> 0 \<Longrightarrow> length (avail t) < length (avail s)" "length (avail s) \<le> fuel"
  shows "step_ends s (handle_unusual fuel tag m t)" "step_ends s (Parameter_handle_unusual fuel tag p t)"
proof -
  have z: "tag = 0 \<Longrightarrow> step_ends s (handle_unusual fuel tag m t)"
    "tag = 0 \<Longrightarrow> step_ends s (Parameter_handle_unusual fuel tag p t)"
    using assms(2) by (simp_all add: handle_unusual_def Parameter_handle_unusual_def advanced_flat)
  note after = step_ends_after [OF assms(1,2)]
  show "step_ends s (handle_unusual fuel tag m t)"
  proof (cases "tag = 0")
    case False
    note len = assms(3) [OF this]
    obtain ok u v where "SkipField fuel tag (mutable_unknown_fields (metadata m)) t = Some (ok, u, v)" "advanced t v"
      using SkipField_after [OF assms(1,2) len assms(4)] .
    with False after [OF len this(2)] show ?thesis by (simp add: handle_unusual_def Let_def)
  qed (use z in blast)
  show "step_ends s (Parameter_handle_unusual fuel tag p t)"
  proof (cases "tag = 0")
    case False
    note len = assms(3) [OF this]
    obtain ok u v where "SkipField fuel tag (mutable_unknown_fields (par_metadata p)) t = Some (ok, u, v)" "advanced t v"
      using SkipField_after [OF assms(1,2) len assms(4)] .
    with False after [OF len this(2)] show ?thesis by (simp add: Parameter_handle_unusual_def Let_def)
  qed (use z in blast)
qed

lemma GetTagFieldNumber_0: "GetTagFieldNumber 0 = 0"
  by (simp add: GetTagFieldNumber_def)

lemma Parameter_parse_step_ends:
  assumes f: "flat s" and len: "length (avail s) \<le> fuel"
  shows "step_ends s (Parameter_parse_step fuel m s)"
proof -
  obtain tag cut t where tag: "ReadTagWithCutoffNoLastTag 127 s = (tag, cut, t)" by (metis prod_cases3)
  note adv = ReadTagWithCutoff_advances [OF f tag]
  note unusual = handle_unusual_ends(2) [OF f adv len]
  have known: "step_ends s (let (ok, v, u) = ReadBytes w t; m = g v
      in if ok \<and> P m then Continue m u else Done False m u)" if "GetTagFieldNumber tag \<noteq> 0" for w g and P :: "Parameter \<Rightarrow> bool"
  proof -
    have "tag \<noteq> 0" using that GetTagFieldNumber_0 by metis
    obtain ok v u where r: "ReadBytes w t = (ok, v, u)" by (metis prod_cases3)
    show ?thesis
      using step_ends_after [OF f adv(1) adv(2) [OF \<open>tag \<noteq> 0\<close>] ReadBytes_advances [OF advanced_flat [OF adv(1)] r]]
      by (simp add: r Let_def)
  qed
  show ?thesis
    using known unusual by (simp add: Parameter_parse_step_def tag)
qed

lemma Parameter_parse_step_at_end:
  assumes "flat s" "avail s = []"
  shows "Parameter_parse_step fuel m s = Done True m (s\<lparr>legitimate_message_end := True\<rparr>)"
  using ReadTagWithCutoffNoLastTag_flat [OF assms(1), of 127] assms(2)
  by (auto simp: tag_spec_def Parameter_parse_step_def Parameter_handle_unusual_def GetTagFieldNumber_0)

interpretation par_loop: parse_loop Parameter_parse_step Parameter_MergePartial
  by unfold_locales (simp_all add: Parameter_parse_step_ends Parameter_parse_step_at_end)

lemma ReadMessage_ends:
  assumes f: "flat s" and len: "length (avail s) < fuel"
  shows "\<exists>ok m' t. ReadMessage fuel m s = Some (ok, m', t) \<and> flat t \<and> (ok \<longrightarrow> advanced s t)"
proof -
  obtain ok n s1 where r: "ReadVarintSizeAsInt s = (ok, n, s1)" by (metis prod_cases3)
  note a = ReadVarintSizeAsInt_advances [OF f r]
  note f1 = advanced_flat [OF a]
  have len1: "length (avail s1) < fuel" using advanced_length [OF f a] len by simp
  show ?thesis
  proof (cases ok)
    case False
    with r have "ReadMessage fuel m s = Some (False, m, s1)" by (simp add: ReadMessage_def)
    with f1 show ?thesis by blast
  next
    case True
    then have "0 \<le> n" using r f by (auto simp: ReadVarintSizeAsInt_flat split: option.splits if_splits)
    then obtain k where n: "n = int k" by (metis zero_le_imp_eq_int)
    let ?l = "limit_to (cbuffer s1 + min k (length (avail s1))) s1"
    let ?s2 = "?l\<lparr>recursion_budget := recursion_budget s1 - 1\<rparr>"
    have "cbuffer s1 + min k (length (avail s1)) \<le> length (cdata s1)"
      using f1 length_avail_flat [OF f1] by (auto simp: flat_def)
    then have f2: "flat ?s2" using f1 by simp
    have av2: "avail ?s2 = take (min k (length (avail s1))) (avail s1)"
      using avail_limit_to [OF f1, of "min k (length (avail s1))"] by simp
    then have len2: "length (avail ?s2) < fuel" using len1 by simp
    obtain ok' m' t where m: "Parameter_MergePartial fuel m ?s2 = Some (ok', m', t)" "flat t" "ok' \<longrightarrow> advanced ?s2 t"
      using par_loop.loop_ends [OF f2 len2] by blast
    have e: "flat t \<Longrightarrow> advanced ?s2 t \<Longrightarrow> cbuffer_end t \<le> cbuffer_end s1 \<and> cdata t = cdata s1 \<and> cbuffer s1 \<le> cbuffer t"
      using f1 length_avail_flat [OF f1] by (auto simp: advanced_def flat_def min_def)
    have push: "IncrementRecursionDepthAndPushLimit n s1 = (int (cbuffer_end s1), recursion_budget s1 - 1, ?s2)"
      by (simp add: IncrementRecursionDepthAndPushLimit_def n PushLimit_flat [OF f1])
    show ?thesis
    proof (cases "recursion_budget s1 - 1 < 0 \<or> \<not> ok'")
      case True
      have "\<exists>m' t. ReadMessage fuel m s = Some (False, m', t) \<and> flat t"
        using True \<open>ok\<close> r push m f2 by (auto simp: ReadMessage_def)
      then show ?thesis by blast
    next
      case False
      then have ad: "advanced ?s2 t" using m(3) by simp
      let ?p = "PopLimit (int (cbuffer_end s1)) t"
      have "?p = (limit_to (cbuffer_end s1) t)\<lparr>legitimate_message_end := False\<rparr>"
        using e [OF m(2) ad] f1 by (intro PopLimit_flat m(2)) (auto simp: flat_def)
      then have "advanced s1 (?p\<lparr>recursion_budget := recursion_budget ?p + 1\<rparr>)"
        using e [OF m(2) ad] ad m(2) f1 by (simp add: advanced_def) (auto simp: flat_def limit_to_def)
      then have "advanced s (?p\<lparr>recursion_budget := recursion_budget ?p + 1\<rparr>)"
        by (rule advanced_trans [OF a])
      with False \<open>ok\<close> r push m(1) show ?thesis
        by (auto simp: ReadMessage_def DecrementRecursionDepthAndPopLimit_def Let_def dest: advanced_flat)
    qed
  qed
qed

lemma parse_step_ends:
  assumes f: "flat s" and len: "length (avail s) \<le> fuel"
  shows "step_ends s (parse_step fuel m s)"
proof -
  obtain tag cut t where tag: "ReadTagWithCutoffNoLastTag 16383 s = (tag, cut, t)" by (metis prod_cases3)
  note adv = ReadTagWithCutoff_advances [OF f tag]
  note unusual = handle_unusual_ends(1) [OF f adv len]
  have nz: "tag \<noteq> 0" if "GetTagFieldNumber tag \<noteq> 0" using that GetTagFieldNumber_0 by metis
  note ft = advanced_flat [OF adv(1)]
  have known: "step_ends s (let (ok, v, u) = ReadBytes w t; m = g v
      in if ok \<and> P m then Continue m u else Done False m u)" if "GetTagFieldNumber tag \<noteq> 0"
    for w g and P :: "ConnectProtocol \<Rightarrow> bool"
  proof -
    obtain ok v u where r: "ReadBytes w t = (ok, v, u)" by (metis prod_cases3)
    show ?thesis
      using step_ends_after [OF f adv(1) adv(2) [OF nz [OF that]] ReadBytes_advances [OF ft r]]
      by (simp add: r Let_def)
  qed
  have code: "step_ends s (let (ok, v, u) = ReadUInt32 t; m = g v
      in if ok then Continue m u else Done False m u)" if "GetTagFieldNumber tag \<noteq> 0"
    for g :: "u32 \<Rightarrow> ConnectProtocol"
  proof -
    obtain ok v u where r: "ReadVarint32 t = (ok, v, u)" by (metis prod_cases3)
    show ?thesis
      using step_ends_after [OF f adv(1) adv(2) [OF nz [OF that]] ReadVarint32_advances [OF ft r]]
      by (simp add: ReadUInt32_def r Let_def)
  qed
  have par: "step_ends s (parse_parameter fuel m t)" if "GetTagFieldNumber tag \<noteq> 0"
  proof -
    note len1 = adv(2) [OF nz [OF that]]
    obtain i m' where add: "add_parametergroup m = (i, m')" by force
    obtain ok p u where r: "ReadMessage fuel (parametergroup_get i m') t = Some (ok, p, u)" "flat u" "ok \<longrightarrow> advanced t u"
      using ReadMessage_ends [OF ft, of fuel] len len1 by fastforce
    then show ?thesis
      using step_ends_after [OF f adv(1) len1, of u]
      by (cases ok) (auto simp: parse_parameter_def add Let_def)
  qed
  have bytes: "step_ends s (let (ok, v, u) = ReadBytes w t; m = g v
      in if ok then Continue m u else Done False m u)" if "GetTagFieldNumber tag \<noteq> 0"
    for w and g :: "bytes \<Rightarrow> ConnectProtocol"
    using known [OF that, of w g "\<lambda>_. True"] by simp
  show ?thesis
    using known code par bytes unusual by (simp add: parse_step_def tag)
qed

lemma parse_step_at_end:
  assumes "flat s" "avail s = []"
  shows "parse_step fuel m s = Done True m (s\<lparr>legitimate_message_end := True\<rparr>)"
  using ReadTagWithCutoffNoLastTag_flat [OF assms(1), of 16383] assms(2)
  by (auto simp: tag_spec_def parse_step_def handle_unusual_def GetTagFieldNumber_0)

interpretation msg_loop: parse_loop parse_step MergePartialFromCodedStream
  by unfold_locales (simp_all add: parse_step_ends parse_step_at_end)

lemma ParseFromArray_ends:
  assumes "int (length data) \<le> INT_MAX"
  shows "\<exists>ok m'. ParseFromArray data m = Some (ok, m')"
proof -
  let ?s = "CodedInputStream data (int (length data))"
  have "flat ?s" "length (avail ?s) < Suc (length data)"
    using flat_CodedInputStream [of data] avail_CodedInputStream [of data] assms by simp_all
  then obtain ok m' t where
    "MergePartialFromCodedStream (Suc (length data)) (ConnectProtocol_Clear m) ?s = Some (ok, m', t)"
    using msg_loop.loop_ends by blast
  then show ?thesis by (simp add: ParseFromArray_def)
qed


section \<open>Parsing what was written\<close>

lemma ReadTag_cutoff_written:
  assumes "flat s" "avail s = WriteTagToArray n w @ rest" "MakeTag n w \<noteq> 0"
  shows "ReadTagWithCutoffNoLastTag cutoff s =
    (MakeTag n w, MakeTag n w \<le> cutoff, Advance (VarintSize32 (MakeTag n w)) s)"
  using ReadTagWithCutoffNoLastTag_flat [OF assms(1), of cutoff] assms(3)
    tag_spec_written [OF assms(1), of "MakeTag n w" rest] assms(2)
  by (auto simp: WriteTagToArray_def WriteTagToArray0_def)

lemma MakeTag_values:
  "MakeTag 1 WIRETYPE_LENGTH_DELIMITED = 10" "MakeTag 2 WIRETYPE_LENGTH_DELIMITED = 18"
  "MakeTag 1 WIRETYPE_VARINT = 8" "MakeTag 20 WIRETYPE_LENGTH_DELIMITED = 162"
  "MakeTag 21 WIRETYPE_LENGTH_DELIMITED = 170"
  by (simp_all add: MakeTag_def kTagTypeBits_def wire_code_def)

lemma known_sizes:
  "VarintSize32 10 = 1" "VarintSize32 18 = 1" "VarintSize32 8 = 1" "VarintSize32 162 = 2" "VarintSize32 170 = 2"
  using VarintSize32_tags [of WIRETYPE_LENGTH_DELIMITED] VarintSize32_tags [of WIRETYPE_VARINT]
  by (simp_all only: MakeTag_values)

lemma known_numbers:
  "GetTagFieldNumber 10 = 1" "GetTagFieldNumber 18 = 2" "GetTagFieldNumber 8 = 1"
  "GetTagFieldNumber 162 = 20" "GetTagFieldNumber 170 = 21"
  by (simp_all add: GetTagFieldNumber_def kTagTypeBits_def)

text \<open>A tag with a known number and the right low byte is the known tag.\<close>

lemma tag_of_number:
  assumes "GetTagFieldNumber tag = n" "(ucast tag :: u8) = ucast t" "unat n < 32" "unat t < 256"
  shows "tag = t"
proof -
  have "unat tag div 8 = unat n" using assms(1)
    by (auto simp: GetTagFieldNumber_def kTagTypeBits_def drop_bit_eq_div unat_div)
  then have "unat tag < 256" using assms(3) by presburger
  moreover have "unat tag mod 256 = unat t mod 256"
    using arg_cong [OF assms(2), of unat] by (simp add: unsigned_ucast_eq take_bit_eq_mod)
  ultimately show ?thesis using assms(4) by (simp add: word_unat_eq_iff)
qed


subsection \<open>A parameter\<close>

lemma Parameter_eats_key:
  assumes "utf8_valid k" "length k < 2 ^ 31"
  shows "par_loop.eats 0 (WriteStringToArray 1 k) m (m\<lparr>par_key := Owned_string k\<rparr>)"
proof (rule par_loop.eats_step)
  show "WriteStringToArray 1 k \<noteq> []" by (simp add: WriteStringToArray_def flip: length_0_conv)
  fix s rest fuel
  assume s: "flat s" "avail s = WriteStringToArray 1 k @ rest"
  then have a: "avail s = WriteTagToArray 1 WIRETYPE_LENGTH_DELIMITED @ WriteStringWithSizeToArray k @ rest"
    by (simp add: WriteStringToArray_def)
  let ?t = "Advance 1 s"
  have t: "flat ?t" "avail ?t = WriteStringWithSizeToArray k @ rest" using s a by simp_all
  have "Parameter_parse_step fuel m s =
      Continue (m\<lparr>par_key := Owned_string k\<rparr>) (Advance (LengthDelimitedSize (length k)) ?t)"
    using ReadTag_cutoff_written [OF s(1) a, of 127] ReadBytes_written [OF t assms(2)] assms(1)
    by (simp add: Parameter_parse_step_def MakeTag_values known_sizes known_numbers VerifyUtf8String_def par_simps)
  then show "\<exists>t. Parameter_parse_step fuel m s = Continue (m\<lparr>par_key := Owned_string k\<rparr>) t \<and>
      after s (length (WriteStringToArray 1 k)) t"
    by (simp add: WriteStringToArray_def)
qed

lemma Parameter_eats_value:
  assumes "utf8_valid w" "length w < 2 ^ 31"
  shows "par_loop.eats 0 (WriteStringToArray 2 w) m (m\<lparr>par_value := Owned_string w\<rparr>)"
proof (rule par_loop.eats_step)
  show "WriteStringToArray 2 w \<noteq> []" by (simp add: WriteStringToArray_def flip: length_0_conv)
  fix s rest fuel
  assume s: "flat s" "avail s = WriteStringToArray 2 w @ rest"
  then have a: "avail s = WriteTagToArray 2 WIRETYPE_LENGTH_DELIMITED @ WriteStringWithSizeToArray w @ rest"
    by (simp add: WriteStringToArray_def)
  let ?t = "Advance 1 s"
  have t: "flat ?t" "avail ?t = WriteStringWithSizeToArray w @ rest" using s a by simp_all
  have "Parameter_parse_step fuel m s =
      Continue (m\<lparr>par_value := Owned_string w\<rparr>) (Advance (LengthDelimitedSize (length w)) ?t)"
    using ReadTag_cutoff_written [OF s(1) a, of 127] ReadBytes_written [OF t assms(2)] assms(1)
    by (simp add: Parameter_parse_step_def MakeTag_values known_sizes known_numbers VerifyUtf8String_def par_simps)
  then show "\<exists>t. Parameter_parse_step fuel m s = Continue (m\<lparr>par_value := Owned_string w\<rparr>) t \<and>
      after s (length (WriteStringToArray 2 w)) t"
    by (simp add: WriteStringToArray_def)
qed


lemma Parameter_eats_unknown:
  assumes ok: "field_ok f" "field_tag f \<noteq> 10" "field_tag f \<noteq> 18"
  shows "par_loop.eats (field_depth f) (SerializeUnknownField f) m
    (m\<lparr>par_metadata := Some (unknown_fields (par_metadata m) @ [f])\<rparr>)"
proof (rule par_loop.eats_step)
  have "WriteVarint32ToArray (field_tag f) \<noteq> []"
    using VarintSize32_pos by (metis length_varints(1) list.size(3) less_irrefl)
  then show "SerializeUnknownField f \<noteq> []" by (simp add: field_tag_body)
  fix s rest fuel
  assume s: "flat s" "avail s = SerializeUnknownField f @ rest" "int (field_depth f) \<le> recursion_budget s"
    "recursion_budget s \<le> recursion_limit s" "length (avail s) \<le> fuel"
  let ?tag = "field_tag f"
  let ?m = "m\<lparr>par_metadata := Some (unknown_fields (par_metadata m) @ [f])\<rparr>"
  let ?t = "Advance (VarintSize32 ?tag) s"
  have nz: "?tag \<noteq> 0" using field_tag_nonzero [OF ok(1)] .
  have a: "avail s = WriteVarint32ToArray ?tag @ field_body f @ rest"
    using s(2) by (simp add: field_tag_body)
  then have t: "flat ?t" "avail ?t = field_body f @ rest" "length (avail ?t) < fuel"
    using s(1,5) VarintSize32_pos [of ?tag] by (simp_all del: VarintSize32_pos)
  obtain lt where sk: "SkipField fuel ?tag (Some (unknown_fields (par_metadata m))) ?t =
      Some (True, Some (unknown_fields (par_metadata m) @ [f]), (Advance (length (field_body f)) ?t)\<lparr>last_tag := lt\<rparr>)"
    using unknown_roundtrip(1) [OF ok(1) t(1,2) _ _ t(3), of "unknown_fields (par_metadata m)"] s(3,4) by auto
  have "mutable_unknown_fields (par_metadata m) = Some (unknown_fields (par_metadata m))"
    by (auto simp: mutable_unknown_fields_def have_unknown_fields_def)
  then have un: "Parameter_handle_unusual fuel ?tag m ?t =
      Continue ?m ((Advance (length (field_body f)) ?t)\<lparr>last_tag := lt\<rparr>)"
    using nz sk by (simp add: Parameter_handle_unusual_def)
  have no: "\<not> (GetTagFieldNumber ?tag = 1 \<and> (ucast ?tag :: u8) = 10)"
    "\<not> (GetTagFieldNumber ?tag = 2 \<and> (ucast ?tag :: u8) = 18)"
    using tag_of_number [of ?tag 1 10] tag_of_number [of ?tag 2 18] ok(2,3) by auto
  obtain cut where "ReadTagWithCutoffNoLastTag 127 s = (?tag, cut, ?t)"
    using ReadTagWithCutoffNoLastTag_flat [OF s(1), of 127] tag_spec_written [OF s(1) a] by auto
  then have "Parameter_parse_step fuel m s = Parameter_handle_unusual fuel ?tag m ?t"
    using no by (simp add: Parameter_parse_step_def)
  with un show "\<exists>t. Parameter_parse_step fuel m s = Continue ?m t \<and> after s (length (SerializeUnknownField f)) t"
    by (simp add: field_tag_body)
qed

text \<open>The unknown fields of a value that parses back: none would be taken for a known one.\<close>

definition unknown_apart :: "u32 set \<Rightarrow> UnknownFieldSet \<Rightarrow> bool" where
  "unknown_apart tags fs \<longleftrightarrow> fields_ok fs \<and> (\<forall>f\<in>set fs. field_tag f \<notin> tags)"

lemma unknown_apart_Cons [simp]:
  "unknown_apart tags []"
  "unknown_apart tags (f # fs) \<longleftrightarrow> field_ok f \<and> field_tag f \<notin> tags \<and> unknown_apart tags fs"
  by (auto simp: unknown_apart_def)

lemma Parameter_eats_unknowns:
  "unknown_apart {10, 18} fs \<Longrightarrow> \<exists>m'. par_loop.eats (fields_depth fs) (SerializeUnknownFieldsToArray fs) m m' \<and>
     parameter_view m' = (key m, par_value_get m, unknown_fields (par_metadata m) @ fs)"
proof (induction fs arbitrary: m)
  case Nil
  then show ?case using par_loop.eats_Nil by (auto simp: parameter_view_def)
next
  case (Cons f fs)
  let ?m = "m\<lparr>par_metadata := Some (unknown_fields (par_metadata m) @ [f])\<rparr>"
  obtain m' where m': "par_loop.eats (fields_depth fs) (SerializeUnknownFieldsToArray fs) ?m m'"
    "parameter_view m' = (key m, par_value_get m, unknown_fields (par_metadata m) @ f # fs)"
    using Cons.IH [of ?m] Cons.prems by (auto simp: par_simps)
  have "par_loop.eats (field_depth f) (SerializeUnknownField f) m ?m"
    using Cons.prems by (intro Parameter_eats_unknown) auto
  then have "par_loop.eats (fields_depth (f # fs)) (SerializeUnknownField f @ SerializeUnknownFieldsToArray fs) m m'"
    by (rule par_loop.eats_append [OF par_loop.eats_mono par_loop.eats_mono [OF m'(1)]]) simp_all
  with m'(2) show ?case by auto
qed

definition parameter_ok :: "parameter_view \<Rightarrow> bool" where
  "parameter_ok v \<longleftrightarrow> (case v of (k, w, u) \<Rightarrow>
     utf8_valid k \<and> utf8_valid w \<and> unknown_apart {10, 18} u \<and> fields_depth u \<le> 99)"

lemma Parameter_eats:
  assumes ok: "parameter_ok (k, w, u)" and len: "length (encode_parameter (k, w, u)) < 2 ^ 31"
    and m: "parameter_view m = ([], [], [])"
  obtains m' where "par_loop.eats (fields_depth u) (encode_parameter (k, w, u)) m m'" "parameter_view m' = (k, w, u)"
proof -
  have l: "length k < 2 ^ 31" "length w < 2 ^ 31" 
    using len by (auto simp: length_encode_parameter StringSize_def LengthDelimitedSize_def split: if_splits)
  have v: "key m = []" "par_value_get m = []" "unknown_fields (par_metadata m) = []"
    using m by (simp_all add: parameter_view_def)
  obtain m1 where m1: "par_loop.eats 0 (if k \<noteq> [] then WriteStringToArray 1 k else []) m m1"
    "parameter_view m1 = (k, [], [])"
    using Parameter_eats_key [of k m] ok l v par_loop.eats_Nil
    by (cases "k = []") (auto simp: parameter_ok_def parameter_view_def par_simps)
  obtain m2 where m2: "par_loop.eats 0 (if w \<noteq> [] then WriteStringToArray 2 w else []) m1 m2"
    "parameter_view m2 = (k, w, [])"
    using Parameter_eats_value [of w m1] ok l m1(2) par_loop.eats_Nil
    by (cases "w = []") (auto simp: parameter_ok_def parameter_view_def par_simps)
  obtain m3 where m3: "par_loop.eats (fields_depth u) (SerializeUnknownFieldsToArray u) m2 m3"
    "parameter_view m3 = (k, w, u)"
    using Parameter_eats_unknowns [of u m2] ok m2(2) by (auto simp: parameter_ok_def parameter_view_def)
  have "par_loop.eats (fields_depth u) (encode_parameter (k, w, u)) m m3"
    unfolding encode_parameter_def prod.case
    by (intro par_loop.eats_append [OF par_loop.eats_mono [OF m1(1)] par_loop.eats_append [OF par_loop.eats_mono [OF m2(1)] m3(1)]]) simp_all
  with m3(2) show thesis using that by blast
qed


subsection \<open>A nested message\<close>

lemma ReadVarintSizeAsInt_written:
  assumes "flat s" "avail s = WriteVarint32ToArray (of_nat n) @ rest" "n < 2 ^ 31"
  shows "ReadVarintSizeAsInt s = (True, int n, Advance (VarintSize32 (of_nat n)) s)"
  using assms by (simp add: ReadVarintSizeAsInt_flat varint_dec_32 unat_small)

text \<open>The loop under a limit: the nested bytes \<open>c\<close> are what the length allows of what there is.\<close>

context parse_loop
begin

lemma limited_run:
  assumes eats: "eats d c p p'" and len: "n < 2 ^ 31" "min n (length (c @ rest)) = length c"
    and s: "flat s" "avail s = WriteVarint32ToArray (of_nat n) @ c @ rest" "length (avail s) < fuel"
    and b: "int d \<le> b" "b \<le> recursion_limit s"
  obtains l t where "PushLimit (int n) (Advance (VarintSize32 (of_nat n)) s) = (int (cbuffer_end s), l)"
    "recursion_budget l = recursion_budget s"
    "loop fuel p (l\<lparr>recursion_budget := b\<rparr>) = Some (True, p', t)" "ConsumedEntireMessage t" "recursion_budget (PopLimit (int (cbuffer_end s)) t) = b"
    "recursion_limit t = recursion_limit s"
    "after s (VarintSize32 (of_nat n) + length c) ((PopLimit (int (cbuffer_end s)) t)\<lparr>recursion_budget := recursion_budget s\<rparr>)"
proof -
  let ?k = "VarintSize32 (of_nat n)"
  let ?s1 = "Advance ?k s"
  have s1: "flat ?s1" "avail ?s1 = c @ rest" using s(1,2) by simp_all
  let ?l = "limit_to (cbuffer ?s1 + length c) ?s1"
  let ?s2 = "?l\<lparr>recursion_budget := b\<rparr>"
  have push: "PushLimit (int n) ?s1 = (int (cbuffer_end s), ?l)"
    using len(2) unfolding PushLimit_flat [OF s1(1)] s1(2) by simp
  have "length c \<le> length (avail ?s1)" unfolding s1(2) by simp
  then have "flat ?l" "avail ?l = c"
    using s1 length_avail_flat [OF s1(1)] avail_limit_to [OF s1(1), of "length c"] flat_limit_to [OF s1(1)]
    by (auto simp: flat_def)
  then have s2: "flat ?s2" "avail ?s2 = c" by simp_all
  have "length (avail ?s2) < fuel" using s(3) unfolding s(2) s2(2) by simp
  moreover have "int d \<le> recursion_budget ?s2" "recursion_budget ?s2 \<le> recursion_limit ?s2" using b by simp_all
  ultimately obtain t where t: "loop fuel p ?s2 = Some (True, p', t)" "after ?s2 (length c) t" "legitimate_message_end t"
    using eats_whole [of d ?s2 p p' fuel] eats s2 by auto
  have ft: "flat t" using after_flat [OF s2(1) t(2)] s2(2) by simp
  have "cbuffer_end t \<le> cbuffer_end s" "cbuffer_end s \<le> length (cdata t)"
    using after_fields [OF t(2)] s1 length_avail_flat [OF s1(1)] by (auto simp: flat_def)
  then have pop: "PopLimit (int (cbuffer_end s)) t = (limit_to (cbuffer_end s) t)\<lparr>legitimate_message_end := False\<rparr>"
    by (rule PopLimit_flat [OF ft])
  have "after s (?k + length c) ((PopLimit (int (cbuffer_end s)) t)\<lparr>recursion_budget := recursion_budget s\<rparr>)"
    unfolding pop using s(1) t(2) s1(1) by (cases s; cases t) (simp add: after_def limit_to_def Advance_def flat_def)
  moreover have "recursion_budget (PopLimit (int (cbuffer_end s)) t) = b" "recursion_limit t = recursion_limit s"
    using after_fields [OF t(2)] unfolding pop by (simp_all add: limit_to_def)
  ultimately show thesis using that [OF push] t(1,3) by (simp add: ConsumedEntireMessage_def)
qed

end

lemma ReadMessage_limited:
  assumes eats: "par_loop.eats d c p p'" and len: "n < 2 ^ 31" "min n (length (c @ rest)) = length c"
    and s: "flat s" "avail s = WriteVarint32ToArray (of_nat n) @ c @ rest" "int (Suc d) \<le> recursion_budget s"
      "recursion_budget s \<le> recursion_limit s" "length (avail s) < fuel"
  shows "\<exists>t. ReadMessage fuel p s = Some (True, p', t) \<and> after s (VarintSize32 (of_nat n) + length c) t"
proof -
  have b: "int d \<le> recursion_budget s - 1" "recursion_budget s - 1 \<le> recursion_limit s" using s(3,4) by simp_all
  note w = ReadVarintSizeAsInt_written [OF s(1,2) len(1)]
  show ?thesis
    by (rule par_loop.limited_run [OF eats len s(1,2,5) b])
      (use s(3) in \<open>simp add: ReadMessage_def w IncrementRecursionDepthAndPushLimit_def DecrementRecursionDepthAndPopLimit_def Let_def\<close>)
qed

lemma ReadMessage_written:
  assumes "par_loop.eats d c p p'" "length c < 2 ^ 31"
    "flat s" "avail s = WriteStringWithSizeToArray c @ rest" "int (Suc d) \<le> recursion_budget s"
    "recursion_budget s \<le> recursion_limit s" "length (avail s) < fuel"
  shows "\<exists>t. ReadMessage fuel p s = Some (True, p', t) \<and> after s (LengthDelimitedSize (length c)) t"
  using ReadMessage_limited [OF assms(1,2) _ assms(3), of rest fuel] assms(4-)
  by (simp add: WriteStringWithSizeToArray_def LengthDelimitedSize_def add.commute)


subsection \<open>A whole message\<close>

lemma eats_apiname:
  assumes "utf8_valid k" "length k < 2 ^ 31"
  shows "msg_loop.eats 0 (WriteStringToArray 2 k) m (m\<lparr>apiname_ptr := Owned_string k\<rparr>)"
proof (rule msg_loop.eats_step)
  show "WriteStringToArray 2 k \<noteq> []" by (simp add: WriteStringToArray_def flip: length_0_conv)
  fix s rest fuel
  assume s: "flat s" "avail s = WriteStringToArray 2 k @ rest"
  then have a: "avail s = WriteTagToArray 2 WIRETYPE_LENGTH_DELIMITED @ WriteStringWithSizeToArray k @ rest"
    by (simp add: WriteStringToArray_def)
  let ?t = "Advance 1 s"
  have t: "flat ?t" "avail ?t = WriteStringWithSizeToArray k @ rest" using s a by simp_all
  have "parse_step fuel m s =
      Continue (m\<lparr>apiname_ptr := Owned_string k\<rparr>) (Advance (LengthDelimitedSize (length k)) ?t)"
    using ReadTag_cutoff_written [OF s(1) a, of 16383] ReadBytes_written [OF t assms(2)] assms(1)
    by (simp add: parse_step_def MakeTag_values known_sizes known_numbers VerifyUtf8String_def cp_simps)
  then show "\<exists>t. parse_step fuel m s = Continue (m\<lparr>apiname_ptr := Owned_string k\<rparr>) t \<and>
      after s (length (WriteStringToArray 2 k)) t"
    by (simp add: WriteStringToArray_def)
qed

lemma eats_bytedata:
  assumes "length k < 2 ^ 31"
  shows "msg_loop.eats 0 (WriteBytesToArray 21 k) m (m\<lparr>bytedata_ptr := Owned_string k\<rparr>)"
proof (rule msg_loop.eats_step)
  show "WriteBytesToArray 21 k \<noteq> []" by (simp add: WriteBytesToArray_def flip: length_0_conv)
  fix s rest fuel
  assume s: "flat s" "avail s = WriteBytesToArray 21 k @ rest"
  then have a: "avail s = WriteTagToArray 21 WIRETYPE_LENGTH_DELIMITED @ WriteStringWithSizeToArray k @ rest"
    by (simp add: WriteBytesToArray_def)
  let ?t = "Advance 2 s"
  have t: "flat ?t" "avail ?t = WriteStringWithSizeToArray k @ rest" using s a by simp_all
  have "parse_step fuel m s =
      Continue (m\<lparr>bytedata_ptr := Owned_string k\<rparr>) (Advance (LengthDelimitedSize (length k)) ?t)"
    using ReadTag_cutoff_written [OF s(1) a, of 16383] ReadBytes_written [OF t assms]
    by (simp add: parse_step_def MakeTag_values known_sizes known_numbers cp_simps)
  then show "\<exists>t. parse_step fuel m s = Continue (m\<lparr>bytedata_ptr := Owned_string k\<rparr>) t \<and>
      after s (length (WriteBytesToArray 21 k)) t"
    by (simp add: WriteBytesToArray_def)
qed

lemma eats_statecode:
  "msg_loop.eats 0 (WriteUInt32ToArray 1 v) m (m\<lparr>statecode := v\<rparr>)"
proof (rule msg_loop.eats_step)
  show "WriteUInt32ToArray 1 v \<noteq> []" by (simp add: WriteUInt32ToArray_def flip: length_0_conv)
  fix s rest fuel
  assume s: "flat s" "avail s = WriteUInt32ToArray 1 v @ rest"
  then have a: "avail s = WriteTagToArray 1 WIRETYPE_VARINT @ WriteVarint32ToArray v @ rest"
    by (simp add: WriteUInt32ToArray_def)
  let ?t = "Advance 1 s"
  have t: "flat ?t" "avail ?t = WriteVarint32ToArray v @ rest" using s a by simp_all
  have "parse_step fuel m s = Continue (m\<lparr>statecode := v\<rparr>) (Advance (VarintSize32 v) ?t)"
    using ReadTag_cutoff_written [OF s(1) a, of 16383] ReadVarint32_written [OF t]
    by (simp add: parse_step_def MakeTag_values known_sizes known_numbers ReadUInt32_def)
  then show "\<exists>t. parse_step fuel m s = Continue (m\<lparr>statecode := v\<rparr>) t \<and>
      after s (length (WriteUInt32ToArray 1 v)) t"
    by (simp add: WriteUInt32ToArray_def)
qed

lemma eats_unknown:
  assumes ok: "field_ok f" "field_tag f \<noteq> 8" "field_tag f \<noteq> 18" "field_tag f \<noteq> 162" "field_tag f \<noteq> 170"
  shows "msg_loop.eats (field_depth f) (SerializeUnknownField f) m
    (m\<lparr>metadata := Some (unknown_fields (metadata m) @ [f])\<rparr>)"
proof (rule msg_loop.eats_step)
  have "WriteVarint32ToArray (field_tag f) \<noteq> []"
    using VarintSize32_pos by (metis length_varints(1) list.size(3) less_irrefl)
  then show "SerializeUnknownField f \<noteq> []" by (simp add: field_tag_body)
  fix s rest fuel
  assume s: "flat s" "avail s = SerializeUnknownField f @ rest" "int (field_depth f) \<le> recursion_budget s"
    "recursion_budget s \<le> recursion_limit s" "length (avail s) \<le> fuel"
  let ?tag = "field_tag f"
  let ?m = "m\<lparr>metadata := Some (unknown_fields (metadata m) @ [f])\<rparr>"
  let ?t = "Advance (VarintSize32 ?tag) s"
  have nz: "?tag \<noteq> 0" using field_tag_nonzero [OF ok(1)] .
  have a: "avail s = WriteVarint32ToArray ?tag @ field_body f @ rest"
    using s(2) by (simp add: field_tag_body)
  then have t: "flat ?t" "avail ?t = field_body f @ rest" "length (avail ?t) < fuel"
    using s(1,5) VarintSize32_pos [of ?tag] by (simp_all del: VarintSize32_pos)
  obtain lt where sk: "SkipField fuel ?tag (Some (unknown_fields (metadata m))) ?t =
      Some (True, Some (unknown_fields (metadata m) @ [f]), (Advance (length (field_body f)) ?t)\<lparr>last_tag := lt\<rparr>)"
    using unknown_roundtrip(1) [OF ok(1) t(1,2) _ _ t(3), of "unknown_fields (metadata m)"] s(3,4) by auto
  have "mutable_unknown_fields (metadata m) = Some (unknown_fields (metadata m))"
    by (auto simp: mutable_unknown_fields_def have_unknown_fields_def)
  then have un: "handle_unusual fuel ?tag m ?t =
      Continue ?m ((Advance (length (field_body f)) ?t)\<lparr>last_tag := lt\<rparr>)"
    using nz sk by (simp add: handle_unusual_def)
  have no: "\<not> (GetTagFieldNumber ?tag = 1 \<and> (ucast ?tag :: u8) = 8)"
    "\<not> (GetTagFieldNumber ?tag = 2 \<and> (ucast ?tag :: u8) = 18)"
    "\<not> (GetTagFieldNumber ?tag = 20 \<and> (ucast ?tag :: u8) = 162)"
    "\<not> (GetTagFieldNumber ?tag = 21 \<and> (ucast ?tag :: u8) = 170)"
    using tag_of_number [of ?tag 1 8] tag_of_number [of ?tag 2 18] tag_of_number [of ?tag 20 162]
      tag_of_number [of ?tag 21 170] ok(2-) by auto
  obtain cut where "ReadTagWithCutoffNoLastTag 16383 s = (?tag, cut, ?t)"
    using ReadTagWithCutoffNoLastTag_flat [OF s(1), of 16383] tag_spec_written [OF s(1) a] by auto
  then have "parse_step fuel m s = handle_unusual fuel ?tag m ?t"
    using no by (simp add: parse_step_def)
  with un show "\<exists>t. parse_step fuel m s = Continue ?m t \<and> after s (length (SerializeUnknownField f)) t"
    by (simp add: field_tag_body)
qed

lemma eats_unknowns:
  "unknown_apart {8, 18, 162, 170} fs \<Longrightarrow> message_ok m \<Longrightarrow>
   \<exists>m'. msg_loop.eats (fields_depth fs) (SerializeUnknownFieldsToArray fs) m m' \<and> message_ok m' \<and>
     message_view m' = (message_view m)\<lparr>v_unknown := v_unknown (message_view m) @ fs\<rparr>"
proof (induction fs arbitrary: m)
  case Nil
  then show ?case using msg_loop.eats_Nil by (auto simp: message_view_def)
next
  case (Cons f fs)
  let ?m = "m\<lparr>metadata := Some (unknown_fields (metadata m) @ [f])\<rparr>"
  obtain m' where m': "msg_loop.eats (fields_depth fs) (SerializeUnknownFieldsToArray fs) ?m m'" "message_ok m'"
    "message_view m' = (message_view m)\<lparr>v_unknown := v_unknown (message_view m) @ f # fs\<rparr>"
    using Cons.IH [of ?m] Cons.prems by (auto simp: message_view_def message_ok_def cp_simps)
  have "msg_loop.eats (field_depth f) (SerializeUnknownField f) m ?m"
    using Cons.prems by (intro eats_unknown) auto
  then have "msg_loop.eats (fields_depth (f # fs)) (SerializeUnknownField f @ SerializeUnknownFieldsToArray fs) m m'"
    by (rule msg_loop.eats_append [OF msg_loop.eats_mono msg_loop.eats_mono [OF m'(1)]]) simp_all
  with m'(2,3) show ?case by auto
qed

text \<open>The length of a nested message may exceed what is left of the bytes.\<close>

definition reads_parameter :: "ConnectProtocol \<Rightarrow> ConnectProtocol \<Rightarrow> parameter_view \<Rightarrow> bool" where
  "reads_parameter m m' v \<longleftrightarrow> (\<forall>s n rest fuel.
     flat s \<and> avail s = WriteTagToArray 20 WIRETYPE_LENGTH_DELIMITED @
       WriteVarint32ToArray (of_nat n) @ encode_parameter v @ rest \<and>
     n < 2 ^ 31 \<and> min n (length (encode_parameter v @ rest)) = length (encode_parameter v) \<and>
     100 \<le> recursion_budget s \<and> recursion_budget s \<le> recursion_limit s \<and> length (avail s) \<le> fuel \<longrightarrow>
     (\<exists>t. parse_step fuel m s = Continue m' t \<and>
        after s (2 + (VarintSize32 (of_nat n) + length (encode_parameter v))) t))"

lemma parse_step_parameter:
  assumes v: "parameter_ok v" "length (encode_parameter v) < 2 ^ 31" and ok: "message_ok m"
  obtains m' where "message_ok m'" "reads_parameter m m' v"
    "message_view m' = (message_view m)\<lparr>v_parameters := v_parameters (message_view m) @ [v]\<rparr>"
proof -
  obtain k w u where kwu: "v = (k, w, u)" by (cases v)
  obtain i m1 where add: "add_parametergroup m = (i, m1)" by force
  have m1: "message_ok m1" "i = length (v_parameters (message_view m))"
    "message_view m1 = (message_view m)\<lparr>v_parameters := v_parameters (message_view m) @ [([], [], [])]\<rparr>"
    using message_ok_add [OF ok] by (simp_all add: add)
  have i: "i < parametergroup_size m1" using parametergroup_view(1) [OF m1(1)] m1(2,3) by simp
  have new: "parameter_view (parametergroup_get i m1) = ([], [], [])"
    using parametergroup_view(2) [OF m1(1) i] m1(2,3) by simp
  obtain p where p: "par_loop.eats (fields_depth u) (encode_parameter v) (parametergroup_get i m1) p" "parameter_view p = v"
    using Parameter_eats [of k w u "parametergroup_get i m1"] v new by (auto simp: kwu)
  let ?m = "mutable_parametergroup i (\<lambda>_. p) m1"
  have d: "fields_depth u \<le> 99" using v(1) by (simp add: parameter_ok_def kwu)
  have "\<exists>t. parse_step fuel m s = Continue ?m t \<and> after s (2 + (VarintSize32 (of_nat n) + length (encode_parameter v))) t"
    if s: "flat s"
      "avail s = WriteTagToArray 20 WIRETYPE_LENGTH_DELIMITED @ WriteVarint32ToArray (of_nat n) @ encode_parameter v @ rest"
      and n: "n < 2 ^ 31" "min n (length (encode_parameter v @ rest)) = length (encode_parameter v)"
      and budget: "100 \<le> recursion_budget s" "recursion_budget s \<le> recursion_limit s" and fuel: "length (avail s) \<le> fuel"
    for s n rest fuel
  proof -
    let ?t = "Advance 2 s"
    have t: "flat ?t" "avail ?t = WriteVarint32ToArray (of_nat n) @ encode_parameter v @ rest" "length (avail ?t) < fuel"
      using s fuel by (simp_all add: s(2))
    obtain u' where "ReadMessage fuel (parametergroup_get i m1) ?t = Some (True, p, u')"
      "after ?t (VarintSize32 (of_nat n) + length (encode_parameter v)) u'"
      using ReadMessage_limited [OF p(1) n t(1,2) _ _ t(3)] budget d by auto
    moreover have "after s 2 ?t" by simp
    ultimately show ?thesis
      using ReadTag_cutoff_written [OF s, of 16383] after_trans [of s 2 ?t]
      by (simp add: parse_step_def parse_parameter_def MakeTag_values known_sizes known_numbers add)
  qed
  moreover have "message_ok ?m"
    "message_view ?m = (message_view m)\<lparr>v_parameters := v_parameters (message_view m) @ [v]\<rparr>"
    using message_ok_mutable [OF m1(1) i, of "\<lambda>_. p"] m1(2,3) p(2) by simp_all
  ultimately show thesis using that [of ?m] unfolding reads_parameter_def by blast
qed

lemma eats_parameter:
  assumes v: "parameter_ok v" "length (encode_parameter v) < 2 ^ 31" and ok: "message_ok m"
  shows "\<exists>m'. msg_loop.eats 100 (WriteBytesToArray 20 (encode_parameter v)) m m' \<and> message_ok m' \<and>
     message_view m' = (message_view m)\<lparr>v_parameters := v_parameters (message_view m) @ [v]\<rparr>"
proof -
  obtain m' where m': "message_ok m'" "reads_parameter m m' v"
    "message_view m' = (message_view m)\<lparr>v_parameters := v_parameters (message_view m) @ [v]\<rparr>"
    using parse_step_parameter [OF v ok] .
  have "msg_loop.eats 100 (WriteBytesToArray 20 (encode_parameter v)) m m'"
  proof (rule msg_loop.eats_step)
    show "WriteBytesToArray 20 (encode_parameter v) \<noteq> []" by (simp add: WriteBytesToArray_def flip: length_0_conv)
    fix s rest fuel
    assume "flat s" "avail s = WriteBytesToArray 20 (encode_parameter v) @ rest" "int 100 \<le> recursion_budget s"
      "recursion_budget s \<le> recursion_limit s" "length (avail s) \<le> fuel"
    then show "\<exists>t. parse_step fuel m s = Continue m' t \<and> after s (length (WriteBytesToArray 20 (encode_parameter v))) t"
      using m'(2) [unfolded reads_parameter_def, rule_format, of s "length (encode_parameter v)" rest fuel] v(2)
      by (simp add: WriteBytesToArray_def WriteStringWithSizeToArray_def LengthDelimitedSize_def add.commute)
  qed
  with m' show ?thesis by blast
qed

lemma eats_parameters:
  "\<forall>v\<in>set vs. parameter_ok v \<and> length (encode_parameter v) < 2 ^ 31 \<Longrightarrow> message_ok m \<Longrightarrow>
   \<exists>m'. msg_loop.eats 100 (concat (map (\<lambda>p. WriteBytesToArray 20 (encode_parameter p)) vs)) m m' \<and> message_ok m' \<and>
     message_view m' = (message_view m)\<lparr>v_parameters := v_parameters (message_view m) @ vs\<rparr>"
proof (induction vs arbitrary: m)
  case Nil
  then show ?case using msg_loop.eats_Nil by auto
next
  case (Cons v vs)
  obtain m1 where m1: "msg_loop.eats 100 (WriteBytesToArray 20 (encode_parameter v)) m m1" "message_ok m1"
    "message_view m1 = (message_view m)\<lparr>v_parameters := v_parameters (message_view m) @ [v]\<rparr>"
    using eats_parameter [of v m] Cons.prems by auto
  obtain m' where "msg_loop.eats 100 (concat (map (\<lambda>p. WriteBytesToArray 20 (encode_parameter p)) vs)) m1 m'" "message_ok m'"
    "message_view m' = (message_view m)\<lparr>v_parameters := v_parameters (message_view m) @ v # vs\<rparr>"
    using Cons.IH [of m1] Cons.prems m1(2,3) by auto
  then show ?case using msg_loop.eats_append [OF m1(1)] by auto
qed

text \<open>The values that parse back from their encoding: name, keys and values are UTF-8, unknown fields are well
  formed, have none of the tags the class reads itself and nest at most as deep as the parser follows, and
  the encoding is below two gigabytes.\<close>

definition message_fits :: "message_view \<Rightarrow> bool" where
  "message_fits v \<longleftrightarrow> length (encode_message v) < 2 ^ 31 \<and> utf8_valid (v_apiname v) \<and>
     (\<forall>p\<in>set (v_parameters v). parameter_ok p) \<and>
     unknown_apart {8, 18, 162, 170} (v_unknown v) \<and> fields_depth (v_unknown v) \<le> 100"

lemma encoding_lengths:
  assumes n: "length (encode_message v) < 2 ^ 31"
  shows "length (v_apiname v) < 2 ^ 31" "length (v_bytedata v) < 2 ^ 31"
    "\<forall>p\<in>set (v_parameters v). length (encode_parameter p) < 2 ^ 31"
proof -
  let ?n = "length (encode_message v)"
  have "length (v_apiname v) \<le> ?n" "length (v_bytedata v) \<le> ?n"
    by (simp_all add: length_encode_message StringSize_def BytesSize_def LengthDelimitedSize_def)
  with n show "length (v_apiname v) < 2 ^ 31" "length (v_bytedata v) < 2 ^ 31" by linarith+
  have "length (encode_parameter p) \<le> ?n" if "p \<in> set (v_parameters v)" for p
  proof -
    have "LengthDelimitedSize (length (encode_parameter p)) \<le>
        (\<Sum>p\<leftarrow>v_parameters v. LengthDelimitedSize (length (encode_parameter p)))"
      using that by (intro member_le_sum_list) auto
    then show ?thesis by (simp add: length_encode_message LengthDelimitedSize_def)
  qed
  with n show "\<forall>p\<in>set (v_parameters v). length (encode_parameter p) < 2 ^ 31" by fastforce
qed

lemmas message_fits_lengths = encoding_lengths [OF message_fits_def [THEN iffD1, THEN conjunct1]]

text \<open>Reading an encoding merges its value into the message.\<close>

lemma eats_message:
  assumes fits: "message_fits v" and m: "message_ok m"
  obtains m' where "msg_loop.eats 100 (encode_message v) m m'" "message_ok m'"
    "message_view m' = merge_view v (message_view m)"
proof -
  note len = message_fits_lengths [OF fits]
  note f = fits [unfolded message_fits_def]
  note [simp] = message_view_def message_ok_def cp_simps
  let ?view = "\<lambda>a b c d e. \<lparr>v_statecode = a, v_apiname = b, v_parameters = c, v_bytedata = d, v_unknown = e\<rparr>"
  obtain a b c d e where v0: "message_view m = ?view a b c d e" by (cases "message_view m")
  obtain m1 where m1: "msg_loop.eats 0 (if v_statecode v \<noteq> 0 then WriteUInt32ToArray 1 (v_statecode v) else []) m m1"
    "message_ok m1" "message_view m1 = ?view (if v_statecode v \<noteq> 0 then v_statecode v else a) b c d e"
    using eats_statecode [of "v_statecode v" m] msg_loop.eats_Nil [of 0 m] m v0
    by (cases "v_statecode v = 0") auto
  obtain m2 where m2: "msg_loop.eats 0 (if v_apiname v \<noteq> [] then WriteStringToArray 2 (v_apiname v) else []) m1 m2"
    "message_ok m2" "message_view m2 = ?view (if v_statecode v \<noteq> 0 then v_statecode v else a)
      (if v_apiname v \<noteq> [] then v_apiname v else b) c d e"
    using eats_apiname [of "v_apiname v" m1] msg_loop.eats_Nil [of 0 m1] m1 f len(1)
    by (cases "v_apiname v = []") auto
  obtain m3 where m3: "msg_loop.eats 100 (concat (map (\<lambda>p. WriteBytesToArray 20 (encode_parameter p)) (v_parameters v))) m2 m3"
    "message_ok m3" "message_view m3 = ?view (if v_statecode v \<noteq> 0 then v_statecode v else a)
      (if v_apiname v \<noteq> [] then v_apiname v else b) (c @ v_parameters v) d e"
    using eats_parameters [OF _ m2(2), of "v_parameters v"] m2(3) f len(3) by auto
  obtain m4 where m4: "msg_loop.eats 0 (if v_bytedata v \<noteq> [] then WriteBytesToArray 21 (v_bytedata v) else []) m3 m4"
    "message_ok m4" "message_view m4 = ?view (if v_statecode v \<noteq> 0 then v_statecode v else a)
      (if v_apiname v \<noteq> [] then v_apiname v else b) (c @ v_parameters v)
      (if v_bytedata v \<noteq> [] then v_bytedata v else d) e"
    using eats_bytedata [OF len(2), of m3] msg_loop.eats_Nil [of 0 m3] m3
    by (cases "v_bytedata v = []") auto
  obtain m5 where m5: "msg_loop.eats (fields_depth (v_unknown v)) (SerializeUnknownFieldsToArray (v_unknown v)) m4 m5"
    "message_ok m5" "message_view m5 = (message_view m4)\<lparr>v_unknown := v_unknown (message_view m4) @ v_unknown v\<rparr>"
    using eats_unknowns [OF _ m4(2), of "v_unknown v"] f by blast
  have "message_view m5 = merge_view v (message_view m)"
    unfolding m5(3) m4(3) v0 by (simp add: merge_view_def)
  moreover have "msg_loop.eats 100 (encode_message v) m m5"
    unfolding encode_message_def
    by (intro msg_loop.eats_append [OF msg_loop.eats_mono [OF m1(1)]] msg_loop.eats_append [OF msg_loop.eats_mono [OF m2(1)]]
        msg_loop.eats_append [OF m3(1)] msg_loop.eats_append [OF msg_loop.eats_mono [OF m4(1)] msg_loop.eats_mono [OF m5(1)]])
      (use f in simp_all)
  ultimately show thesis using that m5(2) by blast
qed

lemma merge_view_empty [simp]: "merge_view v empty_view = v"
  by (simp add: merge_view_def empty_view_def)

text \<open>The bytes of a message are parsed whole when the loop can eat them.\<close>

lemma ParseFromArray_eats:
  assumes "msg_loop.eats 100 bs (ConnectProtocol_Clear m) m'" "length bs < 2 ^ 31"
  shows "ParseFromArray bs m = Some (True, m')"
proof -
  let ?s = "CodedInputStream bs (int (length bs))"
  have s: "flat ?s" "avail ?s = bs" "recursion_budget ?s = 100" "recursion_limit ?s = 100"
    using assms(2) flat_CodedInputStream [of bs]
    by simp_all (simp_all add: CodedInputStream_def default_recursion_limit_def)
  obtain t where "MergePartialFromCodedStream (Suc (length bs)) (ConnectProtocol_Clear m) ?s = Some (True, m', t)"
    "legitimate_message_end t"
    using msg_loop.eats_whole [of 100 ?s "ConnectProtocol_Clear m" m' "Suc (length bs)"] assms(1) s by auto
  then show ?thesis by (simp add: ParseFromArray_def ConsumedEntireMessage_def)
qed

lemma ParseFromArray_encode:
  assumes "message_fits v" "message_ok m"
  shows "\<exists>m'. ParseFromArray (encode_message v) m = Some (True, m') \<and> message_ok m' \<and> message_view m' = v"
proof -
  obtain m' where "msg_loop.eats 100 (encode_message v) (ConnectProtocol_Clear m) m'" "message_ok m'" "message_view m' = v"
    using eats_message [OF assms(1) message_ok_Clear(1) [OF assms(2)]] message_ok_Clear(2) [of m] by auto
  then show ?thesis using ParseFromArray_eats assms(1) by (auto simp: message_fits_def)
qed

lemma ParseFromArray_concat:
  assumes "message_fits v" "message_fits w" "length (encode_message v) + length (encode_message w) < 2 ^ 31" "message_ok m"
  shows "\<exists>m'. ParseFromArray (encode_message v @ encode_message w) m = Some (True, m') \<and> message_ok m' \<and>
    message_view m' = merge_view w v"
proof -
  obtain m1 where m1: "msg_loop.eats 100 (encode_message v) (ConnectProtocol_Clear m) m1" "message_ok m1" "message_view m1 = v"
    using eats_message [OF assms(1) message_ok_Clear(1) [OF assms(4)]] message_ok_Clear(2) [of m] by auto
  obtain m2 where m2: "msg_loop.eats 100 (encode_message w) m1 m2" "message_ok m2" "message_view m2 = merge_view w v"
    using eats_message [OF assms(2) m1(2)] m1(3) by auto
  show ?thesis using ParseFromArray_eats [OF msg_loop.eats_append [OF m1(1) m2(1)]] assms(3) m2(2,3) by auto
qed

section \<open>Parsing keeps a message well formed\<close>

lemma message_ok_parse_step:
  "message_ok m \<Longrightarrow> case parse_step fuel m s of
     Continue m' t \<Rightarrow> message_ok m' | Done ok m' t \<Rightarrow> message_ok m' | OutOfFuel \<Rightarrow> True"
proof -
  assume m: "message_ok m"
  have un: "case handle_unusual fuel tag m t of
     Continue m' t \<Rightarrow> message_ok m' | Done ok m' t \<Rightarrow> message_ok m' | OutOfFuel \<Rightarrow> True" for tag t
    using m by (auto simp: handle_unusual_def message_ok_def Let_def split: option.splits prod.splits)
  have par: "case parse_parameter fuel m t of
     Continue m' t \<Rightarrow> message_ok m' | Done ok m' t \<Rightarrow> message_ok m' | OutOfFuel \<Rightarrow> True" for t
  proof -
    obtain i m1 where add: "add_parametergroup m = (i, m1)" by force
    have m1: "message_ok m1" "i < parametergroup_size m1"
      using message_ok_add [OF m] parametergroup_view(1) [of m1] by (simp_all add: add)
    note mut = message_ok_mutable(1) [OF m1]
    show ?thesis
      by (auto simp: parse_parameter_def add mut Let_def split: option.splits prod.splits)
  qed
  obtain tag cut t where tag: "ReadTagWithCutoffNoLastTag 16383 s = (tag, cut, t)" by (metis prod_cases3)
  have ok: "message_ok (m\<lparr>statecode := x\<rparr>)" "message_ok (m\<lparr>apiname_ptr := y\<rparr>)" "message_ok (m\<lparr>bytedata_ptr := y\<rparr>)" for x y
    using m by (simp_all add: message_ok_def)
  show ?thesis
    using un par ok unfolding parse_step_def tag prod.case Let_def
    by (auto split: if_splits prod.splits)
qed

lemma message_ok_parse:
  "MergePartialFromCodedStream fuel m s = Some (ok, m', t) \<Longrightarrow> message_ok m \<Longrightarrow> message_ok m'"
proof (induction fuel arbitrary: m s)
  case (Suc fuel)
  then show ?case using message_ok_parse_step [OF Suc.prems(2), of fuel s]
    by (auto split: step.splits)
qed simp

lemma ParseFromArray_ok: "ParseFromArray data m = Some (ok, m') \<Longrightarrow> message_ok m \<Longrightarrow> message_ok m'"
  by (auto simp: ParseFromArray_def Let_def simp del: MergePartialFromCodedStream.simps
      intro: message_ok_parse message_ok_Clear(1)
      split: option.splits prod.splits)


text \<open>A string that is not UTF-8 is written, and then refused by the parser.\<close>

lemma parse_step_bad_apiname:
  assumes s: "flat s" "avail s = WriteStringToArray 2 k @ rest" and k: "\<not> utf8_valid k" "length k < 2 ^ 31"
  shows "\<exists>m' t. parse_step fuel m s = Done False m' t"
proof -
  from s have a: "avail s = WriteTagToArray 2 WIRETYPE_LENGTH_DELIMITED @ WriteStringWithSizeToArray k @ rest"
    by (simp add: WriteStringToArray_def)
  let ?t = "Advance 1 s"
  have t: "flat ?t" "avail ?t = WriteStringWithSizeToArray k @ rest" using s a by simp_all
  show ?thesis
    using ReadTag_cutoff_written [OF s(1) a, of 16383] ReadBytes_written [OF t k(2)] k(1)
    by (simp add: parse_step_def MakeTag_values known_sizes known_numbers VerifyUtf8String_def cp_simps)
qed

lemma ParseFromArray_fails:
  assumes eats: "msg_loop.eats 100 c (ConnectProtocol_Clear m) m1" and len: "length (c @ rest) < 2 ^ 31"
    and fails: "\<And>t fuel. flat t \<Longrightarrow> avail t = rest \<Longrightarrow> \<exists>m' u. parse_step fuel m1 t = Done False m' u"
  shows "\<exists>m'. ParseFromArray (c @ rest) m = Some (False, m')"
proof -
  let ?n = "length (c @ rest)"
  obtain s where s: "s = CodedInputStream (c @ rest) (int ?n)" by blast
  have f: "flat s" "avail s = c @ rest" "int 100 \<le> recursion_budget s" "recursion_budget s \<le> recursion_limit s"
    using len flat_CodedInputStream [of "c @ rest"] avail_CodedInputStream [of "c @ rest"]
    by (simp_all add: s) (simp_all add: CodedInputStream_def default_recursion_limit_def)
  obtain fuel t where t: "MergePartialFromCodedStream (Suc ?n) (ConnectProtocol_Clear m) s =
      MergePartialFromCodedStream fuel m1 t" "after s (length c) t" "length rest < fuel"
    using eats [unfolded msg_loop.eats_def, rule_format, of s rest "Suc ?n"] f by auto
  have "flat t" "avail t = rest" using after_flat [OF f(1) t(2)] after_avail [OF t(2)] f(2) by simp_all
  from fails [OF this] obtain m' u where "parse_step (fuel - 1) m1 t = Done False m' u" by blast
  then have "MergePartialFromCodedStream fuel m1 t = Some (False, m', u)"
    using t(3) by (cases fuel) simp_all
  with t(1) show ?thesis unfolding ParseFromArray_def Let_def s [symmetric] by simp
qed

lemma ParseFromArray_bad_apiname:
  assumes bad: "\<not> utf8_valid (v_apiname v)" and len: "length (encode_message v) < 2 ^ 31"
  shows "\<exists>m'. ParseFromArray (encode_message v) m = Some (False, m')"
proof -
  let ?c = "if v_statecode v \<noteq> 0 then WriteUInt32ToArray 1 (v_statecode v) else []"
  have "v_apiname v \<noteq> []" using bad by auto
  then obtain rest where bs: "encode_message v = ?c @ WriteStringToArray 2 (v_apiname v) @ rest"
    by (simp add: encode_message_def)
  have "length (v_apiname v) \<le> length (encode_message v)"
    by (simp add: length_encode_message StringSize_def LengthDelimitedSize_def)
  with len have k: "length (v_apiname v) < 2 ^ 31" by linarith
  obtain m1 where "msg_loop.eats 100 ?c (ConnectProtocol_Clear m) m1"
    by (cases "v_statecode v = 0") (auto intro: msg_loop.eats_mono [OF eats_statecode] msg_loop.eats_Nil)
  then show ?thesis
    unfolding bs by (rule ParseFromArray_fails) (use len bs parse_step_bad_apiname [OF _ _ bad k] in auto)
qed

text \<open>A parameter whose length claims more bytes than there are is accepted.\<close>

lemma ParseFromArray_truncated:
  assumes v: "parameter_ok v" "length (encode_parameter v) \<le> n" "n < 2 ^ 31" "length (encode_parameter v) + 7 < 2 ^ 31"
    and m: "message_ok m"
  shows "\<exists>m'. ParseFromArray (WriteTagToArray 20 WIRETYPE_LENGTH_DELIMITED @ WriteVarint32ToArray (of_nat n) @
      encode_parameter v) m = Some (True, m') \<and> message_view m' = empty_view\<lparr>v_parameters := [v]\<rparr>"
proof -
  let ?bs = "WriteTagToArray 20 WIRETYPE_LENGTH_DELIMITED @ WriteVarint32ToArray (of_nat n) @ encode_parameter v"
  let ?m = "ConnectProtocol_Clear m"
  obtain m' where m': "message_ok m'" "reads_parameter ?m m' v" "message_view m' = empty_view\<lparr>v_parameters := [v]\<rparr>"
    using parse_step_parameter [OF v(1) _ message_ok_Clear(1) [OF m]] v message_ok_Clear(2) [of m]
    by (auto simp: empty_view_def)
  have "VarintSize32 (of_nat n) \<le> 5"
    unfolding VarintSize32_length by (rule length_varint_enc32)
  then have len: "length ?bs < 2 ^ 31" using v(4) by simp
  obtain k s where k: "k = length ?bs" and s: "s = CodedInputStream ?bs (int (length ?bs))" by blast
  have f: "flat s" "avail s = ?bs" "recursion_budget s = 100" "recursion_limit s = 100"
    using len flat_CodedInputStream [of ?bs] avail_CodedInputStream [of ?bs]
    by (simp_all add: s CodedInputStream_def default_recursion_limit_def)
  obtain t where t: "parse_step k ?m s = Continue m' t" "after s k t"
    using m'(2) [unfolded reads_parameter_def, rule_format, of s n "[]" k] f v(2,3) by (auto simp: k)
  have "flat t" "avail t = []"
    using after_flat [OF f(1) t(2)] after_avail [OF t(2)] f(2) by (simp_all add: k)
  from parse_step_at_end [OF this] have "MergePartialFromCodedStream (Suc k) ?m s = Some (True, m', t\<lparr>legitimate_message_end := True\<rparr>)"
    using t(1) by (cases k) (auto simp: k)
  with m'(3) show ?thesis
    unfolding ParseFromArray_def Let_def k [symmetric] s [unfolded k [symmetric], symmetric]
    by (simp add: ConsumedEntireMessage_def)
qed


section \<open>What the message classes promise\<close>

text \<open>Two messages for the witnesses, one named in ASCII and one with a name that is not UTF-8.\<close>

lemma named_message:
  "message_ok (set_apiname bs ConnectProtocol0)"
  "message_view (set_apiname bs ConnectProtocol0) = empty_view\<lparr>v_apiname := bs\<rparr>"
  "message_fits (empty_view\<lparr>v_apiname := [97, 98]\<rparr>)"
  "length (encode_message (empty_view\<lparr>v_apiname := [97, 98]\<rparr>)) = 4"
proof -
  show "message_ok (set_apiname bs ConnectProtocol0)"
    by (simp add: set_apiname_def message_ok_def ConnectProtocol0_def par.inv_new)
  show "message_view (set_apiname bs ConnectProtocol0) = empty_view\<lparr>v_apiname := bs\<rparr>"
    by (simp add: message_view_def set_apiname_def cp_simps empty_view_def ConnectProtocol0_def par.inv_new)
  show l: "length (encode_message (empty_view\<lparr>v_apiname := [97, 98]\<rparr>)) = 4"
    by (simp add: length_encode_message empty_view_def StringSize_def LengthDelimitedSize_def VarintSize32_small)
  then show "message_fits (empty_view\<lparr>v_apiname := [97, 98]\<rparr>)"
    unfolding message_fits_def by (simp add: empty_view_def utf8_valid_ascii)
qed

lemma ill_named_message:
  "fst (ByteSizeLong (set_apiname [200] ConnectProtocol0)) = 3" "\<not> utf8_valid [200]"
  "apiname (set_apiname [200] ConnectProtocol0) = [200]"
proof -
  show "fst (ByteSizeLong (set_apiname [200] ConnectProtocol0)) = 3"
    unfolding ByteSizeLong_view(1) [OF named_message(1)] named_message(2)
    by (simp add: length_encode_message empty_view_def StringSize_def LengthDelimitedSize_def VarintSize32_small)
  have "utf8_spn [200] \<noteq> 1" by code_simp
  then show "\<not> utf8_valid [200]" using utf8_spn_iff [of "[200]"] by simp
  show "apiname (set_apiname [200] ConnectProtocol0) = [200]" by (simp add: apiname_def set_apiname_def)
qed

text \<open>C5: A message that \<open>SerializeToArray\<close> writes and that fits is read back by \<open>ParseFromArray\<close> into any other
  message with the same value: status code, API name, every parameter in order, byte data and
  unknown fields, whatever the receiving message held. A message fits if its name and the keys and values of its parameters are
  UTF-8, its unknown fields are well formed, have none of the tags the class reads itself and nest at most a hundred deep,
  and its encoding is below two gigabytes. (Without UTF-8 it would be written and not read,
  \<open>bad_apiname_written_not_read\<close>.)\<close>

theorem message_roundtrip:
  assumes "message_ok m" "message_fits (message_view m)" "message_ok m0"
    "int (length (encode_message (message_view m))) \<le> size'"
  shows "\<exists>bs m'. fst (SerializeToArray size' m) = Written bs \<and>
    ParseFromArray bs m0 = Some (True, m') \<and> message_ok m' \<and> message_view m' = message_view m"
  using ParseFromArray_encode [OF assms(2,3)] SerializeToArray_view [OF assms(1), of size'] assms(2,4)
  by (auto simp: message_fits_def)

lemma message_roundtrip_witness:
  "\<exists>bs m'. fst (SerializeToArray 100 (set_apiname [97, 98] ConnectProtocol0)) = Written bs \<and>
    ParseFromArray bs ConnectProtocol0 = Some (True, m') \<and> message_ok m' \<and>
    message_view m' = message_view (set_apiname [97, 98] ConnectProtocol0)"
  by (rule message_roundtrip) (simp_all add: named_message message_ok_new)

text \<open>C22: \<open>ByteSizeLong\<close> returns exactly the number of bytes serialising then writes, so a message
  below two gigabytes is either refused because the array is too small, and then nothing is
  written, or written whole; \<open>ByteSizeConsistencyError\<close> cannot happen.\<close>

theorem serialize_size:
  assumes "message_ok m" "fst (ByteSizeLong m) < 2 ^ 31"
  shows "fst (SerializeToArray size' m) =
    (if size' < int (fst (ByteSizeLong m)) then Too_small else Written (encode_message (message_view m))) \<and>
    length (encode_message (message_view m)) = fst (ByteSizeLong m)"
  using SerializeToArray_view [OF assms(1), of size'] ByteSizeLong_view(1) [OF assms(1)] assms(2) by simp

lemma serialize_size_witness:
  "fst (SerializeToArray 2 (set_apiname [200] ConnectProtocol0)) = Too_small"
  using serialize_size [of "set_apiname [200] ConnectProtocol0" 2] by (simp add: named_message ill_named_message)

text \<open>C21: Parsing ends on every array of up to \<open>INT_MAX\<close> bytes, whatever the bytes are: each round of
  the loops consumes a byte, so the fuel of the model never runs out; and the message it leaves
  is well formed, also when parsing fails.\<close>

theorem parse_total:
  assumes "int (length data) \<le> INT_MAX" "message_ok m"
  shows "\<exists>ok m'. ParseFromArray data m = Some (ok, m') \<and> message_ok m'"
  using ParseFromArray_ends [OF assms(1)] ParseFromArray_ok assms(2) by blast

lemma parse_total_witness:
  "\<exists>ok m'. ParseFromArray [255, 255, 255] ConnectProtocol0 = Some (ok, m') \<and> message_ok m'"
  by (rule parse_total) (simp_all add: message_ok_new)

text \<open>C30: Parsing the encodings of two messages one after the other gives the merge of the two values: later scalar
  fields win, parameters and unknown fields are appended. It is what \<open>MergeFrom\<close> computes. Both messages must fit
  (\<open>message_fits\<close>: names, keys and values are UTF-8, unknown fields are well formed, have none of the class's own tags and nest
  at most a hundred deep), and the two encodings together stay below two gigabytes.\<close>

theorem parse_concat_merges:
  assumes "message_ok a" "message_ok b" "message_ok m" "message_fits (message_view a)" "message_fits (message_view b)"
    "length (encode_message (message_view a)) + length (encode_message (message_view b)) < 2 ^ 31"
  shows "\<exists>m'. ParseFromArray (encode_message (message_view a) @ encode_message (message_view b)) m = Some (True, m') \<and>
    message_view m' = message_view (ConnectProtocol_MergeFrom b a)"
  using ParseFromArray_concat [OF assms(4,5,6,3)] message_ok_MergeFrom(2) [OF assms(1,2)] by auto

lemma parse_concat_merges_witness:
  "\<exists>m'. ParseFromArray (encode_message (message_view (set_apiname [97, 98] ConnectProtocol0)) @
     encode_message (message_view (set_apiname [97, 98] ConnectProtocol0))) ConnectProtocol0 = Some (True, m') \<and>
   message_view m' = message_view (ConnectProtocol_MergeFrom (set_apiname [97, 98] ConnectProtocol0)
     (set_apiname [97, 98] ConnectProtocol0))"
  by (rule parse_concat_merges) (simp_all add: named_message message_ok_new)

text \<open>C31: A message whose API name is not UTF-8 is serialised without an error, and every parse of the
  bytes fails: the sender learns nothing of it.\<close>

theorem bad_apiname_written_not_read:
  assumes "message_ok m" "\<not> utf8_valid (apiname m)" "fst (ByteSizeLong m) < 2 ^ 31"
  shows "fst (SerializeToArray (int (fst (ByteSizeLong m))) m) = Written (encode_message (message_view m)) \<and>
    (\<exists>m'. ParseFromArray (encode_message (message_view m)) m0 = Some (False, m'))"
  using SerializeToArray_view [OF assms(1)] ByteSizeLong_view(1) [OF assms(1)] assms(2,3)
    ParseFromArray_bad_apiname [of "message_view m" m0]
  by (simp add: message_view_def)

lemma bad_apiname_witness:
  "fst (SerializeToArray 3 (set_apiname [200] ConnectProtocol0)) =
     Written (encode_message (message_view (set_apiname [200] ConnectProtocol0))) \<and>
   (\<exists>m'. ParseFromArray (encode_message (message_view (set_apiname [200] ConnectProtocol0))) ConnectProtocol0 =
     Some (False, m'))"
  using bad_apiname_written_not_read [of "set_apiname [200] ConnectProtocol0" ConnectProtocol0]
  by (simp add: named_message(1) ill_named_message)

text \<open>C32: A parameter whose length field claims more bytes than the array holds is accepted as if it
  were complete, because \<open>PushLimit\<close> keeps the outer limit when the new one lies beyond it: a
  truncated message is not detected.\<close>

theorem truncated_parameter_accepted:
  assumes "parameter_ok v" "length (encode_parameter v) \<le> n" "n < 2 ^ 31"
    "length (encode_parameter v) + 7 < 2 ^ 31" "message_ok m"
  shows "\<exists>m'. ParseFromArray (WriteTagToArray 20 WIRETYPE_LENGTH_DELIMITED @ WriteVarint32ToArray (of_nat n) @
      encode_parameter v) m = Some (True, m') \<and> message_view m' = empty_view\<lparr>v_parameters := [v]\<rparr>"
  using ParseFromArray_truncated [OF assms] .

lemma truncated_parameter_witness:
  "\<exists>m'. ParseFromArray (WriteTagToArray 20 WIRETYPE_LENGTH_DELIMITED @ WriteVarint32ToArray (of_nat 5) @
      encode_parameter ([], [], [])) ConnectProtocol0 = Some (True, m') \<and>
    message_view m' = empty_view\<lparr>v_parameters := [([], [], [])]\<rparr>"
  by (rule truncated_parameter_accepted) (simp_all add: parameter_ok_def encode_parameter_def message_ok_new)

text \<open>On the values the accessors show, \<open>Clear\<close> empties a message, \<open>MergeFrom\<close> lets the set
  fields of the other message win and appends its parameters and unknown fields, \<open>CopyFrom\<close> and
  the copy constructor copy, and all of them keep the message well formed, although cleared
  parameters are reused.\<close>

lemma message_values:
  assumes "message_ok m" "message_ok from"
  shows "message_view (ConnectProtocol_Clear m) = empty_view \<and>
    message_view (ConnectProtocol_MergeFrom from m) = merge_view (message_view from) (message_view m) \<and>
    message_view (ConnectProtocol_CopyFrom from m) = message_view from \<and>
    message_view (ConnectProtocol_copy from) = message_view from \<and>
    message_ok (ConnectProtocol_Clear m) \<and> message_ok (ConnectProtocol_MergeFrom from m) \<and>
    message_ok (ConnectProtocol_CopyFrom from m) \<and> message_ok (ConnectProtocol_copy from)"
  using assms by (simp add: message_ok_Clear message_ok_MergeFrom message_ok_CopyFrom message_ok_copy)

lemma message_values_witness:
  "message_view (ConnectProtocol_CopyFrom (set_apiname [97, 98] ConnectProtocol0) ConnectProtocol0) =
     empty_view\<lparr>v_apiname := [97, 98]\<rparr>"
  using message_values [OF message_ok_new(1) named_message(1), of "[97, 98]"] by (simp add: named_message(2))

text \<open>\<open>add_parametergroup\<close> appends an empty parameter, reusing a cleared one, and returns its
  index; writing through the pointer changes that parameter alone.\<close>

lemma add_parameter:
  assumes "message_ok m"
  shows "case add_parametergroup m of (i, m1) \<Rightarrow>
    i = length (v_parameters (message_view m)) \<and>
    message_view m1 = (message_view m)\<lparr>v_parameters := v_parameters (message_view m) @ [([], [], [])]\<rparr> \<and>
    message_view (mutable_parametergroup i f m1) =
      (message_view m)\<lparr>v_parameters := v_parameters (message_view m) @ [parameter_view (f (parametergroup_get i m1))]\<rparr>"
proof -
  obtain i m1 where add: "add_parametergroup m = (i, m1)" by force
  have m1: "message_ok m1" "i = length (v_parameters (message_view m))"
    "message_view m1 = (message_view m)\<lparr>v_parameters := v_parameters (message_view m) @ [([], [], [])]\<rparr>"
    using message_ok_add [OF assms] by (simp_all add: add)
  have i: "i < parametergroup_size m1" using parametergroup_view(1) [OF m1(1)] m1(2,3) by simp
  show ?thesis using m1 message_ok_mutable(2) [OF m1(1) i, of f] by (simp add: add list_update_append)
qed

lemma add_parameter_witness:
  "fst (add_parametergroup ConnectProtocol0) = 0"
  using add_parameter [OF message_ok_new(1), of id]
  by (cases "add_parametergroup ConnectProtocol0") (simp add: message_ok_new(2) empty_view_def)

end
