(* ===== verification/ThreadTask.thy ===== *)
theory ThreadTask
  imports MessageParse
begin

text \<open>
  \<open>ThreadTask\<close> (\<open>ThreadTask.h\<close>, \<open>ThreadTask.cpp\<close>): the task of one connection, with the state of
  the transfer under way, and the preparation and completion of a transfer. A C++ operation that
  would leave a block of memory, go through \<open>NULL\<close> or stop the process is a \<open>fault\<close>.

  The allocator, \<open>bufferevent_read\<close> and \<open>send\<close> are not code of the repository: they are the three
  functions of a \<open>platform\<close>, acting on an environment of any type \<open>'e\<close>.
\<close>

section \<open>Memory and platform\<close>

datatype fault = Null_pointer | Out_of_bounds | Fatal_error

definition and_then :: "fault + 'a \<Rightarrow> ('a \<Rightarrow> fault + 'b) \<Rightarrow> fault + 'b" where
  "and_then r k = (case r of Inl f \<Rightarrow> Inl f | Inr x \<Rightarrow> k x)"

lemma and_then_simps [simp]: "and_then (Inl f) k = Inl f" "and_then (Inr x) k = k x"
  by (simp_all add: and_then_def)

lemma and_then_Inr: "and_then r k = Inr y \<longleftrightarrow> (\<exists>x. r = Inr x \<and> k x = Inr y)"
  by (cases r) simp_all

text \<open>A block is \<open>NULL\<close> or the bytes of an allocation. No access, no fault, also through \<open>NULL\<close>.\<close>

type_synonym block = "bytes option"

definition store_block :: "bytes \<Rightarrow> nat \<Rightarrow> block \<Rightarrow> fault + block" where
  "store_block bs off p =
     (if bs = [] then Inr p
      else case p of
             None \<Rightarrow> Inl Null_pointer
           | Some b \<Rightarrow> if off + length bs \<le> length b
                       then Inr (Some (take off b @ bs @ drop (off + length bs) b)) else Inl Out_of_bounds)"

definition load_block :: "nat \<Rightarrow> nat \<Rightarrow> block \<Rightarrow> fault + bytes" where
  "load_block off n p =
     (if n = 0 then Inr []
      else case p of
             None \<Rightarrow> Inl Null_pointer
           | Some b \<Rightarrow> if off + n \<le> length b then Inr (take n (drop off b)) else Inl Out_of_bounds)"

record 'e platform =
  malloc :: "nat \<Rightarrow> 'e \<Rightarrow> block \<times> 'e"
  bufferevent_read :: "nat \<Rightarrow> 'e \<Rightarrow> bytes \<times> 'e"
  sock_send :: "bytes \<Rightarrow> 'e \<Rightarrow> int \<times> 'e"

section \<open>The task\<close>

record sockaddr_in =
  sin_family :: int
  sin_port :: u16
  sin_addr :: u32

type_synonym business = "ConnectProtocol \<Rightarrow> int \<Rightarrow> int \<times> ConnectProtocol"

record ThreadTask =
  DataOperationStatus :: bool
  DataLenth_All :: u32
  DataLenth_All_Done :: bool
  DataLenth_Already :: u32
  DataLenth_Already_Done :: bool
  DataLenth_Remaining :: u32
  DataLenth_Remaining_Done :: bool
  Verification :: u32
  Verification_Done :: bool
  Verification_Ok :: bool
  Encrypt :: bool
  EncryptDone :: bool
  DataBuff :: block
  m_ConnectProtocol :: ConnectProtocol
  Threadbase :: "nat option"
  ConnectSocket :: int
  ConnectSocketAddr_in :: sockaddr_in
  Business_CallBack :: "business option"
  Connectport :: u32
  ConnectAddress :: string
  TaskMode :: u32
  Timeout :: u32
  ParentThread :: u32
  ChildThreadID :: u32

text \<open>
  The constructor, with what \<open>event_base_new\<close> and \<open>GetCurrentThreadId\<close> return, and what the
  members it does not set happen to hold.
\<close>

definition ThreadTask0 :: "nat option \<Rightarrow> u32 \<Rightarrow> int \<Rightarrow> sockaddr_in \<Rightarrow> ThreadTask" where
  "ThreadTask0 event_base current_thread socket' addr =
     \<lparr>DataOperationStatus = False,
      DataLenth_All = 0, DataLenth_All_Done = False, DataLenth_Already = 0, DataLenth_Already_Done = False,
      DataLenth_Remaining = 0, DataLenth_Remaining_Done = False,
      Verification = 0, Verification_Done = False, Verification_Ok = False,
      Encrypt = False, EncryptDone = False, DataBuff = None, m_ConnectProtocol = ConnectProtocol0,
      Threadbase = event_base, ConnectSocket = socket', ConnectSocketAddr_in = addr,
      Business_CallBack = None, Connectport = 8888, ConnectAddress = ''127.0.0.1'', TaskMode = 0,
      Timeout = 5, ParentThread = current_thread, ChildThreadID = 0\<rparr>"

text \<open>The assignment operators have empty bodies: the left side keeps its value.\<close>

definition assign_message :: "ConnectProtocol \<Rightarrow> ThreadTask \<Rightarrow> ThreadTask" where
  "assign_message UConnectProtocol t = t"

definition assign_task :: "ThreadTask \<Rightarrow> ThreadTask \<Rightarrow> ThreadTask" where
  "assign_task UThreadTask t = t"

definition ThreadRegistered :: "u32 \<Rightarrow> ThreadTask \<Rightarrow> int \<times> ThreadTask" where
  "ThreadRegistered current_thread t = (0, t\<lparr>ChildThreadID := current_thread\<rparr>)"

definition ThreadUnregister :: "ThreadTask \<Rightarrow> int \<times> ThreadTask" where
  "ThreadUnregister t = (0, t)"

definition SetProcessedDone :: "int \<Rightarrow> ThreadTask \<Rightarrow> int \<times> ThreadTask" where
  "SetProcessedDone Ucode t = (0, t)"

definition SetTimeout :: "u32 \<Rightarrow> ThreadTask \<Rightarrow> ThreadTask" where
  "SetTimeout UTimeout t = t\<lparr>Timeout := UTimeout\<rparr>"

definition GetTimeout :: "ThreadTask \<Rightarrow> u32" where "GetTimeout t = Timeout t"

definition SetTaskMode :: "u32 \<Rightarrow> ThreadTask \<Rightarrow> ThreadTask" where
  "SetTaskMode Umode t = t\<lparr>TaskMode := Umode\<rparr>"

definition GetTaskMode :: "ThreadTask \<Rightarrow> u32" where "GetTaskMode t = TaskMode t"

text \<open>
  \<open>SetParameterGroup\<close>: the map is its list of pairs in the order of its iterator. \<open>m_Parameter\<close> is
  the index of the parameter the pointer shows.
\<close>

fun add_parameters :: "(bytes \<times> bytes) list \<Rightarrow> int \<Rightarrow> ConnectProtocol \<Rightarrow> int \<times> ConnectProtocol" where
  "add_parameters [] ParameterCount m = (ParameterCount, m)"
| "add_parameters ((first, second) # rest) ParameterCount m =
     (let (m_Parameter, m) = add_parametergroup m;
          m = mutable_parametergroup m_Parameter (set_key first) m;
          m = mutable_parametergroup m_Parameter (set_value second) m
      in add_parameters rest (ParameterCount + 1) m)"

definition SetParameterGroup :: "(bytes \<times> bytes) list \<Rightarrow> ThreadTask \<Rightarrow> int \<times> ThreadTask" where
  "SetParameterGroup UParameterGroup t =
     (let m = clear_parametergroup (m_ConnectProtocol t);
          (m_Parameter, m) = add_parametergroup m;
          (ParameterCount, m) = add_parameters UParameterGroup 0 m
      in (ParameterCount, t\<lparr>m_ConnectProtocol := m\<rparr>))"

section \<open>Preparing and completing a transfer\<close>

text \<open>The code compares and sends this as \<open>Verification\<close>; it is unsigned arithmetic.\<close>

definition verification_code :: "u32 \<Rightarrow> bool \<Rightarrow> u32" where
  "verification_code len encrypt = len * (if encrypt then 1 else 2) + (if encrypt then 1 else 2) + 1024"

definition ToIntSize :: "nat \<Rightarrow> int" where "ToIntSize size' = sint (of_nat size' :: u32)"

definition ByteSize :: "ConnectProtocol \<Rightarrow> int \<times> ConnectProtocol" where
  "ByteSize m = (let (n, m) = ByteSizeLong m in (ToIntSize n, m))"

text \<open>What \<open>SerializeToArray\<close> does to the block; its result is not looked at.\<close>

definition serialize_block :: "int \<Rightarrow> block \<Rightarrow> ConnectProtocol \<Rightarrow> fault + (block \<times> ConnectProtocol)" where
  "serialize_block size' p m =
     (let (r, m) = SerializeToArray size' m
      in case r of
           Too_small \<Rightarrow> Inr (p, m)
         | Written bs \<Rightarrow> and_then (store_block bs 0 p) (\<lambda>p. Inr (p, m))
         | ByteSizeConsistencyError bs \<Rightarrow> Inl Fatal_error)"

text \<open>
  \<open>ParseFromArray(DataBuff, DataLenth_Already)\<close>: the length is converted to \<open>int\<close>; a negative one
  makes the end of the array lie before its start. Parsing itself always ends (\<open>parse_total\<close>).
\<close>

definition parse_block :: "u32 \<Rightarrow> block \<Rightarrow> ConnectProtocol \<Rightarrow> fault + (bool \<times> ConnectProtocol)" where
  "parse_block len p m =
     (if sint len < 0 then Inl Out_of_bounds
      else and_then (load_block 0 (unat len) p)
             (\<lambda>data. case ParseFromArray data m of Some r \<Rightarrow> Inr r | None \<Rightarrow> Inl Fatal_error))"

definition transfer_reset :: "ThreadTask \<Rightarrow> ThreadTask" where
  "transfer_reset t =
     t\<lparr>DataLenth_All_Done := False, DataLenth_Already_Done := False, DataLenth_Remaining_Done := False,
       Verification_Done := False, Verification_Ok := False, DataBuff := None\<rparr>"

text \<open>\<open>DataOperationStatus == true\<close> is a comparison whose value is dropped: the member stays.\<close>

definition DataOperationEnd :: "ThreadTask \<Rightarrow> fault + (int \<times> ThreadTask)" where
  "DataOperationEnd t =
     (if TaskMode t div 100 = 1
      then Inr (0, (transfer_reset t)\<lparr>m_ConnectProtocol := ConnectProtocol_Clear (m_ConnectProtocol t)\<rparr>)
      else if TaskMode t div 100 = 3
      then and_then (parse_block (DataLenth_Already t) (DataBuff t) (m_ConnectProtocol t))
             (\<lambda>(ok, m). let t = t\<lparr>m_ConnectProtocol := m\<rparr>
                        in if ok then Inr (0, transfer_reset t) else Inr (-1, t))
      else Inr (-1, t))"

definition DataOperationReady :: "'e platform \<Rightarrow> ThreadTask \<Rightarrow> 'e \<Rightarrow> fault + (int \<times> ThreadTask \<times> 'e)" where
  "DataOperationReady P t e =
     (if TaskMode t div 100 = 1
      then let (size', m) = ByteSize (m_ConnectProtocol t);
               t = t\<lparr>m_ConnectProtocol := m, DataLenth_All := word_of_int size', DataLenth_All_Done := False,
                     DataLenth_Already := 0, DataLenth_Already_Done := False\<rparr>;
               t = t\<lparr>DataLenth_Remaining := DataLenth_All t, DataLenth_Remaining_Done := False\<rparr>;
               (p, e) = malloc P (unat (DataLenth_All t)) e
           in and_then (store_block (replicate (unat (DataLenth_All t)) 0) 0 p)
                (\<lambda>p. and_then (serialize_block (sint (DataLenth_All t)) p (m_ConnectProtocol t))
                  (\<lambda>(p, m). Inr (0, t\<lparr>DataBuff := p, m_ConnectProtocol := m,
                      Verification := verification_code (DataLenth_All t) (Encrypt t),
                      Verification_Ok := True\<rparr>, e)))
      else if TaskMode t div 100 = 3
      then if Verification t = verification_code (DataLenth_All t) (Encrypt t)
           then let (p, e) = malloc P (unat (DataLenth_All t)) e
                in Inr (1, t\<lparr>Verification_Ok := True, DataBuff := p,
                      DataLenth_Remaining := DataLenth_All t, DataLenth_Already := 0,
                      m_ConnectProtocol := ConnectProtocol_Clear (m_ConnectProtocol t)\<rparr>, e)
           else Inr (-1, t\<lparr>Verification_Ok := False\<rparr>, e)
      else Inr (0, t, e))"

section \<open>The platform\<close>

text \<open>
  What the code relies on, as the documentation of \<open>malloc\<close>, \<open>bufferevent_read\<close> and \<open>send\<close> has it:
  a block has the size asked for, a read gives at most the bytes asked for, and a send reports
  \<open>-1\<close> or a number of bytes it was given.
\<close>

definition platform_ok :: "'e platform \<Rightarrow> bool" where
  "platform_ok P \<longleftrightarrow>
     (\<forall>n e b. fst (malloc P n e) = Some b \<longrightarrow> length b = n) \<and>
     (\<forall>n e. length (fst (bufferevent_read P n e)) \<le> n) \<and>
     (\<forall>bs e. - 1 \<le> fst (sock_send P bs e) \<and> fst (sock_send P bs e) \<le> int (length bs))"

definition memory_suffices :: "'e platform \<Rightarrow> bool" where
  "memory_suffices P \<longleftrightarrow> (\<forall>n e. n < 2 ^ 31 \<longrightarrow> fst (malloc P n e) \<noteq> None)"

text \<open>
  A platform for concrete runs: bytes waiting to be read, bytes handed to the network, and how many
  bytes each of the next sends takes (\<open>-1\<close> is a failure; a list that has run out takes all). Memory
  up to \<open>memory\<close> bytes is granted, and filled with the pattern of a debug allocator.
\<close>

record world =
  inbox :: bytes
  outbox :: bytes
  quota :: "int list"
  memory :: nat

definition world_platform :: "world platform" where
  "world_platform =
     \<lparr>malloc = (\<lambda>n w. (if n \<le> memory w then Some (replicate n 0xCD) else None, w)),
      bufferevent_read = (\<lambda>n w. (take n (inbox w), w\<lparr>inbox := drop n (inbox w)\<rparr>)),
      sock_send = (\<lambda>bs w. case quota w of
          [] \<Rightarrow> (int (length bs), w\<lparr>outbox := outbox w @ bs\<rparr>)
        | q # qs \<Rightarrow> if q < 0 then (- 1, w\<lparr>quota := qs\<rparr>)
                    else (int (length (take (nat q) bs)), w\<lparr>outbox := outbox w @ take (nat q) bs, quota := qs\<rparr>))\<rparr>"

lemma world_platform_simps [simp]:
  "malloc world_platform n w = (if n \<le> memory w then Some (replicate n 0xCD) else None, w)"
  "bufferevent_read world_platform n w = (take n (inbox w), w\<lparr>inbox := drop n (inbox w)\<rparr>)"
  "quota w = [] \<Longrightarrow> sock_send world_platform bs w = (int (length bs), w\<lparr>outbox := outbox w @ bs\<rparr>)"
  by (simp_all add: world_platform_def)

lemma world_platform_ok: "platform_ok world_platform"
  by (auto simp: platform_ok_def world_platform_def split: if_splits list.splits)

text \<open>
  A platform that never runs short: all the memory asked for, and every send takes all its bytes.
\<close>

definition roomy_platform :: "world platform" where
  "roomy_platform = world_platform
     \<lparr>malloc := (\<lambda>n w. (Some (replicate n 0xCD), w)),
      sock_send := (\<lambda>bs w. (int (length bs), w\<lparr>outbox := outbox w @ bs\<rparr>))\<rparr>"

lemma roomy_platform_ok: "platform_ok roomy_platform" "memory_suffices roomy_platform"
  using world_platform_ok by (auto simp: platform_ok_def memory_suffices_def roomy_platform_def)

text \<open>
  A stream that keeps its order: reads give the pending bytes in turn; and sends that take all they
  are given. Memory, reads and sends do not disturb each other.
\<close>

definition ordered_stream :: "'e platform \<Rightarrow> ('e \<Rightarrow> bytes) \<Rightarrow> bool" where
  "ordered_stream P pending \<longleftrightarrow>
     (\<forall>n e. fst (bufferevent_read P n e) = take n (pending e) \<and>
            pending (snd (bufferevent_read P n e)) = drop n (pending e)) \<and>
     (\<forall>n e. pending (snd (malloc P n e)) = pending e) \<and>
     (\<forall>bs e. pending (snd (sock_send P bs e)) = pending e)"

definition whole_sends :: "'e platform \<Rightarrow> ('e \<Rightarrow> bytes) \<Rightarrow> bool" where
  "whole_sends P sent \<longleftrightarrow>
     (\<forall>bs e. fst (sock_send P bs e) = int (length bs) \<and> sent (snd (sock_send P bs e)) = sent e @ bs) \<and>
     (\<forall>n e. sent (snd (malloc P n e)) = sent e) \<and>
     (\<forall>n e. sent (snd (bufferevent_read P n e)) = sent e)"

lemma roomy_platform_stream: "ordered_stream roomy_platform inbox" "whole_sends roomy_platform outbox"
  by (simp_all add: ordered_stream_def whole_sends_def roomy_platform_def world_platform_def)

lemma ordered_streamD:
  assumes "ordered_stream P pending"
  shows "bufferevent_read P n e = (bs, e') \<Longrightarrow> bs = take n (pending e) \<and> pending e' = drop n (pending e)"
    "malloc P n e = (p, e') \<Longrightarrow> pending e' = pending e"
    "sock_send P bs e = (k, e') \<Longrightarrow> pending e' = pending e"
  using assms unfolding ordered_stream_def by (metis fst_conv snd_conv)+

lemma whole_sendsD:
  assumes "whole_sends P sent"
  shows "sock_send P bs e = (k, e') \<Longrightarrow> k = int (length bs) \<and> sent e' = sent e @ bs"
    "malloc P n e = (p, e') \<Longrightarrow> sent e' = sent e"
    "bufferevent_read P n e = (bs, e') \<Longrightarrow> sent e' = sent e"
  using assms unfolding whole_sends_def by (metis fst_conv snd_conv)+

lemma platform_okD:
  assumes "platform_ok P"
  shows "malloc P n e = (Some b, e') \<Longrightarrow> length b = n"
    "bufferevent_read P n e = (bs, e') \<Longrightarrow> length bs \<le> n"
    "sock_send P bs e = (k, e') \<Longrightarrow> - 1 \<le> k \<and> k \<le> int (length bs)"
  using assms unfolding platform_ok_def by (metis fst_conv)+

lemma mallocE:
  assumes "platform_ok P" "memory_suffices P" "n < 2 ^ 31"
  obtains b e' where "malloc P n e = (Some b, e')" "length b = n"
proof -
  have "fst (malloc P n e) \<noteq> None" using assms(2,3) unfolding memory_suffices_def by blast
  then obtain b e' where m: "malloc P n e = (Some b, e')"
    by (cases "malloc P n e") auto
  then show thesis using platform_okD(1) [OF assms(1) m] that by blast
qed

section \<open>Blocks\<close>

lemma store_block_in:
  "off + length bs \<le> length b \<Longrightarrow>
   store_block bs off (Some b) = Inr (Some (take off b @ bs @ drop (off + length bs) b))"
  by (auto simp: store_block_def)

lemma store_block_Nil [simp]: "store_block [] off p = Inr p"
  by (simp add: store_block_def)

lemma store_block_whole: "length bs = length b \<Longrightarrow> store_block bs 0 (Some b) = Inr (Some bs)"
  by (simp add: store_block_in)

lemma store_block_NULL: "bs \<noteq> [] \<Longrightarrow> store_block bs off None = Inl Null_pointer"
  by (simp add: store_block_def)

lemma load_block_in: "off + n \<le> length b \<Longrightarrow> load_block off n (Some b) = Inr (take n (drop off b))"
  by (simp add: load_block_def)

lemma load_block_0 [simp]: "load_block off 0 p = Inr []"
  by (simp add: load_block_def)

section \<open>Lengths as 32-bit integers\<close>

lemma sint_of_unat: "unat (v :: u32) < 2 ^ 31 \<Longrightarrow> sint v = int (unat v)"
  using sint_small [of "unat v"] by simp

lemma sint_large:
  assumes "2 ^ 31 \<le> unat (v :: u32)"
  shows "sint v < 0"
proof -
  have "unat v div 2147483648 = 1"
    using assms u32_less [of v] by (simp add: div_nat_eqI)
  then have "bit (unat v) 31" by (simp add: bit_iff_odd)
  then have "bit v 31" by (simp add: bit_unsigned_iff)
  then show ?thesis using bit_last_iff [of v] by simp
qed

section \<open>Ready and End\<close>

text \<open>
  A message is \<open>writable\<close> when it is below two gigabytes, and \<open>sendable\<close> when the other side will also
  read it: UTF-8 strings, and unknown groups not nested too deep.
\<close>

definition wire_image :: "ConnectProtocol \<Rightarrow> bytes" where
  "wire_image m = encode_message (message_view m)"

definition writable :: "ConnectProtocol \<Rightarrow> bool" where
  "writable m \<longleftrightarrow> message_ok m \<and> length (wire_image m) < 2 ^ 31"

definition sendable :: "ConnectProtocol \<Rightarrow> bool" where
  "sendable m \<longleftrightarrow> message_ok m \<and> message_fits (message_view m)"

lemma writable_length: "writable m \<Longrightarrow> length (wire_image m) < 2 ^ 31"
  by (simp add: writable_def)

lemma sendable_writable: "sendable m \<Longrightarrow> writable m"
  by (simp add: sendable_def writable_def message_fits_def wire_image_def)

lemma ByteSize_writable:
  "writable m \<Longrightarrow> ByteSize m = (int (length (wire_image m)), snd (ByteSizeLong m))"
  using ByteSizeLong_view(1) [of m] writable_length [of m] sint_small [of "length (wire_image m)"]
  by (simp add: ByteSize_def writable_def wire_image_def case_prod_beta ToIntSize_def)

lemma sized_message:
  assumes "writable m"
  shows "message_view (snd (ByteSizeLong m)) = message_view m" "writable (snd (ByteSizeLong m))"
    "wire_image (snd (ByteSizeLong m)) = wire_image m"
  using ByteSizeLong_view [of m] assms by (simp_all add: writable_def wire_image_def)

lemma serialize_block_writable:
  assumes "writable m" "length b = length (wire_image m)"
  shows "serialize_block (int (length (wire_image m))) (Some b) m =
    Inr (Some (wire_image m), snd (ByteSizeLong m))"
  using SerializeToArray_view [of m "int (length (wire_image m))"] assms writable_length [OF assms(1)]
  by (simp add: serialize_block_def writable_def wire_image_def store_block_whole)

definition ready_task :: "ConnectProtocol \<Rightarrow> ThreadTask \<Rightarrow> ThreadTask" where
  "ready_task m t =
     t\<lparr>m_ConnectProtocol := m, DataLenth_All := of_nat (length (wire_image m)), DataLenth_All_Done := False,
       DataLenth_Already := 0, DataLenth_Already_Done := False,
       DataLenth_Remaining := of_nat (length (wire_image m)), DataLenth_Remaining_Done := False,
       DataBuff := Some (wire_image m),
       Verification := verification_code (of_nat (length (wire_image m))) (Encrypt t),
       Verification_Ok := True\<rparr>"

lemma DataOperationReady_send:
  assumes "TaskMode t div 100 = 1" "writable (m_ConnectProtocol t)"
    "malloc P (length (wire_image (m_ConnectProtocol t))) e = (Some b, e')"
    "length b = length (wire_image (m_ConnectProtocol t))"
  shows "\<exists>m. DataOperationReady P t e = Inr (0, ready_task m t, e') \<and> writable m \<and>
    message_view m = message_view (m_ConnectProtocol t) \<and> wire_image m = wire_image (m_ConnectProtocol t)"
proof -
  define m0 where "m0 = m_ConnectProtocol t"
  define m1 where "m1 = snd (ByteSizeLong m0)"
  have s: "writable m0" "writable m1" "wire_image m1 = wire_image m0" "message_view m1 = message_view m0"
    using assms(2) sized_message [of m0] by (simp_all add: m0_def m1_def)
  define k where "k = length (wire_image m0)"
  have k: "unat (of_nat k :: u32) = k" "sint (of_nat k :: u32) = int k"
    using unat_small [of k] sint_small [of k] writable_length [OF s(1)] by (simp_all add: k_def)
  define m2 where "m2 = snd (ByteSizeLong m1)"
  have s2: "writable m2" "wire_image m2 = wire_image m0" "message_view m2 = message_view m0"
    using sized_message [OF s(2)] s by (simp_all add: m2_def)
  have ser: "serialize_block (int k) (Some (replicate k 0)) m1 = Inr (Some (wire_image m0), m2)"
    using serialize_block_writable [OF s(2), of "replicate k 0"] s(3) by (simp add: k_def m2_def)
  have st: "store_block (replicate k 0) 0 (Some b) = Inr (Some (replicate k 0))"
    using assms(4) by (simp add: store_block_whole k_def m0_def)
  have bs: "ByteSize m0 = (int k, m1)" using ByteSize_writable [OF s(1)] by (simp add: k_def m1_def)
  have ml: "malloc P k e = (Some b, e')" using assms(3) by (simp add: k_def m0_def)
  have "DataOperationReady P t e = Inr (0, ready_task m2 t, e')"
    by (simp add: DataOperationReady_def assms(1) bs k st ser ml Let_def ready_task_def s2
        flip: m0_def k_def)
  then show ?thesis using s2 unfolding m0_def by blast
qed

lemma DataOperationReady_receive:
  assumes "TaskMode t div 100 = 3"
  shows "DataOperationReady P t e =
    (if Verification t = verification_code (DataLenth_All t) (Encrypt t)
     then let (p, e) = malloc P (unat (DataLenth_All t)) e
          in Inr (1, t\<lparr>Verification_Ok := True, DataBuff := p, DataLenth_Remaining := DataLenth_All t,
                DataLenth_Already := 0, m_ConnectProtocol := ConnectProtocol_Clear (m_ConnectProtocol t)\<rparr>, e)
     else Inr (-1, t\<lparr>Verification_Ok := False\<rparr>, e))"
  by (simp add: DataOperationReady_def assms)

lemma DataOperationEnd_send:
  "TaskMode t div 100 = 1 \<Longrightarrow> DataOperationEnd t =
     Inr (0, (transfer_reset t)\<lparr>m_ConnectProtocol := ConnectProtocol_Clear (m_ConnectProtocol t)\<rparr>)"
  by (simp add: DataOperationEnd_def)

lemma parse_block_read:
  assumes "DataLenth_Already t = of_nat (length bs)" "DataBuff t = Some bs \<or> bs = []" "length bs < 2 ^ 31"
  shows "parse_block (DataLenth_Already t) (DataBuff t) m =
    (case ParseFromArray bs m of Some r \<Rightarrow> Inr r | None \<Rightarrow> Inl Fatal_error)"
  using assms(2) by (auto simp: parse_block_def assms(1) sint_small [OF assms(3)] unat_small [OF assms(3)]
      load_block_in)

lemma DataOperationEnd_receive:
  assumes "TaskMode t div 100 = 3" "DataLenth_Already t = of_nat (length bs)" "DataBuff t = Some bs \<or> bs = []"
    "length bs < 2 ^ 31"
  shows "\<exists>ok m. ParseFromArray bs (m_ConnectProtocol t) = Some (ok, m) \<and>
    DataOperationEnd t = Inr (if ok then (0, transfer_reset (t\<lparr>m_ConnectProtocol := m\<rparr>))
                              else (- 1, t\<lparr>m_ConnectProtocol := m\<rparr>))"
proof -
  obtain ok m where p: "ParseFromArray bs (m_ConnectProtocol t) = Some (ok, m)"
    using ParseFromArray_ends [of bs "m_ConnectProtocol t"] assms(4) by auto
  then show ?thesis
    using assms(1) parse_block_read [OF assms(2-4), of "m_ConnectProtocol t"]
    by (simp add: DataOperationEnd_def Let_def)
qed

section \<open>The verification code\<close>

lemma unat_double: "unat (l * 2 :: u32) = 2 * (unat l mod 2 ^ 31)"
proof -
  have "unat (l * 2) = (unat l * 2) mod 2 ^ 32" by (simp add: unat_word_ariths)
  also have "\<dots> = 2 * (unat l mod 2 ^ 31)" using mult_mod_right [of 2 "unat l" "2 ^ 31"] by (simp add: mult.commute)
  finally show ?thesis .
qed

lemma verification_code_eq:
  "verification_code l True = verification_code l' True \<longleftrightarrow> l = l'"
  "verification_code l False = verification_code l' False \<longleftrightarrow> unat l mod 2 ^ 31 = unat l' mod 2 ^ 31"
proof -
  have "verification_code l False = verification_code l' False \<longleftrightarrow> l * 2 = l' * 2"
    by (simp add: verification_code_def)
  also have "\<dots> \<longleftrightarrow> unat (l * 2) = unat (l' * 2)" by (simp add: word_unat_eq_iff)
  also have "\<dots> \<longleftrightarrow> unat l mod 2 ^ 31 = unat l' mod 2 ^ 31" unfolding unat_double by simp
  finally show "verification_code l False = verification_code l' False \<longleftrightarrow> unat l mod 2 ^ 31 = unat l' mod 2 ^ 31" .
qed (simp add: verification_code_def)

section \<open>Parameters\<close>

lemma message_ok_clear_parametergroup:
  "message_ok m \<Longrightarrow> message_ok (clear_parametergroup m)"
  "message_view (clear_parametergroup m) = (message_view m)\<lparr>v_parameters := []\<rparr>"
  by (simp_all add: clear_parametergroup_def message_ok_def message_view_def cp_simps par.inv_Clear
      par.view_items_Clear)

text \<open>One round of the loop: a new parameter, its key and its value.\<close>

lemma add_parameter_round:
  fixes k v :: bytes
  assumes "message_ok m" "add_parametergroup m = (i, m1)"
  defines "m2 \<equiv> mutable_parametergroup i (set_key k) m1"
  defines "m3 \<equiv> mutable_parametergroup i (set_value v) m2"
  shows "message_ok m3"
    "message_view m3 = (message_view m)\<lparr>v_parameters := v_parameters (message_view m) @ [(k, v, [])]\<rparr>"
proof -
  have m1: "message_ok m1" "i = length (v_parameters (message_view m))"
    "message_view m1 = (message_view m)\<lparr>v_parameters := v_parameters (message_view m) @ [([], [], [])]\<rparr>"
    using message_ok_add [OF assms(1)] by (simp_all add: assms(2))
  have i: "i < parametergroup_size m1" using parametergroup_view(1) [OF m1(1)] m1(2,3) by simp
  have p1: "parameter_view (parametergroup_get i m1) = ([], [], [])"
    using parametergroup_view(2) [OF m1(1) i] m1(2,3) by simp
  have k: "parameter_view (set_key k (parametergroup_get i m1)) = (k, [], [])"
    using p1 by (simp add: parameter_view_def set_key_def key_def par_value_get_def)
  have m2: "message_ok m2"
    "message_view m2 = (message_view m)\<lparr>v_parameters := v_parameters (message_view m) @ [(k, [], [])]\<rparr>"
    using message_ok_mutable [OF m1(1) i, of "set_key k"] m1(2,3) k by (simp_all add: m2_def list_update_append)
  have i2: "i < parametergroup_size m2" using parametergroup_view(1) [OF m2(1)] m2(2) m1(2) by simp
  have p2: "parameter_view (parametergroup_get i m2) = (k, [], [])"
    using parametergroup_view(2) [OF m2(1) i2] m1(2) m2(2) by simp
  have v: "parameter_view (set_value v (parametergroup_get i m2)) = (k, v, [])"
    using p2 by (simp add: parameter_view_def set_value_def key_def par_value_get_def)
  show "message_ok m3"
    "message_view m3 = (message_view m)\<lparr>v_parameters := v_parameters (message_view m) @ [(k, v, [])]\<rparr>"
    using message_ok_mutable [OF m2(1) i2, of "set_value v"] m1(2) m2(2) v by (simp_all add: m3_def list_update_append)
qed

lemma add_parameters_view:
  assumes "message_ok m"
  shows "fst (add_parameters ps n m) = n + int (length ps) \<and> message_ok (snd (add_parameters ps n m)) \<and>
    message_view (snd (add_parameters ps n m)) =
      (message_view m)\<lparr>v_parameters := v_parameters (message_view m) @ map (\<lambda>(k, v). (k, v, [])) ps\<rparr>"
  using assms
proof (induction ps arbitrary: n m)
  case (Cons p ps)
  obtain k v where p: "p = (k, v)" by (cases p)
  obtain i m1 where add: "add_parametergroup m = (i, m1)" by force
  note r = add_parameter_round [OF Cons.prems add, where k = k and v = v]
  show ?case using Cons.IH [OF r(1), of "n + 1"] r(2) by (simp add: p add)
qed simp

lemma SetParameterGroup_view:
  assumes "message_ok (m_ConnectProtocol t)"
  shows "SetParameterGroup ps t = (int (length ps),
      t\<lparr>m_ConnectProtocol := m_ConnectProtocol (snd (SetParameterGroup ps t))\<rparr>)"
    "message_ok (m_ConnectProtocol (snd (SetParameterGroup ps t)))"
    "message_view (m_ConnectProtocol (snd (SetParameterGroup ps t))) =
      (message_view (m_ConnectProtocol t))\<lparr>v_parameters := ([], [], []) # map (\<lambda>(k, v). (k, v, [])) ps\<rparr>"
proof -
  let ?m = "clear_parametergroup (m_ConnectProtocol t)"
  obtain i m1 where add: "add_parametergroup ?m = (i, m1)" by force
  have m1: "message_ok m1" "message_view m1 = (message_view (m_ConnectProtocol t))\<lparr>v_parameters := [([], [], [])]\<rparr>"
    using message_ok_add [OF message_ok_clear_parametergroup(1) [OF assms]] message_ok_clear_parametergroup(2)
    by (simp_all add: add)
  obtain n m2 where ps: "add_parameters ps 0 m1 = (n, m2)" by force
  have "n = int (length ps)" "message_ok m2" "message_view m2 =
      (message_view (m_ConnectProtocol t))\<lparr>v_parameters := ([], [], []) # map (\<lambda>(k, v). (k, v, [])) ps\<rparr>"
    using add_parameters_view [OF m1(1), of ps 0] m1(2) by (simp_all add: ps)
  then show "SetParameterGroup ps t = (int (length ps),
      t\<lparr>m_ConnectProtocol := m_ConnectProtocol (snd (SetParameterGroup ps t))\<rparr>)"
    "message_ok (m_ConnectProtocol (snd (SetParameterGroup ps t)))"
    "message_view (m_ConnectProtocol (snd (SetParameterGroup ps t))) =
      (message_view (m_ConnectProtocol t))\<lparr>v_parameters := ([], [], []) # map (\<lambda>(k, v). (k, v, [])) ps\<rparr>"
    by (simp_all add: SetParameterGroup_def Let_def add ps)
qed

text \<open>Whatever memory gave: if the preparation returned, the block is the encoding.\<close>

lemma DataOperationReady_written:
  assumes "TaskMode t div 100 = 1" "writable (m_ConnectProtocol t)" "platform_ok P"
    "DataOperationReady P t e = Inr (r, t', e')"
  shows "DataLenth_All t' = of_nat (length (wire_image (m_ConnectProtocol t)))"
    "DataBuff t' = Some (wire_image (m_ConnectProtocol t)) \<or> wire_image (m_ConnectProtocol t) = []"
proof -
  let ?k = "length (wire_image (m_ConnectProtocol t))"
  have k: "unat (of_nat ?k :: u32) = ?k" "sint (of_nat ?k :: u32) = int ?k"
    using unat_small [OF writable_length] sint_small [OF writable_length] assms(2) by simp_all
  obtain p e1 where p: "malloc P ?k e = (p, e1)" by force
  have "DataLenth_All t' = of_nat ?k \<and> (DataBuff t' = Some (wire_image (m_ConnectProtocol t)) \<or> ?k = 0)"
  proof (cases p)
    case (Some b)
    then have b: "malloc P ?k e = (Some b, e1)" "length b = ?k" using p platform_okD(1) [OF assms(3)] by auto
    obtain m where "DataOperationReady P t e = Inr (0, ready_task m t, e1)" "wire_image m = wire_image (m_ConnectProtocol t)"
      using DataOperationReady_send [OF assms(1,2) b] by blast
    then show ?thesis using assms(4) by (auto simp: ready_task_def)
  next
    case None
    have "?k = 0"
    proof (rule ccontr)
      assume "?k \<noteq> 0"
      then have "store_block (replicate ?k 0) 0 p = Inl Null_pointer" by (simp add: None store_block_def)
      then show False using assms(1,4) by (simp add: DataOperationReady_def ByteSize_writable [OF assms(2)] k p)
    qed
    have "DataLenth_All t' = of_nat ?k"
      using assms(1,4) \<open>?k = 0\<close>
      by (auto simp: DataOperationReady_def ByteSize_writable [OF assms(2)] k p and_then_def Let_def split: sum.splits prod.splits)
    then show ?thesis using \<open>?k = 0\<close> by simp
  qed
  then show "DataLenth_All t' = of_nat ?k"
    "DataBuff t' = Some (wire_image (m_ConnectProtocol t)) \<or> wire_image (m_ConnectProtocol t) = []" by auto
qed

section \<open>What a task promises\<close>

text \<open>\<open>SetParameterGroup\<close> returns the number of pairs given and replaces the parameters of the
  message by the pairs, in order, after one empty parameter: the parameter added before the loop is
  never filled, so a message always carries one parameter more than the caller set. Nothing else of
  the message or the task changes.\<close>

lemma parameters_set:
  assumes "message_ok (m_ConnectProtocol t)"
  shows "\<exists>m. SetParameterGroup ps t = (int (length ps), t\<lparr>m_ConnectProtocol := m\<rparr>) \<and> message_ok m \<and>
    message_view m = (message_view (m_ConnectProtocol t))
      \<lparr>v_parameters := ([], [], []) # map (\<lambda>(k, v). (k, v, [])) ps\<rparr>"
  using SetParameterGroup_view [OF assms, of ps] by blast

lemma parameters_set_witness:
  "\<exists>m. SetParameterGroup [([75], [86])] (ThreadTask0 None 0 0 \<lparr>sin_family = 0, sin_port = 0, sin_addr = 0\<rparr>) =
     (1, (ThreadTask0 None 0 0 \<lparr>sin_family = 0, sin_port = 0, sin_addr = 0\<rparr>)\<lparr>m_ConnectProtocol := m\<rparr>) \<and>
     v_parameters (message_view m) = [([], [], []), ([75], [86], [])]"
  using parameters_set [of "ThreadTask0 None 0 0 \<lparr>sin_family = 0, sin_port = 0, sin_addr = 0\<rparr>" "[([75], [86])]"]
  by (auto simp: ThreadTask0_def message_ok_new)

text \<open>In receiving mode \<open>DataOperationReady\<close> returns 1 exactly when the code in the header is the one
  of the announced length, and then allocates that length and clears the message; otherwise it
  returns -1, allocates nothing and leaves the environment alone. It never fails otherwise.\<close>

lemma header_checked:
  assumes "TaskMode t div 100 = 3"
  shows "\<exists>r t' e'. DataOperationReady P t e = Inr (r, t', e') \<and>
    (if Verification t = verification_code (DataLenth_All t) (Encrypt t)
     then r = 1 \<and> Verification_Ok t' \<and> (DataBuff t', e') = malloc P (unat (DataLenth_All t)) e \<and>
       DataLenth_Remaining t' = DataLenth_All t \<and> DataLenth_Already t' = 0 \<and>
       message_view (m_ConnectProtocol t') = empty_view
     else r = - 1 \<and> t' = t\<lparr>Verification_Ok := False\<rparr> \<and> e' = e)"
  using assms
  by (simp add: DataOperationReady_receive message_ok_Clear(2) case_prod_beta Let_def)

text \<open>C18: The check of a header whose code came from \<open>DataOperationReady\<close> of a sender with the same
  encryption flag. With encryption on, the receiver's \<open>DataOperationReady\<close> accepts exactly the length the sender announced.
  With it off the doubled length wraps, so it accepts exactly the lengths equal to the announced one modulo two gigabytes:
  a length wrong by two gigabytes passes, and that much is allocated and waited for. Every other length is refused, with
  nothing allocated.\<close>

theorem verification_codes:
  assumes "TaskMode t div 100 = 1" "DataOperationReady P t e = Inr (0, t', e')"
    "TaskMode r div 100 = 3" "Encrypt r = Encrypt t" "Verification r = Verification t'"
  shows "\<exists>code r' w'. DataOperationReady Q r w = Inr (code, r', w') \<and>
    (if (if Encrypt t then DataLenth_All r = DataLenth_All t'
         else unat (DataLenth_All r) mod 2 ^ 31 = unat (DataLenth_All t') mod 2 ^ 31)
     then code = 1 \<and> Verification_Ok r' \<and> (DataBuff r', w') = malloc Q (unat (DataLenth_All r)) w \<and>
       DataLenth_Remaining r' = DataLenth_All r
     else code = - 1 \<and> r' = r\<lparr>Verification_Ok := False\<rparr> \<and> w' = w)"
proof -
  have code: "Verification t' = verification_code (DataLenth_All t') (Encrypt t)"
    using assms(1,2)
    by (auto simp: DataOperationReady_def and_then_def Let_def split: sum.splits prod.splits)
  have "Verification r = verification_code (DataLenth_All r) (Encrypt r) \<longleftrightarrow>
      (if Encrypt t then DataLenth_All r = DataLenth_All t'
       else unat (DataLenth_All r) mod 2 ^ 31 = unat (DataLenth_All t') mod 2 ^ 31)"
    unfolding assms(4,5) code by (cases "Encrypt t") (simp_all add: verification_code_eq eq_commute)
  then show ?thesis using header_checked [OF assms(3), of Q w] by (auto split: if_splits)
qed

text \<open>In sending mode \<open>DataOperationReady\<close> fills the block with exactly the encoding of the
  message, announces its length, and starts the transfer at its first byte, provided the message is
  below two gigabytes and memory is there; the message keeps its value.\<close>

lemma send_prepared:
  assumes "TaskMode t div 100 = 1" "writable (m_ConnectProtocol t)" "platform_ok P" "memory_suffices P"
  shows "\<exists>t' e'. DataOperationReady P t e = Inr (0, t', e') \<and>
    DataBuff t' = Some (encode_message (message_view (m_ConnectProtocol t))) \<and>
    unat (DataLenth_All t') = length (encode_message (message_view (m_ConnectProtocol t))) \<and>
    DataLenth_Remaining t' = DataLenth_All t' \<and> DataLenth_Already t' = 0 \<and> \<not> DataLenth_All_Done t' \<and>
    Verification t' = verification_code (DataLenth_All t') (Encrypt t) \<and> Verification_Ok t' \<and>
    message_view (m_ConnectProtocol t') = message_view (m_ConnectProtocol t)"
proof -
  note n = writable_length [OF assms(2)]
  obtain b e' where b: "malloc P (length (wire_image (m_ConnectProtocol t))) e = (Some b, e')"
    "length b = length (wire_image (m_ConnectProtocol t))"
    using mallocE [OF assms(3,4) n] by blast
  obtain m where m: "DataOperationReady P t e = Inr (0, ready_task m t, e')"
    "message_view m = message_view (m_ConnectProtocol t)" "wire_image m = wire_image (m_ConnectProtocol t)"
    using DataOperationReady_send [OF assms(1,2) b] by blast
  show ?thesis using m n unat_small [OF n] by (simp add: ready_task_def wire_image_def)
qed

definition sample_task :: ThreadTask where
  "sample_task = (ThreadTask0 None 0 0 \<lparr>sin_family = 0, sin_port = 0, sin_addr = 0\<rparr>)
     \<lparr>TaskMode := 100, m_ConnectProtocol := set_apiname [97, 98] ConnectProtocol0\<rparr>"

definition quiet_world :: world where
  "quiet_world = \<lparr>inbox = [], outbox = [], quota = [], memory = 0\<rparr>"

lemma sample_task_sendable: "TaskMode sample_task div 100 = 1" "sendable (m_ConnectProtocol sample_task)"
  by (simp_all add: sample_task_def sendable_def named_message)

lemmas sample_task_writable = sample_task_sendable(1) sendable_writable [OF sample_task_sendable(2)]

lemma send_prepared_witness:
  "\<exists>t' e'. DataOperationReady roomy_platform sample_task quiet_world = Inr (0, t', e') \<and> DataLenth_Already t' = 0"
  using send_prepared [OF sample_task_writable roomy_platform_ok] by blast

lemma header_checked_witness:
  "\<exists>t'. DataOperationReady world_platform (sample_task\<lparr>TaskMode := 300, Verification := 5\<rparr>) quiet_world =
     Inr (- 1, t', quiet_world)"
  using header_checked [of "sample_task\<lparr>TaskMode := 300, Verification := 5\<rparr>" world_platform quiet_world]
  by (simp add: sample_task_def ThreadTask0_def verification_code_def)

lemma sample_task_ready:
  obtains m e' where "DataOperationReady roomy_platform sample_task quiet_world = Inr (0, ready_task m sample_task, e')"
proof -
  obtain b e' where b: "malloc roomy_platform (length (wire_image (m_ConnectProtocol sample_task))) quiet_world = (Some b, e')"
    "length b = length (wire_image (m_ConnectProtocol sample_task))"
    using mallocE [OF roomy_platform_ok writable_length [OF sample_task_writable(2)]] by blast
  show thesis using DataOperationReady_send [OF sample_task_writable b] that by blast
qed

lemma verification_codes_witness:
  "\<exists>t' e' r'. DataOperationReady roomy_platform sample_task quiet_world = Inr (0, t', e') \<and>
     DataOperationReady roomy_platform (sample_task\<lparr>TaskMode := 300, Verification := Verification t',
       DataLenth_All := DataLenth_All t' + 2 ^ 31\<rparr>) quiet_world = Inr (1, r', quiet_world) \<and>
     DataLenth_Remaining r' = DataLenth_All t' + 2 ^ 31"
proof -
  obtain m e' where t': "DataOperationReady roomy_platform sample_task quiet_world = Inr (0, ready_task m sample_task, e')"
    by (rule sample_task_ready)
  let ?n = "DataLenth_All (ready_task m sample_task)"
  have "unat (?n + 2 ^ 31) mod 2 ^ 31 = unat ?n mod 2 ^ 31"
    by (simp add: unat_word_ariths mod_mod_cancel)
  then show ?thesis
    using verification_codes [OF sample_task_sendable(1) t', where Q = roomy_platform and w = quiet_world and
        r = "sample_task\<lparr>TaskMode := 300, Verification := Verification (ready_task m sample_task), DataLenth_All := ?n + 2 ^ 31\<rparr>"] t'
    by (auto simp: sample_task_def ThreadTask0_def roomy_platform_def)
qed

text \<open>C9: What one task prepared for sending and another received byte for byte, \<open>DataOperationEnd\<close> turns back into a
  message of the same value, and it leaves the receiver ready for the next one: no block, every flag of the transfer
  cleared except \<open>EncryptDone\<close>, which is not touched. This holds for a message that is \<open>sendable\<close>: its object is well
  formed, its name, keys and values are UTF-8, its unknown fields have numbers the class does not know and do not
  nest too deep for the parser, and its encoding is below two gigabytes. A name that is not UTF-8 would be prepared and sent, and the
  parse would fail (\<open>bad_apiname_written_not_read\<close>).\<close>

theorem transfer_roundtrip:
  assumes "TaskMode t div 100 = 1" "sendable (m_ConnectProtocol t)" "DataOperationReady P t e = Inr (0, t', e')"
    "TaskMode r div 100 = 3" "DataBuff r = DataBuff t'" "DataLenth_Already r = DataLenth_All t'"
    "message_ok (m_ConnectProtocol r)" "platform_ok P"
  shows "\<exists>m. DataOperationEnd r = Inr (0, transfer_reset (r\<lparr>m_ConnectProtocol := m\<rparr>)) \<and>
    message_ok m \<and> message_view m = message_view (m_ConnectProtocol t)"
proof -
  have s: "message_fits (message_view (m_ConnectProtocol t))" using assms(2) by (simp add: sendable_def)
  note n = writable_length [OF sendable_writable [OF assms(2)]]
  have t': "DataLenth_All t' = of_nat (length (wire_image (m_ConnectProtocol t)))"
    "DataBuff t' = Some (wire_image (m_ConnectProtocol t)) \<or> wire_image (m_ConnectProtocol t) = []"
    using DataOperationReady_written [OF assms(1) sendable_writable [OF assms(2)] assms(8,3)] by simp_all
  obtain m where m: "ParseFromArray (wire_image (m_ConnectProtocol t)) (m_ConnectProtocol r) = Some (True, m)"
    "message_ok m" "message_view m = message_view (m_ConnectProtocol t)"
    using ParseFromArray_encode [OF s assms(7)] by (auto simp: wire_image_def)
  obtain ok m' where "ParseFromArray (wire_image (m_ConnectProtocol t)) (m_ConnectProtocol r) = Some (ok, m')"
    "DataOperationEnd r = Inr (if ok then (0, transfer_reset (r\<lparr>m_ConnectProtocol := m'\<rparr>))
                               else (- 1, r\<lparr>m_ConnectProtocol := m'\<rparr>))"
    using DataOperationEnd_receive [OF assms(4), of "wire_image (m_ConnectProtocol t)"] assms(5,6) t' n by auto
  then show ?thesis using m by auto
qed

lemma transfer_roundtrip_witness:
  "\<exists>t' e' m. DataOperationReady roomy_platform sample_task quiet_world = Inr (0, t', e') \<and>
     DataOperationEnd (sample_task\<lparr>TaskMode := 300, DataBuff := DataBuff t', DataLenth_Already := DataLenth_All t'\<rparr>) =
       Inr (0, transfer_reset (sample_task\<lparr>TaskMode := 300, DataBuff := DataBuff t',
         DataLenth_Already := DataLenth_All t', m_ConnectProtocol := m\<rparr>)) \<and>
     message_view m = empty_view\<lparr>v_apiname := [97, 98]\<rparr>"
proof -
  obtain m0 e' where t': "DataOperationReady roomy_platform sample_task quiet_world = Inr (0, ready_task m0 sample_task, e')"
    by (rule sample_task_ready)
  let ?r = "sample_task\<lparr>TaskMode := 300, DataBuff := DataBuff (ready_task m0 sample_task),
    DataLenth_Already := DataLenth_All (ready_task m0 sample_task)\<rparr>"
  have "\<exists>m. DataOperationEnd ?r = Inr (0, transfer_reset (?r\<lparr>m_ConnectProtocol := m\<rparr>)) \<and>
    message_ok m \<and> message_view m = message_view (m_ConnectProtocol sample_task)"
    by (rule transfer_roundtrip [OF sample_task_sendable t'])
      (simp_all add: sample_task_def named_message roomy_platform_ok)
  moreover have "message_view (m_ConnectProtocol sample_task) = empty_view\<lparr>v_apiname := [97, 98]\<rparr>"
    by (simp add: sample_task_def named_message)
  ultimately show ?thesis using t' by auto
qed

end
