(* ===== verification/Bosncc.thy ===== *)
theory Bosncc
  imports ThreadTask
begin

text \<open>
  The class \<open>Bosncc\<close> (\<open>Bosncc.h\<close>, \<open>Bosnnc.cpp\<close>) up to the event callbacks: the static members and
  the single instance, start-up of the two modes, and the submission of tasks. The results of the
  Windows socket and thread-pool functions and of libevent are arguments; the calls made on them
  are a trace.
\<close>

section \<open>State\<close>

abbreviation BOSNCC_MODEL_CLIENT :: int where "BOSNCC_MODEL_CLIENT \<equiv> 1"
abbreviation BOSNCC_MODEL_SERVER :: int where "BOSNCC_MODEL_SERVER \<equiv> 2"
abbreviation INVALID_SOCKET :: int where "INVALID_SOCKET \<equiv> - 1"
abbreviation SOCKET_ERROR :: int where "SOCKET_ERROR \<equiv> - 1"
abbreviation AF_INET :: int where "AF_INET \<equiv> 2"

record Bosncc =
  Started :: bool
  Listenport :: u32
  WindowsThreadPool :: "nat option"
  Bosncc_Server_addr_in :: sockaddr_in
  wVersionRequested :: u16
  wsaData_wVersion :: u16
  b_Business_CallBack :: "business option"
  b_Encrypt :: bool
  b_Timeout :: u32
  Bosncc_Socket :: int
  Main_Base :: "nat option"

text \<open>The static members; \<open>None\<close> is the null pointer.\<close>

record statics =
  CreatInstance :: bool
  RunSetModel :: bool
  RunModel :: int
  m_Instance :: "Bosncc option"

definition statics0 :: statics where
  "statics0 = \<lparr>CreatInstance = False, RunSetModel = False, RunModel = 0, m_Instance = None\<rparr>"

text \<open>The constructor sets \<open>Started\<close> alone; the other members keep what the memory held, \<open>held\<close>.\<close>

definition Bosncc_new :: "Bosncc \<Rightarrow> statics \<Rightarrow> Bosncc \<times> statics" where
  "Bosncc_new held s = (held\<lparr>Started := False\<rparr>, s\<lparr>CreatInstance := True\<rparr>)"

definition GetInstance :: "Bosncc \<Rightarrow> statics \<Rightarrow> Bosncc option \<times> statics" where
  "GetInstance held s =
     (let s = (if m_Instance s = None \<and> CreatInstance s = False
               then let (b, s) = Bosncc_new held s in s\<lparr>m_Instance := Some b\<rparr> else s)
      in (m_Instance s, s))"

definition SetRunoModel :: "int \<Rightarrow> statics \<Rightarrow> int \<times> statics" where
  "SetRunoModel Type s =
     (if RunSetModel s = False \<and> Type = BOSNCC_MODEL_CLIENT
      then let s = s\<lparr>RunModel := BOSNCC_MODEL_CLIENT, RunSetModel := True\<rparr> in (RunModel s, s)
      else if RunSetModel s = False \<and> Type = BOSNCC_MODEL_SERVER
      then let s = s\<lparr>RunModel := BOSNCC_MODEL_SERVER, RunSetModel := True\<rparr> in (RunModel s, s)
      else (-1, s))"

section \<open>Settings\<close>

definition SetListenport :: "int \<Rightarrow> u32 \<Rightarrow> Bosncc \<Rightarrow> Bosncc" where
  "SetListenport run_model UPort b =
     (if Started b then b
      else if run_model \<noteq> BOSNCC_MODEL_SERVER then b else b\<lparr>Listenport := UPort\<rparr>)"

definition GetListenport :: "int \<Rightarrow> Bosncc \<Rightarrow> u32" where
  "GetListenport run_model b = (if run_model \<noteq> BOSNCC_MODEL_SERVER then 0 else Listenport b)"

definition SetBusinessFunction :: "int \<Rightarrow> business option \<Rightarrow> Bosncc \<Rightarrow> Bosncc" where
  "SetBusinessFunction run_model Uf b =
     (if run_model \<noteq> BOSNCC_MODEL_SERVER then b
      else if Started b then b else b\<lparr>b_Business_CallBack := Uf\<rparr>)"

definition b_SetTimeout :: "u32 \<Rightarrow> Bosncc \<Rightarrow> Bosncc" where
  "b_SetTimeout UTimeout b = b\<lparr>b_Timeout := UTimeout\<rparr>"

text \<open>The getter returns the \<open>unsigned int\<close> as an \<open>int\<close>.\<close>

definition b_GetTimeout :: "Bosncc \<Rightarrow> int" where "b_GetTimeout b = sint (b_Timeout b)"

definition SetEncrypt :: "bool \<Rightarrow> Bosncc \<Rightarrow> Bosncc" where
  "SetEncrypt UEncrypt b = b\<lparr>b_Encrypt := UEncrypt\<rparr>"

definition GetEncrypt :: "Bosncc \<Rightarrow> bool" where "GetEncrypt b = b_Encrypt b"

section \<open>Starting up\<close>

text \<open>What the operating system and libevent answer during a start-up.\<close>

record startup_results =
  r_WSAStartup :: int
  r_wVersion :: u16
  r_socket :: int
  r_bind :: int
  r_listen :: int
  r_CreateThreadpool :: "nat option"
  r_event_base_new :: "nat option"

datatype call = WSAStartup | WSACleanup | Open_socket int | Bind int | Listen int | Closesocket int
  | CreateThreadpool | Make_nonblocking int | Make_reuseable int | Event_base_new
  | Accept_event int | Connect int "sockaddr_in" | Submit_work

definition MAKEWORD :: "u8 \<Rightarrow> u8 \<Rightarrow> u16" where
  "MAKEWORD low high = ucast low OR push_bit 8 (ucast high)"

definition LOBYTE :: "u16 \<Rightarrow> u8" where "LOBYTE w = ucast w"
definition HIBYTE :: "u16 \<Rightarrow> u8" where "HIBYTE w = ucast (drop_bit 8 w)"

text \<open>\<open>htons\<close> and \<open>htonl\<close> on a little-endian machine; the argument of \<open>htons\<close> is cut to 16 bits.\<close>

definition htons :: "u32 \<Rightarrow> u16" where "htons v = MAKEWORD (HIBYTE (ucast v)) (LOBYTE (ucast v))"

definition ClientInit :: "startup_results \<Rightarrow> int \<Rightarrow> Bosncc \<Rightarrow> int \<times> Bosncc \<times> call list" where
  "ClientInit r run_model b =
     (if run_model \<noteq> BOSNCC_MODEL_CLIENT then (-1, b, [])
      else let b = b\<lparr>wVersionRequested := MAKEWORD 2 2\<rparr>; iResult = r_WSAStartup r;
               b = b\<lparr>wsaData_wVersion := r_wVersion r\<rparr>; tr = [WSAStartup]
      in if iResult \<noteq> 0 then (-2, b, tr)
      else if LOBYTE (wsaData_wVersion b) \<noteq> 2 \<or> HIBYTE (wsaData_wVersion b) \<noteq> 2 then (-3, b, tr @ [WSACleanup])
      else let b = b\<lparr>WindowsThreadPool := r_CreateThreadpool r\<rparr>; tr = tr @ [CreateThreadpool]
      in if WindowsThreadPool b = None then (-4, b, tr) else (0, b, tr))"

definition ServerInit :: "startup_results \<Rightarrow> int \<Rightarrow> Bosncc \<Rightarrow> int \<times> Bosncc \<times> call list" where
  "ServerInit r run_model b =
     (if run_model \<noteq> BOSNCC_MODEL_SERVER then (-1, b, [])
      else let b = b\<lparr>wVersionRequested := MAKEWORD 2 2\<rparr>; iResult = r_WSAStartup r;
               b = b\<lparr>wsaData_wVersion := r_wVersion r\<rparr>; tr = [WSAStartup]
      in if iResult \<noteq> 0 then (-2, b, tr)
      else if LOBYTE (wsaData_wVersion b) \<noteq> 2 \<or> HIBYTE (wsaData_wVersion b) \<noteq> 2 then (-3, b, tr @ [WSACleanup])
      else let b = b\<lparr>Bosncc_Socket := r_socket r\<rparr>
      in if Bosncc_Socket b = INVALID_SOCKET then (-4, b, tr)
      else let tr = tr @ [Open_socket (Bosncc_Socket b)];
               b = b\<lparr>Bosncc_Server_addr_in := \<lparr>sin_family = AF_INET, sin_port = htons (Listenport b), sin_addr = 0\<rparr>\<rparr>;
               iResult = r_bind r; tr = tr @ [Bind (Bosncc_Socket b)]
      in if iResult = SOCKET_ERROR then (-5, b, tr @ [Closesocket (Bosncc_Socket b), WSACleanup])
      else let iResult = r_listen r; tr = tr @ [Listen (Bosncc_Socket b)]
      in if iResult = SOCKET_ERROR then (-6, b, tr)
      else let b = b\<lparr>WindowsThreadPool := r_CreateThreadpool r\<rparr>; tr = tr @ [CreateThreadpool]
      in if WindowsThreadPool b = None then (-7, b, tr)
      else let tr = tr @ [Make_nonblocking (Bosncc_Socket b), Make_reuseable (Bosncc_Socket b)];
               b = b\<lparr>Main_Base := r_event_base_new r\<rparr>; tr = tr @ [Event_base_new]
      in if Main_Base b = None then (-8, b, tr)
      else (0, b, tr @ [Accept_event (Bosncc_Socket b)]))"

definition Init :: "startup_results \<Rightarrow> int \<Rightarrow> Bosncc \<Rightarrow> int \<times> Bosncc \<times> call list" where
  "Init r run_model b =
     (if run_model = BOSNCC_MODEL_SERVER then ServerInit r run_model b
      else if run_model = BOSNCC_MODEL_CLIENT then ClientInit r run_model b
      else (-444, b, []))"

text \<open>
  \<open>Start\<close>: \<open>loop\<close> is what the event loop does to the instance until it returns. Freeing the base
  leaves the pointer as it is.
\<close>

definition Start :: "(Bosncc \<Rightarrow> Bosncc) \<Rightarrow> int \<Rightarrow> Bosncc \<Rightarrow> int \<times> Bosncc" where
  "Start loop run_model b =
     (if run_model \<noteq> BOSNCC_MODEL_SERVER then (-1, b)
      else if Started b then (-2, b)
      else let b = loop (b\<lparr>Started := True\<rparr>) in (0, b\<lparr>Started := False\<rparr>))"

section \<open>Submitting a task\<close>

text \<open>
  \<open>getaddrinfo\<close> gives an error code or the first address; \<open>inet_ntoa\<close> and \<open>inet_addr\<close> are
  functions of the socket library.
\<close>

record connect_results =
  r_getaddrinfo :: "int + (int \<times> u32)"
  r_client_socket :: int
  r_connect :: int

definition AddTask ::
  "(u32 \<Rightarrow> string) \<Rightarrow> (string \<Rightarrow> u32) \<Rightarrow> connect_results \<Rightarrow> int \<Rightarrow> ThreadTask \<Rightarrow> int \<times> ThreadTask \<times> call list" where
  "AddTask inet_ntoa inet_addr r run_model t =
     (if run_model \<noteq> BOSNCC_MODEL_CLIENT then (-1, t, [])
      else case r_getaddrinfo r of
        Inl _ \<Rightarrow> (-2, t, [])
      | Inr (ai_family, addr) \<Rightarrow>
          if ai_family = AF_INET
          then let t = t\<lparr>ConnectAddress := inet_ntoa addr\<rparr>;
                   a = (ConnectSocketAddr_in t)\<lparr>sin_addr := inet_addr (inet_ntoa addr), sin_family := ai_family\<rparr>;
                   t = t\<lparr>ConnectSocketAddr_in := a, ConnectSocket := r_client_socket r\<rparr>
          in if ConnectSocket t = INVALID_SOCKET then (-4, t, [])
          else let tr = [Open_socket (ConnectSocket t)];
                   t = t\<lparr>ConnectSocketAddr_in := (ConnectSocketAddr_in t)\<lparr>sin_port := htons (Connectport t)\<rparr>\<rparr>;
                   tr = tr @ [Connect (ConnectSocket t) (ConnectSocketAddr_in t)]
          in if r_connect r = SOCKET_ERROR then (-5, t, tr @ [Closesocket (ConnectSocket t)])
          else (0, SetTaskMode 100 t, tr @ [Submit_work])
          else (-3, t, []))"

section \<open>The calls an application makes\<close>

text \<open>The setters of the instance, and one step of a program that uses the component from one thread.\<close>

datatype setting = Set_port u32 | Set_business "business option" | Set_timeout u32 | Set_encrypt bool

fun apply_setting :: "int \<Rightarrow> setting \<Rightarrow> Bosncc \<Rightarrow> Bosncc" where
  "apply_setting run_model (Set_port p) b = SetListenport run_model p b"
| "apply_setting run_model (Set_business f) b = SetBusinessFunction run_model f b"
| "apply_setting run_model (Set_timeout n) b = b_SetTimeout n b"
| "apply_setting run_model (Set_encrypt e) b = SetEncrypt e b"

inductive api_step :: "statics \<Rightarrow> statics \<Rightarrow> bool" where
  get_instance: "GetInstance held s = (p, s') \<Longrightarrow> api_step s s'"
| set_model: "SetRunoModel Type s = (r, s') \<Longrightarrow> api_step s s'"
| setting: "m_Instance s = Some b \<Longrightarrow> api_step s (s\<lparr>m_Instance := Some (apply_setting (RunModel s) c b)\<rparr>)"
| init: "m_Instance s = Some b \<Longrightarrow> Init r (RunModel s) b = (code, b', tr) \<Longrightarrow> api_step s (s\<lparr>m_Instance := Some b'\<rparr>)"
| start: "m_Instance s = Some b \<Longrightarrow> Start loop (RunModel s) b = (code, b') \<Longrightarrow> api_step s (s\<lparr>m_Instance := Some b'\<rparr>)"

inductive_cases api_stepE: "api_step s s'"

definition statics_ok :: "statics \<Rightarrow> bool" where
  "statics_ok s \<longleftrightarrow> (CreatInstance s \<longleftrightarrow> m_Instance s \<noteq> None) \<and> RunModel s \<in> {0, 1, 2} \<and>
     (RunSetModel s \<longleftrightarrow> RunModel s \<noteq> 0)"

lemma GetInstance_simps:
  "GetInstance held s = (if m_Instance s = None \<and> \<not> CreatInstance s
     then (Some (held\<lparr>Started := False\<rparr>), s\<lparr>CreatInstance := True, m_Instance := Some (held\<lparr>Started := False\<rparr>)\<rparr>)
     else (m_Instance s, s))"
  by (simp add: GetInstance_def Bosncc_new_def)

lemma SetRunoModel_simps:
  "SetRunoModel Type s = (if \<not> RunSetModel s \<and> Type \<in> {1, 2} then (Type, s\<lparr>RunModel := Type, RunSetModel := True\<rparr>) else (- 1, s))"
  by (auto simp: SetRunoModel_def)

lemma api_step_ok:
  assumes "api_step s s'" "statics_ok s"
  shows "statics_ok s'" "RunSetModel s \<Longrightarrow> RunSetModel s' \<and> RunModel s' = RunModel s" "m_Instance s \<noteq> None \<Longrightarrow> m_Instance s' \<noteq> None"
  using assms by (auto elim!: api_stepE simp: statics_ok_def GetInstance_simps SetRunoModel_simps split: if_splits)
    (metis)+

lemma api_steps_ok:
  assumes "api_step\<^sup>*\<^sup>* s s'" "statics_ok s"
  shows "statics_ok s' \<and> (RunSetModel s \<longrightarrow> RunSetModel s' \<and> RunModel s' = RunModel s) \<and>
    (m_Instance s \<noteq> None \<longrightarrow> m_Instance s' \<noteq> None)"
  using assms(1)
proof (induction rule: rtranclp_induct)
  case (step t u)
  then show ?case using api_step_ok [OF step.hyps(2)] by simp
qed (use assms(2) in simp)

lemma statics0_ok: "statics_ok statics0"
  by (simp add: statics_ok_def statics0_def)

lemma apply_setting_started:
  "Started b \<Longrightarrow> Listenport (apply_setting m c b) = Listenport b \<and>
     b_Business_CallBack (apply_setting m c b) = b_Business_CallBack b \<and> Started (apply_setting m c b)"
  by (cases c) (simp_all add: SetListenport_def SetBusinessFunction_def b_SetTimeout_def SetEncrypt_def)

lemma apply_settings_started:
  "Started b \<Longrightarrow> Listenport (fold (apply_setting m) cs b) = Listenport b \<and>
     b_Business_CallBack (fold (apply_setting m) cs b) = b_Business_CallBack b \<and> Started (fold (apply_setting m) cs b)"
  by (induction cs arbitrary: b) (simp_all add: apply_setting_started)

section \<open>Byte order\<close>

lemma unat_htons: "unat (htons v) = unat v mod 256 * 256 + unat v div 256 mod 256"
proof -
  have l: "unat (LOBYTE w) = unat w mod 256" "unat (HIBYTE w) = unat w div 256" for w :: u16
  proof -
    show "unat (LOBYTE w) = unat w mod 256" by (simp add: LOBYTE_def unsigned_ucast_eq take_bit_eq_mod)
    have "unat w < 65536" using unsigned_less [of w] by simp
    then have "unat w div 256 < 256" by (simp add: less_mult_imp_div_less)
    then show "unat (HIBYTE w) = unat w div 256"
      by (simp add: HIBYTE_def unsigned_ucast_eq take_bit_eq_mod unsigned_drop_bit_eq drop_bit_eq_div unat_div)
  qed
  have mk: "unat (MAKEWORD a b) = unat a + 256 * unat b" for a b :: u8
  proof -
    have "MAKEWORD a b = ucast a + push_bit 8 (ucast b)"
      unfolding MAKEWORD_def by (rule disjunctive_add [symmetric]) (auto simp: bit_simps dest!: bit_imp_le_length)
    also have "\<dots> = word_of_nat (unat a + 256 * unat b)"
    proof -
      have "(ucast x :: u16) = word_of_nat (unat x)" for x :: u8 by (simp add: unsigned_ucast_eq)
      then show ?thesis by (simp add: push_bit_eq_mult mult.commute)
    qed
    finally have "MAKEWORD a b = word_of_nat (unat a + 256 * unat b)" .
    moreover have "unat (word_of_nat k :: u16) = k" if "k < 65536" for k
      using that by (simp add: unat_of_nat)
    moreover have "unat a + 256 * unat b < 65536" using u8_less [of a] u8_less [of b] by linarith
    ultimately show ?thesis by (simp only:)
  qed
  have "unat (ucast v :: u16) = unat v mod 65536" by (simp add: unsigned_ucast_eq take_bit_eq_mod)
  then have "unat (HIBYTE (ucast v :: u16)) = unat v div 256 mod 256" "unat (LOBYTE (ucast v :: u16)) = unat v mod 256"
    by (simp_all add: l mod_mod_cancel) (simp add: mod_mult2_eq [of _ 256 256, simplified] div_mult2_eq)
  then show ?thesis by (simp add: htons_def mk)
qed

section \<open>What the core promises\<close>

text \<open>C15: However a program orders its calls, the instance is created at most once and never goes away. The
  first \<open>GetInstance\<close> constructs it and sets the flag; once it exists, now and after any further calls, \<open>GetInstance\<close>
  returns it and changes nothing, whatever fresh memory holds. The creation flag tells whether it exists, and the run
  model is unset until it is set to client or server for good: no later call changes it.\<close>

theorem model_set_once:
  assumes "api_step\<^sup>*\<^sup>* statics0 s" "api_step\<^sup>*\<^sup>* s s'"
  shows "(CreatInstance s \<longleftrightarrow> m_Instance s \<noteq> None) \<and>
    GetInstance held s = (if m_Instance s \<noteq> None then (m_Instance s, s)
      else (Some (held\<lparr>Started := False\<rparr>), s\<lparr>CreatInstance := True, m_Instance := Some (held\<lparr>Started := False\<rparr>)\<rparr>)) \<and>
    (m_Instance s \<noteq> None \<longrightarrow> m_Instance s' \<noteq> None \<and> GetInstance held s' = (m_Instance s', s')) \<and>
    (RunModel s = 0 \<and> \<not> RunSetModel s \<or> RunModel s \<in> {BOSNCC_MODEL_CLIENT, BOSNCC_MODEL_SERVER} \<and> RunSetModel s) \<and>
    (RunSetModel s \<longrightarrow> RunModel s' = RunModel s \<and> fst (SetRunoModel Type s') = - 1)"
proof -
  have s: "statics_ok s" using api_steps_ok [OF assms(1) statics0_ok] by blast
  from api_steps_ok [OF assms(2) s] s show ?thesis
    by (auto simp: statics_ok_def SetRunoModel_simps GetInstance_simps)
qed

lemma model_set_once_witness:
  "fst (SetRunoModel 1 (snd (SetRunoModel 2 statics0))) = - 1 \<and>
   (\<forall>held. CreatInstance (snd (GetInstance held (snd (SetRunoModel 2 statics0)))))"
proof -
  have "api_step statics0 (snd (SetRunoModel 2 statics0))"
    by (rule api_step.set_model [where Type = 2 and r = "fst (SetRunoModel 2 statics0)"]) simp
  then have "api_step\<^sup>*\<^sup>* statics0 (snd (SetRunoModel 2 statics0))" by (rule r_into_rtranclp)
  from model_set_once [OF this rtranclp.rtrancl_refl, of _ 1] show ?thesis
    by (simp add: SetRunoModel_def statics0_def)
qed

text \<open>While the server's loop runs, whatever setters other code calls, the port and the business
  function stay as they were; \<open>Start\<close> refuses to run twice, does nothing in the other modes, and
  leaves the instance stopped.\<close>

lemma start_keeps_configuration:
  "case Start (fold (apply_setting run_model) cs) run_model b of (code, b') \<Rightarrow>
     code = (if run_model \<noteq> BOSNCC_MODEL_SERVER then - 1 else if Started b then - 2 else 0) \<and>
     Listenport b' = Listenport b \<and> b_Business_CallBack b' = b_Business_CallBack b \<and> Started b' = Started b \<and>
     (code \<noteq> 0 \<longrightarrow> b' = b)"
  using apply_settings_started [of "b\<lparr>Started := True\<rparr>" run_model cs]
  by (cases "run_model = BOSNCC_MODEL_SERVER") (simp_all add: Start_def Let_def)

text \<open>The call that fails first, as a code.\<close>

definition startup_failure :: "startup_results \<Rightarrow> int" where
  "startup_failure r =
     (if r_WSAStartup r \<noteq> 0 then -2
      else if r_wVersion r \<noteq> MAKEWORD 2 2 then -3
      else if r_socket r = INVALID_SOCKET then -4
      else if r_bind r = SOCKET_ERROR then -5
      else if r_listen r = SOCKET_ERROR then -6
      else if r_CreateThreadpool r = None then -7
      else if r_event_base_new r = None then -8 else 0)"

lemma version_22: "LOBYTE w \<noteq> 2 \<or> HIBYTE w \<noteq> 2 \<longleftrightarrow> w \<noteq> MAKEWORD 2 2"
proof -
  have "LOBYTE w = 2 \<and> HIBYTE w = 2 \<longleftrightarrow> w = MAKEWORD 2 2"
  proof
    assume "LOBYTE w = 2 \<and> HIBYTE w = 2"
    then have "MAKEWORD (LOBYTE w) (HIBYTE w) = MAKEWORD 2 2" by simp
    moreover have "MAKEWORD (LOBYTE w) (HIBYTE w) = w"
    proof (rule bit_word_eqI)
      fix n assume "n < LENGTH(16)"
      then show "bit (MAKEWORD (LOBYTE w) (HIBYTE w)) n = bit w n"
        by (auto simp: MAKEWORD_def LOBYTE_def HIBYTE_def bit_simps)
    qed
    ultimately show "w = MAKEWORD 2 2" by simp
  next
    assume "w = MAKEWORD 2 2"
    moreover have "LOBYTE (MAKEWORD 2 2) = 2 \<and> HIBYTE (MAKEWORD 2 2) = 2" by code_simp
    ultimately show "LOBYTE w = 2 \<and> HIBYTE w = 2" by simp
  qed
  then show ?thesis by blast
qed

lemma ServerInit_outcome:
  "case ServerInit r BOSNCC_MODEL_SERVER b of (code, b', tr) \<Rightarrow>
     code = startup_failure r \<and>
     (code = 0 \<longrightarrow> Bosncc_Socket b' = r_socket r \<and> WindowsThreadPool b' \<noteq> None \<and> Main_Base b' \<noteq> None \<and>
        sin_port (Bosncc_Server_addr_in b') = htons (Listenport b) \<and> last tr = Accept_event (r_socket r)) \<and>
     (code \<noteq> - 2 \<longrightarrow> (WSACleanup \<in> set tr \<longleftrightarrow> code \<in> {- 3, - 5})) \<and>
     (Open_socket (r_socket r) \<in> set tr \<and> Closesocket (r_socket r) \<notin> set tr \<longleftrightarrow> code \<in> {0, - 6, - 7, - 8})"
proof (cases "r_wVersion r = MAKEWORD 2 2")
  case True
  then have "LOBYTE (r_wVersion r) = 2" "HIBYTE (r_wVersion r) = 2" using version_22 [of "r_wVersion r"] by simp_all
  with True show ?thesis
    by (cases "r_CreateThreadpool r"; cases "r_event_base_new r"; simp add: ServerInit_def startup_failure_def Let_def)
next
  case False
  then have "LOBYTE (r_wVersion r) = 2 \<Longrightarrow> HIBYTE (r_wVersion r) \<noteq> 2" using version_22 [of "r_wVersion r"] by blast
  with False show ?thesis
    by (cases "LOBYTE (r_wVersion r) = 2"; simp add: ServerInit_def startup_failure_def Let_def)
qed

text \<open>C16: The code \<open>ServerInit\<close> returns tells the call that failed; on success the instance holds the
  socket, the pool and the event base, bound to the low 16 bits of the port in network order. A
  failure is cleaned up only by the codes -3 and -5: after -4, -6, -7 and -8 Windows sockets stays
  started, and after -6, -7 and -8 the socket stays open.\<close>

theorem server_startup:
  "case ServerInit r BOSNCC_MODEL_SERVER b of (code, b', tr) \<Rightarrow>
     code = startup_failure r \<and>
     (code = 0 \<longrightarrow> Bosncc_Socket b' = r_socket r \<and> WindowsThreadPool b' \<noteq> None \<and> Main_Base b' \<noteq> None \<and>
        unat (sin_port (Bosncc_Server_addr_in b')) = unat (Listenport b) mod 256 * 256 + unat (Listenport b) div 256 mod 256 \<and>
        last tr = Accept_event (r_socket r)) \<and>
     (code \<noteq> - 2 \<longrightarrow> (WSACleanup \<in> set tr \<longleftrightarrow> code \<in> {- 3, - 5})) \<and>
     (Open_socket (r_socket r) \<in> set tr \<and> Closesocket (r_socket r) \<notin> set tr \<longleftrightarrow> code \<in> {0, - 6, - 7, - 8})"
  using ServerInit_outcome [of r b] by (simp add: case_prod_beta unat_htons)

text \<open>\<open>AddTask\<close> submits a task exactly when it returns 0, and only then turns it to sending; a failed
  connection closes its socket; the other failures open none. It never touches the message or the
  state of the transfer.\<close>

lemma task_added:
  "case AddTask inet_ntoa inet_addr r BOSNCC_MODEL_CLIENT t of (code, t', tr) \<Rightarrow>
     code \<in> {0, - 2, - 3, - 4, - 5} \<and>
     (Submit_work \<in> set tr \<longleftrightarrow> code = 0) \<and>
     TaskMode t' = (if code = 0 then 100 else TaskMode t) \<and>
     (code = 0 \<longrightarrow> Open_socket (ConnectSocket t') \<in> set tr \<and> Closesocket (ConnectSocket t') \<notin> set tr \<and>
        Connect (ConnectSocket t') (ConnectSocketAddr_in t') \<in> set tr \<and>
        sin_port (ConnectSocketAddr_in t') = htons (Connectport t)) \<and>
     (code = - 5 \<longrightarrow> Closesocket (ConnectSocket t') \<in> set tr) \<and>
     (code \<notin> {0, - 5} \<longrightarrow> tr = []) \<and>
     m_ConnectProtocol t' = m_ConnectProtocol t \<and> DataBuff t' = DataBuff t"
  by (simp add: AddTask_def Let_def SetTaskMode_def split: sum.split)

definition blank_instance :: Bosncc where
  "blank_instance = \<lparr>Started = False, Listenport = 7777, WindowsThreadPool = None,
     Bosncc_Server_addr_in = \<lparr>sin_family = 0, sin_port = 0, sin_addr = 0\<rparr>, wVersionRequested = 0, wsaData_wVersion = 0,
     b_Business_CallBack = None, b_Encrypt = False, b_Timeout = 0, Bosncc_Socket = 0, Main_Base = None\<rparr>"

lemma start_keeps_configuration_witness:
  "Listenport (snd (Start (fold (apply_setting 2) [Set_port 80, Set_timeout 3]) 2 blank_instance)) = 7777"
  using start_keeps_configuration [where run_model = 2 and cs = "[Set_port 80, Set_timeout 3]" and b = blank_instance]
  by (simp add: case_prod_beta blank_instance_def)

lemma server_startup_witness:
  "fst (ServerInit \<lparr>r_WSAStartup = 0, r_wVersion = MAKEWORD 2 2, r_socket = 3, r_bind = 0, r_listen = - 1,
       r_CreateThreadpool = None, r_event_base_new = None\<rparr> 2 blank_instance) = - 6 \<and>
   WSACleanup \<notin> set (snd (snd (ServerInit \<lparr>r_WSAStartup = 0, r_wVersion = MAKEWORD 2 2, r_socket = 3, r_bind = 0,
       r_listen = - 1, r_CreateThreadpool = None, r_event_base_new = None\<rparr> 2 blank_instance)))"
  using server_startup [of "\<lparr>r_WSAStartup = 0, r_wVersion = MAKEWORD 2 2, r_socket = 3, r_bind = 0, r_listen = - 1,
       r_CreateThreadpool = None, r_event_base_new = None\<rparr>" blank_instance]
  by (simp add: case_prod_beta startup_failure_def)

lemma task_added_witness:
  "Submit_work \<notin> set (snd (snd (AddTask (\<lambda>_. ''127.0.0.1'') (\<lambda>_. 16777343)
     \<lparr>r_getaddrinfo = Inl 11001, r_client_socket = 4, r_connect = 0\<rparr> 1 sample_task)))"
proof -
  have "fst (AddTask (\<lambda>_. ''127.0.0.1'') (\<lambda>_. 16777343)
     \<lparr>r_getaddrinfo = Inl 11001, r_client_socket = 4, r_connect = 0\<rparr> 1 sample_task) = - 2"
    by (simp add: AddTask_def)
  then show ?thesis
    using task_added [where inet_ntoa = "\<lambda>_. ''127.0.0.1''" and inet_addr = "\<lambda>_. 16777343" and
        r = "\<lparr>r_getaddrinfo = Inl 11001, r_client_socket = 4, r_connect = 0\<rparr>" and t = sample_task]
    by (simp only: case_prod_beta)
qed

end
