(* ===== verification/Callbacks.thy ===== *)
theory Callbacks
  imports Bosncc
begin

text \<open>
  The event callbacks of \<open>Bosnnc.cpp\<close> (lines 260 to 485), one definition for each paragraph of the
  source: accepting a connection, reading a request, writing an answer, and the work item that runs
  the event loop of one connection. Which events libevent raises, and in which order, is the list of
  events given to \<open>dispatch\<close>; between two events the environment may change in any way.
\<close>

section \<open>A connection\<close>

text \<open>\<open>c_actions\<close> lists the calls made on the socket and on libevent, the last one last.\<close>

datatype action = CloseSocket int | LoopBreak | EnableRead | EnableWrite
  | SetTimeouts u32 | BevFree | DeleteTask

record 'e conn =
  c_task :: ThreadTask
  c_env :: 'e
  c_actions :: "action list"

definition act :: "action list \<Rightarrow> 'e conn \<Rightarrow> 'e conn" where
  "act as c = c\<lparr>c_actions := c_actions c @ as\<rparr>"

definition hang_up :: "int \<Rightarrow> 'e conn \<Rightarrow> 'e conn" where
  "hang_up fd c = act [CloseSocket fd, LoopBreak] c"

section \<open>Reading\<close>

text \<open>
  \<open>bufferevent_read\<close> stores the bytes it has, at most as many as asked for, over the first bytes of
  a little-endian integer.
\<close>

definition store_u32 :: "bytes \<Rightarrow> u32 \<Rightarrow> u32" where
  "store_u32 bs v = ReadLittleEndian32FromArray (bs @ drop (length bs) (WriteLittleEndian32ToArray v))"

definition read_length :: "'e platform \<Rightarrow> 'e conn \<Rightarrow> 'e conn" where
  "read_length P c =
     (if DataLenth_All_Done (c_task c) then c
      else let (bs, e) = bufferevent_read P 4 (c_env c);
               t = (c_task c)\<lparr>DataLenth_All := store_u32 bs (DataLenth_All (c_task c))\<rparr>;
               t = (if length bs > 0 then t\<lparr>DataLenth_All_Done := True\<rparr> else t)
           in c\<lparr>c_task := t, c_env := e\<rparr>)"

text \<open>A \<open>bool\<close> that was read as a byte is true when the byte is not zero.\<close>

definition read_encrypt :: "'e platform \<Rightarrow> 'e conn \<Rightarrow> 'e conn" where
  "read_encrypt P c =
     (if \<not> EncryptDone (c_task c) \<and> DataLenth_All_Done (c_task c)
      then let (bs, e) = bufferevent_read P 1 (c_env c); t = c_task c;
               t = (case bs of [] \<Rightarrow> t | b # _ \<Rightarrow> t\<lparr>Encrypt := b \<noteq> 0\<rparr>);
               t = (if length bs > 0 then t\<lparr>EncryptDone := True\<rparr> else t)
           in c\<lparr>c_task := t, c_env := e\<rparr>
      else c)"

definition read_verification :: "'e platform \<Rightarrow> 'e conn \<Rightarrow> 'e conn" where
  "read_verification P c =
     (if \<not> Verification_Done (c_task c) \<and> EncryptDone (c_task c)
      then let (bs, e) = bufferevent_read P 4 (c_env c);
               t = (c_task c)\<lparr>Verification := store_u32 bs (Verification (c_task c))\<rparr>;
               t = (if length bs > 0 then t\<lparr>Verification_Done := True\<rparr> else t)
           in c\<lparr>c_task := t, c_env := e\<rparr>
      else c)"

text \<open>The first component of the result tells that the callback returns here.\<close>

definition check_header :: "'e platform \<Rightarrow> int \<Rightarrow> 'e conn \<Rightarrow> fault + (bool \<times> 'e conn)" where
  "check_header P fd c =
     (if Verification_Ok (c_task c) = False \<and> Verification_Done (c_task c)
      then and_then (DataOperationReady P (c_task c) (c_env c))
             (\<lambda>(r, t, e). let c = c\<lparr>c_task := t, c_env := e\<rparr>
                          in if r < 0 then Inr (True, hang_up fd c) else Inr (False, c))
      else Inr (False, c))"

definition read_body :: "'e platform \<Rightarrow> 'e conn \<Rightarrow> fault + 'e conn" where
  "read_body P c =
     (let t = c_task c
      in if Verification_Ok t \<and> DataLenth_Remaining t \<noteq> 0
         then let (bs, e) = bufferevent_read P (unat (DataLenth_Remaining t)) (c_env c)
              in and_then (store_block bs (unat (DataLenth_Already t)) (DataBuff t))
                   (\<lambda>p. Inr (c\<lparr>c_task := t\<lparr>DataBuff := p,
                              DataLenth_Already := DataLenth_Already t + of_nat (length bs),
                              DataLenth_Remaining := DataLenth_Remaining t - of_nat (length bs)\<rparr>,
                             c_env := e\<rparr>))
         else Inr c)"

text \<open>
  The switch on the result of the business function: \<open>case 2\<close> has no \<open>break\<close> and runs into the
  default.
\<close>

definition read_switch :: "int \<Rightarrow> int \<Rightarrow> 'e conn \<Rightarrow> 'e conn" where
  "read_switch code fd c =
     (if code = 1 then act [EnableWrite] (c\<lparr>c_task := SetTaskMode 100 (c_task c)\<rparr>)
      else let c = (if code = 2 then hang_up fd c else c) in hang_up fd c)"

definition call_business :: "int \<Rightarrow> 'e conn \<Rightarrow> fault + (int \<times> 'e conn)" where
  "call_business arg c =
     (case Business_CallBack (c_task c) of
        None \<Rightarrow> Inl Null_pointer
      | Some f \<Rightarrow> (let (code, m) = f (m_ConnectProtocol (c_task c)) arg
                  in Inr (code, c\<lparr>c_task := (c_task c)\<lparr>m_ConnectProtocol := m\<rparr>\<rparr>)))"

definition read_done :: "int \<Rightarrow> 'e conn \<Rightarrow> fault + 'e conn" where
  "read_done fd c =
     (if Verification_Ok (c_task c) \<and> DataLenth_Remaining (c_task c) = 0
      then and_then (DataOperationEnd (c_task c))
             (\<lambda>(r, t). let c = c\<lparr>c_task := t\<rparr>
                       in if r = 0
                          then and_then (call_business 300 c) (\<lambda>(code, c). Inr (read_switch code fd c))
                          else Inr (hang_up fd c))
      else Inr c)"

definition On_Read_CallBack :: "'e platform \<Rightarrow> Bosncc option \<Rightarrow> int \<Rightarrow> 'e conn \<Rightarrow> fault + 'e conn" where
  "On_Read_CallBack P m_instance fd c =
     (if m_instance = None then Inr c
      else if GetTaskMode (c_task c) \<noteq> 300 then Inr c
      else let c = read_length P c; c = read_encrypt P c; c = read_verification P c
           in and_then (check_header P fd c)
                (\<lambda>(returned, c). if returned then Inr c else and_then (read_body P c) (read_done fd)))"

section \<open>Writing\<close>

definition write_prepare :: "'e platform \<Rightarrow> 'e conn \<Rightarrow> fault + 'e conn" where
  "write_prepare P c =
     (if DataOperationStatus (c_task c) = False
      then and_then (DataOperationReady P (c_task c) (c_env c))
             (\<lambda>(r, t, e). Inr (c\<lparr>c_task := t, c_env := e\<rparr>))
      else Inr c)"

definition write_length :: "'e platform \<Rightarrow> 'e conn \<Rightarrow> 'e conn" where
  "write_length P c =
     (if \<not> DataLenth_All_Done (c_task c)
      then let (n, e) = sock_send P (WriteLittleEndian32ToArray (DataLenth_All (c_task c))) (c_env c);
               t = (if n > 0 then (c_task c)\<lparr>DataLenth_All_Done := True\<rparr> else c_task c)
           in c\<lparr>c_task := t, c_env := e\<rparr>
      else c)"

definition write_encrypt :: "'e platform \<Rightarrow> 'e conn \<Rightarrow> 'e conn" where
  "write_encrypt P c =
     (if \<not> EncryptDone (c_task c)
      then let (n, e) = sock_send P [if Encrypt (c_task c) then 1 else 0] (c_env c);
               t = (if n > 0 then (c_task c)\<lparr>EncryptDone := True\<rparr> else c_task c)
           in c\<lparr>c_task := t, c_env := e\<rparr>
      else c)"

definition write_verification :: "'e platform \<Rightarrow> 'e conn \<Rightarrow> 'e conn" where
  "write_verification P c =
     (if \<not> Verification_Done (c_task c)
      then let (n, e) = sock_send P (WriteLittleEndian32ToArray (Verification (c_task c))) (c_env c);
               t = (if n > 0 then (c_task c)\<lparr>Verification_Done := True\<rparr> else c_task c)
           in c\<lparr>c_task := t, c_env := e\<rparr>
      else c)"

text \<open>\<open>send\<close> takes its length as an \<open>int\<close>; \<open>sendcount\<close> is added also when it is negative.\<close>

definition write_body :: "'e platform \<Rightarrow> 'e conn \<Rightarrow> fault + 'e conn" where
  "write_body P c =
     (let t = c_task c
      in if Verification_Ok t = True \<and> DataLenth_Remaining t \<noteq> 0
         then if sint (DataLenth_Remaining t) < 0 then Inl Out_of_bounds
              else and_then (load_block (unat (DataLenth_Already t)) (unat (DataLenth_Remaining t)) (DataBuff t))
                (\<lambda>bs. let (n, e) = sock_send P bs (c_env c)
                      in Inr (c\<lparr>c_task := t\<lparr>DataLenth_Already := DataLenth_Already t + word_of_int n,
                                          DataLenth_Remaining := DataLenth_Remaining t - word_of_int n\<rparr>,
                               c_env := e\<rparr>))
         else Inr c)"

definition write_done :: "'e conn \<Rightarrow> fault + 'e conn" where
  "write_done c =
     (if Verification_Ok (c_task c) = True \<and> DataLenth_Remaining (c_task c) = 0
      then and_then (call_business 100 c)
             (\<lambda>(code, c). and_then (DataOperationEnd (c_task c))
               (\<lambda>(r, t). let c = c\<lparr>c_task := t\<rparr>
                         in if r = 0 then Inr (act [EnableRead] (c\<lparr>c_task := SetTaskMode 300 (c_task c)\<rparr>))
                            else Inr c))
      else Inr c)"

definition On_Write_CallBack :: "'e platform \<Rightarrow> Bosncc option \<Rightarrow> int \<Rightarrow> 'e conn \<Rightarrow> fault + 'e conn" where
  "On_Write_CallBack P m_instance fd c =
     (if m_instance = None then Inr c
      else if GetTaskMode (c_task c) \<noteq> 100 then Inr c
      else and_then (write_prepare P c)
        (\<lambda>c. let c = write_length P c; c = write_encrypt P c; c = write_verification P c
             in and_then (write_body P c) write_done))"

section \<open>Errors, accepting, and the work item of a connection\<close>

definition On_Error_CallBack :: "Bosncc option \<Rightarrow> int \<Rightarrow> 'e conn \<Rightarrow> 'e conn" where
  "On_Error_CallBack m_instance fd c = (if m_instance = None then c else act [CloseSocket fd] c)"

text \<open>
  The new task is built from what \<open>event_base_new\<close>, \<open>GetCurrentThreadId\<close> and the uninitialised
  members give; the result is the task that was submitted to the thread pool, if one was, and the
  tasks allocated and given to nobody.
\<close>

definition On_Accept_CallBack ::
  "ThreadTask \<Rightarrow> int \<times> sockaddr_in \<Rightarrow> statics \<Rightarrow> fault + (ThreadTask option \<times> ThreadTask list)" where
  "On_Accept_CallBack new_ThreadTask accepted s =
     (if RunModel s \<noteq> BOSNCC_MODEL_SERVER then Inr (None, [])
      else if \<not> CreatInstance s then Inr (None, [])
      else case m_Instance s of
        None \<Rightarrow> Inl Null_pointer
      | Some b \<Rightarrow>
          (let t = SetTaskMode 300 new_ThreadTask;
               t = t\<lparr>Encrypt := b_Encrypt b\<rparr>;
               t = SetTimeout (b_Timeout b) t;
               t = t\<lparr>Business_CallBack := b_Business_CallBack b\<rparr>;
               t = t\<lparr>ConnectSocket := fst accepted, ConnectSocketAddr_in := snd accepted\<rparr>
           in if ConnectSocket t = SOCKET_ERROR then Inr (None, [t]) else Inr (Some t, [])))"

datatype 'e event = Readable | Writable | Failed | Elsewhere "'e \<Rightarrow> 'e"

definition handle :: "'e platform \<Rightarrow> Bosncc option \<Rightarrow> 'e event \<Rightarrow> 'e conn \<Rightarrow> fault + 'e conn" where
  "handle P m_instance ev c =
     (let fd = ConnectSocket (c_task c)
      in case ev of
           Readable \<Rightarrow> On_Read_CallBack P m_instance fd c
         | Writable \<Rightarrow> On_Write_CallBack P m_instance fd c
         | Failed \<Rightarrow> Inr (On_Error_CallBack m_instance fd c)
         | Elsewhere f \<Rightarrow> Inr (c\<lparr>c_env := f (c_env c)\<rparr>))"

text \<open>The loop of libevent: it ends when told to, or with the events.\<close>

fun dispatch :: "'e platform \<Rightarrow> Bosncc option \<Rightarrow> 'e event list \<Rightarrow> 'e conn \<Rightarrow> fault + 'e conn" where
  "dispatch P m_instance [] c = Inr c"
| "dispatch P m_instance (ev # evs) c =
     (if LoopBreak \<in> set (c_actions c) then Inr c
      else and_then (handle P m_instance ev c) (dispatch P m_instance evs))"

definition ServerThreadPoolWorking ::
  "'e platform \<Rightarrow> int \<Rightarrow> Bosncc option \<Rightarrow> u32 \<Rightarrow> 'e event list \<Rightarrow> ThreadTask \<Rightarrow> 'e \<Rightarrow> fault + 'e conn" where
  "ServerThreadPoolWorking P run_model m_instance current_thread evs t e =
     (let t = snd (ThreadRegistered current_thread t);
          c = \<lparr>c_task = t, c_env = e, c_actions = [SetTimeouts (GetTimeout t)]\<rparr>;
          mode = GetTaskMode t div 100
      in if mode = 1 \<or> mode = 3
         then let c = act [if mode = 1 then EnableWrite else EnableRead] c
              in and_then (dispatch P m_instance evs c) (\<lambda>c. Inr (act [BevFree, DeleteTask] c))
         else Inr (act (BevFree # (if run_model = BOSNCC_MODEL_SERVER then [DeleteTask] else [])) c))"

section \<open>Frames of the header steps\<close>

text \<open>What the three reads of the header leave alone.\<close>

lemma read_length_frame [task_simps]:
  "TaskMode (c_task (read_length P c)) = TaskMode (c_task c)"
  "Verification_Ok (c_task (read_length P c)) = Verification_Ok (c_task c)"
  "DataLenth_Already (c_task (read_length P c)) = DataLenth_Already (c_task c)"
  "DataLenth_Remaining (c_task (read_length P c)) = DataLenth_Remaining (c_task c)"
  "DataBuff (c_task (read_length P c)) = DataBuff (c_task c)"
  "DataOperationStatus (c_task (read_length P c)) = DataOperationStatus (c_task c)"
  "m_ConnectProtocol (c_task (read_length P c)) = m_ConnectProtocol (c_task c)"
  "Business_CallBack (c_task (read_length P c)) = Business_CallBack (c_task c)"
  "ConnectSocket (c_task (read_length P c)) = ConnectSocket (c_task c)"
  "c_actions (read_length P c) = c_actions c"
  by (simp_all add: read_length_def case_prod_beta Let_def)

lemma read_encrypt_frame [task_simps]:
  "TaskMode (c_task (read_encrypt P c)) = TaskMode (c_task c)"
  "Verification_Ok (c_task (read_encrypt P c)) = Verification_Ok (c_task c)"
  "DataLenth_All (c_task (read_encrypt P c)) = DataLenth_All (c_task c)"
  "DataLenth_Already (c_task (read_encrypt P c)) = DataLenth_Already (c_task c)"
  "DataLenth_Remaining (c_task (read_encrypt P c)) = DataLenth_Remaining (c_task c)"
  "DataBuff (c_task (read_encrypt P c)) = DataBuff (c_task c)"
  "DataOperationStatus (c_task (read_encrypt P c)) = DataOperationStatus (c_task c)"
  "m_ConnectProtocol (c_task (read_encrypt P c)) = m_ConnectProtocol (c_task c)"
  "Business_CallBack (c_task (read_encrypt P c)) = Business_CallBack (c_task c)"
  "ConnectSocket (c_task (read_encrypt P c)) = ConnectSocket (c_task c)"
  "c_actions (read_encrypt P c) = c_actions c"
  by (simp_all add: read_encrypt_def case_prod_beta Let_def split: list.split)

lemma read_verification_frame [task_simps]:
  "TaskMode (c_task (read_verification P c)) = TaskMode (c_task c)"
  "Verification_Ok (c_task (read_verification P c)) = Verification_Ok (c_task c)"
  "DataLenth_All (c_task (read_verification P c)) = DataLenth_All (c_task c)"
  "DataLenth_Already (c_task (read_verification P c)) = DataLenth_Already (c_task c)"
  "DataLenth_Remaining (c_task (read_verification P c)) = DataLenth_Remaining (c_task c)"
  "DataBuff (c_task (read_verification P c)) = DataBuff (c_task c)"
  "DataOperationStatus (c_task (read_verification P c)) = DataOperationStatus (c_task c)"
  "m_ConnectProtocol (c_task (read_verification P c)) = m_ConnectProtocol (c_task c)"
  "Business_CallBack (c_task (read_verification P c)) = Business_CallBack (c_task c)"
  "ConnectSocket (c_task (read_verification P c)) = ConnectSocket (c_task c)"
  "c_actions (read_verification P c) = c_actions c"
  by (simp_all add: read_verification_def case_prod_beta Let_def)

text \<open>The same for the three sends.\<close>

lemma write_length_frame [task_simps]:
  "TaskMode (c_task (write_length P c)) = TaskMode (c_task c)"
  "Verification_Ok (c_task (write_length P c)) = Verification_Ok (c_task c)"
  "DataLenth_All (c_task (write_length P c)) = DataLenth_All (c_task c)"
  "DataLenth_Already (c_task (write_length P c)) = DataLenth_Already (c_task c)"
  "DataLenth_Remaining (c_task (write_length P c)) = DataLenth_Remaining (c_task c)"
  "DataBuff (c_task (write_length P c)) = DataBuff (c_task c)"
  "DataOperationStatus (c_task (write_length P c)) = DataOperationStatus (c_task c)"
  "Encrypt (c_task (write_length P c)) = Encrypt (c_task c)"
  "Verification (c_task (write_length P c)) = Verification (c_task c)"
  "m_ConnectProtocol (c_task (write_length P c)) = m_ConnectProtocol (c_task c)"
  "Business_CallBack (c_task (write_length P c)) = Business_CallBack (c_task c)"
  "ConnectSocket (c_task (write_length P c)) = ConnectSocket (c_task c)"
  "c_actions (write_length P c) = c_actions c"
  by (simp_all add: write_length_def case_prod_beta Let_def)

lemma write_encrypt_frame [task_simps]:
  "TaskMode (c_task (write_encrypt P c)) = TaskMode (c_task c)"
  "Verification_Ok (c_task (write_encrypt P c)) = Verification_Ok (c_task c)"
  "DataLenth_All (c_task (write_encrypt P c)) = DataLenth_All (c_task c)"
  "DataLenth_Already (c_task (write_encrypt P c)) = DataLenth_Already (c_task c)"
  "DataLenth_Remaining (c_task (write_encrypt P c)) = DataLenth_Remaining (c_task c)"
  "DataBuff (c_task (write_encrypt P c)) = DataBuff (c_task c)"
  "DataOperationStatus (c_task (write_encrypt P c)) = DataOperationStatus (c_task c)"
  "Encrypt (c_task (write_encrypt P c)) = Encrypt (c_task c)"
  "Verification (c_task (write_encrypt P c)) = Verification (c_task c)"
  "m_ConnectProtocol (c_task (write_encrypt P c)) = m_ConnectProtocol (c_task c)"
  "Business_CallBack (c_task (write_encrypt P c)) = Business_CallBack (c_task c)"
  "ConnectSocket (c_task (write_encrypt P c)) = ConnectSocket (c_task c)"
  "c_actions (write_encrypt P c) = c_actions c"
  by (simp_all add: write_encrypt_def case_prod_beta Let_def)

lemma write_verification_frame [task_simps]:
  "TaskMode (c_task (write_verification P c)) = TaskMode (c_task c)"
  "Verification_Ok (c_task (write_verification P c)) = Verification_Ok (c_task c)"
  "DataLenth_All (c_task (write_verification P c)) = DataLenth_All (c_task c)"
  "DataLenth_Already (c_task (write_verification P c)) = DataLenth_Already (c_task c)"
  "DataLenth_Remaining (c_task (write_verification P c)) = DataLenth_Remaining (c_task c)"
  "DataBuff (c_task (write_verification P c)) = DataBuff (c_task c)"
  "DataOperationStatus (c_task (write_verification P c)) = DataOperationStatus (c_task c)"
  "Encrypt (c_task (write_verification P c)) = Encrypt (c_task c)"
  "Verification (c_task (write_verification P c)) = Verification (c_task c)"
  "m_ConnectProtocol (c_task (write_verification P c)) = m_ConnectProtocol (c_task c)"
  "Business_CallBack (c_task (write_verification P c)) = Business_CallBack (c_task c)"
  "ConnectSocket (c_task (write_verification P c)) = ConnectSocket (c_task c)"
  "c_actions (write_verification P c) = c_actions c"
  by (simp_all add: write_verification_def case_prod_beta Let_def)

lemma act_simps [simp]:
  "c_task (act as c) = c_task c" "c_env (act as c) = c_env c" "c_actions (act as c) = c_actions c @ as"
  "c_task (hang_up fd c) = c_task c" "c_env (hang_up fd c) = c_env c"
  "c_actions (hang_up fd c) = c_actions c @ [CloseSocket fd, LoopBreak]"
  by (simp_all add: act_def hang_up_def)

lemma store_u32_whole: "length bs = 4 \<Longrightarrow> store_u32 bs v = ReadLittleEndian32FromArray bs"
  by (simp add: store_u32_def)

lemma store_u32_Nil [simp]: "store_u32 [] v = v"
  using ReadLittleEndian32_Write [of v "[]"] by (simp add: store_u32_def)

lemma store_u32_written [simp]: "store_u32 (WriteLittleEndian32ToArray w) v = w"
  using ReadLittleEndian32_Write [of w "[]"] by (simp add: store_u32_def length_WriteLittleEndian)

section \<open>The invariant of a task\<close>

text \<open>
  A block being filled has room for what is still to come; its size does not depend on
  \<open>DataLenth_All\<close>, which a later header overwrites.
\<close>

definition filling :: "ThreadTask \<Rightarrow> nat \<Rightarrow> bool" where
  "filling t n \<longleftrightarrow> n < 2 ^ 31 \<and> unat (DataLenth_Already t) + unat (DataLenth_Remaining t) = n \<and>
     (n = 0 \<or> (\<exists>b. DataBuff t = Some b \<and> length b = n))"

definition task_ok :: "ThreadTask \<Rightarrow> bool" where
  "task_ok t \<longleftrightarrow> message_ok (m_ConnectProtocol t) \<and> \<not> DataOperationStatus t \<and>
     (TaskMode t = 300 \<and> Verification_Ok t \<longrightarrow> (\<exists>n. filling t n))"

lemma read_header_ok:
  "task_ok (c_task (read_verification P (read_encrypt P (read_length P c)))) = task_ok (c_task c)"
  by (simp add: task_ok_def filling_def task_simps)

lemma DataOperationReady_filling:
  assumes "platform_ok P" "memory_suffices P" "TaskMode t = 300" "unat (DataLenth_All t) < 2 ^ 31"
    "message_ok (m_ConnectProtocol t)"
  obtains (accepted) t' e' where "DataOperationReady P t e = Inr (1, t', e')" "Verification_Ok t'"
      "filling t' (unat (DataLenth_All t))" "message_ok (m_ConnectProtocol t')" "TaskMode t' = 300"
      "Business_CallBack t' = Business_CallBack t" "DataOperationStatus t' = DataOperationStatus t"
    | (refused) t' where "DataOperationReady P t e = Inr (- 1, t', e)" "\<not> Verification_Ok t'"
      "message_ok (m_ConnectProtocol t')" "TaskMode t' = 300"
      "Business_CallBack t' = Business_CallBack t" "DataOperationStatus t' = DataOperationStatus t"
proof (cases "Verification t = verification_code (DataLenth_All t) (Encrypt t)")
  case True
  obtain b e' where b: "malloc P (unat (DataLenth_All t)) e = (Some b, e')" "length b = unat (DataLenth_All t)"
    using mallocE [OF assms(1,2,4)] by blast
  show ?thesis
    by (rule accepted, simp add: DataOperationReady_receive assms(3) True b)
      (use assms b in \<open>simp_all add: filling_def message_ok_Clear\<close>)
next
  case False
  show ?thesis
    by (rule refused, simp add: DataOperationReady_receive assms(3) False) (use assms in simp_all)
qed

lemma read_body_filling:
  assumes "platform_ok P" "filling (c_task c) n" "Verification_Ok (c_task c)"
  obtains p a r e where "read_body P c = Inr (c\<lparr>c_task := (c_task c)\<lparr>DataBuff := p, DataLenth_Already := a,
      DataLenth_Remaining := r\<rparr>, c_env := e\<rparr>)"
    "filling ((c_task c)\<lparr>DataBuff := p, DataLenth_Already := a, DataLenth_Remaining := r\<rparr>) n"
proof (cases "DataLenth_Remaining (c_task c) = 0")
  case True
  have "(c_task c)\<lparr>DataBuff := DataBuff (c_task c), DataLenth_Already := DataLenth_Already (c_task c),
      DataLenth_Remaining := DataLenth_Remaining (c_task c)\<rparr> = c_task c" by simp
  with True assms(2) show ?thesis
    by (intro that [where p = "DataBuff (c_task c)" and a = "DataLenth_Already (c_task c)" and
          r = "DataLenth_Remaining (c_task c)" and e = "c_env c"])
      (simp_all add: read_body_def filling_def)
next
  case False
  let ?a = "DataLenth_Already (c_task c)" and ?r = "DataLenth_Remaining (c_task c)"
  have "unat ?r \<noteq> 0" using False by (simp add: unat_eq_0)
  then obtain b where b: "DataBuff (c_task c) = Some b" "length b = n" "n < 2 ^ 31" "unat ?a + unat ?r = n"
    using assms(2) by (auto simp: filling_def)
  obtain bs e where bs: "bufferevent_read P (unat ?r) (c_env c) = (bs, e)" by force
  have l: "length bs \<le> unat ?r" using platform_okD(2) [OF assms(1) bs] .
  have sb: "store_block bs (unat ?a) (Some b) = Inr (Some (take (unat ?a) b @ bs @ drop (unat ?a + length bs) b))"
    using l b by (intro store_block_in) simp
  have u: "unat (of_nat (length bs) :: u32) = length bs" using l b by (intro unat_small) simp
  have ua: "unat (?a + of_nat (length bs)) = unat ?a + length bs"
    using u l b by (subst unat_add_lem [THEN iffD1]) simp_all
  have ur: "unat (?r - of_nat (length bs)) = unat ?r - length bs"
    using u l by (subst unat_sub) (simp_all add: word_le_nat_alt)
  show ?thesis
    by (rule that [where p = "Some (take (unat ?a) b @ bs @ drop (unat ?a + length bs) b)" and
          a = "?a + of_nat (length bs)" and r = "?r - of_nat (length bs)" and e = e])
      (use l b in \<open>simp_all add: read_body_def Let_def assms(3) False bs sb filling_def ua ur\<close>)
qed

text \<open>A body that is sent from its first byte.\<close>

lemma write_body_whole:
  assumes "Verification_Ok (c_task c)" "DataLenth_Already (c_task c) = 0" "DataBuff (c_task c) = Some bs"
    "DataLenth_Remaining (c_task c) = of_nat (length bs)" "length bs < 2 ^ 31" "sock_send P bs (c_env c) = (n, e)"
  shows "write_body P c = Inr (if bs = [] then c
    else c\<lparr>c_task := (c_task c)\<lparr>DataLenth_Already := word_of_int n,
                               DataLenth_Remaining := of_nat (length bs) - word_of_int n\<rparr>, c_env := e\<rparr>)"
proof -
  have "(of_nat (length bs) :: u32) = 0 \<longleftrightarrow> bs = []"
    by (subst unat_eq_0 [symmetric]) (simp add: unat_small [OF assms(5)])
  moreover have "load_block 0 (length bs) (Some bs) = Inr bs" by (simp add: load_block_in)
  ultimately show ?thesis
    using assms unat_small [OF assms(5)] sint_small [OF assms(5)] by (simp add: write_body_def Let_def)
qed

text \<open>What the rest of a read event needs of the task after the header.\<close>

definition settled :: "business \<Rightarrow> ThreadTask \<Rightarrow> bool" where
  "settled f t \<longleftrightarrow> task_ok t \<and> Business_CallBack t = Some f"

text \<open>
  The contract between the component and the application: a business function keeps the message well
  formed. Under it no event of a connection leaves a block or goes through a null pointer.
\<close>

locale business_function =
  fixes f :: business
  assumes keeps_messages: "message_ok m \<Longrightarrow> message_ok (snd (f m a))"
begin

lemma call_business_ok:
  assumes "Business_CallBack (c_task c) = Some f" "message_ok (m_ConnectProtocol (c_task c))"
  obtains code m where "call_business a c = Inr (code, c\<lparr>c_task := (c_task c)\<lparr>m_ConnectProtocol := m\<rparr>\<rparr>)"
    "message_ok m" "f (m_ConnectProtocol (c_task c)) a = (code, m)"
  using assms keeps_messages [of "m_ConnectProtocol (c_task c)" a]
  by (cases "f (m_ConnectProtocol (c_task c)) a") (simp add: call_business_def)

lemma read_done_settled:
  assumes "settled f (c_task c)" "TaskMode (c_task c) = 300"
  shows "\<exists>c'. read_done fd c = Inr c' \<and> settled f (c_task c')"
proof (cases "Verification_Ok (c_task c) \<and> DataLenth_Remaining (c_task c) = 0")
  case True
  have m: "message_ok (m_ConnectProtocol (c_task c))" and st: "\<not> DataOperationStatus (c_task c)"
    using assms(1) by (simp_all add: settled_def task_ok_def)
  obtain n where n: "filling (c_task c) n" using assms True by (auto simp: settled_def task_ok_def)
  then obtain bs where bs: "length bs = n" "DataBuff (c_task c) = Some bs \<or> bs = []"
    by (auto simp: filling_def)
  have u: "unat (DataLenth_Already (c_task c)) = length bs" "length bs < 2 ^ 31"
    using n True bs by (simp_all add: filling_def)
  have "DataLenth_Already (c_task c) = of_nat (unat (DataLenth_Already (c_task c)))" by simp
  then have a: "DataLenth_Already (c_task c) = of_nat (length bs)" "length bs < 2 ^ 31"
    using u by simp_all
  obtain ok m' where p: "ParseFromArray bs (m_ConnectProtocol (c_task c)) = Some (ok, m')"
    "DataOperationEnd (c_task c) = Inr (if ok then (0, transfer_reset ((c_task c)\<lparr>m_ConnectProtocol := m'\<rparr>))
                              else (- 1, (c_task c)\<lparr>m_ConnectProtocol := m'\<rparr>))"
    using DataOperationEnd_receive [of "c_task c" bs] assms(2) a bs(2) by auto
  note m' = ParseFromArray_ok [OF p(1) m]
  show ?thesis
  proof (cases ok)
    case False
    then show ?thesis using True assms m' n st
      by (auto simp: read_done_def p Let_def settled_def task_ok_def filling_def)
  next
    case ok: True
    obtain code m'' where "f m' 300 = (code, m'')" "message_ok m''"
      using keeps_messages [OF m', of 300] by (cases "f m' 300") simp
    then show ?thesis using True assms ok st
      by (auto simp: read_done_def p Let_def settled_def task_ok_def transfer_reset_def call_business_def
          read_switch_def SetTaskMode_def)
  qed
qed (use assms in \<open>auto simp: read_done_def\<close>)

lemma On_Read_settled:
  assumes "platform_ok P" "memory_suffices P" "settled f (c_task c)"
    "unat (DataLenth_All (c_task (read_length P c))) < 2 ^ 31"
  shows "\<exists>c'. On_Read_CallBack P m_instance fd c = Inr c' \<and> settled f (c_task c')"
proof (cases "m_instance = None \<or> TaskMode (c_task c) \<noteq> 300")
  case False
  define c3 where "c3 = read_verification P (read_encrypt P (read_length P c))"
  have c3: "settled f (c_task c3)" "TaskMode (c_task c3) = 300" "unat (DataLenth_All (c_task c3)) < 2 ^ 31"
    using assms(3,4) False read_header_ok [of P c] by (simp_all add: c3_def settled_def task_simps)
  have "\<exists>r c4. check_header P fd c3 = Inr (r, c4) \<and> settled f (c_task c4) \<and> TaskMode (c_task c4) = 300"
  proof (cases "Verification_Ok (c_task c3) = False \<and> Verification_Done (c_task c3)")
    case True
    show ?thesis
      by (rule DataOperationReady_filling [OF assms(1,2) c3(2,3), of "c_env c3"])
        (use c3(1) True in \<open>auto simp: settled_def task_ok_def check_header_def Let_def\<close>)
  next
    case False
    then show ?thesis using c3 unfolding check_header_def by auto
  qed
  then obtain r c4 where c4: "check_header P fd c3 = Inr (r, c4)" "settled f (c_task c4)" "TaskMode (c_task c4) = 300"
    by blast
  have "\<exists>c5. read_body P c4 = Inr c5 \<and> settled f (c_task c5) \<and> TaskMode (c_task c5) = 300"
  proof (cases "Verification_Ok (c_task c4)")
    case True
    obtain n where n: "filling (c_task c4) n" using c4 True by (auto simp: settled_def task_ok_def)
    show ?thesis
      by (rule read_body_filling [OF assms(1) n True]) (use c4 in \<open>auto simp: settled_def task_ok_def\<close>)
  qed (use c4 in \<open>auto simp: read_body_def Let_def\<close>)
  then obtain c5 where c5: "read_body P c4 = Inr c5" "settled f (c_task c5)" "TaskMode (c_task c5) = 300" by blast
  obtain c6 where c6: "read_done fd c5 = Inr c6" "settled f (c_task c6)"
    using read_done_settled [OF c5(2,3)] by blast
  have "On_Read_CallBack P m_instance fd c = Inr (if r then c4 else c6)"
    using False by (auto simp: On_Read_CallBack_def GetTaskMode_def Let_def c4(1) c5(1) c6(1) simp flip: c3_def)
  then show ?thesis using c4(2) c6(2) by auto
qed (use assms(3) in \<open>auto simp: On_Read_CallBack_def GetTaskMode_def\<close>)

lemma On_Write_settled:
  assumes "platform_ok P" "memory_suffices P" "settled f (c_task c)"
    "TaskMode (c_task c) = 100 \<Longrightarrow> writable (m_ConnectProtocol (c_task c))"
  shows "\<exists>c'. On_Write_CallBack P m_instance fd c = Inr c' \<and> settled f (c_task c')"
proof (cases "m_instance = None \<or> TaskMode (c_task c) \<noteq> 100")
  case False
  then have mode: "TaskMode (c_task c) = 100" and w: "writable (m_ConnectProtocol (c_task c))" using assms(4) by auto
  have st: "\<not> DataOperationStatus (c_task c)" "Business_CallBack (c_task c) = Some f"
    using assms(3) by (simp_all add: settled_def task_ok_def)
  let ?bs = "wire_image (m_ConnectProtocol (c_task c))"
  obtain b e' where b: "malloc P (length ?bs) (c_env c) = (Some b, e')" "length b = length ?bs"
    using mallocE [OF assms(1,2) writable_length [OF w]] by blast
  obtain m where m: "DataOperationReady P (c_task c) (c_env c) = Inr (0, ready_task m (c_task c), e')" "writable m"
    "wire_image m = ?bs"
    using DataOperationReady_send [OF _ w b] mode by auto
  define c1 where "c1 = c\<lparr>c_task := ready_task m (c_task c), c_env := e'\<rparr>"
  have c1: "write_prepare P c = Inr c1" using st m by (simp add: write_prepare_def c1_def)
  define c4 where "c4 = write_verification P (write_encrypt P (write_length P c1))"
  have c4: "TaskMode (c_task c4) = 100" "settled f (c_task c4)" "Verification_Ok (c_task c4)"
    "DataLenth_Already (c_task c4) = 0" "DataLenth_Remaining (c_task c4) = of_nat (length ?bs)"
    "DataBuff (c_task c4) = Some ?bs"
    using mode st m unat_small [OF writable_length [OF w]]
    by (simp_all add: c4_def c1_def task_simps ready_task_def settled_def task_ok_def writable_def)
  obtain n e where "sock_send P ?bs (c_env c4) = (n, e)" by force
  from write_body_whole [OF c4(3,4,6,5) writable_length [OF w] this] c4
  obtain c5 where c5: "write_body P c4 = Inr c5" "settled f (c_task c5)" "TaskMode (c_task c5) = 100"
    by (auto simp: settled_def task_ok_def)
  have f5: "Business_CallBack (c_task c5) = Some f" "message_ok (m_ConnectProtocol (c_task c5))"
    using c5(2) by (simp_all add: settled_def task_ok_def)
  obtain code m' where bm: "call_business 100 c5 = Inr (code, c5\<lparr>c_task := (c_task c5)\<lparr>m_ConnectProtocol := m'\<rparr>\<rparr>)"
    "message_ok m'"
    using call_business_ok [OF f5, of 100] by blast
  have "\<exists>c6. write_done c5 = Inr c6 \<and> settled f (c_task c6)"
    using c5 bm by (auto simp: write_done_def DataOperationEnd_send settled_def task_ok_def transfer_reset_def
        SetTaskMode_def message_ok_Clear Let_def)
  then show ?thesis
    using False by (auto simp: On_Write_CallBack_def GetTaskMode_def c1 c5(1) Let_def simp flip: c4_def)
qed (use assms(3) in \<open>auto simp: On_Write_CallBack_def GetTaskMode_def\<close>)

end

section \<open>Reachable states of a connection\<close>

definition event_fits :: "'e platform \<Rightarrow> 'e event \<Rightarrow> 'e conn \<Rightarrow> bool" where
  "event_fits P ev c =
     (case ev of
        Readable \<Rightarrow> unat (DataLenth_All (c_task (read_length P c))) < 2 ^ 31
      | Writable \<Rightarrow> TaskMode (c_task c) = 100 \<longrightarrow> writable (m_ConnectProtocol (c_task c))
      | _ \<Rightarrow> True)"

text \<open>Every run of the event loop in which no length of two gigabytes is announced or produced.\<close>

inductive reachable :: "'e platform \<Rightarrow> Bosncc option \<Rightarrow> 'e conn \<Rightarrow> 'e conn \<Rightarrow> bool"
  for P :: "'e platform" and m_instance :: "Bosncc option" and c0 :: "'e conn" where
  start: "reachable P m_instance c0 c0"
| event: "reachable P m_instance c0 c \<Longrightarrow> LoopBreak \<notin> set (c_actions c) \<Longrightarrow> event_fits P ev c \<Longrightarrow>
    handle P m_instance ev c = Inr c' \<Longrightarrow> reachable P m_instance c0 c'"

context business_function
begin

lemma handle_settled:
  assumes "platform_ok P" "memory_suffices P" "settled f (c_task c)" "event_fits P ev c"
  shows "\<exists>c'. handle P m_instance ev c = Inr c' \<and> settled f (c_task c')"
proof (cases ev)
  case Readable
  then show ?thesis using On_Read_settled [OF assms(1-3)] assms(4) by (simp add: handle_def event_fits_def Let_def)
next
  case Writable
  then show ?thesis using On_Write_settled [OF assms(1-3)] assms(4) by (simp add: handle_def event_fits_def Let_def)
qed (use assms(3) in \<open>auto simp: handle_def On_Error_CallBack_def Let_def\<close>)

lemma reachable_settled:
  assumes "platform_ok P" "memory_suffices P" "reachable P m_instance c0 c" "settled f (c_task c0)"
  shows "settled f (c_task c)"
  using assms(3)
proof (induction rule: reachable.induct)
  case (event c ev c')
  then show ?case using handle_settled [OF assms(1,2) event.IH event.hyps(3), of m_instance] by auto
qed (rule assms(4))

end


section \<open>What the callbacks promise\<close>

text \<open>Between two transfers nothing is under way.\<close>

definition idle :: "ThreadTask \<Rightarrow> bool" where
  "idle t \<longleftrightarrow> \<not> DataOperationStatus t \<and> \<not> DataLenth_All_Done t \<and> \<not> Verification_Done t \<and> \<not> Verification_Ok t \<and>
     message_ok (m_ConnectProtocol t)"

definition business_ok :: "business \<Rightarrow> bool" where
  "business_ok f \<longleftrightarrow> (\<forall>m a. message_ok m \<longrightarrow> message_ok (snd (f m a)))"

lemma business_okD: "business_ok f \<Longrightarrow> business_function f"
  by unfold_locales (simp add: business_ok_def)

text \<open>A server instance, a connection in receiving mode and one with a message to send, for the witnesses.\<close>

definition sample_server :: Bosncc where
  "sample_server = \<lparr>Started = True, Listenport = 7777, WindowsThreadPool = None,
     Bosncc_Server_addr_in = \<lparr>sin_family = 2, sin_port = 0, sin_addr = 0\<rparr>, wVersionRequested = 0, wsaData_wVersion = 0,
     b_Business_CallBack = Some (\<lambda>m a. (1, m)), b_Encrypt = False, b_Timeout = 5, Bosncc_Socket = 3, Main_Base = None\<rparr>"

definition sample_conn :: "u32 \<Rightarrow> bytes \<Rightarrow> world conn" where
  "sample_conn mode bs = \<lparr>c_task = sample_task\<lparr>TaskMode := mode, Business_CallBack := Some (\<lambda>m a. (1, m))\<rparr>,
     c_env = quiet_world\<lparr>inbox := bs\<rparr>, c_actions = []\<rparr>"

lemma sample_conn_simps [simp]:
  "TaskMode (c_task (sample_conn mode bs)) = mode" "c_env (sample_conn mode bs) = quiet_world\<lparr>inbox := bs\<rparr>"
  "c_actions (sample_conn mode bs) = []" "\<not> EncryptDone (c_task (sample_conn mode bs))" "\<not> Encrypt (c_task (sample_conn mode bs))"
  "Business_CallBack (c_task (sample_conn mode bs)) = Some (\<lambda>m a. (1, m))"
  "m_ConnectProtocol (c_task (sample_conn mode bs)) = set_apiname [97, 98] ConnectProtocol0"
  "DataLenth_All (c_task (sample_conn mode bs)) = 0" "\<not> DataOperationStatus (c_task (sample_conn mode bs))"
  by (simp_all add: sample_conn_def sample_task_def ThreadTask0_def)

lemma sample_conn_ok:
  "idle (c_task (sample_conn mode bs))" "task_ok (c_task (sample_conn mode bs))" "business_ok (\<lambda>m a. (1, m))"
  "sendable (set_apiname [97, 98] ConnectProtocol0)" "length (wire_image (set_apiname [97, 98] ConnectProtocol0)) = 4"
  by (simp_all add: sample_conn_def idle_def task_ok_def sample_task_def ThreadTask0_def named_message business_ok_def
      sendable_def wire_image_def)

text \<open>C1: No event of a connection leaves a block, goes through a null pointer or stops the process, in
  any state a connection reaches by any sequence of events, whatever bytes the peer sends and in
  whatever pieces, as long as memory does not run out, no length of two gigabytes is announced or
  produced, and the business function keeps its message well formed. The invariant of the task is
  kept: while a body is received, the block has exactly the room that is still to be filled.\<close>

theorem connection_safe:
  assumes "platform_ok P" "memory_suffices P" "business_ok f"
    "task_ok (c_task c0)" "Business_CallBack (c_task c0) = Some f"
    "reachable P m_instance c0 c" "event_fits P ev c"
  shows "\<exists>c'. handle P m_instance ev c = Inr c' \<and> task_ok (c_task c') \<and> Business_CallBack (c_task c') = Some f"
proof -
  note l = business_okD [OF assms(3)]
  have "settled f (c_task c)"
    using business_function.reachable_settled [OF l assms(1,2,6)] assms(4,5) by (simp add: settled_def)
  from business_function.handle_settled [OF l assms(1,2) this assms(7), of m_instance]
  show ?thesis by (auto simp: settled_def)
qed

lemma connection_safe_witness:
  "\<exists>c'. handle roomy_platform (Some sample_server) Readable (sample_conn 300 [5, 0, 0, 0, 1, 7, 7]) = Inr c' \<and>
     task_ok (c_task c')"
proof -
  have "event_fits roomy_platform Readable (sample_conn 300 [5, 0, 0, 0, 1, 7, 7])"
  proof -
    have "DataLenth_All (c_task (read_length roomy_platform (sample_conn 300 [5, 0, 0, 0, 1, 7, 7]))) = 5"
      by code_simp
    then show ?thesis by (simp add: event_fits_def)
  qed
  from connection_safe [OF roomy_platform_ok sample_conn_ok(3,2) _ reachable.start this, of "Some sample_server"]
  show ?thesis by auto
qed

text \<open>An accepted connection becomes a task in receiving mode with the time limit, encryption flag and
  business function of the instance, nothing under way, and goes to the thread pool; if \<open>accept\<close>
  fails the task is given to nobody and never freed. Outside the server mode or before the instance
  exists nothing is created.\<close>

lemma accepted_connection:
  assumes "RunModel s = BOSNCC_MODEL_SERVER" "CreatInstance s" "m_Instance s = Some b"
  shows "\<exists>t. On_Accept_CallBack (ThreadTask0 base thread garbage garbage_addr) (fd, addr) s =
      Inr (if fd = SOCKET_ERROR then (None, [t]) else (Some t, [])) \<and>
    idle t \<and> task_ok t \<and> TaskMode t = 300 \<and> \<not> EncryptDone t \<and> Encrypt t = b_Encrypt b \<and> Timeout t = b_Timeout b \<and>
    Business_CallBack t = b_Business_CallBack b \<and> ConnectSocket t = fd \<and> ConnectSocketAddr_in t = addr"
  using assms
  by (auto simp: On_Accept_CallBack_def ThreadTask0_def SetTaskMode_def SetTimeout_def Let_def idle_def task_ok_def
      message_ok_new)

lemma accepted_connection_witness:
  "\<exists>t. On_Accept_CallBack (ThreadTask0 None 1 0 \<lparr>sin_family = 0, sin_port = 0, sin_addr = 0\<rparr>)
      (- 1, \<lparr>sin_family = 0, sin_port = 0, sin_addr = 0\<rparr>)
      \<lparr>CreatInstance = True, RunSetModel = True, RunModel = 2, m_Instance = Some sample_server\<rparr> = Inr (None, [t])"
  using accepted_connection [of "\<lparr>CreatInstance = True, RunSetModel = True, RunModel = 2, m_Instance = Some sample_server\<rparr>"
      sample_server None 1 0 "\<lparr>sin_family = 0, sin_port = 0, sin_addr = 0\<rparr>" "- 1" "\<lparr>sin_family = 0, sin_port = 0, sin_addr = 0\<rparr>"]
  by auto

text \<open>The modes 101 and 301 that the header documents, to send or receive once and disconnect, make
  the work item run its event loop, because it divides by 100, but neither callback does anything in
  them, because they compare with 100 and 300: whatever events come, the task is as it was.\<close>

lemma documented_modes_ignored:
  assumes "TaskMode t div 100 = 1 \<or> TaskMode t div 100 = 3" "TaskMode t \<noteq> 100" "TaskMode t \<noteq> 300"
    "set evs \<subseteq> {Readable, Writable}"
  shows "ServerThreadPoolWorking P run_model m_instance thread evs t e =
    Inr \<lparr>c_task = t\<lparr>ChildThreadID := thread\<rparr>, c_env = e,
         c_actions = [SetTimeouts (Timeout t), if TaskMode t div 100 = 1 then EnableWrite else EnableRead, BevFree, DeleteTask]\<rparr>"
proof -
  have "dispatch P m_instance evs c = Inr c" if "TaskMode (c_task c) \<noteq> 100" "TaskMode (c_task c) \<noteq> 300" for c
    using assms(4) that
    by (induction evs) (auto simp: handle_def On_Read_CallBack_def On_Write_CallBack_def GetTaskMode_def Let_def)
  then show ?thesis using assms(1-3)
    by (simp add: ServerThreadPoolWorking_def ThreadRegistered_def GetTaskMode_def GetTimeout_def Let_def act_def)
qed

lemma documented_modes_witness:
  "\<exists>c. ServerThreadPoolWorking roomy_platform 2 (Some sample_server) 9 [Readable, Writable, Readable]
      (sample_task\<lparr>TaskMode := 301\<rparr>) (quiet_world\<lparr>inbox := [1, 2, 3]\<rparr>) = Inr c \<and> inbox (c_env c) = [1, 2, 3]"
  using documented_modes_ignored [of "sample_task\<lparr>TaskMode := 301\<rparr>" "[Readable, Writable, Readable]" roomy_platform 2
      "Some sample_server" 9 "quiet_world\<lparr>inbox := [1, 2, 3]\<rparr>"]
  by simp

end
