(* ===== verification/Delivery.thy ===== *)
theory Delivery
  imports Callbacks
begin

text \<open>
  A message from the sender's callback to the receiver's: the bytes one write event puts on the wire,
  what the read events make of them in whatever pieces they arrive, and what goes wrong when a send is
  incomplete, memory runs out, or a header is cut.
\<close>

section \<open>A whole message over a stream\<close>

text \<open>What is on the wire: the length, the encryption flag with the first message of a connection, the
  code, and the encoding.\<close>

definition wire_header :: "bool \<Rightarrow> bool \<Rightarrow> u32 \<Rightarrow> bytes" where
  "wire_header first encrypt len =
     WriteLittleEndian32ToArray len @ (if first then [if encrypt then 1 else 0] else []) @
     WriteLittleEndian32ToArray (verification_code len encrypt)"

definition wire_frame :: "bool \<Rightarrow> bool \<Rightarrow> bytes \<Rightarrow> bytes" where
  "wire_frame first encrypt bs = wire_header first encrypt (of_nat (length bs)) @ bs"

lemmas wire_frame_defs = wire_frame_def wire_header_def

text \<open>What stays of a task over a whole transfer.\<close>

definition same_peer :: "ThreadTask \<Rightarrow> ThreadTask \<Rightarrow> bool" where
  "same_peer t t' \<longleftrightarrow> Business_CallBack t' = Business_CallBack t \<and> ConnectSocket t' = ConnectSocket t"

lemma set_true_same:
  "EncryptDone t \<Longrightarrow> t\<lparr>EncryptDone := True\<rparr> = t"
  "EncryptDone t \<Longrightarrow> Encrypt t = e \<Longrightarrow> t\<lparr>Encrypt := e, EncryptDone := True\<rparr> = t"
  by (cases t; simp)+

lemma write_length_whole:
  assumes "whole_sends P sent" "ordered_stream P pending" "\<not> DataLenth_All_Done (c_task c)"
  obtains e where "write_length P c = c\<lparr>c_task := (c_task c)\<lparr>DataLenth_All_Done := True\<rparr>, c_env := e\<rparr>"
    "sent e = sent (c_env c) @ WriteLittleEndian32ToArray (DataLenth_All (c_task c))" "pending e = pending (c_env c)"
proof -
  obtain n e where s: "sock_send P (WriteLittleEndian32ToArray (DataLenth_All (c_task c))) (c_env c) = (n, e)" by force
  show thesis using whole_sendsD(1) [OF assms(1) s] ordered_streamD(3) [OF assms(2) s] assms(3)
    by (intro that [of e]) (simp_all add: write_length_def s length_WriteLittleEndian)
qed

lemma write_encrypt_whole:
  assumes "whole_sends P sent" "ordered_stream P pending"
  obtains e where "write_encrypt P c = c\<lparr>c_task := (c_task c)\<lparr>EncryptDone := True\<rparr>, c_env := e\<rparr>"
    "sent e = sent (c_env c) @ (if \<not> EncryptDone (c_task c) then [if Encrypt (c_task c) then 1 else 0] else [])"
    "pending e = pending (c_env c)"
proof (cases "EncryptDone (c_task c)")
  case True
  then show thesis by (intro that [of "c_env c"]) (simp_all add: write_encrypt_def set_true_same)
next
  case False
  obtain n e where s: "sock_send P [if Encrypt (c_task c) then 1 else 0] (c_env c) = (n, e)" by force
  show thesis using whole_sendsD(1) [OF assms(1) s] ordered_streamD(3) [OF assms(2) s] False
    by (intro that [of e]) (simp_all add: write_encrypt_def s)
qed

lemma write_verification_whole:
  assumes "whole_sends P sent" "ordered_stream P pending" "\<not> Verification_Done (c_task c)"
  obtains e where "write_verification P c = c\<lparr>c_task := (c_task c)\<lparr>Verification_Done := True\<rparr>, c_env := e\<rparr>"
    "sent e = sent (c_env c) @ WriteLittleEndian32ToArray (Verification (c_task c))" "pending e = pending (c_env c)"
proof -
  obtain n e where s: "sock_send P (WriteLittleEndian32ToArray (Verification (c_task c))) (c_env c) = (n, e)" by force
  show thesis using whole_sendsD(1) [OF assms(1) s] ordered_streamD(3) [OF assms(2) s] assms(3)
    by (intro that [of e]) (simp_all add: write_verification_def s length_WriteLittleEndian)
qed

lemma write_header_whole:
  assumes "whole_sends P sent" "ordered_stream P pending" "\<not> DataLenth_All_Done (c_task c)" "\<not> Verification_Done (c_task c)"
  obtains e where "write_verification P (write_encrypt P (write_length P c)) =
      c\<lparr>c_task := (c_task c)\<lparr>DataLenth_All_Done := True, EncryptDone := True, Verification_Done := True\<rparr>, c_env := e\<rparr>"
    "sent e = sent (c_env c) @ WriteLittleEndian32ToArray (DataLenth_All (c_task c)) @
       (if \<not> EncryptDone (c_task c) then [if Encrypt (c_task c) then 1 else 0] else []) @
       WriteLittleEndian32ToArray (Verification (c_task c))"
    "pending e = pending (c_env c)"
proof -
  obtain e2 where e2: "write_length P c = c\<lparr>c_task := (c_task c)\<lparr>DataLenth_All_Done := True\<rparr>, c_env := e2\<rparr>"
    "sent e2 = sent (c_env c) @ WriteLittleEndian32ToArray (DataLenth_All (c_task c))" "pending e2 = pending (c_env c)"
    using write_length_whole [where c = c, OF assms(1-3)] by metis
  let ?c2 = "c\<lparr>c_task := (c_task c)\<lparr>DataLenth_All_Done := True\<rparr>, c_env := e2\<rparr>"
  obtain e3 where e3: "write_encrypt P ?c2 = ?c2\<lparr>c_task := (c_task ?c2)\<lparr>EncryptDone := True\<rparr>, c_env := e3\<rparr>"
    "sent e3 = sent (c_env ?c2) @ (if \<not> EncryptDone (c_task ?c2) then [if Encrypt (c_task ?c2) then 1 else 0] else [])"
    "pending e3 = pending (c_env ?c2)"
    using write_encrypt_whole [where c = ?c2, OF assms(1,2)] by metis
  let ?c3 = "?c2\<lparr>c_task := (c_task ?c2)\<lparr>EncryptDone := True\<rparr>, c_env := e3\<rparr>"
  have "\<not> Verification_Done (c_task ?c3)" using assms(4) by simp
  then obtain e4 where e4: "write_verification P ?c3 = ?c3\<lparr>c_task := (c_task ?c3)\<lparr>Verification_Done := True\<rparr>, c_env := e4\<rparr>"
    "sent e4 = sent (c_env ?c3) @ WriteLittleEndian32ToArray (Verification (c_task ?c3))" "pending e4 = pending (c_env ?c3)"
    using write_verification_whole [where c = ?c3, OF assms(1,2)] by metis
  show thesis
    by (rule that [of e4]) (use e2 e3 e4 in \<open>simp_all only: e2(1) e3(1) e4(1)\<close>, simp_all)
qed

context business_function
begin

lemma write_done_complete:
  assumes "Verification_Ok (c_task c)" "DataLenth_Remaining (c_task c) = 0" "TaskMode (c_task c) = 100"
    "message_ok (m_ConnectProtocol (c_task c))" "Business_CallBack (c_task c) = Some f" "\<not> DataOperationStatus (c_task c)"
  obtains m where "write_done c = Inr (act [EnableRead] (c\<lparr>c_task := SetTaskMode 300
      ((transfer_reset (c_task c))\<lparr>m_ConnectProtocol := m\<rparr>)\<rparr>))" "message_ok m" "message_view m = empty_view"
proof -
  obtain code m where m: "call_business 100 c = Inr (code, c\<lparr>c_task := (c_task c)\<lparr>m_ConnectProtocol := m\<rparr>\<rparr>)" "message_ok m"
    using call_business_ok [OF assms(5,4), of 100] by blast
  show thesis
    by (rule that [of "ConnectProtocol_Clear m"])
      (use assms m in \<open>simp_all add: write_done_def DataOperationEnd_send Let_def transfer_reset_def message_ok_Clear\<close>)
qed

lemma On_Write_whole:
  assumes P: "platform_ok P" "memory_suffices P" "whole_sends P sent" "ordered_stream P pending"
    and t: "TaskMode (c_task c) = 100" "\<not> DataOperationStatus (c_task c)" "\<not> Verification_Done (c_task c)"
      "writable (m_ConnectProtocol (c_task c))" "Business_CallBack (c_task c) = Some f"
  obtains c' where "On_Write_CallBack P (Some b) fd c = Inr c'"
    "sent (c_env c') = sent (c_env c) @ wire_frame (\<not> EncryptDone (c_task c)) (Encrypt (c_task c))
       (wire_image (m_ConnectProtocol (c_task c)))"
    "pending (c_env c') = pending (c_env c)" "idle (c_task c')" "TaskMode (c_task c') = 300" "EncryptDone (c_task c')"
    "Encrypt (c_task c') = Encrypt (c_task c)" "same_peer (c_task c) (c_task c')"
    "message_view (m_ConnectProtocol (c_task c')) = empty_view" "c_actions c' = c_actions c @ [EnableRead]"
proof -
  let ?bs = "wire_image (m_ConnectProtocol (c_task c))"
  let ?n = "of_nat (length ?bs) :: u32"
  note w = writable_length [OF t(4)]
  obtain blk e1 where b: "malloc P (length ?bs) (c_env c) = (Some blk, e1)" "length blk = length ?bs"
    using mallocE [OF P(1,2) w] by blast
  note e1 = whole_sendsD(2) [OF P(3) b(1)] ordered_streamD(2) [OF P(4) b(1)]
  obtain m where m: "DataOperationReady P (c_task c) (c_env c) = Inr (0, ready_task m (c_task c), e1)"
    "writable m" "wire_image m = ?bs"
    using DataOperationReady_send [OF _ t(4) b] t(1) by auto
  let ?c1 = "c\<lparr>c_task := ready_task m (c_task c), c_env := e1\<rparr>"
  have c1: "write_prepare P c = Inr ?c1" using t(2) m by (simp add: write_prepare_def)
  obtain e4 where e4: "write_verification P (write_encrypt P (write_length P ?c1)) =
      ?c1\<lparr>c_task := (c_task ?c1)\<lparr>DataLenth_All_Done := True, EncryptDone := True, Verification_Done := True\<rparr>, c_env := e4\<rparr>"
    "sent e4 = sent (c_env ?c1) @ WriteLittleEndian32ToArray (DataLenth_All (c_task ?c1)) @
       (if \<not> EncryptDone (c_task ?c1) then [if Encrypt (c_task ?c1) then 1 else 0] else []) @
       WriteLittleEndian32ToArray (Verification (c_task ?c1))"
    "pending e4 = pending (c_env ?c1)"
    using write_header_whole [where c = ?c1, OF P(3,4)] t(3) by (simp add: ready_task_def) metis
  define c4 where "c4 = ?c1\<lparr>c_task := (c_task ?c1)\<lparr>DataLenth_All_Done := True, EncryptDone := True,
    Verification_Done := True\<rparr>, c_env := e4\<rparr>"
  have t4: "Verification_Ok (c_task c4)" "DataLenth_Already (c_task c4) = 0" "DataBuff (c_task c4) = Some ?bs"
    "DataLenth_Remaining (c_task c4) = ?n"
    by (simp_all add: c4_def ready_task_def m)
  obtain k e5 where s5: "sock_send P ?bs (c_env c4) = (k, e5)" by force
  note k = whole_sendsD(1) [OF P(3) s5] ordered_streamD(3) [OF P(4) s5]
  obtain c5 where c5: "write_body P c4 = Inr c5" "DataLenth_Remaining (c_task c5) = 0" "c_actions c5 = c_actions c4"
    "sent (c_env c5) = sent (c_env c4) @ ?bs" "pending (c_env c5) = pending (c_env c4)"
    "\<exists>a. c_task c5 = (c_task c4)\<lparr>DataLenth_Already := a, DataLenth_Remaining := 0\<rparr>"
  proof (cases "?bs = []")
    case True
    have "c_task c4 = (c_task c4)\<lparr>DataLenth_Already := 0, DataLenth_Remaining := 0\<rparr>" using t4 True by simp
    with True show thesis using write_body_whole [OF t4 w s5] t4(4) by (intro that [of c4]) auto
  next
    case False
    show thesis using write_body_whole [OF t4 w s5] False k
      by (intro that [of "c4\<lparr>c_task := (c_task c4)\<lparr>DataLenth_Already := word_of_int k, DataLenth_Remaining := 0\<rparr>,
        c_env := e5\<rparr>"]) auto
  qed
  have "Verification_Ok (c_task c5)" "TaskMode (c_task c5) = 100" "message_ok (m_ConnectProtocol (c_task c5))"
    "Business_CallBack (c_task c5) = Some f" "\<not> DataOperationStatus (c_task c5)"
    using c5(6) t m(2) by (auto simp: c4_def ready_task_def writable_def)
  then obtain m' where m': "write_done c5 = Inr (act [EnableRead] (c5\<lparr>c_task := SetTaskMode 300
      ((transfer_reset (c_task c5))\<lparr>m_ConnectProtocol := m'\<rparr>)\<rparr>))" "message_ok m'" "message_view m' = empty_view"
    using write_done_complete [of c5] c5(2) by metis
  let ?c6 = "act [EnableRead] (c5\<lparr>c_task := SetTaskMode 300 ((transfer_reset (c_task c5))\<lparr>m_ConnectProtocol := m'\<rparr>)\<rparr>)"
  have run: "On_Write_CallBack P (Some b) fd c = Inr ?c6"
    using t(1) by (simp add: On_Write_CallBack_def GetTaskMode_def c1 Let_def e4(1) c5(1) [unfolded c4_def, simplified] m'(1))
  show thesis
    by (rule that [OF run])
      (use c5 e4 e1 m' t m in \<open>auto simp: c4_def ready_task_def wire_frame_defs idle_def same_peer_def SetTaskMode_def
        transfer_reset_def\<close>)
qed

end

section \<open>Receiving a message in pieces\<close>

lemma WriteLittleEndian_not_Nil: "WriteLittleEndian32ToArray v \<noteq> []"
  by (simp add: WriteLittleEndian32ToArray_def)

lemma read_length_stream:
  assumes "ordered_stream P pending" "\<not> DataLenth_All_Done (c_task c)"
    "pending (c_env c) = WriteLittleEndian32ToArray n @ rest"
  obtains e where "read_length P c = c\<lparr>c_task := (c_task c)\<lparr>DataLenth_All := n, DataLenth_All_Done := True\<rparr>, c_env := e\<rparr>"
    "pending e = rest"
proof -
  obtain bs e where b: "bufferevent_read P 4 (c_env c) = (bs, e)" by force
  show thesis using ordered_streamD(1) [OF assms(1) b] assms(2,3)
    by (intro that [of e]) (simp_all add: read_length_def b length_WriteLittleEndian WriteLittleEndian_not_Nil Let_def)
qed

lemma read_encrypt_stream:
  assumes "ordered_stream P pending" "DataLenth_All_Done (c_task c)" "EncryptDone (c_task c) \<Longrightarrow> Encrypt (c_task c) = en"
    "pending (c_env c) = (if \<not> EncryptDone (c_task c) then [if en then 1 else 0] else []) @ rest"
  obtains e where "read_encrypt P c = c\<lparr>c_task := (c_task c)\<lparr>Encrypt := en, EncryptDone := True\<rparr>, c_env := e\<rparr>"
    "pending e = rest"
proof (cases "EncryptDone (c_task c)")
  case True
  then show thesis using assms(3,4)
    by (intro that [of "c_env c"]) (simp_all add: read_encrypt_def set_true_same(2))
next
  case False
  obtain bs e where b: "bufferevent_read P 1 (c_env c) = (bs, e)" by force
  show thesis using ordered_streamD(1) [OF assms(1) b] assms(2,4) False
    by (intro that [of e]) (simp_all add: read_encrypt_def b [simplified] Let_def)
qed

lemma read_verification_stream:
  assumes "ordered_stream P pending" "\<not> Verification_Done (c_task c)" "EncryptDone (c_task c)"
    "pending (c_env c) = WriteLittleEndian32ToArray v @ rest"
  obtains e where "read_verification P c =
      c\<lparr>c_task := (c_task c)\<lparr>Verification := v, Verification_Done := True\<rparr>, c_env := e\<rparr>" "pending e = rest"
proof -
  obtain bs e where b: "bufferevent_read P 4 (c_env c) = (bs, e)" by force
  show thesis using ordered_streamD(1) [OF assms(1) b] assms(2-4)
    by (intro that [of e]) (simp_all add: read_verification_def b length_WriteLittleEndian WriteLittleEndian_not_Nil Let_def)
qed

lemma read_header_stream:
  assumes "ordered_stream P pending" "\<not> DataLenth_All_Done (c_task c)" "\<not> Verification_Done (c_task c)"
    "EncryptDone (c_task c) \<Longrightarrow> Encrypt (c_task c) = en"
    "pending (c_env c) = wire_header (\<not> EncryptDone (c_task c)) en n @ rest"
  obtains e where "read_verification P (read_encrypt P (read_length P c)) =
      c\<lparr>c_task := (c_task c)\<lparr>DataLenth_All := n, DataLenth_All_Done := True, Encrypt := en, EncryptDone := True,
          Verification := verification_code n en, Verification_Done := True\<rparr>, c_env := e\<rparr>" "pending e = rest"
proof -
  let ?v = "verification_code n en"
  have pend: "pending (c_env c) = WriteLittleEndian32ToArray n @
      (if \<not> EncryptDone (c_task c) then [if en then 1 else 0] else []) @ WriteLittleEndian32ToArray ?v @ rest"
    using assms(5) by (simp add: wire_header_def)
  obtain e1 where e1: "read_length P c = c\<lparr>c_task := (c_task c)\<lparr>DataLenth_All := n, DataLenth_All_Done := True\<rparr>, c_env := e1\<rparr>"
    "pending e1 = (if \<not> EncryptDone (c_task c) then [if en then 1 else 0] else []) @ WriteLittleEndian32ToArray ?v @ rest"
    using read_length_stream [OF assms(1,2) pend] by metis
  let ?c1 = "c\<lparr>c_task := (c_task c)\<lparr>DataLenth_All := n, DataLenth_All_Done := True\<rparr>, c_env := e1\<rparr>"
  obtain e2 where e2: "read_encrypt P ?c1 = ?c1\<lparr>c_task := (c_task ?c1)\<lparr>Encrypt := en, EncryptDone := True\<rparr>, c_env := e2\<rparr>"
    "pending e2 = WriteLittleEndian32ToArray ?v @ rest"
    by (rule read_encrypt_stream [OF assms(1), of ?c1 en "WriteLittleEndian32ToArray ?v @ rest"])
      (use assms(4) e1(2) in auto)
  let ?c2 = "?c1\<lparr>c_task := (c_task ?c1)\<lparr>Encrypt := en, EncryptDone := True\<rparr>, c_env := e2\<rparr>"
  obtain e3 where e3: "read_verification P ?c2 =
      ?c2\<lparr>c_task := (c_task ?c2)\<lparr>Verification := ?v, Verification_Done := True\<rparr>, c_env := e3\<rparr>" "pending e3 = rest"
    by (rule read_verification_stream [OF assms(1), of ?c2 ?v rest]) (use assms(3) e2(2) in auto)
  show thesis
    by (rule that [of e3]) (use e1(1) e2(1) [simplified] e3 [simplified] in simp_all)
qed

text \<open>A task that has accepted the header of a message of \<open>n\<close> bytes and has the bytes \<open>got\<close>; its message object
  is still empty.\<close>

definition receiving :: "ThreadTask \<Rightarrow> nat \<Rightarrow> bytes \<Rightarrow> bool" where
  "receiving t n got \<longleftrightarrow> TaskMode t = 300 \<and> Verification_Ok t \<and> DataLenth_All_Done t \<and> EncryptDone t \<and>
     Verification_Done t \<and> \<not> DataOperationStatus t \<and> message_ok (m_ConnectProtocol t) \<and>
     message_view (m_ConnectProtocol t) = empty_view \<and> n < 2 ^ 31 \<and> length got \<le> n \<and> DataLenth_Already t = of_nat (length got) \<and>
     DataLenth_Remaining t = of_nat (n - length got) \<and>
     (\<exists>b. DataBuff t = Some b \<and> length b = n \<and> take (length got) b = got)"

lemma check_header_accepts:
  assumes "platform_ok P" "memory_suffices P" "ordered_stream P pending" "n < 2 ^ 31"
    "TaskMode (c_task c) = 300" "\<not> DataOperationStatus (c_task c)" "DataLenth_All_Done (c_task c)" "EncryptDone (c_task c)"
    "\<not> Verification_Ok (c_task c)" "Verification_Done (c_task c)" "DataLenth_All (c_task c) = of_nat n"
    "Verification (c_task c) = verification_code (of_nat n) (Encrypt (c_task c))" "message_ok (m_ConnectProtocol (c_task c))"
  obtains c' where "check_header P fd c = Inr (False, c')" "receiving (c_task c') n []" "pending (c_env c') = pending (c_env c)"
    "same_peer (c_task c) (c_task c')" "Encrypt (c_task c') = Encrypt (c_task c)" "c_actions c' = c_actions c"
proof -
  obtain b e where b: "malloc P n (c_env c) = (Some b, e)" "length b = n" using mallocE [OF assms(1,2,4)] by blast
  let ?t = "(c_task c)\<lparr>Verification_Ok := True, DataBuff := Some b, DataLenth_Remaining := of_nat n,
    DataLenth_Already := 0, m_ConnectProtocol := ConnectProtocol_Clear (m_ConnectProtocol (c_task c))\<rparr>"
  have "DataOperationReady P (c_task c) (c_env c) = Inr (1, ?t, e)"
    using b assms by (simp add: DataOperationReady_receive unat_small)
  then show thesis using assms b ordered_streamD(2) [OF assms(3) b(1)]
    by (intro that [of "c\<lparr>c_task := ?t, c_env := e\<rparr>"])
      (simp_all add: check_header_def receiving_def same_peer_def message_ok_Clear)
qed

lemma take_min_length: "take (min (length xs) n) xs = take n xs"
  by (simp add: min_def)

lemma read_body_receiving:
  assumes "platform_ok P" "ordered_stream P pending" "receiving (c_task c) n got"
  obtains c' where "read_body P c = Inr c'" "receiving (c_task c') n (got @ take (n - length got) (pending (c_env c)))"
    "pending (c_env c') = drop (n - length got) (pending (c_env c))"
    "same_peer (c_task c) (c_task c')" "Encrypt (c_task c') = Encrypt (c_task c)" "c_actions c' = c_actions c"
proof -
  let ?r = "n - length got" and ?p = "pending (c_env c)"
  have n: "n < 2 ^ 31" "length got \<le> n" using assms(3) by (simp_all add: receiving_def)
  obtain b where b: "DataBuff (c_task c) = Some b" "length b = n" "take (length got) b = got"
    using assms(3) by (auto simp: receiving_def)
  have u: "unat (of_nat (length got) :: u32) = length got" "unat (of_nat ?r :: u32) = ?r"
    using n by (simp_all only: unat_small less_imp_diff_less le_less_trans)
  show thesis
  proof (cases "?r = 0")
    case True
    then show thesis using assms(3) by (intro that [of c]) (auto simp: read_body_def Let_def receiving_def same_peer_def)
  next
    case False
    obtain bs e where bs: "bufferevent_read P ?r (c_env c) = (bs, e)" by force
    have bs': "bs = take ?r ?p" "pending e = drop ?r ?p" using ordered_streamD(1) [OF assms(2) bs] by simp_all
    let ?b = "take (length got) b @ bs @ drop (length got + length bs) b"
    have sb: "store_block bs (length got) (Some b) = Inr (Some ?b)" using n b bs' by (intro store_block_in) simp
    let ?t = "(c_task c)\<lparr>DataBuff := Some ?b, DataLenth_Already := of_nat (length got) + of_nat (length bs),
      DataLenth_Remaining := of_nat ?r - of_nat (length bs)\<rparr>"
    have "(of_nat ?r :: u32) \<noteq> 0" using False u(2) by (metis unat_0)
    then have "read_body P c = Inr (c\<lparr>c_task := ?t, c_env := e\<rparr>)"
      using assms(3) u b sb by (simp add: read_body_def Let_def receiving_def bs)
    moreover have "(of_nat ?r :: u32) - of_nat (length bs) = of_nat (n - length (got @ bs))"
      using bs' n by (simp add: of_nat_diff)
    ultimately show thesis using assms(3) bs' b n
      by (intro that [of "c\<lparr>c_task := ?t, c_env := e\<rparr>"]) (auto simp: receiving_def same_peer_def take_min_length)
  qed
qed

text \<open>What it means that a message has reached the business function, which has answered.\<close>

definition delivered :: "business \<Rightarrow> int \<Rightarrow> message_view \<Rightarrow> 'e conn \<Rightarrow> 'e conn \<Rightarrow> bool" where
  "delivered f fd v c c' \<longleftrightarrow>
     (\<exists>m. message_ok m \<and> message_view m = v \<and> m_ConnectProtocol (c_task c') = snd (f m 300) \<and>
       (let code = fst (f m 300)
        in TaskMode (c_task c') = (if code = 1 then 100 else 300) \<and>
           c_actions c' = c_actions c @
             (if code = 1 then [EnableWrite]
              else (if code = 2 then [CloseSocket fd, LoopBreak] else []) @ [CloseSocket fd, LoopBreak]))) \<and>
     idle (c_task c') \<and> EncryptDone (c_task c') \<and> same_peer (c_task c) (c_task c') \<and>
     Encrypt (c_task c') = Encrypt (c_task c)"

context business_function
begin

lemma read_done_delivers:
  assumes "receiving (c_task c) (length (wire_image m)) (wire_image m)" "sendable m" "Business_CallBack (c_task c) = Some f"
  obtains c' where "read_done fd c = Inr c'" "delivered f fd (message_view m) c c'" "c_env c' = c_env c"
proof -
  let ?bs = "wire_image m" and ?t = "c_task c"
  have t: "TaskMode ?t = 300" "DataLenth_Already ?t = of_nat (length ?bs)" "length ?bs < 2 ^ 31" "Verification_Ok ?t"
    "DataLenth_Remaining ?t = 0" "message_ok (m_ConnectProtocol ?t)" "\<not> DataOperationStatus ?t" "EncryptDone ?t"
    "DataBuff ?t = Some ?bs"
    using assms(1) by (auto simp: receiving_def)
  obtain m' where m': "ParseFromArray ?bs (m_ConnectProtocol ?t) = Some (True, m')" "message_ok m'"
    "message_view m' = message_view m"
    using ParseFromArray_encode [OF _ t(6), of "message_view m"] assms(2) by (auto simp: sendable_def wire_image_def)
  have dn: "DataOperationEnd ?t = Inr (0, transfer_reset (?t\<lparr>m_ConnectProtocol := m'\<rparr>))"
    using DataOperationEnd_receive [OF _ t(2) _ t(3)] t(1,9) m'(1) by auto
  obtain code m2 where f: "f m' 300 = (code, m2)" by force
  have m2: "message_ok m2" using keeps_messages [OF m'(2), of 300] by (simp add: f)
  let ?c = "c\<lparr>c_task := (transfer_reset ?t)\<lparr>m_ConnectProtocol := m2\<rparr>\<rparr>"
  have run: "read_done fd c = Inr (read_switch code fd ?c)"
    using t assms(3) by (simp add: read_done_def dn f call_business_def Let_def transfer_reset_def)
  have "delivered f fd (message_view m) c (read_switch code fd ?c)"
    unfolding delivered_def
    by (rule conjI, rule exI [of _ m'])
      (use m' m2 t f in \<open>auto simp: read_switch_def idle_def same_peer_def transfer_reset_def SetTaskMode_def\<close>)
  moreover have "c_env (read_switch code fd ?c) = c_env c" by (simp add: read_switch_def)
  ultimately show thesis using run that by blast
qed

lemma delivered_via:
  "delivered f fd v c1 c2 \<Longrightarrow> same_peer (c_task c) (c_task c1) \<Longrightarrow> Encrypt (c_task c1) = Encrypt (c_task c) \<Longrightarrow>
   c_actions c1 = c_actions c \<Longrightarrow> delivered f fd v c c2"
  by (auto simp: delivered_def same_peer_def)

text \<open>An event that finds the header accepted reads on, and completes the message with its last byte.\<close>

lemma On_Read_receiving:
  assumes "platform_ok P" "ordered_stream P pending" "receiving (c_task c) (length (wire_image m)) got" "sendable m"
    "wire_image m = got @ rest" "Business_CallBack (c_task c) = Some f" "pending (c_env c) = piece @ left"
    "rest = piece @ later" "later = [] \<or> left = []"
  obtains c' where "On_Read_CallBack P (Some b) fd c = Inr c'" "pending (c_env c') = left"
    "later \<noteq> [] \<Longrightarrow> receiving (c_task c') (length (wire_image m)) (got @ piece) \<and> same_peer (c_task c) (c_task c') \<and>
       Encrypt (c_task c') = Encrypt (c_task c) \<and> c_actions c' = c_actions c"
    "later = [] \<Longrightarrow> delivered f fd (message_view m) c c'"
proof -
  have flags: "TaskMode (c_task c) = 300" "DataLenth_All_Done (c_task c)" "EncryptDone (c_task c)"
    "Verification_Done (c_task c)" "Verification_Ok (c_task c)"
    using assms(3) by (simp_all add: receiving_def)
  have run: "On_Read_CallBack P (Some b) fd c = and_then (read_body P c) (read_done fd)"
    using flags by (simp add: On_Read_CallBack_def GetTaskMode_def read_length_def read_encrypt_def
        read_verification_def check_header_def Let_def)
  have k: "length (wire_image m) - length got = length piece + length later" using assms(5,8) by simp
  have tk: "take (length (wire_image m) - length got) (pending (c_env c)) = piece"
    "drop (length (wire_image m) - length got) (pending (c_env c)) = left"
    using assms(7,9) unfolding k by auto
  obtain c1 where c1: "read_body P c = Inr c1" "receiving (c_task c1) (length (wire_image m)) (got @ piece)"
    "pending (c_env c1) = left" "same_peer (c_task c) (c_task c1)" "Encrypt (c_task c1) = Encrypt (c_task c)"
    "c_actions c1 = c_actions c"
    using read_body_receiving [OF assms(1-3)] tk by metis
  show thesis
  proof (cases "later = []")
    case True
    have r1: "receiving (c_task c1) (length (wire_image m)) (wire_image m)"
      using c1(2) assms(5,8) True by simp
    have "Business_CallBack (c_task c1) = Some f" using c1(4) assms(6) by (simp add: same_peer_def)
    from read_done_delivers [OF r1 assms(4) this]
    obtain c2 where "read_done fd c1 = Inr c2" "delivered f fd (message_view m) c1 c2" "c_env c2 = c_env c1" .
    then show thesis using True c1 delivered_via [OF _ c1(4-6)] by (intro that [of c2]) (simp_all add: run)
  next
    case False
    have "unat (DataLenth_Remaining (c_task c1)) = length later"
      using c1(2) k assms(5,8) unat_small [of "length later"] by (simp add: receiving_def)
    then have "DataLenth_Remaining (c_task c1) \<noteq> 0" using False by auto
    then have "read_done fd c1 = Inr c1" by (simp add: read_done_def)
    then show thesis using False c1 by (intro that [of c1]) (simp_all add: run)
  qed
qed

text \<open>The first event of a message, which brings its whole header.\<close>

lemma On_Read_first:
  assumes P: "platform_ok P" "memory_suffices P" "ordered_stream P pending"
    and t: "idle (c_task c)" "TaskMode (c_task c) = 300" "Business_CallBack (c_task c) = Some f"
      "EncryptDone (c_task c) \<Longrightarrow> Encrypt (c_task c) = en"
    and m: "sendable m" "wire_image m = piece @ later" "later = [] \<or> left = []"
      "pending (c_env c) @ later = wire_frame (\<not> EncryptDone (c_task c)) en (wire_image m) @ left"
  obtains c' where "On_Read_CallBack P (Some b) fd c = Inr c'" "pending (c_env c') = left"
    "later \<noteq> [] \<Longrightarrow> receiving (c_task c') (length (wire_image m)) piece \<and> same_peer (c_task c) (c_task c') \<and>
       Encrypt (c_task c') = en \<and> c_actions c' = c_actions c"
    "later = [] \<Longrightarrow> delivered f fd (message_view m) (c\<lparr>c_task := (c_task c)\<lparr>Encrypt := en\<rparr>\<rparr>) c'"
proof -
  let ?n = "length (wire_image m)"
  let ?v = "verification_code (of_nat ?n) en"
  note w = writable_length [OF sendable_writable [OF m(1)]]
  obtain e3 where e3: "read_verification P (read_encrypt P (read_length P c)) =
      c\<lparr>c_task := (c_task c)\<lparr>DataLenth_All := of_nat ?n, DataLenth_All_Done := True, Encrypt := en, EncryptDone := True,
          Verification := ?v, Verification_Done := True\<rparr>, c_env := e3\<rparr>" "pending e3 = piece @ left"
    by (rule read_header_stream [OF P(3), where c = c and en = en and n = "of_nat ?n" and rest = "piece @ left"])
      (use t m(2-4) in \<open>auto simp: idle_def wire_frame_def\<close>)
  let ?c3 = "c\<lparr>c_task := (c_task c)\<lparr>DataLenth_All := of_nat ?n, DataLenth_All_Done := True, Encrypt := en, EncryptDone := True,
          Verification := ?v, Verification_Done := True\<rparr>, c_env := e3\<rparr>"
  obtain c4 where c4: "check_header P fd ?c3 = Inr (False, c4)" "receiving (c_task c4) ?n []"
    "pending (c_env c4) = pending (c_env ?c3)" "same_peer (c_task ?c3) (c_task c4)"
    "Encrypt (c_task c4) = Encrypt (c_task ?c3)" "c_actions c4 = c_actions ?c3"
    by (rule check_header_accepts [OF P w, where c = ?c3]) (use t in \<open>auto simp: idle_def\<close>)
  have "On_Read_CallBack P (Some b) fd c = and_then (read_body P c4) (read_done fd)"
    using t(2) c4(1) by (simp add: On_Read_CallBack_def GetTaskMode_def e3(1) Let_def)
  also have "\<dots> = On_Read_CallBack P (Some b) fd c4"
    using c4(2) by (simp add: On_Read_CallBack_def GetTaskMode_def read_length_def read_encrypt_def
        read_verification_def check_header_def Let_def receiving_def)
  finally have run: "On_Read_CallBack P (Some b) fd c = On_Read_CallBack P (Some b) fd c4" .
  have b4: "Business_CallBack (c_task c4) = Some f" using c4(4) t(3) by (simp add: same_peer_def)
  obtain c' where c': "On_Read_CallBack P (Some b) fd c4 = Inr c'" "pending (c_env c') = left"
    "later \<noteq> [] \<Longrightarrow> receiving (c_task c') ?n ([] @ piece) \<and> same_peer (c_task c4) (c_task c') \<and>
       Encrypt (c_task c') = Encrypt (c_task c4) \<and> c_actions c' = c_actions c4"
    "later = [] \<Longrightarrow> delivered f fd (message_view m) c4 c'"
    by (rule On_Read_receiving [OF P(1,3) c4(2) m(1) _ b4, where rest = "wire_image m" and piece = piece and
          later = "later" and left = left]) (use c4(3) e3(2) m in auto)
  have p: "same_peer (c_task (c\<lparr>c_task := (c_task c)\<lparr>Encrypt := en\<rparr>\<rparr>)) (c_task c4)"
    "Encrypt (c_task c4) = en" "c_actions c4 = c_actions c"
    using c4(4-6) by (simp_all add: same_peer_def)
  show thesis
    by (rule that [of c'])
      (use run c' p delivered_via [of fd "message_view m" c4 c' "c\<lparr>c_task := (c_task c)\<lparr>Encrypt := en\<rparr>\<rparr>"] in
        \<open>auto simp: same_peer_def\<close>)
qed

end


section \<open>Runs of the event loop\<close>

text \<open>The bytes of each piece arrive, and the read callback is called.\<close>

definition pieces :: "(bytes \<Rightarrow> 'e \<Rightarrow> 'e) \<Rightarrow> bytes list \<Rightarrow> 'e event list" where
  "pieces arrive ps = concat (map (\<lambda>p. [Elsewhere (arrive p), Readable]) ps)"

lemma pieces_simps [simp]:
  "pieces arrive [] = []" "pieces arrive (p # ps) = Elsewhere (arrive p) # Readable # pieces arrive ps"
  by (simp_all add: pieces_def)

definition arrives :: "(bytes \<Rightarrow> 'e \<Rightarrow> 'e) \<Rightarrow> ('e \<Rightarrow> bytes) \<Rightarrow> bool" where
  "arrives arrive pending \<longleftrightarrow> (\<forall>p e. pending (arrive p e) = pending e @ p)"

definition world_arrive :: "bytes \<Rightarrow> world \<Rightarrow> world" where
  "world_arrive p w = w\<lparr>inbox := inbox w @ p\<rparr>"

lemma world_arrives: "arrives world_arrive inbox"
  by (simp add: arrives_def world_arrive_def)

lemma delivered_env [simp]: "delivered f fd v (c\<lparr>c_env := e\<rparr>) c' = delivered f fd v c c'"
  by (simp add: delivered_def)

context business_function
begin

lemma dispatch_receiving:
  assumes "platform_ok P" "ordered_stream P pending" "arrives arrive pending" "sendable m"
    "receiving (c_task c) (length (wire_image m)) got" "wire_image m = got @ concat ps" "ps \<noteq> []" "[] \<notin> set ps"
    "Business_CallBack (c_task c) = Some f" "pending (c_env c) = []" "LoopBreak \<notin> set (c_actions c)"
  shows "\<exists>c'. dispatch P (Some b) (pieces arrive ps) c = Inr c' \<and>
    delivered f (ConnectSocket (c_task c)) (message_view m) c c' \<and> pending (c_env c') = []"
  using assms(5-)
proof (induction ps arbitrary: c got)
  case (Cons p ps)
  let ?fd = "ConnectSocket (c_task c)" and ?c = "c\<lparr>c_env := arrive p (c_env c)\<rparr>"
  have pend: "pending (c_env ?c) = p @ []" using Cons.prems(6) assms(3) by (simp add: arrives_def)
  obtain c1 where c1: "On_Read_CallBack P (Some b) ?fd ?c = Inr c1" "pending (c_env c1) = []"
    "concat ps \<noteq> [] \<Longrightarrow> receiving (c_task c1) (length (wire_image m)) (got @ p) \<and> same_peer (c_task ?c) (c_task c1) \<and>
       Encrypt (c_task c1) = Encrypt (c_task ?c) \<and> c_actions c1 = c_actions ?c"
    "concat ps = [] \<Longrightarrow> delivered f ?fd (message_view m) ?c c1"
    by (rule On_Read_receiving [OF assms(1,2) _ assms(4) _ _ pend, where got = got and rest = "concat (p # ps)" and
          later = "concat ps" and fd = ?fd and b = b]) (use Cons.prems in auto)
  show ?case
  proof (cases ps)
    case Nil
    then show ?thesis using c1 Cons.prems(7) by (simp add: handle_def)
  next
    case (Cons q qs)
    then have ne: "ps \<noteq> []" "concat ps \<noteq> []" using Cons.prems(4) by auto
    note k = c1(3) [OF ne(2)]
    have "\<exists>c'. dispatch P (Some b) (pieces arrive ps) c1 = Inr c' \<and>
      delivered f (ConnectSocket (c_task c1)) (message_view m) c1 c' \<and> pending (c_env c') = []"
      using k Cons.prems c1(2) ne(1) by (intro Cons.IH [of _ "got @ p"]) (auto simp: same_peer_def)
    then obtain c' where c': "dispatch P (Some b) (pieces arrive ps) c1 = Inr c'"
      "delivered f ?fd (message_view m) c1 c'" "pending (c_env c') = []"
      using k by (auto simp: same_peer_def)
    have "delivered f ?fd (message_view m) c c'" using delivered_via [OF c'(2), of c] k by simp
    then show ?thesis using c' c1(1) Cons.prems(7) by (simp add: handle_def)
  qed
qed simp

text \<open>Until the last piece has come the task only collects.\<close>

lemma dispatch_collects:
  assumes "platform_ok P" "ordered_stream P pending" "arrives arrive pending" "sendable m"
    "receiving (c_task c) (length (wire_image m)) got" "wire_image m = got @ concat qs @ later" "later \<noteq> []"
    "Business_CallBack (c_task c) = Some f" "pending (c_env c) = []" "LoopBreak \<notin> set (c_actions c)"
  shows "\<exists>c'. dispatch P (Some b) (pieces arrive qs) c = Inr c' \<and>
    receiving (c_task c') (length (wire_image m)) (got @ concat qs) \<and> c_actions c' = c_actions c"
  using assms(5-)
proof (induction qs arbitrary: c got)
  case (Cons p qs)
  let ?fd = "ConnectSocket (c_task c)" and ?c = "c\<lparr>c_env := arrive p (c_env c)\<rparr>"
  have pend: "pending (c_env ?c) = p @ []" using Cons.prems(5) assms(3) by (simp add: arrives_def)
  obtain c1 where c1: "On_Read_CallBack P (Some b) ?fd ?c = Inr c1" "pending (c_env c1) = []"
    "concat qs @ later \<noteq> [] \<Longrightarrow> receiving (c_task c1) (length (wire_image m)) (got @ p) \<and> same_peer (c_task ?c) (c_task c1) \<and>
       Encrypt (c_task c1) = Encrypt (c_task ?c) \<and> c_actions c1 = c_actions ?c"
    by (rule On_Read_receiving [OF assms(1,2) _ assms(4) _ _ pend, where got = got and rest = "concat (p # qs) @ later" and
          later = "concat qs @ later" and fd = ?fd and b = b]) (use Cons.prems in auto)
  have k: "receiving (c_task c1) (length (wire_image m)) (got @ p)" "same_peer (c_task ?c) (c_task c1)" "c_actions c1 = c_actions c"
    using c1(3) Cons.prems(3) by simp_all
  have "\<exists>c'. dispatch P (Some b) (pieces arrive qs) c1 = Inr c' \<and>
      receiving (c_task c') (length (wire_image m)) ((got @ p) @ concat qs) \<and> c_actions c' = c_actions c1"
    using k Cons.prems c1(2) by (intro Cons.IH) (auto simp: same_peer_def)
  then show ?case using c1(1) Cons.prems(6) k(3) by (auto simp: handle_def)
qed simp

lemma dispatch_unfinished:
  assumes P: "platform_ok P" "memory_suffices P" "ordered_stream P pending" "arrives arrive pending"
    and t: "idle (c_task c)" "TaskMode (c_task c) = 300" "Business_CallBack (c_task c) = Some f"
      "EncryptDone (c_task c) \<Longrightarrow> Encrypt (c_task c) = en" "pending (c_env c) = []" "LoopBreak \<notin> set (c_actions c)"
    and m: "sendable m" "wire_image m = part @ concat qs @ later" "later \<noteq> []"
  shows "\<exists>c'. dispatch P (Some b) (pieces arrive
      ((wire_header (\<not> EncryptDone (c_task c)) en (of_nat (length (wire_image m))) @ part) # qs)) c = Inr c' \<and>
    receiving (c_task c') (length (wire_image m)) (part @ concat qs) \<and> c_actions c' = c_actions c"
proof -
  let ?fd = "ConnectSocket (c_task c)"
  let ?h = "wire_header (\<not> EncryptDone (c_task c)) en (of_nat (length (wire_image m)))"
  let ?c = "c\<lparr>c_env := arrive (?h @ part) (c_env c)\<rparr>"
  have pend: "pending (c_env ?c) = ?h @ part" using t(5) P(4) by (simp add: arrives_def)
  obtain c1 where c1: "On_Read_CallBack P (Some b) ?fd ?c = Inr c1" "pending (c_env c1) = []"
    "concat qs @ later \<noteq> [] \<Longrightarrow> receiving (c_task c1) (length (wire_image m)) part \<and> same_peer (c_task ?c) (c_task c1) \<and>
       Encrypt (c_task c1) = en \<and> c_actions c1 = c_actions ?c"
    by (rule On_Read_first [OF P(1-3), where c = ?c and m = m and piece = part and later = "concat qs @ later" and left = "[]" and
          en = en and fd = ?fd and b = b]) (use t m pend in \<open>auto simp: wire_frame_def\<close>)
  have k: "receiving (c_task c1) (length (wire_image m)) part" "same_peer (c_task ?c) (c_task c1)" "c_actions c1 = c_actions c"
    using c1(3) m(3) by simp_all
  have "\<exists>c'. dispatch P (Some b) (pieces arrive qs) c1 = Inr c' \<and>
      receiving (c_task c') (length (wire_image m)) (part @ concat qs) \<and> c_actions c' = c_actions c1"
    by (rule dispatch_collects [OF P(1,3,4) m(1) k(1) m(2,3)]) (use k t c1(2) in \<open>auto simp: same_peer_def\<close>)
  then show ?thesis using c1(1) k(3) t(6) by (auto simp: handle_def)
qed

lemma dispatch_message:
  assumes P: "platform_ok P" "memory_suffices P" "ordered_stream P pending" "arrives arrive pending"
    and t: "idle (c_task c)" "TaskMode (c_task c) = 300" "Business_CallBack (c_task c) = Some f"
      "EncryptDone (c_task c) \<Longrightarrow> Encrypt (c_task c) = en" "pending (c_env c) = []" "LoopBreak \<notin> set (c_actions c)"
    and m: "sendable m" "wire_image m = part @ concat ps" "[] \<notin> set ps"
  shows "\<exists>c'. dispatch P (Some b) (pieces arrive
      ((wire_header (\<not> EncryptDone (c_task c)) en (of_nat (length (wire_image m))) @ part) # ps)) c = Inr c' \<and>
    delivered f (ConnectSocket (c_task c)) (message_view m) (c\<lparr>c_task := (c_task c)\<lparr>Encrypt := en\<rparr>\<rparr>) c' \<and>
    pending (c_env c') = []"
proof -
  let ?fd = "ConnectSocket (c_task c)"
  let ?h = "wire_header (\<not> EncryptDone (c_task c)) en (of_nat (length (wire_image m)))"
  let ?c = "c\<lparr>c_env := arrive (?h @ part) (c_env c)\<rparr>" and ?ce = "c\<lparr>c_task := (c_task c)\<lparr>Encrypt := en\<rparr>\<rparr>"
  have pend: "pending (c_env ?c) = ?h @ part" using t(5) P(4) by (simp add: arrives_def)
  obtain c1 where c1: "On_Read_CallBack P (Some b) ?fd ?c = Inr c1" "pending (c_env c1) = []"
    "concat ps \<noteq> [] \<Longrightarrow> receiving (c_task c1) (length (wire_image m)) part \<and> same_peer (c_task ?c) (c_task c1) \<and>
       Encrypt (c_task c1) = en \<and> c_actions c1 = c_actions ?c"
    "concat ps = [] \<Longrightarrow> delivered f ?fd (message_view m) (?c\<lparr>c_task := (c_task ?c)\<lparr>Encrypt := en\<rparr>\<rparr>) c1"
    by (rule On_Read_first [OF P(1-3), where c = ?c and m = m and piece = part and later = "concat ps" and left = "[]" and
          en = en and fd = ?fd and b = b]) (use t m pend in \<open>auto simp: wire_frame_def\<close>)
  show ?thesis
  proof (cases "ps = []")
    case True
    then have "delivered f ?fd (message_view m) ?ce c1"
      using c1(4) by (simp add: delivered_def)
    then show ?thesis using True c1 t(6) by (simp add: handle_def)
  next
    case False
    then have "concat ps \<noteq> []" using m(3) by (cases ps) auto
    note k = c1(3) [OF this]
    obtain c' where c': "dispatch P (Some b) (pieces arrive ps) c1 = Inr c'"
      "delivered f ?fd (message_view m) c1 c'" "pending (c_env c') = []"
      using dispatch_receiving [OF P(1,3,4) m(1) _ m(2) False m(3), of c1 b] k t c1(2) by (auto simp: same_peer_def)
    have "delivered f ?fd (message_view m) ?ce c'"
      using delivered_via [OF c'(2), of ?ce] k by (simp add: same_peer_def)
    then show ?thesis using c' c1(1) t(6) by (simp add: handle_def)
  qed
qed

end

section \<open>Incomplete sends and reads\<close>

lemma On_Write_steps:
  assumes "TaskMode (c_task c) = 100" "\<not> DataOperationStatus (c_task c)" "writable (m_ConnectProtocol (c_task c))"
    "malloc P (length (wire_image (m_ConnectProtocol (c_task c)))) (c_env c) = (Some blk, e)"
    "length blk = length (wire_image (m_ConnectProtocol (c_task c)))"
  obtains m where "On_Write_CallBack P (Some b) fd c =
      and_then (write_body P (write_verification P (write_encrypt P (write_length P
        (c\<lparr>c_task := ready_task m (c_task c), c_env := e\<rparr>))))) write_done"
    "writable m" "message_view m = message_view (m_ConnectProtocol (c_task c))"
    "wire_image m = wire_image (m_ConnectProtocol (c_task c))"
proof -
  obtain m where m: "DataOperationReady P (c_task c) (c_env c) = Inr (0, ready_task m (c_task c), e)" "writable m"
    "message_view m = message_view (m_ConnectProtocol (c_task c))" "wire_image m = wire_image (m_ConnectProtocol (c_task c))"
    using DataOperationReady_send [OF _ assms(3-5)] assms(1) by auto
  then show thesis using assms(1,2)
    by (intro that [of m]) (simp_all add: On_Write_CallBack_def GetTaskMode_def write_prepare_def Let_def)
qed

lemma world_send:
  "quota w = int k # qs \<Longrightarrow> k \<le> length bs \<Longrightarrow>
   sock_send world_platform bs w = (int k, w\<lparr>outbox := outbox w @ take k bs, quota := qs\<rparr>)"
  by (simp add: world_platform_def)


text \<open>
  A first write event whose header goes out whole and whose body does not, and a second one: the
  second starts over.
\<close>

lemma partial_write_event:
  assumes t: "TaskMode (c_task c) = 100" "\<not> DataOperationStatus (c_task c)" "\<not> Verification_Done (c_task c)"
      "\<not> EncryptDone (c_task c)" "writable (m_ConnectProtocol (c_task c))"
    and k: "k < length (wire_image (m_ConnectProtocol (c_task c)))"
    and w: "quota (c_env c) = [4, 1, 4, int k]" "length (wire_image (m_ConnectProtocol (c_task c))) \<le> memory (c_env c)"
  obtains c' where "On_Write_CallBack world_platform (Some b) fd c = Inr c'"
    "c_env c' = (c_env c)\<lparr>quota := [], outbox := outbox (c_env c) @
       wire_header True (Encrypt (c_task c)) (of_nat (length (wire_image (m_ConnectProtocol (c_task c))))) @
       take k (wire_image (m_ConnectProtocol (c_task c)))\<rparr>"
    "TaskMode (c_task c') = 100" "\<not> DataOperationStatus (c_task c')" "Verification_Done (c_task c')"
    "EncryptDone (c_task c')" "writable (m_ConnectProtocol (c_task c'))"
    "wire_image (m_ConnectProtocol (c_task c')) = wire_image (m_ConnectProtocol (c_task c))"
    "Business_CallBack (c_task c') = Business_CallBack (c_task c)" "c_actions c' = c_actions c"
    "ConnectSocket (c_task c') = ConnectSocket (c_task c)"
proof -
  let ?bs = "wire_image (m_ConnectProtocol (c_task c))"
  let ?n = "of_nat (length ?bs) :: u32"
  note wl = writable_length [OF t(5)]
  have ml: "malloc world_platform (length ?bs) (c_env c) = (Some (replicate (length ?bs) 0xCD), c_env c)" using w(2) by simp
  obtain m where m: "On_Write_CallBack world_platform (Some b) fd c =
      and_then (write_body world_platform (write_verification world_platform (write_encrypt world_platform
        (write_length world_platform (c\<lparr>c_task := ready_task m (c_task c), c_env := c_env c\<rparr>))))) write_done"
    "writable m" "wire_image m = ?bs"
    using On_Write_steps [OF t(1,2,5) ml, of b fd] by (auto simp del: world_platform_simps)
  define c4 where "c4 = c\<lparr>c_task := (ready_task m (c_task c))\<lparr>DataLenth_All_Done := True, EncryptDone := True,
      Verification_Done := True\<rparr>, c_env := (c_env c)\<lparr>quota := [int k],
      outbox := outbox (c_env c) @ wire_header True (Encrypt (c_task c)) ?n\<rparr>\<rparr>"
  have hd: "write_verification world_platform (write_encrypt world_platform
        (write_length world_platform (c\<lparr>c_task := ready_task m (c_task c), c_env := c_env c\<rparr>))) = c4"
    using t(3,4) w(1) m(3)
    by (simp add: write_length_def write_encrypt_def write_verification_def ready_task_def world_platform_def c4_def
        length_WriteLittleEndian wire_header_def)
  have t4: "Verification_Ok (c_task c4)" "DataLenth_Already (c_task c4) = 0" "DataBuff (c_task c4) = Some ?bs"
    "DataLenth_Remaining (c_task c4) = ?n" "quota (c_env c4) = int k # []"
    by (simp_all add: c4_def ready_task_def m)
  let ?r = "?n - word_of_int (int k)"
  let ?c5 = "c4\<lparr>c_task := (c_task c4)\<lparr>DataLenth_Already := word_of_int (int k), DataLenth_Remaining := ?r\<rparr>,
    c_env := (c_env c4)\<lparr>outbox := outbox (c_env c4) @ take k ?bs, quota := []\<rparr>\<rparr>"
  have c5: "write_body world_platform c4 = Inr ?c5"
    using write_body_whole [OF t4(1-4) wl world_send [OF t4(5)]] k by auto
  have "?r = of_nat (length ?bs - k)" using k by (simp add: of_nat_diff)
  then have "unat ?r \<noteq> 0" using k wl unat_small [of "length ?bs - k"] by simp
  then have "?r \<noteq> 0" by auto
  then have run: "On_Write_CallBack world_platform (Some b) fd c = Inr ?c5"
    unfolding m(1) hd c5 by (simp add: write_done_def)
  show thesis
    by (rule that [OF run]) (use t m in \<open>simp_all add: c4_def ready_task_def\<close>)
qed

lemma repeated_write_event:
  assumes t: "TaskMode (c_task c) = 100" "\<not> DataOperationStatus (c_task c)" "Verification_Done (c_task c)"
      "EncryptDone (c_task c)" "writable (m_ConnectProtocol (c_task c))" "Business_CallBack (c_task c) = Some f" "business_function f"
    and w: "quota (c_env c) = []" "length (wire_image (m_ConnectProtocol (c_task c))) \<le> memory (c_env c)"
  obtains c' where "On_Write_CallBack world_platform (Some b) fd c = Inr c'"
    "outbox (c_env c') = outbox (c_env c) @
       WriteLittleEndian32ToArray (of_nat (length (wire_image (m_ConnectProtocol (c_task c))))) @
       wire_image (m_ConnectProtocol (c_task c))"
    "TaskMode (c_task c') = 300" "c_actions c' = c_actions c @ [EnableRead]"
proof -
  let ?bs = "wire_image (m_ConnectProtocol (c_task c))"
  let ?n = "of_nat (length ?bs) :: u32"
  note wl = writable_length [OF t(5)]
  have ml: "malloc world_platform (length ?bs) (c_env c) = (Some (replicate (length ?bs) 0xCD), c_env c)" using w(2) by simp
  obtain m where m: "On_Write_CallBack world_platform (Some b) fd c =
      and_then (write_body world_platform (write_verification world_platform (write_encrypt world_platform
        (write_length world_platform (c\<lparr>c_task := ready_task m (c_task c), c_env := c_env c\<rparr>))))) write_done"
    "writable m" "wire_image m = ?bs"
    using On_Write_steps [OF t(1,2,5) ml, of b fd] by (auto simp del: world_platform_simps)
  define c4 where "c4 = c\<lparr>c_task := (ready_task m (c_task c))\<lparr>DataLenth_All_Done := True\<rparr>,
      c_env := (c_env c)\<lparr>outbox := outbox (c_env c) @ WriteLittleEndian32ToArray ?n\<rparr>\<rparr>"
  have hd: "write_verification world_platform (write_encrypt world_platform
        (write_length world_platform (c\<lparr>c_task := ready_task m (c_task c), c_env := c_env c\<rparr>))) = c4"
    using t(3,4) w(1) m(3)
    by (simp add: write_length_def write_encrypt_def write_verification_def ready_task_def c4_def length_WriteLittleEndian)
  have t4: "Verification_Ok (c_task c4)" "DataLenth_Already (c_task c4) = 0" "DataBuff (c_task c4) = Some ?bs"
    "DataLenth_Remaining (c_task c4) = ?n" "quota (c_env c4) = []"
    by (simp_all add: c4_def ready_task_def m w)
  let ?e = "(c_env c4)\<lparr>outbox := outbox (c_env c4) @ ?bs\<rparr>"
  obtain c5 where c5: "write_body world_platform c4 = Inr c5" "outbox (c_env c5) = outbox (c_env c4) @ ?bs"
    "DataLenth_Remaining (c_task c5) = 0" "c_actions c5 = c_actions c"
    "Verification_Ok (c_task c5)" "TaskMode (c_task c5) = 100" "message_ok (m_ConnectProtocol (c_task c5))"
    "Business_CallBack (c_task c5) = Some f" "\<not> DataOperationStatus (c_task c5)"
    using write_body_whole [OF t4(1-4) wl world_platform_simps(3) [OF t4(5)]] t m(2,3)
    by (cases "?bs = []") (auto simp: c4_def ready_task_def writable_def)
  obtain m' where m': "write_done c5 = Inr (act [EnableRead] (c5\<lparr>c_task := SetTaskMode 300
      ((transfer_reset (c_task c5))\<lparr>m_ConnectProtocol := m'\<rparr>)\<rparr>))"
    using business_function.write_done_complete [OF t(7) c5(5,3,6-9)] by blast
  have run: "On_Write_CallBack world_platform (Some b) fd c = Inr (act [EnableRead] (c5\<lparr>c_task := SetTaskMode 300
      ((transfer_reset (c_task c5))\<lparr>m_ConnectProtocol := m'\<rparr>)\<rparr>))"
    unfolding m(1) hd c5(1) by (simp add: m')
  show thesis by (rule that [OF run]) (use c5 in \<open>simp_all add: c4_def SetTaskMode_def\<close>)
qed


section \<open>Reading sends nothing\<close>

lemma header_keeps_sent:
  assumes "whole_sends P sent"
  shows "sent (c_env (read_length P c)) = sent (c_env c)" "sent (c_env (read_encrypt P c)) = sent (c_env c)"
    "sent (c_env (read_verification P c)) = sent (c_env c)"
  using assms by (simp_all add: read_length_def read_encrypt_def read_verification_def case_prod_beta Let_def whole_sends_def)

lemma check_header_keeps_sent:
  assumes "whole_sends P sent" "check_header P fd c = Inr (r, c')" "TaskMode (c_task c) = 300"
  shows "sent (c_env c') = sent (c_env c)"
proof (cases "Verification_Ok (c_task c) = False \<and> Verification_Done (c_task c)")
  case True
  obtain p e where "malloc P (unat (DataLenth_All (c_task c))) (c_env c) = (p, e)" by force
  then show ?thesis using assms True whole_sendsD(2) [OF assms(1)]
    by (auto simp: check_header_def DataOperationReady_receive Let_def split: if_splits)
qed (use assms(2) in \<open>auto simp: check_header_def\<close>)

lemma read_body_keeps_sent:
  assumes "whole_sends P sent" "read_body P c = Inr c'"
  shows "sent (c_env c') = sent (c_env c)"
proof -
  obtain bs e where r: "bufferevent_read P (unat (DataLenth_Remaining (c_task c))) (c_env c) = (bs, e)" by force
  show ?thesis using assms(2) whole_sendsD(3) [OF assms(1) r]
    by (auto simp: read_body_def Let_def r and_then_def split: if_splits sum.splits)
qed

lemma read_done_env: "read_done fd c = Inr c' \<Longrightarrow> c_env c' = c_env c"
  by (auto simp: read_done_def and_then_def call_business_def read_switch_def Let_def
      split: if_splits sum.splits prod.splits option.splits)

lemma On_Read_keeps_sent:
  assumes "whole_sends P sent" "On_Read_CallBack P m_instance fd c = Inr c'"
  shows "sent (c_env c') = sent (c_env c)"
proof (cases "m_instance = None \<or> TaskMode (c_task c) \<noteq> 300")
  case False
  let ?c3 = "read_verification P (read_encrypt P (read_length P c))"
  have mode: "TaskMode (c_task ?c3) = 300" using False by (simp add: task_simps)
  obtain r c4 where c4: "check_header P fd ?c3 = Inr (r, c4)"
    "(if r then Inr c4 else and_then (read_body P c4) (read_done fd)) = Inr c'"
    using assms(2) False by (auto simp: On_Read_CallBack_def GetTaskMode_def Let_def and_then_def split: sum.splits)
  note s4 = check_header_keeps_sent [OF assms(1) c4(1) mode]
  show ?thesis
  proof (cases r)
    case True
    then show ?thesis using c4(2) s4 header_keeps_sent [OF assms(1)] by simp
  next
    case False
    then obtain c5 where "read_body P c4 = Inr c5" "read_done fd c5 = Inr c'"
      using c4(2) by (auto simp: and_then_def split: sum.splits)
    then show ?thesis using read_body_keeps_sent [OF assms(1)] read_done_env s4 header_keeps_sent [OF assms(1)] by metis
  qed
qed (use assms(2) in \<open>auto simp: On_Read_CallBack_def GetTaskMode_def split: if_splits\<close>)

section \<open>What the transfer promises\<close>

text \<open>C10: The write callback, in one event in which the sends take all their bytes, puts on the wire the
  length of the message, the encryption flag if it is the first message of the connection, the
  code, and the encoding of the message; it clears the message and turns the task to receiving.\<close>

theorem message_written:
  assumes "platform_ok P" "memory_suffices P" "whole_sends P sent" "ordered_stream P pending" "business_ok f"
    "TaskMode (c_task c) = 100" "\<not> DataOperationStatus (c_task c)" "\<not> Verification_Done (c_task c)"
    "sendable (m_ConnectProtocol (c_task c))" "Business_CallBack (c_task c) = Some f"
  shows "\<exists>c'. On_Write_CallBack P (Some b) fd c = Inr c' \<and>
    sent (c_env c') = sent (c_env c) @ wire_frame (\<not> EncryptDone (c_task c)) (Encrypt (c_task c))
      (wire_image (m_ConnectProtocol (c_task c))) \<and>
    idle (c_task c') \<and> TaskMode (c_task c') = 300 \<and> EncryptDone (c_task c') \<and>
    message_view (m_ConnectProtocol (c_task c')) = empty_view \<and> c_actions c' = c_actions c @ [EnableRead]"
  by (rule business_function.On_Write_whole [OF business_okD [OF assms(5)] assms(1-4), of c b fd])
    (use assms sendable_writable in auto)

lemma message_written_witness:
  "\<exists>c'. On_Write_CallBack roomy_platform (Some sample_server) 7 (sample_conn 100 []) = Inr c' \<and>
     outbox (c_env c') = wire_frame True False (wire_image (set_apiname [97, 98] ConnectProtocol0)) \<and>
     TaskMode (c_task c') = 300"
  using message_written [OF roomy_platform_ok roomy_platform_stream(2,1) sample_conn_ok(3), of "sample_conn 100 []"
      sample_server 7] sample_conn_ok
  by (auto simp: idle_def quiet_world_def)

lemma concat_drop_not_Nil: "k < length ps \<Longrightarrow> [] \<notin> set ps \<Longrightarrow> concat (drop k ps) \<noteq> []"
  by (metis Cons_nth_drop_Suc append_is_Nil_conv concat.simps(2) nth_mem)

text \<open>C4: A message is delivered in whatever pieces its bytes arrive, after the last piece and not before. The
  conditions: memory does not run out, the header comes whole in the first piece, no piece is empty,
  the message is one that a parse accepts (its name and parameters are UTF-8, unknown fields have numbers the class
  does not know and do not nest too deep, and the encoding is below two gigabytes), and the task
  is idle with nothing unread. Then after every piece but the last the task still collects: it holds
  exactly the bytes that have come, its message object is empty, and nothing has been asked of the event loop, which every
  answer of the business function would do. After the last one the function has answered a message of the value that was
  sent; if it returned 1 the task turns to sending, if not the socket is closed and the loop ended, twice each if it
  returned 2, because that case runs into the next.\<close>

theorem message_reassembled:
  assumes "platform_ok P" "memory_suffices P" "ordered_stream P pending" "arrives arrive pending" "business_ok f"
    "idle (c_task c)" "TaskMode (c_task c) = 300" "Business_CallBack (c_task c) = Some f"
    "EncryptDone (c_task c) \<Longrightarrow> Encrypt (c_task c) = en" "pending (c_env c) = []" "LoopBreak \<notin> set (c_actions c)"
    "sendable m" "wire_image m = part @ concat ps" "[] \<notin> set ps"
    "all_pieces = (wire_header (\<not> EncryptDone (c_task c)) en (of_nat (length (wire_image m))) @ part) # ps"
  shows "(\<forall>k<length ps. \<exists>c1. dispatch P (Some b) (pieces arrive (take (Suc k) all_pieces)) c = Inr c1 \<and>
      receiving (c_task c1) (length (wire_image m)) (part @ concat (take k ps)) \<and> c_actions c1 = c_actions c) \<and>
    (\<exists>c'. dispatch P (Some b) (pieces arrive all_pieces) c = Inr c' \<and>
      delivered f (ConnectSocket (c_task c)) (message_view m) (c\<lparr>c_task := (c_task c)\<lparr>Encrypt := en\<rparr>\<rparr>) c' \<and>
      pending (c_env c') = [])"
proof (intro conjI allI impI)
  note l = business_okD [OF assms(5)]
  fix k assume k: "k < length ps"
  have split: "wire_image m = part @ concat (take k ps) @ concat (drop k ps)"
    by (simp add: assms(13) flip: concat_append)
  have first: "take (Suc k) all_pieces =
      (wire_header (\<not> EncryptDone (c_task c)) en (of_nat (length (wire_image m))) @ part) # take k ps"
    by (simp add: assms(15))
  show "\<exists>c1. dispatch P (Some b) (pieces arrive (take (Suc k) all_pieces)) c = Inr c1 \<and>
      receiving (c_task c1) (length (wire_image m)) (part @ concat (take k ps)) \<and> c_actions c1 = c_actions c"
    unfolding first
    by (rule business_function.dispatch_unfinished [OF l assms(1-4,6-12) split concat_drop_not_Nil [OF k assms(14)]])
next
  show "\<exists>c'. dispatch P (Some b) (pieces arrive all_pieces) c = Inr c' \<and>
      delivered f (ConnectSocket (c_task c)) (message_view m) (c\<lparr>c_task := (c_task c)\<lparr>Encrypt := en\<rparr>\<rparr>) c' \<and>
      pending (c_env c') = []"
    unfolding assms(15) by (rule business_function.dispatch_message [OF business_okD [OF assms(5)] assms(1-4,6-14)])
qed

lemma message_reassembled_witness:
  "(\<exists>c1. dispatch roomy_platform (Some sample_server) (pieces world_arrive [wire_header True False 4]) (sample_conn 300 []) = Inr c1 \<and>
      TaskMode (c_task c1) = 300 \<and> c_actions c1 = []) \<and>
   (\<exists>c'. dispatch roomy_platform (Some sample_server) (pieces world_arrive
      [wire_header True False 4, wire_image (set_apiname [97, 98] ConnectProtocol0)]) (sample_conn 300 []) = Inr c' \<and>
    TaskMode (c_task c') = 100 \<and> c_actions c' = [EnableWrite])"
proof -
  have "[] \<noteq> wire_image (set_apiname [97, 98] ConnectProtocol0)"
    using sample_conn_ok(5) by (cases "wire_image (set_apiname [97, 98] ConnectProtocol0)") auto
  then show ?thesis
    using message_reassembled [where P = roomy_platform and pending = inbox and arrive = world_arrive and c = "sample_conn 300 []" and
      f = "\<lambda>m a. (1, m)" and en = False and m = "set_apiname [97, 98] ConnectProtocol0" and part = "[]" and
      ps = "[wire_image (set_apiname [97, 98] ConnectProtocol0)]" and b = sample_server and
      all_pieces = "[wire_header True False 4, wire_image (set_apiname [97, 98] ConnectProtocol0)]",
      OF roomy_platform_ok roomy_platform_stream(1) world_arrives sample_conn_ok(3,1)] sample_conn_ok(4,5)
    by (auto simp: quiet_world_def delivered_def receiving_def)
qed

text \<open>C14: A peer can stop the process with one header: a length whose block cannot be allocated is
  accepted, and the first byte of the body is stored through the null pointer.\<close>

theorem failed_allocation_crashes:
  assumes "ordered_stream P pending" "idle (c_task c)" "TaskMode (c_task c) = 300"
    "EncryptDone (c_task c) \<Longrightarrow> Encrypt (c_task c) = en" "n \<noteq> 0" "\<forall>e. fst (malloc P (unat n) e) = None"
    "pending (c_env c) = wire_header (\<not> EncryptDone (c_task c)) en n @ x # rest"
  shows "On_Read_CallBack P (Some b) fd c = Inl Null_pointer"
proof -
  obtain e where e: "read_verification P (read_encrypt P (read_length P c)) =
      c\<lparr>c_task := (c_task c)\<lparr>DataLenth_All := n, DataLenth_All_Done := True, Encrypt := en, EncryptDone := True,
          Verification := verification_code n en, Verification_Done := True\<rparr>, c_env := e\<rparr>" "pending e = x # rest"
    by (rule read_header_stream [OF assms(1) _ _ assms(4,7)]) (use assms(2) in \<open>auto simp: idle_def\<close>)
  obtain e1 where m: "malloc P (unat n) e = (None, e1)" using assms(6) by (metis prod.collapse)
  obtain bs e2 where r: "bufferevent_read P (unat n) e1 = (bs, e2)" by force
  have "0 < unat n" using assms(5) by (simp add: unat_gt_0)
  then have "bs \<noteq> []"
    using ordered_streamD(1) [OF assms(1) r] ordered_streamD(2) [OF assms(1) m] e(2) by simp
  then show ?thesis using assms(2,3,5)
    by (simp add: On_Read_CallBack_def GetTaskMode_def Let_def e(1) check_header_def idle_def DataOperationReady_receive m
        read_body_def r store_block_NULL)
qed

definition poor_platform :: "world platform" where
  "poor_platform = world_platform\<lparr>malloc := (\<lambda>n w. (None, w))\<rparr>"

lemma failed_allocation_crashes_witness:
  "On_Read_CallBack poor_platform (Some sample_server) 7 (sample_conn 300 (wire_header True False 4000000000 @ [0])) =
     Inl Null_pointer"
  by (rule failed_allocation_crashes [where pending = inbox and en = False and n = 4000000000 and rest = "[]"])
    (simp_all add: poor_platform_def ordered_stream_def world_platform_def sample_conn_ok split: list.split)

text \<open>C13: A body that \<open>send\<close> takes only in part is not continued but sent again: because
  \<open>DataOperationStatus\<close> is never set, the next write event prepares the transfer anew, so the wire
  carries the length a second time in the middle of the body, and then the whole body again. The
  sender counts the message as delivered.\<close>

theorem partial_send_corrupts:
  assumes "TaskMode (c_task c) = 100" "\<not> DataOperationStatus (c_task c)" "\<not> Verification_Done (c_task c)"
    "\<not> EncryptDone (c_task c)" "writable (m_ConnectProtocol (c_task c))" "Business_CallBack (c_task c) = Some f" "business_ok f"
    "k < length (wire_image (m_ConnectProtocol (c_task c)))" "quota (c_env c) = [4, 1, 4, int k]"
    "length (wire_image (m_ConnectProtocol (c_task c))) \<le> memory (c_env c)" "LoopBreak \<notin> set (c_actions c)"
  shows "\<exists>c'. dispatch world_platform (Some b) [Writable, Writable] c = Inr c' \<and> TaskMode (c_task c') = 300 \<and>
    outbox (c_env c') = outbox (c_env c) @
      wire_header True (Encrypt (c_task c)) (of_nat (length (wire_image (m_ConnectProtocol (c_task c))))) @
      take k (wire_image (m_ConnectProtocol (c_task c))) @
      WriteLittleEndian32ToArray (of_nat (length (wire_image (m_ConnectProtocol (c_task c))))) @
      wire_image (m_ConnectProtocol (c_task c))"
proof -
  obtain c1 where c1: "On_Write_CallBack world_platform (Some b) (ConnectSocket (c_task c)) c = Inr c1"
    "c_env c1 = (c_env c)\<lparr>quota := [], outbox := outbox (c_env c) @
       wire_header True (Encrypt (c_task c)) (of_nat (length (wire_image (m_ConnectProtocol (c_task c))))) @
       take k (wire_image (m_ConnectProtocol (c_task c)))\<rparr>"
    "TaskMode (c_task c1) = 100" "\<not> DataOperationStatus (c_task c1)" "Verification_Done (c_task c1)"
    "EncryptDone (c_task c1)" "writable (m_ConnectProtocol (c_task c1))"
    "wire_image (m_ConnectProtocol (c_task c1)) = wire_image (m_ConnectProtocol (c_task c))"
    "Business_CallBack (c_task c1) = Some f" "c_actions c1 = c_actions c"
    using partial_write_event [OF assms(1-5,8-10), of b "ConnectSocket (c_task c)"] assms(6) by metis
  obtain c2 where "On_Write_CallBack world_platform (Some b) (ConnectSocket (c_task c1)) c1 = Inr c2"
    "outbox (c_env c2) = outbox (c_env c1) @
       WriteLittleEndian32ToArray (of_nat (length (wire_image (m_ConnectProtocol (c_task c1))))) @
       wire_image (m_ConnectProtocol (c_task c1))"
    "TaskMode (c_task c2) = 300"
    using repeated_write_event [OF c1(3-7,9) business_okD [OF assms(7)], of b "ConnectSocket (c_task c1)"] c1(2,8) assms(10)
    by (auto simp del: world_platform_simps)
  then show ?thesis using c1 assms(11) by (simp add: handle_def)
qed

lemma partial_send_corrupts_witness:
  "\<exists>c'. dispatch world_platform (Some sample_server) [Writable, Writable]
      ((sample_conn 100 [])\<lparr>c_env := quiet_world\<lparr>quota := [4, 1, 4, 2], memory := 100\<rparr>\<rparr>) = Inr c' \<and>
    length (outbox (c_env c')) = 9 + 2 + 4 + 4"
  using partial_send_corrupts [of "(sample_conn 100 [])\<lparr>c_env := quiet_world\<lparr>quota := [4, 1, 4, 2], memory := 100\<rparr>\<rparr>"
      "\<lambda>m a. (1, m)" 2 sample_server] sample_conn_ok(1) [of 100 "[]"] sample_conn_ok(3-5)
  by (auto simp: idle_def sendable_writable quiet_world_def wire_header_def length_WriteLittleEndian)


text \<open>C20: A header that arrives cut is not waited for. One byte is taken as the whole length, over the
  low byte of what the member held, and the next event reads the encryption flag from what is
  really the second byte of the length; the connection is out of step from there on.\<close>

theorem cut_header_accepted:
  assumes "idle (c_task c)" "TaskMode (c_task c) = 300" "\<not> EncryptDone (c_task c)" "inbox (c_env c) = []"
    "LoopBreak \<notin> set (c_actions c)"
  shows "\<exists>c'. dispatch world_platform (Some b) (pieces world_arrive [[x], [y]]) c = Inr c' \<and>
    DataLenth_All_Done (c_task c') \<and> DataLenth_All (c_task c') = store_u32 [x] (DataLenth_All (c_task c)) \<and>
    EncryptDone (c_task c') \<and> Encrypt (c_task c') = (y \<noteq> 0) \<and> \<not> Verification_Done (c_task c') \<and>
    c_actions c' = c_actions c"
  using assms
  by (simp add: handle_def On_Read_CallBack_def GetTaskMode_def read_length_def read_encrypt_def read_verification_def
      check_header_def read_body_def read_done_def world_arrive_def Let_def idle_def)

lemma cut_header_witness:
  "\<exists>c'. dispatch world_platform (Some sample_server) (pieces world_arrive [[4], [0]]) (sample_conn 300 []) = Inr c' \<and>
     DataLenth_All (c_task c') = 4 \<and> EncryptDone (c_task c')"
proof -
  have "store_u32 [4] 0 = 4" by code_simp
  then show ?thesis
    using cut_header_accepted [of "sample_conn 300 []" sample_server 4 0] sample_conn_ok(1) by (auto simp: quiet_world_def)
qed

end
