(* ===== verification/ParameterMap.thy ===== *)
theory ParameterMap
  imports ThreadTask "HOL-Library.List_Lexorder"
begin

text \<open>
  \<open>ParameterGroup\<close>, the map of parameters an application fills (\<open>ThreadTask.h\<close>): \<open>std::map<std::string, std::string>\<close>
  as its pairs in the order of its iterators. \<open>insert\<close> keeps a key that is there. Strings compare by their
  bytes, unsigned, which is the library's lexicographic order of lists of words.
\<close>

fun string_less :: "bytes \<Rightarrow> bytes \<Rightarrow> bool" where
  "string_less xs [] = False"
| "string_less [] (y # ys) = True"
| "string_less (x # xs) (y # ys) = (x < y \<or> x = y \<and> string_less xs ys)"

fun map_insert :: "bytes \<times> bytes \<Rightarrow> (bytes \<times> bytes) list \<Rightarrow> (bytes \<times> bytes) list" where
  "map_insert (k, v) [] = [(k, v)]"
| "map_insert (k, v) ((k', v') # ps) =
     (if string_less k k' then (k, v) # (k', v') # ps
      else if string_less k' k then (k', v') # map_insert (k, v) ps
      else (k', v') # ps)"

lemma string_less_list: "string_less xs ys \<longleftrightarrow> xs < ys"
  by (induction xs ys rule: string_less.induct) auto

text \<open>What the iterators of a map rely on: its keys ascend strictly.\<close>

definition keys_ascend :: "(bytes \<times> bytes) list \<Rightarrow> bool" where
  "keys_ascend ps \<longleftrightarrow> sorted_wrt (<) (map fst ps)"

lemma set_map_insert: "set (map fst (map_insert (k, v) ps)) = insert k (set (map fst ps))"
  by (induction "(k, v)" ps rule: map_insert.induct) (auto simp: string_less_list)

lemma keys_ascend_insert: "keys_ascend ps \<Longrightarrow> keys_ascend (map_insert (k, v) ps)"
proof (induction "(k, v)" ps rule: map_insert.induct)
  case (2 k' v' ps)
  then show ?case using set_map_insert [of k v ps]
    by (auto simp: keys_ascend_def string_less_list intro: less_trans)
qed (simp add: keys_ascend_def)

lemma map_of_insert:
  "keys_ascend ps \<Longrightarrow> map_of (map_insert (k, v) ps) = (if map_of ps k = None then (map_of ps)(k \<mapsto> v) else map_of ps)"
proof (induction "(k, v)" ps rule: map_insert.induct)
  case (2 k' v' ps)
  have "map_of ps k = None" if "k < k'"
  proof -
    have "k \<notin> set (map fst ps)" using that 2(2) by (auto simp: keys_ascend_def dest: less_trans)
    then show ?thesis by (simp add: map_of_eq_None_iff)
  qed
  then show ?case using 2 by (auto simp: keys_ascend_def string_less_list fun_upd_twist)
qed simp

text \<open>A map filled by any number of insertions: the first value given for a key stays.\<close>

lemma map_inserts:
  assumes "keys_ascend ps"
  shows "keys_ascend (fold map_insert ins ps) \<and> map_of (fold map_insert ins ps) = map_of ins ++ map_of ps \<and>
    fst ` set (fold map_insert ins ps) = fst ` set ins \<union> fst ` set ps"
  using assms
proof (induction ins arbitrary: ps)
  case (Cons p ins)
  obtain k v where p: "p = (k, v)" by force
  note IH = Cons.IH [OF keys_ascend_insert [OF Cons.prems, of k v]]
  have "map_of ins ++ map_of (map_insert (k, v) ps) = map_of (p # ins) ++ map_of ps"
  proof
    fix x
    show "(map_of ins ++ map_of (map_insert (k, v) ps)) x = (map_of (p # ins) ++ map_of ps) x"
      unfolding map_of_insert [OF Cons.prems] by (auto simp: p map_add_def split: option.split)
  qed
  then show ?case using IH set_map_insert [of k v ps] by (simp add: p fun_upd_def)
qed simp

section \<open>What a parameter map promises\<close>

text \<open>C17: An application that fills a map with any insertions and gives it to \<open>SetParameterGroup\<close> sends each
  of its keys once, in ascending order, with the value inserted first, after one empty parameter:
  the parameter added before the loop is never filled. The number of keys is returned, and nothing
  else of the message or the task changes.\<close>

theorem parameter_map_set:
  assumes "message_ok (m_ConnectProtocol t)"
  shows "\<exists>m ps. SetParameterGroup (fold map_insert ins []) t = (int (card (fst ` set ins)), t\<lparr>m_ConnectProtocol := m\<rparr>) \<and>
    message_ok m \<and> message_view m = (message_view (m_ConnectProtocol t))
      \<lparr>v_parameters := ([], [], []) # map (\<lambda>(k, v). (k, v, [])) ps\<rparr> \<and>
    sorted_wrt (<) (map fst ps) \<and> map_of ps = map_of ins"
proof -
  let ?ps = "fold map_insert ins []"
  have ps: "keys_ascend ?ps" "map_of ?ps = map_of ins" "fst ` set ?ps = fst ` set ins"
    using map_inserts [of "[]" ins] by (simp_all add: keys_ascend_def)
  have "distinct (map fst ?ps)" using ps(1) by (simp add: keys_ascend_def strict_sorted_iff)
  then have "length ?ps = card (fst ` set ins)" using distinct_card [of "map fst ?ps"] ps(3) by simp
  then show ?thesis using SetParameterGroup_view [OF assms, of ?ps] ps(1,2) by (auto simp: keys_ascend_def)
qed

lemma parameter_map_set_witness:
  "\<exists>m. fst (SetParameterGroup (fold map_insert [([75], [1]), ([66], [2]), ([75], [3])] [])
      (ThreadTask0 None 0 0 \<lparr>sin_family = 0, sin_port = 0, sin_addr = 0\<rparr>)) = 2 \<and>
    fold map_insert [([75], [1]), ([66], [2]), ([75], [3])] [] = [([66], [2]), ([75], [1])]"
  using parameter_map_set [of "ThreadTask0 None 0 0 \<lparr>sin_family = 0, sin_port = 0, sin_addr = 0\<rparr>"
      "[([75], [1]), ([66], [2]), ([75], [3])]"]
  by (auto simp: ThreadTask0_def message_ok_new card_insert_if)

end
