(* ===== verification/Programs.thy ===== *)
theory Programs
  imports Delivery ParameterMap
begin

text \<open>
  The two example programs (\<open>Bosncc_S/main.cpp\<close>, \<open>Bosncc_C/main.cpp\<close>): their business functions, what
  their \<open>main\<close> functions set up, and the conversation the two have. Console output and the pauses
  are not modelled.
\<close>

section \<open>Business functions\<close>

definition ascii :: "string \<Rightarrow> bytes" where "ascii s = map of_char s"

definition CallbackB :: business where
  "CallbackB UConnectProtocol Arg =
     (if Arg = 100 then (1, UConnectProtocol)
      else (1, set_apiname (ascii ''Hello Client'') UConnectProtocol))"

definition CallbackA :: business where
  "CallbackA UConnectProtocol Arg =
     (if Arg = 100 then (1, UConnectProtocol)
      else (1, set_apiname (ascii ''Hello Server'') UConnectProtocol))"

lemma set_apiname_view:
  "message_view (set_apiname bs m) = (message_view m)\<lparr>v_apiname := bs\<rparr>"
  "message_ok (set_apiname bs m) = message_ok m"
  by (simp_all add: set_apiname_def message_view_def message_ok_def cp_simps)

interpretation server: business_function CallbackB
  by unfold_locales (simp add: CallbackB_def set_apiname_view)

interpretation client: business_function CallbackA
  by unfold_locales (simp add: CallbackA_def set_apiname_view)

section \<open>The main functions\<close>

text \<open>
  A method called through a null instance pointer faults when it touches a member.
  \<open>held\<close> is what the memory of the new instance held.
\<close>

definition on_instance :: "(Bosncc \<Rightarrow> 'a \<times> Bosncc) \<Rightarrow> statics \<Rightarrow> fault + ('a \<times> statics)" where
  "on_instance g s =
     (case m_Instance s of
        None \<Rightarrow> Inl Null_pointer
      | Some b \<Rightarrow> (let (x, b) = g b in Inr (x, s\<lparr>m_Instance := Some b\<rparr>)))"

definition server_main ::
  "startup_results \<Rightarrow> (Bosncc \<Rightarrow> Bosncc) \<Rightarrow> Bosncc \<Rightarrow> statics \<Rightarrow> fault + (int \<times> statics)" where
  "server_main r loop held s =
     (let s = snd (GetInstance held s); s = snd (SetRunoModel BOSNCC_MODEL_SERVER s); rm = RunModel s
      in and_then (on_instance (\<lambda>b. ((), SetBusinessFunction rm (Some CallbackB) b)) s) (\<lambda>(_, s).
         and_then (on_instance (\<lambda>b. ((), SetListenport rm 7777 b)) s) (\<lambda>(_, s).
         and_then (on_instance (\<lambda>b. ((), b_SetTimeout 1000 b)) s) (\<lambda>(_, s).
         and_then (on_instance (\<lambda>b. let (code, b, tr) = Init r rm b in (code, b)) s) (\<lambda>(code, s).
         if code \<noteq> 0 then Inr (- 1, s)
         else and_then (on_instance (Start loop rm) s) (\<lambda>(_, s). Inr (0, s)))))))"

text \<open>The task the client's \<open>main\<close> hands to \<open>AddTask\<close>, from the task its constructor built.\<close>

definition client_task :: "ThreadTask \<Rightarrow> ThreadTask" where
  "client_task new_ThreadTask =
     (let a = map_insert (ascii ''Username'', ascii ''TestUsername'') [];
          a = map_insert (ascii ''Password'', ascii ''TestPassword'') a;
          b = new_ThreadTask\<lparr>Connectport := 7777\<rparr>;
          b = b\<lparr>ConnectAddress := ''127.0.0.1''\<rparr>;
          b = snd (SetParameterGroup a b);
          b = SetTaskMode 100 b;
          b = SetTimeout 1000 b;
          b = b\<lparr>m_ConnectProtocol := set_apiname (ascii ''Hello Server First'') (m_ConnectProtocol b)\<rparr>
      in b\<lparr>Business_CallBack := Some CallbackA\<rparr>)"

definition client_main ::
  "startup_results \<Rightarrow> (u32 \<Rightarrow> string) \<Rightarrow> (string \<Rightarrow> u32) \<Rightarrow> connect_results \<Rightarrow> ThreadTask \<Rightarrow> Bosncc \<Rightarrow> statics \<Rightarrow>
   fault + (int \<times> ThreadTask \<times> call list \<times> statics)" where
  "client_main r inet_ntoa inet_addr cr new_ThreadTask held s =
     (let s = snd (GetInstance held s); s = snd (SetRunoModel BOSNCC_MODEL_CLIENT s); rm = RunModel s
      in and_then (on_instance (\<lambda>b. let (code, b, tr) = Init r rm b in (code, b)) s)
           (\<lambda>(_, s). let (code, t, tr) = AddTask inet_ntoa inet_addr cr rm (client_task new_ThreadTask)
                     in Inr (code, t, tr, s)))"

section \<open>The conversation\<close>

text \<open>
  Two machines, possibly different ones, joined by a network: what one side newly sent arrives on the other cut into
  pieces. Each side has its platform, the bytes it has sent and those it has not read, and a way for
  bytes to arrive. In one round the client writes, the server reads and writes, the client reads.
\<close>

record 'e net =
  n_platform :: "'e platform"
  n_sent :: "'e \<Rightarrow> bytes"
  n_pending :: "'e \<Rightarrow> bytes"
  n_arrive :: "bytes \<Rightarrow> 'e \<Rightarrow> 'e"

text \<open>A machine whose memory does not run out and whose sockets take all they are given and keep the order.\<close>

definition net_ok :: "'e net \<Rightarrow> bool" where
  "net_ok N \<longleftrightarrow> platform_ok (n_platform N) \<and> memory_suffices (n_platform N) \<and> whole_sends (n_platform N) (n_sent N) \<and>
     ordered_stream (n_platform N) (n_pending N) \<and> arrives (n_arrive N) (n_pending N)"

lemma net_okD:
  assumes "net_ok N"
  shows "platform_ok (n_platform N)" "memory_suffices (n_platform N)" "whole_sends (n_platform N) (n_sent N)"
    "ordered_stream (n_platform N) (n_pending N)" "arrives (n_arrive N) (n_pending N)"
  using assms by (simp_all add: net_ok_def)

definition world_net :: "world net" where
  "world_net = \<lparr>n_platform = roomy_platform, n_sent = outbox, n_pending = inbox, n_arrive = world_arrive\<rparr>"

lemma world_net_ok: "net_ok world_net"
  by (simp add: net_ok_def world_net_def roomy_platform_ok roomy_platform_stream world_arrives)

text \<open>A network may cut what it carries anywhere, but for the first nine bytes, the longest header.\<close>

definition fair_cut :: "(bytes \<Rightarrow> bytes list) \<Rightarrow> bool" where
  "fair_cut chop \<longleftrightarrow> (\<forall>bs. concat (chop bs) = bs \<and> [] \<notin> set (chop bs) \<and> min 9 (length bs) \<le> length (concat (take 1 (chop bs))))"

definition header_first :: "bytes \<Rightarrow> bytes list" where
  "header_first bs = filter (\<lambda>p. p \<noteq> []) [take 9 bs, drop 9 bs]"

lemma header_first_fair: "fair_cut header_first"
  by (auto simp: fair_cut_def header_first_def)

definition transfer ::
  "'e net \<Rightarrow> Bosncc option \<Rightarrow> 'f net \<Rightarrow> Bosncc option \<Rightarrow> (bytes \<Rightarrow> bytes list) \<Rightarrow> 'e conn \<Rightarrow> 'f conn \<Rightarrow>
   fault + ('e conn \<times> 'f conn)" where
  "transfer N ia M ib chop a b =
     and_then (handle (n_platform N) ia Writable a) (\<lambda>a1.
       let carried = drop (length (n_sent N (c_env a))) (n_sent N (c_env a1))
       in and_then (dispatch (n_platform M) ib (pieces (n_arrive M) (chop carried)) b) (\<lambda>b1. Inr (a1, b1)))"

definition exchange ::
  "'e net \<Rightarrow> Bosncc option \<Rightarrow> 'f net \<Rightarrow> Bosncc option \<Rightarrow> (bytes \<Rightarrow> bytes list) \<times> (bytes \<Rightarrow> bytes list) \<Rightarrow>
   'e conn \<times> 'f conn \<Rightarrow> fault + ('e conn \<times> 'f conn)" where
  "exchange N ia M ib cuts cs =
     and_then (transfer N ia M ib (fst cuts) (fst cs) (snd cs)) (\<lambda>(a, b).
     and_then (transfer M ib N ia (snd cuts) b a) (\<lambda>(b, a). Inr (a, b)))"

fun exchanges ::
  "'e net \<Rightarrow> Bosncc option \<Rightarrow> 'f net \<Rightarrow> Bosncc option \<Rightarrow> ((bytes \<Rightarrow> bytes list) \<times> (bytes \<Rightarrow> bytes list)) list \<Rightarrow>
   'e conn \<times> 'f conn \<Rightarrow> fault + ('e conn \<times> 'f conn)" where
  "exchanges N ia M ib [] cs = Inr cs"
| "exchanges N ia M ib (cuts # more_cuts) cs = and_then (exchange N ia M ib cuts cs) (exchanges N ia M ib more_cuts)"

section \<open>Rounds\<close>

text \<open>The writing and the reading side between two transfers; \<open>v\<close> is the message to be sent.\<close>

definition to_write :: "'e net \<Rightarrow> business \<Rightarrow> message_view \<Rightarrow> 'e conn \<Rightarrow> bool" where
  "to_write N f v c \<longleftrightarrow> idle (c_task c) \<and> TaskMode (c_task c) = 100 \<and> Business_CallBack (c_task c) = Some f \<and>
     message_view (m_ConnectProtocol (c_task c)) = v \<and> n_pending N (c_env c) = [] \<and> LoopBreak \<notin> set (c_actions c)"

definition to_read :: "'e net \<Rightarrow> business \<Rightarrow> 'e conn \<Rightarrow> bool" where
  "to_read N f c \<longleftrightarrow> idle (c_task c) \<and> TaskMode (c_task c) = 300 \<and> Business_CallBack (c_task c) = Some f \<and>
     n_pending N (c_env c) = [] \<and> LoopBreak \<notin> set (c_actions c)"

definition in_step :: "'e conn \<Rightarrow> 'f conn \<Rightarrow> bool" where
  "in_step a b \<longleftrightarrow> (EncryptDone (c_task a) \<longleftrightarrow> EncryptDone (c_task b)) \<and>
     (EncryptDone (c_task a) \<longrightarrow> Encrypt (c_task a) = Encrypt (c_task b))"

lemma length_wire_header: "length (wire_header first en n) = (if first then 9 else 8)"
  by (simp add: wire_header_def length_WriteLittleEndian)

text \<open>The first piece of a frame that is cut fairly has the header.\<close>

lemma fair_cut_frame:
  assumes "fair_cut chop"
  obtains part ps where "chop (wire_frame first en bs) = (wire_header first en (of_nat (length bs)) @ part) # ps"
    "bs = part @ concat ps" "[] \<notin> set ps"
proof -
  let ?h = "wire_header first en (of_nat (length bs))"
  have c: "concat (chop (wire_frame first en bs)) = ?h @ bs" "[] \<notin> set (chop (wire_frame first en bs))"
    "min 9 (length ?h + length bs) \<le> length (concat (take 1 (chop (wire_frame first en bs))))"
    using assms [unfolded fair_cut_def, rule_format, of "wire_frame first en bs"] by (simp_all add: wire_frame_def)
  obtain p ps where p: "chop (wire_frame first en bs) = p # ps"
    using c(3) by (cases "chop (wire_frame first en bs)") (auto simp: length_wire_header min_def split: if_splits)
  have len: "length ?h \<le> length p" using c(3) p by (auto simp: length_wire_header split: if_splits)
  have eq: "p @ concat ps = ?h @ bs" using c(1) p by simp
  have "?h = take (length ?h) p \<and> bs = drop (length ?h) p @ concat ps"
    using eq [symmetric] len by (simp only: append_eq_append_conv_if if_True)
  then have "p = ?h @ drop (length ?h) p" "bs = drop (length ?h) p @ concat ps" by (metis append_take_drop_id)+
  then show thesis using that [of "drop (length ?h) p" ps] p c(2) by auto
qed

text \<open>One message from a writing to a reading side whose function returns 1.\<close>

lemma one_message:
  assumes N: "net_ok N" "net_ok M" and chop: "fair_cut chop"
    and f: "business_function f" "business_function g" "to_write N f v a" "to_read M g b" "in_step a b" "message_fits v"
    and g: "\<And>m. message_view m = v \<Longrightarrow> fst (g m 300) = 1 \<and> message_view (snd (g m 300)) = w"
  obtains a1 b1 where "transfer N (Some ia) M (Some ib) chop a b = Inr (a1, b1)"
    "to_read N f a1" "to_write M g w b1" "in_step b1 a1"
proof -
  let ?m = "m_ConnectProtocol (c_task a)"
  let ?en = "Encrypt (c_task a)"
  let ?frame = "wire_frame (\<not> EncryptDone (c_task a)) ?en (wire_image ?m)"
  have m: "sendable ?m" using f(3,6) by (simp add: to_write_def idle_def sendable_def)
  have ta: "TaskMode (c_task a) = 100" "\<not> DataOperationStatus (c_task a)" "\<not> Verification_Done (c_task a)"
    "writable ?m" "Business_CallBack (c_task a) = Some f"
    using f(3) sendable_writable [OF m] by (simp_all add: to_write_def idle_def)
  obtain a1 where a1: "On_Write_CallBack (n_platform N) (Some ia) (ConnectSocket (c_task a)) a = Inr a1"
    "n_sent N (c_env a1) = n_sent N (c_env a) @ ?frame"
    "n_pending N (c_env a1) = n_pending N (c_env a)" "idle (c_task a1)" "TaskMode (c_task a1) = 300" "EncryptDone (c_task a1)"
    "Encrypt (c_task a1) = ?en" "same_peer (c_task a) (c_task a1)" "c_actions a1 = c_actions a @ [EnableRead]"
    using business_function.On_Write_whole [OF f(1) net_okD(1-4) [OF N(1)] ta] by metis
  obtain part ps where ps: "chop ?frame = (wire_header (\<not> EncryptDone (c_task a)) ?en (of_nat (length (wire_image ?m))) @ part) # ps"
    "wire_image ?m = part @ concat ps" "[] \<notin> set ps"
    by (rule fair_cut_frame [OF chop])
  have tb: "idle (c_task b)" "TaskMode (c_task b) = 300" "Business_CallBack (c_task b) = Some g"
    "EncryptDone (c_task b) \<Longrightarrow> Encrypt (c_task b) = ?en" "n_pending M (c_env b) = []" "LoopBreak \<notin> set (c_actions b)"
    and ed: "EncryptDone (c_task a) = EncryptDone (c_task b)"
    using f(4,5) by (auto simp: to_read_def in_step_def)
  have "\<exists>b1. dispatch (n_platform M) (Some ib) (pieces (n_arrive M) (chop ?frame)) b = Inr b1 \<and>
    delivered g (ConnectSocket (c_task b)) (message_view ?m) (b\<lparr>c_task := (c_task b)\<lparr>Encrypt := ?en\<rparr>\<rparr>) b1 \<and>
    n_pending M (c_env b1) = []"
    unfolding ed ps(1) [unfolded ed]
    by (rule business_function.dispatch_message [OF f(2) net_okD(1,2,4,5) [OF N(2)] tb(1-3) _ tb(5,6) m ps(2,3)]) (rule tb(4))
  then obtain b1 where b1: "dispatch (n_platform M) (Some ib) (pieces (n_arrive M) (chop ?frame)) b = Inr b1"
    "delivered g (ConnectSocket (c_task b)) (message_view ?m) (b\<lparr>c_task := (c_task b)\<lparr>Encrypt := ?en\<rparr>\<rparr>) b1"
    "n_pending M (c_env b1) = []"
    by blast
  have v: "message_view ?m = v" using f(3) by (simp add: to_write_def)
  have b1': "to_write M g w b1" "EncryptDone (c_task b1)" "Encrypt (c_task b1) = ?en"
    using b1(2,3) g tb(3,6) by (auto simp: delivered_def to_write_def same_peer_def v)
  show thesis
  proof (rule that [of a1 b1])
    show "transfer N (Some ia) M (Some ib) chop a b = Inr (a1, b1)"
      using f(3) by (simp add: transfer_def handle_def a1(1,2) b1(1) Let_def)
    show "to_read N f a1" using a1 f(3) by (simp add: to_read_def to_write_def same_peer_def)
    show "in_step b1 a1" using a1(6,7) b1' by (simp add: in_step_def)
  qed (rule b1'(1))
qed

lemma callback_views:
  "message_view m = v \<Longrightarrow> fst (CallbackA m 300) = 1 \<and> message_view (snd (CallbackA m 300)) = v\<lparr>v_apiname := ascii ''Hello Server''\<rparr>"
  "message_view m = v \<Longrightarrow> fst (CallbackB m 300) = 1 \<and> message_view (snd (CallbackB m 300)) = v\<lparr>v_apiname := ascii ''Hello Client''\<rparr>"
  by (simp_all add: CallbackA_def CallbackB_def set_apiname_view)

text \<open>The values of the conversation: the messages that go either way can be sent.\<close>

definition speakable :: "message_view \<Rightarrow> bool" where
  "speakable v \<longleftrightarrow> message_fits v \<and> message_fits (v\<lparr>v_apiname := ascii ''Hello Client''\<rparr>) \<and>
     message_fits (v\<lparr>v_apiname := ascii ''Hello Server''\<rparr>)"

lemma speakable_named: "speakable v \<Longrightarrow> speakable (v\<lparr>v_apiname := ascii ''Hello Server''\<rparr>)"
  by (simp add: speakable_def)

lemma one_round:
  assumes "net_ok N" "net_ok M" "fair_cut chop" "fair_cut chop'"
    "to_write N CallbackA v a" "to_read M CallbackB b" "in_step a b" "speakable v"
  obtains a' b' where "exchange N (Some ia) M (Some ib) (chop, chop') (a, b) = Inr (a', b')"
    "to_write N CallbackA (v\<lparr>v_apiname := ascii ''Hello Server''\<rparr>) a'" "to_read M CallbackB b'" "in_step a' b'"
proof -
  let ?w = "v\<lparr>v_apiname := ascii ''Hello Client''\<rparr>"
  obtain a1 b1 where 1: "transfer N (Some ia) M (Some ib) chop a b = Inr (a1, b1)"
    "to_read N CallbackA a1" "to_write M CallbackB ?w b1" "in_step b1 a1"
    by (rule one_message [OF assms(1-3) client.business_function_axioms server.business_function_axioms assms(5-7) _
          callback_views(2)]) (use assms(8) in \<open>simp_all add: speakable_def\<close>)
  obtain b2 a2 where 2: "transfer M (Some ib) N (Some ia) chop' b1 a1 = Inr (b2, a2)"
    "to_read M CallbackB b2" "to_write N CallbackA (v\<lparr>v_apiname := ascii ''Hello Server''\<rparr>) a2" "in_step a2 b2"
    by (rule one_message [OF assms(2,1,4) server.business_function_axioms client.business_function_axioms 1(3,2,4),
          where ia = ib and ib = ia and w = "v\<lparr>v_apiname := ascii ''Hello Server''\<rparr>"])
      (use assms(8) in \<open>simp_all add: speakable_def CallbackA_def set_apiname_view\<close>)
  show thesis using 1(1) 2 by (intro that [of a2 b2]) (simp_all add: exchange_def)
qed

lemma many_rounds:
  assumes "net_ok N" "net_ok M" "\<forall>(x, y)\<in>set cuts. fair_cut x \<and> fair_cut y"
    "to_write N CallbackA v a" "to_read M CallbackB b" "in_step a b" "speakable v"
  shows "\<exists>a' b'. exchanges N (Some ia) M (Some ib) cuts (a, b) = Inr (a', b') \<and>
    to_write N CallbackA (if cuts = [] then v else v\<lparr>v_apiname := ascii ''Hello Server''\<rparr>) a' \<and>
    to_read M CallbackB b' \<and> in_step a' b'"
  using assms(3-)
proof (induction cuts arbitrary: v a b)
  case (Cons xy cuts)
  obtain x y where xy: "xy = (x, y)" "fair_cut x" "fair_cut y" using Cons.prems(1) by (cases xy) auto
  obtain a1 b1 where r: "exchange N (Some ia) M (Some ib) (x, y) (a, b) = Inr (a1, b1)"
    "to_write N CallbackA (v\<lparr>v_apiname := ascii ''Hello Server''\<rparr>) a1" "to_read M CallbackB b1" "in_step a1 b1"
    using one_round [OF assms(1,2) xy(2,3) Cons.prems(2-5)] by blast
  from Cons.IH [OF _ r(2-4) speakable_named [OF Cons.prems(5)]] Cons.prems(1) show ?case
    by (cases "cuts = []") (simp_all add: r(1) xy(1))
qed simp


section \<open>Where the conversation starts\<close>

definition opening_view :: message_view where
  "opening_view = empty_view\<lparr>v_apiname := ascii ''Hello Server First'',
     v_parameters := [([], [], []), (ascii ''Password'', ascii ''TestPassword'', []),
                      (ascii ''Username'', ascii ''TestUsername'', [])]\<rparr>"

lemma client_parameters:
  "map_insert (ascii ''Password'', ascii ''TestPassword'') (map_insert (ascii ''Username'', ascii ''TestUsername'') []) =
     [(ascii ''Password'', ascii ''TestPassword''), (ascii ''Username'', ascii ''TestUsername'')]"
  by code_simp

lemma client_task_ready:
  fixes base thread garbage garbage_addr
  defines "t \<equiv> client_task (ThreadTask0 base thread garbage garbage_addr)"
  shows "idle t" "TaskMode t = 100" "Business_CallBack t = Some CallbackA" "message_view (m_ConnectProtocol t) = opening_view"
    "\<not> EncryptDone t" "Connectport t = 7777" "Timeout t = 1000"
proof -
  let ?t0 = "(ThreadTask0 base thread garbage garbage_addr)\<lparr>Connectport := 7777, ConnectAddress := ''127.0.0.1''\<rparr>"
  let ?ps = "[(ascii ''Password'', ascii ''TestPassword''), (ascii ''Username'', ascii ''TestUsername'')]"
  have ok: "message_ok (m_ConnectProtocol ?t0)" "message_view (m_ConnectProtocol ?t0) = empty_view"
    by (simp_all add: ThreadTask0_def message_ok_new)
  note s = SetParameterGroup_view [OF ok(1), of ?ps]
  obtain m where m: "snd (SetParameterGroup ?ps ?t0) = ?t0\<lparr>m_ConnectProtocol := m\<rparr>" "message_ok m"
    "message_view m = empty_view\<lparr>v_parameters := ([], [], []) # map (\<lambda>(k, v). (k, v, [])) ?ps\<rparr>"
    using s ok(2) by (metis snd_conv)
  have t: "t = (?t0\<lparr>m_ConnectProtocol := set_apiname (ascii ''Hello Server First'') m, TaskMode := 100, Timeout := 1000,
      Business_CallBack := Some CallbackA\<rparr>)"
    unfolding t_def client_task_def Let_def client_parameters m(1) by (simp add: SetTaskMode_def SetTimeout_def)
  show "idle t" "TaskMode t = 100" "Business_CallBack t = Some CallbackA" "message_view (m_ConnectProtocol t) = opening_view"
    "\<not> EncryptDone t" "Connectport t = 7777" "Timeout t = 1000"
    unfolding t using m(2,3)
    by (simp_all add: idle_def set_apiname_view ThreadTask0_def opening_view_def)
qed

lemma ascii_texts:
  "list_all (\<lambda>b. unat b < 128) (ascii ''Hello Server First'')" "list_all (\<lambda>b. unat b < 128) (ascii ''Hello Server'')"
  "list_all (\<lambda>b. unat b < 128) (ascii ''Hello Client'')" "list_all (\<lambda>b. unat b < 128) (ascii ''Password'')"
  "list_all (\<lambda>b. unat b < 128) (ascii ''TestPassword'')" "list_all (\<lambda>b. unat b < 128) (ascii ''Username'')"
  "list_all (\<lambda>b. unat b < 128) (ascii ''TestUsername'')"
  by code_simp+

lemma opening_lengths:
  "length (encode_message opening_view) < 2 ^ 31"
  "length (encode_message (opening_view\<lparr>v_apiname := ascii ''Hello Server''\<rparr>)) < 2 ^ 31"
  "length (encode_message (opening_view\<lparr>v_apiname := ascii ''Hello Client''\<rparr>)) < 2 ^ 31"
proof -
  have "length (encode_message (opening_view\<lparr>v_apiname := bs\<rparr>)) < 2 ^ 31" if "length bs < 100" for bs
    using that by (simp add: opening_view_def empty_view_def length_encode_message length_encode_parameter StringSize_def
        LengthDelimitedSize_def VarintSize32_small unat_small ascii_def)
  note len = this
  have "opening_view\<lparr>v_apiname := ascii ''Hello Server First''\<rparr> = opening_view" by (simp add: opening_view_def)
  then show "length (encode_message opening_view) < 2 ^ 31"
    using len [of "ascii ''Hello Server First''"] by (simp add: ascii_def)
  show "length (encode_message (opening_view\<lparr>v_apiname := ascii ''Hello Server''\<rparr>)) < 2 ^ 31"
    "length (encode_message (opening_view\<lparr>v_apiname := ascii ''Hello Client''\<rparr>)) < 2 ^ 31"
    by (rule len, simp add: ascii_def)+
qed

lemma opening_speakable: "speakable opening_view"
  using opening_lengths ascii_texts [THEN utf8_valid_ascii] utf8_valid_ascii [of "[]"]
  by (simp add: speakable_def message_fits_def parameter_ok_def opening_view_def empty_view_def)

section \<open>The two programs up to the conversation\<close>

lemma server_main_runs:
  assumes "startup_failure r = 0"
  obtains b where "b_Business_CallBack b = Some CallbackB" "Listenport b = 7777" "b_Timeout b = 1000" "Started b"
    "\<And>loop. server_main r loop held statics0 = Inr (0, \<lparr>CreatInstance = True, RunSetModel = True, RunModel = 2,
       m_Instance = Some ((loop b)\<lparr>Started := False\<rparr>)\<rparr>)"
proof -
  define b0 where "b0 = (held\<lparr>Started := False\<rparr>)\<lparr>b_Business_CallBack := Some CallbackB, Listenport := 7777, b_Timeout := 1000\<rparr>"
  obtain b1 tr where i: "ServerInit r BOSNCC_MODEL_SERVER b0 = (0, b1, tr)"
    using ServerInit_outcome [of r b0] assms by (cases "ServerInit r BOSNCC_MODEL_SERVER b0") auto
  have k: "b_Business_CallBack b1 = Some CallbackB" "Listenport b1 = 7777" "b_Timeout b1 = 1000" "\<not> Started b1"
    using i by (auto simp: ServerInit_def Let_def b0_def split: if_splits)
  show thesis
    by (rule that [of "b1\<lparr>Started := True\<rparr>"])
      (use k i in \<open>simp_all add: server_main_def on_instance_def GetInstance_simps SetRunoModel_simps statics0_def
        SetBusinessFunction_def SetListenport_def b_SetTimeout_def Init_def Start_def Let_def flip: b0_def\<close>)
qed

lemma client_main_runs:
  assumes "r_getaddrinfo cr = Inr (AF_INET, addr)" "r_client_socket cr \<noteq> INVALID_SOCKET" "r_connect cr \<noteq> SOCKET_ERROR"
  obtains t tr s where "client_main r inet_ntoa inet_addr cr (ThreadTask0 base thread garbage garbage_addr) held statics0 =
      Inr (0, t, tr, s)" "Submit_work \<in> set tr"
    "idle t" "TaskMode t = 100" "Business_CallBack t = Some CallbackA" "message_view (m_ConnectProtocol t) = opening_view"
    "\<not> EncryptDone t" "m_Instance s \<noteq> None"
proof -
  let ?t = "client_task (ThreadTask0 base thread garbage garbage_addr)"
  obtain code t tr where a: "AddTask inet_ntoa inet_addr cr BOSNCC_MODEL_CLIENT ?t = (code, t, tr)" by (metis prod_cases3)
  have t: "code = 0" "Submit_work \<in> set tr" "TaskMode t = 100" "Business_CallBack t = Business_CallBack ?t"
    "m_ConnectProtocol t = m_ConnectProtocol ?t" "EncryptDone t = EncryptDone ?t" "idle t = idle ?t"
    using a assms by (auto simp: AddTask_def Let_def SetTaskMode_def idle_def)
  obtain code' b tr' where i: "ClientInit r BOSNCC_MODEL_CLIENT (held\<lparr>Started := False\<rparr>) = (code', b, tr')"
    by (metis prod_cases3)
  show thesis
    by (rule that [of t tr "\<lparr>CreatInstance = True, RunSetModel = True, RunModel = 1, m_Instance = Some b\<rparr>"])
      (use t client_task_ready in \<open>simp_all add: client_main_def on_instance_def GetInstance_simps SetRunoModel_simps
        statics0_def Init_def i a Let_def\<close>)
qed

text \<open>The statics while the server runs, and a connection at its start.\<close>

definition server_statics :: "Bosncc \<Rightarrow> statics" where
  "server_statics b = \<lparr>CreatInstance = True, RunSetModel = True, RunModel = BOSNCC_MODEL_SERVER, m_Instance = Some b\<rparr>"

definition start_conn :: "ThreadTask \<Rightarrow> 'e \<Rightarrow> 'e conn" where
  "start_conn t e = \<lparr>c_task = t, c_env = e, c_actions = []\<rparr>"

lemma accepted_to_read:
  assumes "b_Business_CallBack b = Some CallbackB" "fd \<noteq> SOCKET_ERROR"
  obtains u where "On_Accept_CallBack (ThreadTask0 base thread garbage garbage_addr) (fd, addr) (server_statics b) =
      Inr (Some u, [])" "\<And>N e. n_pending N e = [] \<Longrightarrow> to_read N CallbackB (start_conn u e)" "\<not> EncryptDone u"
  using assms
  by (auto simp: server_statics_def On_Accept_CallBack_def ThreadTask0_def SetTaskMode_def SetTimeout_def Let_def
      to_read_def start_conn_def idle_def message_ok_new)

end
