(* ===== verification/ServerRun.thy ===== *)
theory ServerRun
  imports Programs
begin

text \<open>
  A server with all its connections (\<open>Bosnnc.cpp\<close>, lines 260 to 485): accepted sockets become work items of the
  thread pool, each runs the event loop of its own task, and the events of different connections come in
  any order. The tasks share the instance, which the callbacks only read, and the socket descriptors of the
  process. The operating system gives the descriptor of a closed socket to a later connection, so it matters that the
  source closes descriptors it has closed before: in the error callback (line 387), which leaves the loop running, in the switch of the read callback
  whose \<open>case 2\<close> runs into the default (lines 356 and 359), and when a bufferevent made with \<open>BEV_OPT_CLOSE_ON_FREE\<close> is freed
  (line 482).
\<close>

section \<open>Work items\<close>

text \<open>\<open>ServerThreadPoolWorking\<close> up to the dispatch of events, for a task that has a mode to run in.\<close>

definition begin_work :: "u32 \<Rightarrow> ThreadTask \<Rightarrow> 'e \<Rightarrow> 'e conn" where
  "begin_work current_thread t e =
     (let t = snd (ThreadRegistered current_thread t)
      in \<lparr>c_task = t, c_env = e,
          c_actions = [SetTimeouts (GetTimeout t), if GetTaskMode t div 100 = 1 then EnableWrite else EnableRead]\<rparr>)"

lemma ServerThreadPoolWorking_begin:
  assumes "TaskMode t div 100 = 1 \<or> TaskMode t div 100 = 3"
  shows "ServerThreadPoolWorking P run_model m_instance thread evs t e =
    and_then (dispatch P m_instance evs (begin_work thread t e)) (\<lambda>c. Inr (act [BevFree, DeleteTask] c))"
  using assms
  by (auto simp: ServerThreadPoolWorking_def begin_work_def ThreadRegistered_def GetTaskMode_def GetTimeout_def Let_def act_def)

section \<open>The sockets of the process\<close>

text \<open>
  Which connection a descriptor belongs to, the connections numbered in the order in which they were accepted; \<open>None\<close>
  for a descriptor that is free. \<open>closesocket\<close> frees a descriptor whoever calls it; freeing the bufferevent
  closes the descriptor it was made for, \<open>fd\<close>.
\<close>

fun close_effect :: "int \<Rightarrow> action \<Rightarrow> (int \<rightharpoonup> nat) \<Rightarrow> (int \<rightharpoonup> nat)" where
  "close_effect fd (CloseSocket n) sockets = sockets(n := None)"
| "close_effect fd BevFree sockets = sockets(fd := None)"
| "close_effect fd LoopBreak sockets = sockets"
| "close_effect fd EnableRead sockets = sockets"
| "close_effect fd EnableWrite sockets = sockets"
| "close_effect fd (SetTimeouts n) sockets = sockets"
| "close_effect fd DeleteTask sockets = sockets"

fun closing :: "action \<Rightarrow> bool" where
  "closing (CloseSocket n) = True"
| "closing BevFree = True"
| "closing a = False"

text \<open>What a step of a work item does to the sockets, and how often an item has closed its own.\<close>

definition sockets_after :: "'e conn \<Rightarrow> 'e conn \<Rightarrow> (int \<rightharpoonup> nat) \<Rightarrow> (int \<rightharpoonup> nat)" where
  "sockets_after c c' = fold (close_effect (ConnectSocket (c_task c'))) (drop (length (c_actions c)) (c_actions c'))"

definition closes :: "'e conn \<Rightarrow> nat" where
  "closes c = length (filter closing (c_actions c))"

section \<open>The server\<close>

text \<open>
  An event is a connection coming in, with the results of \<open>event_base_new\<close> and \<open>GetCurrentThreadId\<close>, what two
  members of the new task held, the result of \<open>accept\<close>, the thread that runs the work item and the
  environment of the new socket; an event of the \<open>i\<close>th work item, whose loop ends when told to; or the end
  of that item, when its loop has returned: the bufferevent is freed and the task deleted.
\<close>

datatype 'e server_event =
  Accepts "nat option" u32 int sockaddr_in "int \<times> sockaddr_in" u32 'e
  | Of_connection nat "'e event"
  | Work_ends nat

record 'e server =
  sv_statics :: statics
  sv_sockets :: "int \<rightharpoonup> nat"
  sv_work :: "'e conn list"
  sv_leaked :: "ThreadTask list"

definition runs :: "'e conn \<Rightarrow> bool" where
  "runs c \<longleftrightarrow> LoopBreak \<notin> set (c_actions c) \<and> BevFree \<notin> set (c_actions c)"

definition server_step :: "'e platform \<Rightarrow> 'e server_event \<Rightarrow> 'e server \<Rightarrow> fault + 'e server" where
  "server_step P ev s =
     (case ev of
        Accepts base thread garbage garbage_addr accepted worker e \<Rightarrow>
          and_then (On_Accept_CallBack (ThreadTask0 base thread garbage garbage_addr) accepted (sv_statics s))
            (\<lambda>(submitted, leaked). Inr (s\<lparr>
               sv_sockets := (case submitted of None \<Rightarrow> sv_sockets s
                              | Some t \<Rightarrow> (sv_sockets s)(ConnectSocket t \<mapsto> length (sv_work s))),
               sv_work := sv_work s @ (case submitted of None \<Rightarrow> [] | Some t \<Rightarrow> [begin_work worker t e]),
               sv_leaked := sv_leaked s @ leaked\<rparr>))
      | Of_connection i ev \<Rightarrow>
          if i < length (sv_work s) \<and> runs (sv_work s ! i)
          then and_then (handle P (m_Instance (sv_statics s)) ev (sv_work s ! i))
                 (\<lambda>c. Inr (s\<lparr>sv_work := (sv_work s)[i := c], sv_sockets := sockets_after (sv_work s ! i) c (sv_sockets s)\<rparr>))
          else Inr s
      | Work_ends i \<Rightarrow>
          if i < length (sv_work s) \<and> BevFree \<notin> set (c_actions (sv_work s ! i))
          then let c = act [BevFree, DeleteTask] (sv_work s ! i)
               in Inr (s\<lparr>sv_work := (sv_work s)[i := c], sv_sockets := sockets_after (sv_work s ! i) c (sv_sockets s)\<rparr>)
          else Inr s)"

section \<open>Safety of the whole server\<close>

definition serving :: "business \<Rightarrow> statics \<Rightarrow> bool" where
  "serving f s \<longleftrightarrow> RunModel s = BOSNCC_MODEL_SERVER \<and> CreatInstance s \<and>
     (case m_Instance s of None \<Rightarrow> False | Some b \<Rightarrow> b_Business_CallBack b = Some f)"

definition server_settled :: "business \<Rightarrow> 'e server \<Rightarrow> bool" where
  "server_settled f s \<longleftrightarrow> serving f (sv_statics s) \<and> (\<forall>c\<in>set (sv_work s). settled f (c_task c))"

fun server_event_fits :: "'e platform \<Rightarrow> 'e server_event \<Rightarrow> 'e server \<Rightarrow> bool" where
  "server_event_fits P (Of_connection i ev) s = (i < length (sv_work s) \<longrightarrow> event_fits P ev (sv_work s ! i))"
| "server_event_fits P (Work_ends i) s = True"
| "server_event_fits P (Accepts base thread garbage garbage_addr accepted worker e) s = True"

inductive server_reachable :: "'e platform \<Rightarrow> 'e server \<Rightarrow> 'e server \<Rightarrow> bool"
  for P :: "'e platform" and s0 :: "'e server" where
  start: "server_reachable P s0 s0"
| event: "server_reachable P s0 s \<Longrightarrow> server_event_fits P ev s \<Longrightarrow> server_step P ev s = Inr s' \<Longrightarrow>
    server_reachable P s0 s'"

lemma On_Accept_serving:
  assumes "serving f s"
  shows "\<exists>t. On_Accept_CallBack (ThreadTask0 base thread garbage garbage_addr) accepted s =
      Inr (if fst accepted = SOCKET_ERROR then (None, [t]) else (Some t, [])) \<and>
    settled f t \<and> idle t \<and> TaskMode t = 300 \<and> \<not> EncryptDone t"
proof (cases "m_Instance s")
  case (Some b)
  have s: "RunModel s = BOSNCC_MODEL_SERVER" "CreatInstance s" "b_Business_CallBack b = Some f"
    using assms Some by (simp_all add: serving_def)
  show ?thesis
    by (simp add: On_Accept_CallBack_def s(1,2) Some Let_def)
      (simp add: ThreadTask0_def SetTaskMode_def SetTimeout_def idle_def task_ok_def settled_def message_ok_new s(3))
qed (use assms in \<open>simp add: serving_def\<close>)

lemma begin_work_task [simp]: "c_task (begin_work w t e) = t\<lparr>ChildThreadID := w\<rparr>" "c_env (begin_work w t e) = e"
  by (simp_all add: begin_work_def ThreadRegistered_def Let_def)

lemma begin_work_runs [simp]: "LoopBreak \<notin> set (c_actions (begin_work w t e))"
  by (simp add: begin_work_def Let_def)

lemma settled_thread [simp]: "settled f (t\<lparr>ChildThreadID := w\<rparr>) = settled f t"
  by (simp add: settled_def task_ok_def filling_def)

lemma server_step_settled:
  assumes "platform_ok P" "memory_suffices P" "business_function f" "server_settled f s" "server_event_fits P ev s"
  shows "\<exists>s'. server_step P ev s = Inr s' \<and> server_settled f s'"
proof (cases ev)
  case (Accepts base thread garbage garbage_addr accepted worker e)
  have "serving f (sv_statics s)" using assms(4) by (simp add: server_settled_def)
  from On_Accept_serving [OF this, of base thread garbage garbage_addr accepted]
  show ?thesis using assms(4) by (auto simp: Accepts server_step_def server_settled_def)
next
  case (Of_connection i e)
  show ?thesis
  proof (cases "i < length (sv_work s) \<and> runs (sv_work s ! i)")
    case True
    then have "settled f (c_task (sv_work s ! i))" "event_fits P e (sv_work s ! i)"
      using assms(4,5) Of_connection by (simp_all add: server_settled_def)
    from business_function.handle_settled [OF assms(3,1,2) this, of "m_Instance (sv_statics s)"]
    show ?thesis using True assms(4)
      by (auto simp: Of_connection server_step_def server_settled_def dest!: set_update_subset_insert [THEN subsetD])
  qed (use assms(4) in \<open>auto simp: Of_connection server_step_def\<close>)
next
  case (Work_ends i)
  have "settled f (c_task (sv_work s ! i))" if "i < length (sv_work s)"
    using assms(4) that by (simp add: server_settled_def)
  then show ?thesis using assms(4)
    by (auto simp: Work_ends server_step_def server_settled_def Let_def act_def dest!: set_update_subset_insert [THEN subsetD])
qed

lemma server_reachable_settled:
  assumes "platform_ok P" "memory_suffices P" "business_function f" "server_reachable P s0 s" "server_settled f s0"
  shows "server_settled f s"
  using assms(4)
proof (induction rule: server_reachable.induct)
  case (event s ev s')
  then show ?case using server_step_settled [OF assms(1-3) event.IH event.hyps(2)] by auto
qed (rule assms(5))

section \<open>Who owns a descriptor\<close>

text \<open>What an event asks for on the socket concerns the descriptor of the task, which stays the same.\<close>

definition own_actions :: "'e conn \<Rightarrow> 'e conn \<Rightarrow> bool" where
  "own_actions c c' \<longleftrightarrow> ConnectSocket (c_task c') = ConnectSocket (c_task c) \<and>
     (\<exists>as. c_actions c' = c_actions c @ as \<and>
       set as \<subseteq> {CloseSocket (ConnectSocket (c_task c)), LoopBreak, EnableRead, EnableWrite, BevFree, DeleteTask})"

lemma own_actions_refl [simp]: "own_actions c c"
  by (simp add: own_actions_def)

lemma own_actions_same:
  "ConnectSocket (c_task c') = ConnectSocket (c_task c) \<Longrightarrow> c_actions c' = c_actions c \<Longrightarrow> own_actions c c'"
  by (simp add: own_actions_def)

lemma own_actions_trans: "own_actions a b \<Longrightarrow> own_actions b c \<Longrightarrow> own_actions a c"
  by (auto simp: own_actions_def)

lemma own_hang_up: "fd = ConnectSocket (c_task c) \<Longrightarrow> own_actions c (hang_up fd c)"
  by (simp add: own_actions_def hang_up_def)

lemma DataOperationReady_socket: "DataOperationReady P t e = Inr (r, t', e') \<Longrightarrow> ConnectSocket t' = ConnectSocket t"
  by (auto simp: DataOperationReady_def and_then_Inr Let_def split: if_splits prod.splits)

lemma DataOperationEnd_socket: "DataOperationEnd t = Inr (r, t') \<Longrightarrow> ConnectSocket t' = ConnectSocket t"
  by (auto simp: DataOperationEnd_def and_then_Inr Let_def transfer_reset_def split: if_splits prod.splits)

lemma call_business_own: "call_business a c = Inr (r, c') \<Longrightarrow> own_actions c c'"
  by (auto simp: call_business_def own_actions_def split: option.splits prod.splits)

lemma header_own:
  "own_actions c (read_length P c)" "own_actions c (read_encrypt P c)" "own_actions c (read_verification P c)"
  "own_actions c (write_length P c)" "own_actions c (write_encrypt P c)" "own_actions c (write_verification P c)"
  by (rule own_actions_same; simp add: task_simps)+

lemma check_header_own:
  assumes "check_header P fd c = Inr (r, c')" "fd = ConnectSocket (c_task c)"
  shows "own_actions c c'"
  using assms
  by (auto simp: check_header_def and_then_Inr Let_def own_actions_def dest!: DataOperationReady_socket split: if_splits)

lemma read_body_own: "read_body P c = Inr c' \<Longrightarrow> own_actions c c'"
  by (auto simp: read_body_def and_then_Inr Let_def own_actions_def split: if_splits prod.splits)

lemma write_body_own: "write_body P c = Inr c' \<Longrightarrow> own_actions c c'"
  by (rule own_actions_same; auto simp: write_body_def and_then_Inr Let_def case_prod_beta split: if_splits)

lemma read_switch_own: "fd = ConnectSocket (c_task c) \<Longrightarrow> own_actions c (read_switch code fd c)"
  by (simp add: read_switch_def own_actions_def SetTaskMode_def)

lemma read_done_own:
  assumes "read_done fd c = Inr c'" "fd = ConnectSocket (c_task c)"
  shows "own_actions c c'"
proof (cases "Verification_Ok (c_task c) \<and> DataLenth_Remaining (c_task c) = 0")
  case True
  then obtain r t where d: "DataOperationEnd (c_task c) = Inr (r, t)"
    "(if r = 0 then and_then (call_business 300 (c\<lparr>c_task := t\<rparr>)) (\<lambda>(code, c). Inr (read_switch code fd c))
      else Inr (hang_up fd (c\<lparr>c_task := t\<rparr>))) = Inr c'"
    using assms(1) by (auto simp: read_done_def and_then_Inr Let_def)
  have own: "own_actions c (c\<lparr>c_task := t\<rparr>)"
    using DataOperationEnd_socket [OF d(1)] by (simp add: own_actions_same)
  have fd: "fd = ConnectSocket (c_task (c\<lparr>c_task := t\<rparr>))" using own assms(2) by (simp add: own_actions_def)
  show ?thesis
  proof (cases "r = 0")
    case True
    then obtain code c1 where c1: "call_business 300 (c\<lparr>c_task := t\<rparr>) = Inr (code, c1)" "c' = read_switch code fd c1"
      using d(2) by (auto simp: and_then_Inr)
    have "own_actions (c\<lparr>c_task := t\<rparr>) c1" by (rule call_business_own [OF c1(1)])
    then show ?thesis
      using own fd read_switch_own [of fd c1 code] c1(2) by (auto simp: own_actions_def)
  next
    case False
    then show ?thesis using d(2) own own_hang_up [OF fd] own_actions_trans by auto
  qed
qed (use assms(1) in \<open>auto simp: read_done_def\<close>)

lemma On_Read_own:
  assumes "On_Read_CallBack P m_instance (ConnectSocket (c_task c)) c = Inr c'"
  shows "own_actions c c'"
proof (cases "m_instance = None \<or> TaskMode (c_task c) \<noteq> 300")
  case False
  let ?fd = "ConnectSocket (c_task c)" and ?c3 = "read_verification P (read_encrypt P (read_length P c))"
  have o3: "own_actions c ?c3" 
    by (rule own_actions_trans [OF own_actions_trans [OF header_own(1,2)] header_own(3)])
  obtain r c4 where c4: "check_header P ?fd ?c3 = Inr (r, c4)"
    "(if r then Inr c4 else and_then (read_body P c4) (read_done ?fd)) = Inr c'"
    using assms False by (auto simp: On_Read_CallBack_def GetTaskMode_def Let_def and_then_Inr)
  have o4: "own_actions c c4"
    using check_header_own [OF c4(1)] o3 own_actions_trans by (auto simp: own_actions_def)
  show ?thesis
  proof (cases r)
    case False
    then obtain c5 where c5: "read_body P c4 = Inr c5" "read_done ?fd c5 = Inr c'"
      using c4(2) by (auto simp: and_then_Inr)
    have o5: "own_actions c c5" using own_actions_trans [OF o4 read_body_own [OF c5(1)]] .
    then show ?thesis using own_actions_trans [OF o5 read_done_own [OF c5(2)]] by (simp add: own_actions_def)
  qed (use o4 c4(2) in simp)
qed (use assms in \<open>auto simp: On_Read_CallBack_def GetTaskMode_def split: if_splits\<close>)

lemma write_done_own:
  assumes "write_done c = Inr c'"
  shows "own_actions c c'"
proof (cases "Verification_Ok (c_task c) \<and> DataLenth_Remaining (c_task c) = 0")
  case True
  then obtain code c1 r t where d: "call_business 100 c = Inr (code, c1)" "DataOperationEnd (c_task c1) = Inr (r, t)"
    "c' = (if r = 0 then act [EnableRead] (c1\<lparr>c_task := SetTaskMode 300 t\<rparr>) else c1\<lparr>c_task := t\<rparr>)"
    using assms by (auto simp: write_done_def and_then_Inr Let_def split: if_splits)
  have "own_actions c1 c'"
    using DataOperationEnd_socket [OF d(2)] by (simp add: d(3) own_actions_def SetTaskMode_def)
  then show ?thesis by (rule own_actions_trans [OF call_business_own [OF d(1)]])
qed (use assms in \<open>auto simp: write_done_def\<close>)

lemma On_Write_own:
  assumes "On_Write_CallBack P m_instance fd c = Inr c'"
  shows "own_actions c c'"
proof (cases "m_instance = None \<or> TaskMode (c_task c) \<noteq> 100")
  case False
  obtain c1 c5 where c1: "write_prepare P c = Inr c1"
    "write_body P (write_verification P (write_encrypt P (write_length P c1))) = Inr c5" "write_done c5 = Inr c'"
    using assms False by (auto simp: On_Write_CallBack_def GetTaskMode_def Let_def and_then_Inr)
  have "own_actions c c1" using c1(1)
    by (auto simp: write_prepare_def and_then_Inr own_actions_def dest!: DataOperationReady_socket split: if_splits)
  then have "own_actions c (write_verification P (write_encrypt P (write_length P c1)))"
    by (rule own_actions_trans) (rule own_actions_trans [OF own_actions_trans [OF header_own(4,5)] header_own(6)])
  from own_actions_trans [OF own_actions_trans [OF this write_body_own [OF c1(2)]] write_done_own [OF c1(3)]] show ?thesis .
qed (use assms in \<open>auto simp: On_Write_CallBack_def GetTaskMode_def split: if_splits\<close>)

lemma handle_own: "handle P m_instance ev c = Inr c' \<Longrightarrow> own_actions c c'"
  by (auto simp: handle_def Let_def On_Error_CallBack_def own_actions_def split: event.splits
      dest: On_Read_own [unfolded own_actions_def] On_Write_own [unfolded own_actions_def])

lemma work_ends_own: "own_actions c (act [BevFree, DeleteTask] c)"
  by (simp add: own_actions_def)

lemma fold_close_effect:
  assumes "set as \<subseteq> {CloseSocket fd, LoopBreak, EnableRead, EnableWrite, BevFree, DeleteTask}"
  shows "fold (close_effect fd) as m = (if filter closing as = [] then m else m(fd := None))"
  using assms by (induction as arbitrary: m) auto

text \<open>A step of a work item frees its own descriptor if it closes, and touches no other.\<close>

lemma sockets_after_own:
  assumes "own_actions c c'"
  shows "closes c \<le> closes c'"
    "sockets_after c c' m = (if closes c' = closes c then m else m(ConnectSocket (c_task c) := None))"
proof -
  obtain as where as: "ConnectSocket (c_task c') = ConnectSocket (c_task c)" "c_actions c' = c_actions c @ as"
    "set as \<subseteq> {CloseSocket (ConnectSocket (c_task c)), LoopBreak, EnableRead, EnableWrite, BevFree, DeleteTask}"
    using assms by (auto simp: own_actions_def)
  show "closes c \<le> closes c'" by (simp add: closes_def as(2))
  show "sockets_after c c' m = (if closes c' = closes c then m else m(ConnectSocket (c_task c) := None))"
    by (simp add: sockets_after_def closes_def as(1,2) fold_close_effect [OF as(3)])
qed

text \<open>The steps of a server on an operating system that hands out free descriptors only.\<close>

fun descriptor_free :: "'e server_event \<Rightarrow> 'e server \<Rightarrow> bool" where
  "descriptor_free (Accepts base thread garbage garbage_addr accepted worker e) s = (sv_sockets s (fst accepted) = None)"
| "descriptor_free (Of_connection i ev) s = True"
| "descriptor_free (Work_ends i) s = True"

inductive served :: "'e platform \<Rightarrow> 'e server \<Rightarrow> 'e server \<Rightarrow> bool" for P :: "'e platform" and s0 :: "'e server" where
  start: "served P s0 s0"
| event: "served P s0 s \<Longrightarrow> descriptor_free ev s \<Longrightarrow> server_step P ev s = Inr s' \<Longrightarrow> served P s0 s'"

text \<open>Every item that has not closed its socket has its descriptor to itself.\<close>

definition all_own :: "'e server \<Rightarrow> bool" where
  "all_own s \<longleftrightarrow> (\<forall>j<length (sv_work s). closes (sv_work s ! j) = 0 \<longrightarrow>
     sv_sockets s (ConnectSocket (c_task (sv_work s ! j))) = Some j)"

lemma item_step_owns:
  assumes "all_own s" "i < length (sv_work s)" "own_actions (sv_work s ! i) c" "closes c \<le> 1"
  shows "all_own (s\<lparr>sv_work := (sv_work s)[i := c], sv_sockets := sockets_after (sv_work s ! i) c (sv_sockets s)\<rparr>)"
proof -
  let ?c = "sv_work s ! i"
  note k = sockets_after_own [OF assms(3)]
  have fd: "ConnectSocket (c_task c) = ConnectSocket (c_task ?c)" using assms(3) by (simp add: own_actions_def)
  have others: "sockets_after ?c c (sv_sockets s) (ConnectSocket (c_task (sv_work s ! j))) = Some j"
    if j: "j < length (sv_work s)" "closes (sv_work s ! j) = 0" "j \<noteq> i \<or> closes c = 0" for j
  proof (cases "closes c = closes ?c")
    case True
    then show ?thesis using assms(1) j k(2) by (simp add: all_own_def)
  next
    case False
    then have "closes ?c = 0" "closes c \<noteq> 0" using k(1) assms(4) by linarith+
    then have "sv_sockets s (ConnectSocket (c_task ?c)) = Some i" "j \<noteq> i" using assms(1,2) j(3) by (auto simp: all_own_def)
    moreover have "sv_sockets s (ConnectSocket (c_task (sv_work s ! j))) = Some j" using assms(1) j by (simp add: all_own_def)
    ultimately show ?thesis using False k(2) by auto
  qed
  have "closes ?c = 0" if "closes c = 0" using k(1) that by simp
  then show ?thesis using others assms(2) fd by (auto simp: all_own_def nth_list_update)
qed

lemma On_Accept_socket:
  "On_Accept_CallBack t0 accepted st = Inr (Some t, leaked) \<Longrightarrow> ConnectSocket t = fst accepted"
  by (auto simp: On_Accept_CallBack_def Let_def SetTaskMode_def SetTimeout_def split: if_splits option.splits)

lemma begin_work_closes: "closes (begin_work w t e) = 0"
  by (simp add: begin_work_def closes_def Let_def)

lemma accept_owns:
  assumes "all_own s" "sv_sockets s (ConnectSocket t) = None"
  shows "all_own (s\<lparr>sv_sockets := (sv_sockets s)(ConnectSocket t \<mapsto> length (sv_work s)),
    sv_work := sv_work s @ [begin_work w t e], sv_leaked := l\<rparr>)"
  using assms by (auto simp: all_own_def nth_append begin_work_closes less_Suc_eq)

lemma server_step_owns:
  assumes "server_step P ev s = Inr s'" "descriptor_free ev s" "all_own s" "\<forall>c\<in>set (sv_work s'). closes c \<le> 1"
  shows "all_own s'"
proof (cases ev)
  case (Accepts base thread garbage garbage_addr accepted worker e)
  obtain submitted leaked where o: "On_Accept_CallBack (ThreadTask0 base thread garbage garbage_addr) accepted (sv_statics s) =
      Inr (submitted, leaked)"
    using assms(1) by (auto simp: Accepts server_step_def and_then_Inr)
  show ?thesis
  proof (cases submitted)
    case None
    then show ?thesis using assms(1,3) o by (auto simp: Accepts server_step_def all_own_def)
  next
    case (Some t)
    have "sv_sockets s (ConnectSocket t) = None"
      using On_Accept_socket [of _ _ _ t] o Some assms(2) Accepts by auto
    from accept_owns [OF assms(3) this] show ?thesis using assms(1) o Some by (auto simp: Accepts server_step_def)
  qed
next
  case (Of_connection i e)
  show ?thesis
  proof (cases "i < length (sv_work s) \<and> runs (sv_work s ! i)")
    case True
    then obtain c where c: "handle P (m_Instance (sv_statics s)) e (sv_work s ! i) = Inr c"
      "s' = s\<lparr>sv_work := (sv_work s)[i := c], sv_sockets := sockets_after (sv_work s ! i) c (sv_sockets s)\<rparr>"
      using assms(1) by (auto simp: Of_connection server_step_def and_then_Inr)
    have "closes c \<le> 1" using assms(4) c(2) True by (simp add: set_update_memI)
    then show ?thesis using item_step_owns [OF assms(3) _ handle_own [OF c(1)]] True c(2) by simp
  qed (use assms(1,3) in \<open>auto simp: Of_connection server_step_def\<close>)
next
  case (Work_ends i)
  show ?thesis
  proof (cases "i < length (sv_work s) \<and> BevFree \<notin> set (c_actions (sv_work s ! i))")
    case True
    let ?c = "act [BevFree, DeleteTask] (sv_work s ! i)"
    have s': "s' = s\<lparr>sv_work := (sv_work s)[i := ?c], sv_sockets := sockets_after (sv_work s ! i) ?c (sv_sockets s)\<rparr>"
      using assms(1) True by (simp add: Work_ends server_step_def Let_def)
    then have "closes ?c \<le> 1" using assms(4) True by (simp add: set_update_memI)
    then show ?thesis using item_step_owns [OF assms(3) _ work_ends_own] True s' by simp
  qed (use assms(1,3) in \<open>auto simp: Work_ends server_step_def\<close>)
qed

lemma server_step_closes:
  assumes "server_step P ev s = Inr s'" "\<forall>c\<in>set (sv_work s'). closes c \<le> 1"
  shows "\<forall>c\<in>set (sv_work s). closes c \<le> 1"
proof -
  have "\<exists>c'. own_actions (sv_work s ! i) c' \<and> c' \<in> set (sv_work s')" if i: "i < length (sv_work s)" for i
  proof (cases ev)
    case (Accepts base thread garbage garbage_addr accepted worker e)
    then have "sv_work s ! i \<in> set (sv_work s')" using assms(1) i by (auto simp: server_step_def and_then_Inr)
    then show ?thesis using own_actions_refl by blast
  next
    case (Of_connection j e)
    then show ?thesis using assms(1) i handle_own [of P "m_Instance (sv_statics s)" e "sv_work s ! j"]
      by (cases "i = j") (auto simp: server_step_def and_then_Inr set_update_memI in_set_conv_nth nth_list_update
          intro!: exI [of _ "sv_work s' ! i"] split: if_splits)
  next
    case (Work_ends j)
    then show ?thesis using assms(1) i work_ends_own
      by (cases "i = j") (auto simp: server_step_def Let_def set_update_memI in_set_conv_nth nth_list_update
          intro!: exI [of _ "sv_work s' ! i"] split: if_splits)
  qed
  then show ?thesis using assms(2) sockets_after_own(1) by (metis in_set_conv_nth order.trans)
qed

lemma served_owns:
  assumes "served P s0 s" "all_own s0" "\<forall>c\<in>set (sv_work s). closes c \<le> 1"
  shows "all_own s"
  using assms(1,3)
proof (induction rule: served.induct)
  case (event s ev s')
  then show ?case using server_step_owns [OF event.hyps(3,2)] server_step_closes [OF event.hyps(3)] by simp
qed (rule assms(2))

section \<open>What the server promises\<close>

text \<open>C3: A server never faults, whatever number of connections it accepts and in whatever order their
  events come: if memory does not run out, no length of two gigabytes is announced or produced, and
  the business function keeps its message well formed, then every next event is handled, and every
  connection keeps the invariant of its task and the business function of the instance.\<close>

theorem server_safe:
  assumes "platform_ok P" "memory_suffices P" "business_ok f" "serving f (sv_statics s0)" "sv_work s0 = []"
    "server_reachable P s0 s" "server_event_fits P ev s"
  shows "\<exists>s'. server_step P ev s = Inr s' \<and>
    (\<forall>c\<in>set (sv_work s'). task_ok (c_task c) \<and> Business_CallBack (c_task c) = Some f)"
proof -
  note l = business_okD [OF assms(3)]
  have "server_settled f s0" using assms(4,5) by (simp add: server_settled_def)
  from server_step_settled [OF assms(1,2) l server_reachable_settled [OF assms(1,2) l assms(6) this] assms(7)]
  show ?thesis by (auto simp: server_settled_def settled_def)
qed

text \<open>C8: A connection keeps its socket as long as no connection closes twice. Whatever connections come and
  whatever happens on them, on an operating system that hands out free descriptors: if every work item has closed a socket at
  most once, then every one that has not yet closed its own still owns its descriptor, even where others had the same
  descriptor before it.\<close>

theorem sockets_kept:
  assumes "served P s0 s" "sv_work s0 = []" "\<forall>c\<in>set (sv_work s). closes c \<le> 1" "j < length (sv_work s)"
    "closes (sv_work s ! j) = 0"
  shows "sv_sockets s (ConnectSocket (c_task (sv_work s ! j))) = Some j"
  using served_owns [OF assms(1) _ assms(3)] assms(2,4,5) by (simp add: all_own_def)

text \<open>C7: But the source closes twice, and then hits another connection. An error closes the socket of a
  connection and leaves its loop running; the operating system gives the free descriptor to the next connection the
  server accepts; and the second close of the first connection, at its next error (a timeout, say) or when its work ends and the
  bufferevent is freed, closes the socket of the new connection, whose task does not learn of it.\<close>

theorem second_close_hits_another:
  assumes "serving f (sv_statics s)" "i < length (sv_work s)" "runs (sv_work s ! i)"
    "ConnectSocket (c_task (sv_work s ! i)) = fd" "fd \<noteq> SOCKET_ERROR" "ev = Of_connection i Failed \<or> ev = Work_ends i"
  shows "\<exists>s1 s2 s3. server_step P (Of_connection i Failed) s = Inr s1 \<and> sv_sockets s1 fd = None \<and>
    server_step P (Accepts base thread garbage garbage_addr (fd, addr) worker e) s1 = Inr s2 \<and>
    sv_sockets s2 fd = Some (length (sv_work s)) \<and>
    server_step P ev s2 = Inr s3 \<and> sv_sockets s3 fd = None \<and>
    sv_work s3 ! length (sv_work s) = sv_work s2 ! length (sv_work s) \<and> closes (sv_work s3 ! length (sv_work s)) = 0"
proof -
  let ?n = "length (sv_work s)"
  let ?c1 = "act [CloseSocket fd] (sv_work s ! i)"
  let ?s1 = "s\<lparr>sv_work := (sv_work s)[i := ?c1], sv_sockets := (sv_sockets s)(fd := None)\<rparr>"
  obtain b where inst: "m_Instance (sv_statics s) = Some b" using assms(1) by (auto simp: serving_def split: option.splits)
  have s1: "server_step P (Of_connection i Failed) s = Inr ?s1"
    using assms(2-4) inst by (simp add: server_step_def handle_def On_Error_CallBack_def sockets_after_def act_def)
  obtain t where t: "On_Accept_CallBack (ThreadTask0 base thread garbage garbage_addr) (fd, addr) (sv_statics s) = Inr (Some t, [])"
    using On_Accept_serving [OF assms(1), of base thread garbage garbage_addr "(fd, addr)"] assms(5) by auto
  have tfd: "ConnectSocket t = fd" using On_Accept_socket [OF t] by simp
  let ?s2 = "?s1\<lparr>sv_sockets := (sv_sockets ?s1)(fd \<mapsto> ?n), sv_work := sv_work ?s1 @ [begin_work worker t e]\<rparr>"
  have s2: "server_step P (Accepts base thread garbage garbage_addr (fd, addr) worker e) ?s1 = Inr ?s2"
    by (simp add: server_step_def t tfd)
  have c1: "i < length (sv_work ?s2)" "sv_work ?s2 ! i = ?c1" "runs ?c1" "sv_work ?s2 ! ?n = begin_work worker t e"
    using assms(2,3) by (simp_all add: nth_append runs_def)
  obtain s3 where s3: "server_step P ev ?s2 = Inr s3" "sv_sockets s3 fd = None" "sv_work s3 ! ?n = begin_work worker t e"
    using assms(2,4,6) c1 inst
    by (auto simp: server_step_def handle_def On_Error_CallBack_def sockets_after_def act_def runs_def nth_append Let_def)
  show ?thesis
    by (rule exI [of _ ?s1], rule exI [of _ ?s2], rule exI [of _ s3])
      (use s1 s2 s3 c1(4) begin_work_closes in simp)
qed

text \<open>A server that has accepted a connection on descriptor 8.\<close>

definition open_run :: "world server" where
  "open_run = \<lparr>sv_statics = server_statics sample_server, sv_sockets = (\<lambda>_. None), sv_work = [], sv_leaked = []\<rparr>"

definition sample_accept :: "world server_event" where
  "sample_accept = Accepts None 1 0 \<lparr>sin_family = 0, sin_port = 0, sin_addr = 0\<rparr>
     (8, \<lparr>sin_family = 2, sin_port = 9, sin_addr = 7\<rparr>) 3 quiet_world"

lemma open_run_serving: "serving (\<lambda>m a. (1, m)) (sv_statics open_run)"
  by (simp add: serving_def server_statics_def sample_server_def open_run_def)

lemma open_run_accepts:
  obtains t where "server_step P sample_accept open_run = Inr (open_run\<lparr>sv_sockets := [8 \<mapsto> 0], sv_work := [begin_work 3 t quiet_world]\<rparr>)"
    "ConnectSocket t = 8"
proof -
  obtain t where t: "On_Accept_CallBack (ThreadTask0 None 1 0 \<lparr>sin_family = 0, sin_port = 0, sin_addr = 0\<rparr>)
      (8, \<lparr>sin_family = 2, sin_port = 9, sin_addr = 7\<rparr>) (sv_statics open_run) = Inr (Some t, [])"
    using On_Accept_serving [OF open_run_serving, of None 1 0 "\<lparr>sin_family = 0, sin_port = 0, sin_addr = 0\<rparr>"
        "(8, \<lparr>sin_family = 2, sin_port = 9, sin_addr = 7\<rparr>)"] by auto
  show thesis
    by (rule that [of t]) (use t On_Accept_socket [OF t] in \<open>simp_all add: server_step_def sample_accept_def open_run_def\<close>)
qed

lemma begin_work_fresh:
  "runs (begin_work w t e)" "ConnectSocket (c_task (begin_work w t e)) = ConnectSocket t"
  by (simp_all add: begin_work_def runs_def ThreadRegistered_def Let_def)

lemma second_close_hits_another_witness:
  "\<exists>s s1 s2 s3. server_step roomy_platform sample_accept open_run = Inr s \<and>
    server_step roomy_platform (Of_connection 0 Failed) s = Inr s1 \<and> server_step roomy_platform sample_accept s1 = Inr s2 \<and>
    sv_sockets s2 8 = Some 1 \<and> server_step roomy_platform (Work_ends 0) s2 = Inr s3 \<and> sv_sockets s3 8 = None"
proof -
  obtain t where t: "server_step roomy_platform sample_accept open_run =
      Inr (open_run\<lparr>sv_sockets := [8 \<mapsto> 0], sv_work := [begin_work 3 t quiet_world]\<rparr>)" "ConnectSocket t = 8"
    by (rule open_run_accepts)
  have "\<exists>s1 s2 s3. server_step roomy_platform (Of_connection 0 Failed)
        (open_run\<lparr>sv_sockets := [8 \<mapsto> 0], sv_work := [begin_work 3 t quiet_world]\<rparr>) = Inr s1 \<and> sv_sockets s1 8 = None \<and>
      server_step roomy_platform sample_accept s1 = Inr s2 \<and> sv_sockets s2 8 = Some 1 \<and>
      server_step roomy_platform (Work_ends 0) s2 = Inr s3 \<and> sv_sockets s3 8 = None"
    unfolding sample_accept_def
    using second_close_hits_another [where P = roomy_platform and i = 0 and fd = 8 and ev = "Work_ends 0" and
        s = "open_run\<lparr>sv_sockets := [8 \<mapsto> 0], sv_work := [begin_work 3 t quiet_world]\<rparr>" and f = "\<lambda>m a. (1, m)" and
        base = None and thread = 1 and garbage = 0 and garbage_addr = "\<lparr>sin_family = 0, sin_port = 0, sin_addr = 0\<rparr>" and
        addr = "\<lparr>sin_family = 2, sin_port = 9, sin_addr = 7\<rparr>" and worker = 3 and e = quiet_world]
      open_run_serving t(2) by (simp add: begin_work_fresh) blast
  then show ?thesis using t(1) by blast
qed

lemma sockets_kept_witness:
  "\<exists>s. server_step roomy_platform sample_accept open_run = Inr s \<and>
    sv_sockets s (ConnectSocket (c_task (sv_work s ! 0))) = Some 0"
proof -
  obtain t where t: "server_step roomy_platform sample_accept open_run =
      Inr (open_run\<lparr>sv_sockets := [8 \<mapsto> 0], sv_work := [begin_work 3 t quiet_world]\<rparr>)" "ConnectSocket t = 8"
    by (rule open_run_accepts)
  have "served roomy_platform open_run (open_run\<lparr>sv_sockets := [8 \<mapsto> 0], sv_work := [begin_work 3 t quiet_world]\<rparr>)"
    by (rule served.event [OF served.start _ t(1)]) (simp add: sample_accept_def open_run_def)
  from sockets_kept [OF this, of 0] have "sv_sockets (open_run\<lparr>sv_sockets := [8 \<mapsto> 0], sv_work := [begin_work 3 t quiet_world]\<rparr>)
      (ConnectSocket (c_task (begin_work 3 t quiet_world))) = Some 0"
    by (simp add: begin_work_closes open_run_def)
  then show ?thesis using t(1) by simp
qed

lemma server_safe_witness:
  "\<exists>s'. server_step roomy_platform (Accepts None 1 0 \<lparr>sin_family = 0, sin_port = 0, sin_addr = 0\<rparr>
      (8, \<lparr>sin_family = 2, sin_port = 9, sin_addr = 7\<rparr>) 3 quiet_world)
      \<lparr>sv_statics = server_statics sample_server, sv_sockets = (\<lambda>_. None), sv_work = [], sv_leaked = []\<rparr> = Inr s' \<and>
    (\<forall>c\<in>set (sv_work s'). task_ok (c_task c))"
proof -
  let ?s = "\<lparr>sv_statics = server_statics sample_server, sv_sockets = (\<lambda>_. None), sv_work = [], sv_leaked = []\<rparr> :: world server"
  have "serving (\<lambda>m a. (1, m)) (sv_statics ?s)" by (simp add: serving_def server_statics_def sample_server_def)
  from server_safe [OF roomy_platform_ok sample_conn_ok(3) this _ server_reachable.start, where
      ev = "Accepts None 1 0 \<lparr>sin_family = 0, sin_port = 0, sin_addr = 0\<rparr> (8, \<lparr>sin_family = 2, sin_port = 9, sin_addr = 7\<rparr>)
        3 quiet_world"]
  show ?thesis by auto
qed

end
