(* ===== verification/MessageApi.thy ===== *)
theory MessageApi
  imports MessageParse
begin

text \<open>
  The interface of the two message classes as a whole. A \<open>message_op\<close> is one call of a mutating method of
  \<open>ConnectProtocol\<close> (\<open>protoc/ConnectProtocol.pb.h\<close>); \<open>do_message_op\<close> makes the call on an object of the class, with
  its pointers, cached sizes and reused elements, and \<open>spec_message_op\<close> says what it does to the value
  that the accessors show. Every sequence of calls refines its specification. A \<open>message_object\<close> is
  anything a program can come to hold: built, changed, copied, swapped, parsed, or left behind by a
  failed parse.
\<close>

section \<open>Calls on a parameter\<close>

datatype parameter_op =
  Set_key bytes | Clear_key | Release_key | Set_allocated_key "bytes option"
  | Set_value bytes | Clear_value | Release_value | Set_allocated_value "bytes option"
  | Clear_parameter | Merge_parameter Parameter | Copy_parameter Parameter | Swap_parameter Parameter
  | Size_parameter

primrec do_parameter_op :: "parameter_op \<Rightarrow> Parameter \<Rightarrow> Parameter" where
  "do_parameter_op (Set_key v) p = set_key v p"
| "do_parameter_op Clear_key p = clear_key p"
| "do_parameter_op Release_key p = snd (release_key p)"
| "do_parameter_op (Set_allocated_key v) p = set_allocated_key v p"
| "do_parameter_op (Set_value v) p = set_value v p"
| "do_parameter_op Clear_value p = clear_value p"
| "do_parameter_op Release_value p = snd (release_value p)"
| "do_parameter_op (Set_allocated_value v) p = set_allocated_value v p"
| "do_parameter_op Clear_parameter p = Parameter_Clear p"
| "do_parameter_op (Merge_parameter from) p = Parameter_MergeFrom from p"
| "do_parameter_op (Copy_parameter from) p = Parameter_CopyFrom from p"
| "do_parameter_op (Swap_parameter other) p = fst (Parameter_InternalSwap p other)"
| "do_parameter_op Size_parameter p = snd (Parameter_ByteSizeLong p)"

definition merge_parameter_view :: "parameter_view \<Rightarrow> parameter_view \<Rightarrow> parameter_view" where
  "merge_parameter_view from v =
     (case (from, v) of ((k, w, u), (k', w', u')) \<Rightarrow> (if k = [] then k' else k, if w = [] then w' else w, u' @ u))"

definition or_empty :: "bytes option \<Rightarrow> bytes" where
  "or_empty v = (case v of None \<Rightarrow> [] | Some v \<Rightarrow> v)"

primrec spec_parameter_op :: "parameter_op \<Rightarrow> parameter_view \<Rightarrow> parameter_view" where
  "spec_parameter_op (Set_key k) v = (k, snd v)"
| "spec_parameter_op Clear_key v = ([], snd v)"
| "spec_parameter_op Release_key v = ([], snd v)"
| "spec_parameter_op (Set_allocated_key k) v = (or_empty k, snd v)"
| "spec_parameter_op (Set_value w) v = (fst v, w, snd (snd v))"
| "spec_parameter_op Clear_value v = (fst v, [], snd (snd v))"
| "spec_parameter_op Release_value v = (fst v, [], snd (snd v))"
| "spec_parameter_op (Set_allocated_value w) v = (fst v, or_empty w, snd (snd v))"
| "spec_parameter_op Clear_parameter v = ([], [], [])"
| "spec_parameter_op (Merge_parameter from) v = merge_parameter_view (parameter_view from) v"
| "spec_parameter_op (Copy_parameter from) v = parameter_view from"
| "spec_parameter_op (Swap_parameter other) v = parameter_view other"
| "spec_parameter_op Size_parameter v = v"

lemma parameter_view_swap:
  "parameter_view (fst (Parameter_InternalSwap p other)) = parameter_view other"
  "parameter_view (snd (Parameter_InternalSwap p other)) = parameter_view p"
  by (auto simp: Parameter_InternalSwap_def parameter_view_def par_simps Let_def split: prod.splits
      dest: arg_cong [where f = fst] arg_cong [where f = snd])

lemma par_op_views:
  "parameter_view (set_key v p) = (v, snd (parameter_view p))"
  "parameter_view (clear_key p) = ([], snd (parameter_view p))"
  "parameter_view (snd (release_key p)) = ([], snd (parameter_view p))"
  "parameter_view (set_allocated_key k p) = (or_empty k, snd (parameter_view p))"
  "parameter_view (set_value v p) = (fst (parameter_view p), v, snd (snd (parameter_view p)))"
  "parameter_view (clear_value p) = (fst (parameter_view p), [], snd (snd (parameter_view p)))"
  "parameter_view (snd (release_value p)) = (fst (parameter_view p), [], snd (snd (parameter_view p)))"
  "parameter_view (set_allocated_value k p) = (fst (parameter_view p), or_empty k, snd (snd (parameter_view p)))"
  by (simp_all add: parameter_view_def par_simps set_key_def clear_key_def release_key_def set_allocated_key_def
      set_value_def clear_value_def release_value_def set_allocated_value_def case_prod_beta or_empty_def)

lemma parameter_op_refines: "parameter_view (do_parameter_op op p) = spec_parameter_op op (parameter_view p)"
proof (cases op)
  case (Merge_parameter other)
  then show ?thesis by (simp add: parameter_view_MergeFrom merge_parameter_view_def) (simp add: parameter_view_def)
next
  case (Copy_parameter other)
  then show ?thesis by (simp add: Parameter_CopyFrom_def par.view_merge_new)
qed (simp_all add: parameter_view_swap Parameter_ByteSizeLong_view par_op_views)

lemma parameter_ops_refine: "parameter_view (fold do_parameter_op ops p) = fold spec_parameter_op ops (parameter_view p)"
  by (induction ops arbitrary: p) (simp_all add: parameter_op_refines)

section \<open>Calls on a message\<close>

text \<open>
  The pointer that \<open>add_parametergroup\<close> or \<open>mutable_parametergroup\<close> returns is used for any number of calls on the
  parameter behind it.
\<close>

datatype message_op =
  Set_statecode u32 | Clear_statecode
  | Set_apiname bytes | Clear_apiname | Release_apiname | Set_allocated_apiname "bytes option"
  | Set_bytedata bytes | Clear_bytedata | Release_bytedata | Set_allocated_bytedata "bytes option"
  | Add_parameter "parameter_op list" | Change_parameter nat "parameter_op list" | Clear_parameters
  | Clear_message | Merge_message ConnectProtocol | Copy_message ConnectProtocol | Swap_message ConnectProtocol
  | Size_message

primrec do_message_op :: "message_op \<Rightarrow> ConnectProtocol \<Rightarrow> ConnectProtocol" where
  "do_message_op (Set_statecode v) m = set_statecode v m"
| "do_message_op Clear_statecode m = clear_statecode m"
| "do_message_op (Set_apiname v) m = set_apiname v m"
| "do_message_op Clear_apiname m = clear_apiname m"
| "do_message_op Release_apiname m = snd (release_apiname m)"
| "do_message_op (Set_allocated_apiname v) m = set_allocated_apiname v m"
| "do_message_op (Set_bytedata v) m = set_bytedata v m"
| "do_message_op Clear_bytedata m = clear_bytedata m"
| "do_message_op Release_bytedata m = snd (release_bytedata m)"
| "do_message_op (Set_allocated_bytedata v) m = set_allocated_bytedata v m"
| "do_message_op (Add_parameter ops) m =
     (case add_parametergroup m of (i, m) \<Rightarrow> mutable_parametergroup i (fold do_parameter_op ops) m)"
| "do_message_op (Change_parameter i ops) m = mutable_parametergroup i (fold do_parameter_op ops) m"
| "do_message_op Clear_parameters m = clear_parametergroup m"
| "do_message_op Clear_message m = ConnectProtocol_Clear m"
| "do_message_op (Merge_message from) m = ConnectProtocol_MergeFrom from m"
| "do_message_op (Copy_message from) m = ConnectProtocol_CopyFrom from m"
| "do_message_op (Swap_message other) m = fst (ConnectProtocol_InternalSwap m other)"
| "do_message_op Size_message m = snd (ByteSizeLong m)"

primrec spec_message_op :: "message_op \<Rightarrow> message_view \<Rightarrow> message_view" where
  "spec_message_op (Set_statecode n) v = v\<lparr>v_statecode := n\<rparr>"
| "spec_message_op Clear_statecode v = v\<lparr>v_statecode := 0\<rparr>"
| "spec_message_op (Set_apiname s) v = v\<lparr>v_apiname := s\<rparr>"
| "spec_message_op Clear_apiname v = v\<lparr>v_apiname := []\<rparr>"
| "spec_message_op Release_apiname v = v\<lparr>v_apiname := []\<rparr>"
| "spec_message_op (Set_allocated_apiname s) v = v\<lparr>v_apiname := or_empty s\<rparr>"
| "spec_message_op (Set_bytedata s) v = v\<lparr>v_bytedata := s\<rparr>"
| "spec_message_op Clear_bytedata v = v\<lparr>v_bytedata := []\<rparr>"
| "spec_message_op Release_bytedata v = v\<lparr>v_bytedata := []\<rparr>"
| "spec_message_op (Set_allocated_bytedata s) v = v\<lparr>v_bytedata := or_empty s\<rparr>"
| "spec_message_op (Add_parameter ops) v =
     v\<lparr>v_parameters := v_parameters v @ [fold spec_parameter_op ops ([], [], [])]\<rparr>"
| "spec_message_op (Change_parameter i ops) v =
     v\<lparr>v_parameters := (v_parameters v)[i := fold spec_parameter_op ops (v_parameters v ! i)]\<rparr>"
| "spec_message_op Clear_parameters v = v\<lparr>v_parameters := []\<rparr>"
| "spec_message_op Clear_message v = empty_view"
| "spec_message_op (Merge_message from) v = merge_view (message_view from) v"
| "spec_message_op (Copy_message from) v = message_view from"
| "spec_message_op (Swap_message other) v = message_view other"
| "spec_message_op Size_message v = v"

text \<open>
  The index of a parameter must be in range, which \<open>RepeatedPtrField\<close> checks in debug builds only, and the
  other message must be well formed.
\<close>

fun op_source :: "message_op \<Rightarrow> ConnectProtocol option" where
  "op_source (Merge_message from) = Some from"
| "op_source (Copy_message from) = Some from"
| "op_source (Swap_message from) = Some from"
| "op_source _ = None"

fun op_in_range :: "message_op \<Rightarrow> message_view \<Rightarrow> bool" where
  "op_in_range (Change_parameter i ops) v = (i < length (v_parameters v))"
| "op_in_range _ v = True"

lemma field_op_refines:
  assumes "message_ok m"
    "\<exists>v w. op \<in> {Set_statecode v, Clear_statecode} \<or>
      op \<in> {Set_apiname w, Clear_apiname, Release_apiname, Set_bytedata w, Clear_bytedata, Release_bytedata} \<or>
      op \<in> {Set_allocated_apiname (Some w), Set_allocated_apiname None, Set_allocated_bytedata (Some w),
            Set_allocated_bytedata None}"
  shows "message_ok (do_message_op op m) \<and> message_view (do_message_op op m) = spec_message_op op (message_view m)"
  using assms
  by (elim exE disjE)
    (auto simp: message_ok_def message_view_def cp_simps clear_statecode_def set_apiname_def
      clear_apiname_def release_apiname_def set_allocated_apiname_def set_bytedata_def clear_bytedata_def
      release_bytedata_def set_allocated_bytedata_def case_prod_beta or_empty_def)

lemma message_op_refines:
  assumes "message_ok m" "op_in_range op (message_view m)" "pred_option message_ok (op_source op)"
  shows "message_ok (do_message_op op m) \<and> message_view (do_message_op op m) = spec_message_op op (message_view m)"
proof (cases op)
  case (Add_parameter ops)
  note a = message_ok_add [OF assms(1)]
  obtain i m' where m': "add_parametergroup m = (i, m')" by force
  have v: "v_parameters (message_view m') = v_parameters (message_view m) @ [([], [], [])]"
    and n: "i = length (v_parameters (message_view m))"
    using a by (simp_all add: m')
  have i: "i < parametergroup_size m'" using parametergroup_view(1) [OF a(1)] by (simp add: m' v n)
  then have "parameter_view (parametergroup_get i m') = ([], [], [])"
    using parametergroup_view(2) [OF a(1), of i] by (simp add: m' v n)
  then show ?thesis
    using message_ok_mutable [of m' i "fold do_parameter_op ops"] a i
    by (simp add: Add_parameter m' parameter_ops_refine n)
next
  case (Change_parameter i ops)
  then show ?thesis
    using message_ok_mutable [OF assms(1), of i "fold do_parameter_op ops"] parametergroup_view [OF assms(1)] assms(2)
    by (simp add: parameter_ops_refine)
next
  case Clear_parameters
  then show ?thesis using assms(1)
    by (simp add: clear_parametergroup_def message_ok_def message_view_def par.inv_Clear par.view_items_Clear cp_simps)
next
  case (Set_allocated_apiname v)
  then show ?thesis using field_op_refines [OF assms(1), of op] by (cases v) auto
next
  case (Set_allocated_bytedata v)
  then show ?thesis using field_op_refines [OF assms(1), of op] by (cases v) auto
qed (use assms field_op_refines [OF assms(1), of op] in
     \<open>auto simp: message_ok_Clear message_ok_MergeFrom message_ok_CopyFrom message_view_Swap message_ok_Swap
        ByteSizeLong_view\<close>)

section \<open>Everything a program can hold\<close>

inductive message_object :: "ConnectProtocol \<Rightarrow> bool" where
  new: "message_object ConnectProtocol0"
| call: "message_object m \<Longrightarrow> op_in_range op (message_view m) \<Longrightarrow>
    (\<forall>other. op_source op = Some other \<longrightarrow> message_object other) \<Longrightarrow> message_object (do_message_op op m)"
| copied: "message_object m \<Longrightarrow> message_object (ConnectProtocol_copy m)"
| swapped: "message_object m \<Longrightarrow> message_object other \<Longrightarrow> message_object (snd (ConnectProtocol_InternalSwap m other))"
| serialised: "message_object m \<Longrightarrow> message_object (snd (SerializeToArray size' m))"
| parsed: "message_object m \<Longrightarrow> ParseFromArray data m = Some (ok, m') \<Longrightarrow> message_object m'"

lemma snd_SerializeToArray: "snd (SerializeToArray size' m) = snd (ByteSizeLong m)"
  by (simp add: SerializeToArray_def Let_def case_prod_beta)

lemma message_object_ok: "message_object m \<Longrightarrow> message_ok m"
proof (induction rule: message_object.induct)
  case (call m op)
  then have "pred_option message_ok (op_source op)" by (cases "op_source op") simp_all
  then show ?case using message_op_refines call.IH call.hyps(2) by blast
next
  case (parsed m data ok m')
  then show ?case using ParseFromArray_ok by blast
qed (simp_all add: message_ok_new message_ok_copy message_ok_Swap snd_SerializeToArray ByteSizeLong_view)

primrec ops_in_range :: "message_op list \<Rightarrow> message_view \<Rightarrow> bool" where
  "ops_in_range [] v \<longleftrightarrow> True"
| "ops_in_range (op # ops) v \<longleftrightarrow> op_in_range op v \<and> ops_in_range ops (spec_message_op op v)"

lemma message_ops_refine:
  assumes "message_ok m" "ops_in_range ops (message_view m)" "\<forall>op\<in>set ops. pred_option message_ok (op_source op)"
  shows "message_ok (fold do_message_op ops m) \<and>
    message_view (fold do_message_op ops m) = fold spec_message_op ops (message_view m)"
  using assms
proof (induction ops arbitrary: m)
  case (Cons op ops)
  then show ?case using message_op_refines [of m op] by simp
qed simp

section \<open>What the interface promises\<close>

text \<open>Between two and four gigabytes the size is negative as an \<open>int\<close>.\<close>

lemma ToCachedSize_negative:
  assumes "2 ^ 31 \<le> n" "n < 2 ^ 32"
  shows "ToCachedSize n < 0"
proof -
  have "ToCachedSize n = c_int (int n)" by (simp add: ToCachedSize_def c_int_def)
  then show ?thesis using c_int_wraps [of "int n"] assms by simp
qed

text \<open>C11: Whatever a program does with message objects, building, changing, copying, swapping, serialising
  and parsing, with any bytes and whether the parse succeeds or not, every object it holds is well
  formed: its accessors reach each parameter inside the allocated array. Serialising it into an array, if its size is
  below two gigabytes, refuses or writes exactly the announced bytes, without stopping at \<open>ByteSizeConsistencyError\<close>.
  From two gigabytes up to four the size is negative as an \<open>int\<close>, so no array is too small for it: the bytes are written, and
  only then \<open>ByteSizeConsistencyError\<close> stops the process.\<close>

theorem message_objects_wellformed:
  assumes "message_object m"
  shows "message_ok m \<and> parametergroup_size m \<le> allocated_size (parametergroup m) \<and>
    allocated_size (parametergroup m) \<le> total_size (parametergroup m) \<and>
    (fst (ByteSizeLong m) < 2 ^ 31 \<longrightarrow> fst (SerializeToArray size' m) =
      (if size' < int (fst (ByteSizeLong m)) then Too_small else Written (encode_message (message_view m)))) \<and>
    (2 ^ 31 \<le> fst (ByteSizeLong m) \<and> fst (ByteSizeLong m) < 2 ^ 32 \<and> 0 \<le> size' \<longrightarrow>
      fst (SerializeToArray size' m) = ByteSizeConsistencyError (InternalSerialize (snd (ByteSizeLong m))))"
proof -
  have ok: "message_ok m" using message_object_ok [OF assms(1)] .
  then have "rep_ok (parametergroup m)" by (simp add: message_ok_def par.inv_def)
  moreover have "fst (SerializeToArray size' m) = ByteSizeConsistencyError (InternalSerialize (snd (ByteSizeLong m)))"
    if "2 ^ 31 \<le> fst (ByteSizeLong m)" "fst (ByteSizeLong m) < 2 ^ 32" "0 \<le> size'"
    using ToCachedSize_negative [OF that(1,2)] that(3) by (simp add: SerializeToArray_def Let_def case_prod_beta)
  ultimately show ?thesis
    using ok SerializeToArray_view [OF ok, of size'] ByteSizeLong_view(1) [OF ok]
    by (simp add: parametergroup_size_def rep_size_def rep_ok_def)
qed

text \<open>C6: Any sequence of calls on a message does to the value its accessors show what the specification of
  each call says, although the object reuses cleared parameters, caches sizes and shares the empty
  string; what it then serialises is the encoding of the specified value.\<close>

theorem message_calls_refine:
  assumes "message_ok m" "ops_in_range ops (message_view m)" "\<forall>op\<in>set ops. pred_option message_ok (op_source op)"
    "length (encode_message (fold spec_message_op ops (message_view m))) < 2 ^ 31"
    "int (length (encode_message (fold spec_message_op ops (message_view m)))) \<le> size'"
  shows "message_view (fold do_message_op ops m) = fold spec_message_op ops (message_view m) \<and>
    fst (SerializeToArray size' (fold do_message_op ops m)) = Written (encode_message (fold spec_message_op ops (message_view m)))"
  using message_ops_refine [OF assms(1-3)] SerializeToArray_view [of "fold do_message_op ops m" size'] assms(4,5) by simp

text \<open>A parameter is reused after a clear, changed, and a name is set and given back.\<close>

definition sample_calls :: "message_op list" where
  "sample_calls = [Add_parameter [Set_key [120], Set_value [121]], Set_apiname [97], Clear_message, Set_statecode 3,
     Add_parameter [], Change_parameter 0 [Set_key [98]], Set_allocated_apiname None]"

lemma message_calls_refine_witness:
  "fst (SerializeToArray 100 (fold do_message_op sample_calls ConnectProtocol0)) = Written [8, 3, 162, 1, 3, 10, 1, 98]"
proof -
  have v: "fold spec_message_op sample_calls empty_view =
      empty_view\<lparr>v_statecode := 3, v_parameters := [([98], [], [])]\<rparr>"
    by (simp add: sample_calls_def empty_view_def or_empty_def)
  have e: "encode_message (empty_view\<lparr>v_statecode := 3, v_parameters := [([98], [], [])]\<rparr>) = [8, 3, 162, 1, 3, 10, 1, 98]"
    by code_simp
  have "ops_in_range sample_calls empty_view" "\<forall>op\<in>set sample_calls. pred_option message_ok (op_source op)"
    by (simp_all add: sample_calls_def empty_view_def)
  with message_calls_refine [OF message_ok_new(1), of sample_calls 100] show ?thesis
    by (simp add: message_ok_new(2) v e)
qed

lemma message_objects_wellformed_witness:
  "fst (SerializeToArray 3 (set_apiname [97, 98] ConnectProtocol0)) = Too_small"
proof -
  have "message_object (do_message_op (Set_apiname [97, 98]) ConnectProtocol0)"
    by (rule message_object.call [OF message_object.new]) simp_all
  then have "message_object (set_apiname [97, 98] ConnectProtocol0)" by simp
  moreover have "fst (ByteSizeLong (set_apiname [97, 98] ConnectProtocol0)) = 4"
    using ByteSizeLong_view(1) [OF named_message(1)] named_message(2,4) by simp
  ultimately show ?thesis using message_objects_wellformed [of "set_apiname [97, 98] ConnectProtocol0" 3] by simp
qed

end
