(* ===== verification/OutputStream.thy ===== *)
theory OutputStream
  imports MessageParse "HOL-Library.Monad_Syntax"
begin

text \<open>
  Writing to streams (\<open>io/coded_stream.h\<close>, \<open>io/coded_stream.cc\<close>, \<open>io/zero_copy_stream_impl_lite.cc\<close>,
  \<open>message_lite.cc\<close>): \<open>CodedOutputStream\<close> over any \<open>ZeroCopyOutputStream\<close>, the typed writers of
  \<open>WireFormatLite\<close>, \<open>SerializeWithCachedSizes\<close> of both messages, and the entry points of \<open>MessageLite\<close>
  that write to streams and strings. What they write is what the array writers of the other theories
  write, however the stream cuts its buffers.

  A stream hands out regions of its memory; a pointer is \<open>NULL\<close> or an offset. \<open>None\<close> as a result is a
  failed \<open>GOOGLE_CHECK\<close>, which stops the process, or a stream that hands out empty regions for ever.
  Aliasing is off, as it is for both streams here. The counters are \<open>int\<close>s in the source; the law
  \<open>ok_int\<close> of the streams keeps them in range (\<open>counters_int\<close>), so that they are natural numbers here.
\<close>

section \<open>Zero-copy output streams\<close>

text \<open>\<open>z_store\<close> is the memory the regions lie in: the bytes go to an address \<open>Next\<close> returned.\<close>

record 'z zero_copy_ops =
  z_Next :: "'z \<Rightarrow> (nat \<times> nat) option \<times> 'z"
  z_BackUp :: "nat \<Rightarrow> 'z \<Rightarrow> 'z option"
  z_store :: "nat \<Rightarrow> bytes \<Rightarrow> 'z \<Rightarrow> 'z"

definition overwrite :: "nat \<Rightarrow> bytes \<Rightarrow> bytes \<Rightarrow> bytes" where
  "overwrite off bs xs = take off xs @ bs @ drop (off + length bs) xs"

record ArrayOutputStream =
  a_data :: bytes
  a_block_size :: nat
  a_position :: nat
  a_last_returned_size :: nat

definition ArrayOutputStream0 :: "bytes \<Rightarrow> int \<Rightarrow> ArrayOutputStream" where
  "ArrayOutputStream0 data block_size =
     \<lparr>a_data = data, a_block_size = (if block_size > 0 then nat block_size else length data),
      a_position = 0, a_last_returned_size = 0\<rparr>"

definition array_Next :: "ArrayOutputStream \<Rightarrow> (nat \<times> nat) option \<times> ArrayOutputStream" where
  "array_Next s =
     (if a_position s < length (a_data s)
      then let n = min (a_block_size s) (length (a_data s) - a_position s)
           in (Some (a_position s, n), s\<lparr>a_last_returned_size := n, a_position := a_position s + n\<rparr>)
      else (None, s\<lparr>a_last_returned_size := 0\<rparr>))"

definition array_BackUp :: "nat \<Rightarrow> ArrayOutputStream \<Rightarrow> ArrayOutputStream option" where
  "array_BackUp count s =
     (if a_last_returned_size s > 0 \<and> count \<le> a_last_returned_size s
      then Some (s\<lparr>a_position := a_position s - count, a_last_returned_size := 0\<rparr>) else None)"

definition array_ByteCount :: "ArrayOutputStream \<Rightarrow> nat" where
  "array_ByteCount s = a_position s"

definition array_ops :: "ArrayOutputStream zero_copy_ops" where
  "array_ops = \<lparr>z_Next = array_Next, z_BackUp = array_BackUp,
     z_store = (\<lambda>off bs s. s\<lparr>a_data := overwrite off bs (a_data s)\<rparr>)\<rparr>"

text \<open>
  A string with its capacity. \<open>grow\<close> is the capacity that the standard library's \<open>resize\<close> leaves behind
  for a size beyond the old one: at least that size, and within \<open>int\<close> if the size is.
\<close>

record StringOutputStream =
  s_target :: bytes
  s_capacity :: nat

definition resize :: "nat \<Rightarrow> bytes \<Rightarrow> bytes" where
  "resize n xs = take n xs @ replicate (n - length xs) 0"

definition growth_ok :: "(nat \<Rightarrow> nat) \<Rightarrow> bool" where
  "growth_ok grow \<longleftrightarrow> (\<forall>n. n \<le> grow n \<and> (int n \<le> INT_MAX \<longrightarrow> int (grow n) \<le> INT_MAX))"

definition kMinimumSize :: nat where "kMinimumSize = 16"

definition string_Next :: "(nat \<Rightarrow> nat) \<Rightarrow> StringOutputStream \<Rightarrow> (nat \<times> nat) option \<times> StringOutputStream" where
  "string_Next grow s =
     (let old_size = length (s_target s)
      in if old_size < s_capacity s
         then let s = s\<lparr>s_target := resize (s_capacity s) (s_target s)\<rparr>
              in (Some (old_size, length (s_target s) - old_size), s)
         else if int old_size > INT_MAX div 2 then (None, s)
         else let n = max (old_size * 2) kMinimumSize;
                  s = s\<lparr>s_target := resize n (s_target s), s_capacity := grow n\<rparr>
              in (Some (old_size, length (s_target s) - old_size), s))"

definition string_BackUp :: "nat \<Rightarrow> StringOutputStream \<Rightarrow> StringOutputStream option" where
  "string_BackUp count s =
     (if count \<le> length (s_target s)
      then Some (s\<lparr>s_target := resize (length (s_target s) - count) (s_target s)\<rparr>) else None)"

definition string_ByteCount :: "StringOutputStream \<Rightarrow> nat" where
  "string_ByteCount s = length (s_target s)"

definition string_ops :: "(nat \<Rightarrow> nat) \<Rightarrow> StringOutputStream zero_copy_ops" where
  "string_ops grow = \<lparr>z_Next = string_Next grow, z_BackUp = string_BackUp,
     z_store = (\<lambda>off bs s. s\<lparr>s_target := overwrite off bs (s_target s)\<rparr>)\<rparr>"

section \<open>CodedOutputStream\<close>

record 'z cos =
  o_output :: 'z
  o_buffer :: "nat option"
  o_buffer_size :: nat
  o_total_bytes :: nat
  o_had_error :: bool

definition o_Refresh :: "'z zero_copy_ops \<Rightarrow> 'z cos \<Rightarrow> bool \<times> 'z cos" where
  "o_Refresh ops c =
     (case z_Next ops (o_output c) of
        (Some (void_buffer, size'), z) \<Rightarrow>
          (True, c\<lparr>o_output := z, o_buffer := Some void_buffer, o_buffer_size := size',
                  o_total_bytes := o_total_bytes c + size'\<rparr>)
      | (None, z) \<Rightarrow> (False, c\<lparr>o_output := z, o_buffer := None, o_buffer_size := 0, o_had_error := True\<rparr>))"

definition CodedOutputStream0 :: "'z zero_copy_ops \<Rightarrow> 'z \<Rightarrow> 'z cos" where
  "CodedOutputStream0 ops z =
     (let c = \<lparr>o_output = z, o_buffer = None, o_buffer_size = 0, o_total_bytes = 0, o_had_error = False\<rparr>
      in (snd (o_Refresh ops c))\<lparr>o_had_error := False\<rparr>)"

definition o_Trim :: "'z zero_copy_ops \<Rightarrow> 'z cos \<Rightarrow> 'z cos option" where
  "o_Trim ops c =
     (if o_buffer_size c > 0
      then do { z \<leftarrow> z_BackUp ops (o_buffer_size c) (o_output c);
                Some (c\<lparr>o_output := z, o_total_bytes := o_total_bytes c - o_buffer_size c,
                        o_buffer_size := 0, o_buffer := None\<rparr>) }
      else Some c)"

definition o_Advance :: "nat \<Rightarrow> 'z cos \<Rightarrow> 'z cos" where
  "o_Advance amount c = c\<lparr>o_buffer := map_option (\<lambda>a. a + amount) (o_buffer c), o_buffer_size := o_buffer_size c - amount\<rparr>"

definition o_ByteCount :: "'z cos \<Rightarrow> nat" where
  "o_ByteCount c = o_total_bytes c - o_buffer_size c"

definition memcpy_buffer :: "'z zero_copy_ops \<Rightarrow> bytes \<Rightarrow> 'z cos \<Rightarrow> 'z cos" where
  "memcpy_buffer ops bs c =
     (case o_buffer c of None \<Rightarrow> c | Some a \<Rightarrow> c\<lparr>o_output := z_store ops a bs (o_output c)\<rparr>)"

fun WriteRaw_loop :: "'z zero_copy_ops \<Rightarrow> nat \<Rightarrow> bytes \<Rightarrow> 'z cos \<Rightarrow> 'z cos option" where
  "WriteRaw_loop ops 0 data c = None"
| "WriteRaw_loop ops (Suc fuel) data c =
     (if o_buffer_size c < length data
      then let c' = memcpy_buffer ops (take (o_buffer_size c) data) c;
               data = drop (o_buffer_size c) data;
               (ok, c') = o_Refresh ops c'
           in if \<not> ok then Some c' else WriteRaw_loop ops fuel data c'
      else Some (o_Advance (length data) (memcpy_buffer ops data c)))"

definition WriteRaw :: "'z zero_copy_ops \<Rightarrow> bytes \<Rightarrow> 'z cos \<Rightarrow> 'z cos option" where
  "WriteRaw ops data c = WriteRaw_loop ops (length data + 2) data c"

fun o_Skip_loop :: "'z zero_copy_ops \<Rightarrow> nat \<Rightarrow> nat \<Rightarrow> 'z cos \<Rightarrow> (bool \<times> 'z cos) option" where
  "o_Skip_loop ops 0 count c = None"
| "o_Skip_loop ops (Suc fuel) count c =
     (if count > o_buffer_size c
      then let (ok, c') = o_Refresh ops c
           in if \<not> ok then Some (False, c') else o_Skip_loop ops fuel (count - o_buffer_size c) c'
      else Some (True, o_Advance count c))"

definition o_Skip :: "'z zero_copy_ops \<Rightarrow> int \<Rightarrow> 'z cos \<Rightarrow> (bool \<times> 'z cos) option" where
  "o_Skip ops count c = (if count < 0 then Some (False, c) else o_Skip_loop ops (nat count + 2) (nat count) c)"

text \<open>\<open>memcpy\<close> to \<open>NULL\<close> happens for no bytes only. A number that fits into the rest of the buffer is written in place.\<close>

definition write_or_slow :: "'z zero_copy_ops \<Rightarrow> nat \<Rightarrow> bytes \<Rightarrow> 'z cos \<Rightarrow> 'z cos option" where
  "write_or_slow ops room bs c =
     (if o_buffer_size c \<ge> room then Some (o_Advance (length bs) (memcpy_buffer ops bs c)) else WriteRaw ops bs c)"

definition WriteLittleEndian32 :: "'z zero_copy_ops \<Rightarrow> u32 \<Rightarrow> 'z cos \<Rightarrow> 'z cos option" where
  "WriteLittleEndian32 ops v c = write_or_slow ops 4 (WriteLittleEndian32ToArray v) c"

definition WriteLittleEndian64 :: "'z zero_copy_ops \<Rightarrow> u64 \<Rightarrow> 'z cos \<Rightarrow> 'z cos option" where
  "WriteLittleEndian64 ops v c = write_or_slow ops 8 (WriteLittleEndian64ToArray v) c"

definition WriteVarint32SlowPath :: "'z zero_copy_ops \<Rightarrow> u32 \<Rightarrow> 'z cos \<Rightarrow> 'z cos option" where
  "WriteVarint32SlowPath ops v c = WriteRaw ops (WriteVarint32ToArray v) c"

definition WriteVarint64SlowPath :: "'z zero_copy_ops \<Rightarrow> u64 \<Rightarrow> 'z cos \<Rightarrow> 'z cos option" where
  "WriteVarint64SlowPath ops v c = WriteRaw ops (WriteVarint64ToArray v) c"

definition WriteVarint32 :: "'z zero_copy_ops \<Rightarrow> u32 \<Rightarrow> 'z cos \<Rightarrow> 'z cos option" where
  "WriteVarint32 ops v c =
     (if o_buffer_size c \<ge> 5
      then let bs = WriteVarint32ToArray v in Some (o_Advance (length bs) (memcpy_buffer ops bs c))
      else WriteVarint32SlowPath ops v c)"

definition WriteVarint64 :: "'z zero_copy_ops \<Rightarrow> u64 \<Rightarrow> 'z cos \<Rightarrow> 'z cos option" where
  "WriteVarint64 ops v c =
     (if o_buffer_size c \<ge> 10
      then let bs = WriteVarint64ToArray v in Some (o_Advance (length bs) (memcpy_buffer ops bs c))
      else WriteVarint64SlowPath ops v c)"

definition WriteVarint32SignExtended :: "'z zero_copy_ops \<Rightarrow> u32 \<Rightarrow> 'z cos \<Rightarrow> 'z cos option" where
  "WriteVarint32SignExtended ops v c = WriteVarint64 ops (scast v) c"

definition o_WriteTag :: "'z zero_copy_ops \<Rightarrow> u32 \<Rightarrow> 'z cos \<Rightarrow> 'z cos option" where
  "o_WriteTag ops v c = WriteVarint32 ops v c"

definition o_WriteString :: "'z zero_copy_ops \<Rightarrow> bytes \<Rightarrow> 'z cos \<Rightarrow> 'z cos option" where
  "o_WriteString ops str c = WriteRaw ops str c"

definition GetDirectBufferForNBytesAndAdvance :: "nat \<Rightarrow> 'z cos \<Rightarrow> nat option \<times> 'z cos" where
  "GetDirectBufferForNBytesAndAdvance size' c =
     (if o_buffer_size c < size' then (None, c) else (o_buffer c, o_Advance size' c))"

definition GetDirectBufferPointer :: "'z zero_copy_ops \<Rightarrow> 'z cos \<Rightarrow> (nat option \<times> nat) option \<times> 'z cos" where
  "GetDirectBufferPointer ops c =
     (let (ok, c) = (if o_buffer_size c = 0 then o_Refresh ops c else (True, c))
      in (if ok then Some (o_buffer c, o_buffer_size c) else None, c))"

section \<open>Typed writers\<close>

definition WriteTag :: "'z zero_copy_ops \<Rightarrow> u32 \<Rightarrow> WireType \<Rightarrow> 'z cos \<Rightarrow> 'z cos option" where
  "WriteTag ops n type c = o_WriteTag ops (MakeTag n type) c"

definition WriteInt32 :: "'z zero_copy_ops \<Rightarrow> u32 \<Rightarrow> u32 \<Rightarrow> 'z cos \<Rightarrow> 'z cos option" where
  "WriteInt32 ops n v c = do { c \<leftarrow> WriteTag ops n WIRETYPE_VARINT c; WriteVarint32SignExtended ops v c }"

definition WriteInt64 :: "'z zero_copy_ops \<Rightarrow> u32 \<Rightarrow> u64 \<Rightarrow> 'z cos \<Rightarrow> 'z cos option" where
  "WriteInt64 ops n v c = do { c \<leftarrow> WriteTag ops n WIRETYPE_VARINT c; WriteVarint64 ops v c }"

definition WriteUInt32 :: "'z zero_copy_ops \<Rightarrow> u32 \<Rightarrow> u32 \<Rightarrow> 'z cos \<Rightarrow> 'z cos option" where
  "WriteUInt32 ops n v c = do { c \<leftarrow> WriteTag ops n WIRETYPE_VARINT c; WriteVarint32 ops v c }"

definition WriteUInt64 :: "'z zero_copy_ops \<Rightarrow> u32 \<Rightarrow> u64 \<Rightarrow> 'z cos \<Rightarrow> 'z cos option" where
  "WriteUInt64 ops n v c = do { c \<leftarrow> WriteTag ops n WIRETYPE_VARINT c; WriteVarint64 ops v c }"

definition WriteSInt32 :: "'z zero_copy_ops \<Rightarrow> u32 \<Rightarrow> u32 \<Rightarrow> 'z cos \<Rightarrow> 'z cos option" where
  "WriteSInt32 ops n v c = do { c \<leftarrow> WriteTag ops n WIRETYPE_VARINT c; WriteVarint32 ops (ZigZagEncode32 v) c }"

definition WriteSInt64 :: "'z zero_copy_ops \<Rightarrow> u32 \<Rightarrow> u64 \<Rightarrow> 'z cos \<Rightarrow> 'z cos option" where
  "WriteSInt64 ops n v c = do { c \<leftarrow> WriteTag ops n WIRETYPE_VARINT c; WriteVarint64 ops (ZigZagEncode64 v) c }"

definition WriteFixed32 :: "'z zero_copy_ops \<Rightarrow> u32 \<Rightarrow> u32 \<Rightarrow> 'z cos \<Rightarrow> 'z cos option" where
  "WriteFixed32 ops n v c = do { c \<leftarrow> WriteTag ops n WIRETYPE_FIXED32 c; WriteLittleEndian32 ops v c }"

definition WriteFixed64 :: "'z zero_copy_ops \<Rightarrow> u32 \<Rightarrow> u64 \<Rightarrow> 'z cos \<Rightarrow> 'z cos option" where
  "WriteFixed64 ops n v c = do { c \<leftarrow> WriteTag ops n WIRETYPE_FIXED64 c; WriteLittleEndian64 ops v c }"

text \<open>
  \<open>GOOGLE_CHECK_LE(value.size(), kint32max)\<close> stops the process. \<open>WriteString\<close> and, without aliasing,
  \<open>WriteRawMaybeAliased\<close> are \<open>WriteRaw\<close>.
\<close>

definition write_sized :: "'z zero_copy_ops \<Rightarrow> u32 \<Rightarrow> bytes \<Rightarrow> 'z cos \<Rightarrow> 'z cos option" where
  "write_sized ops n v c =
     do { c \<leftarrow> WriteTag ops n WIRETYPE_LENGTH_DELIMITED c;
          if int (length v) > INT_MAX then None
          else do { c \<leftarrow> WriteVarint32 ops (of_nat (length v)) c; WriteRaw ops v c } }"

definition out_WriteString :: "'z zero_copy_ops \<Rightarrow> u32 \<Rightarrow> bytes \<Rightarrow> 'z cos \<Rightarrow> 'z cos option" where
  "out_WriteString ops n v c = write_sized ops n v c"

definition WriteStringMaybeAliased :: "'z zero_copy_ops \<Rightarrow> u32 \<Rightarrow> bytes \<Rightarrow> 'z cos \<Rightarrow> 'z cos option" where
  "WriteStringMaybeAliased ops n v c = write_sized ops n v c"

definition out_WriteBytes :: "'z zero_copy_ops \<Rightarrow> u32 \<Rightarrow> bytes \<Rightarrow> 'z cos \<Rightarrow> 'z cos option" where
  "out_WriteBytes ops n v c = write_sized ops n v c"

definition WriteBytesMaybeAliased :: "'z zero_copy_ops \<Rightarrow> u32 \<Rightarrow> bytes \<Rightarrow> 'z cos \<Rightarrow> 'z cos option" where
  "WriteBytesMaybeAliased ops n v c = write_sized ops n v c"

text \<open>Unknown fields. The length of a bytes field is not checked here.\<close>

fun SerializeUnknownField_stream :: "'z zero_copy_ops \<Rightarrow> UnknownField \<Rightarrow> 'z cos \<Rightarrow> 'z cos option"
  and SerializeUnknownFields :: "'z zero_copy_ops \<Rightarrow> UnknownFieldSet \<Rightarrow> 'z cos \<Rightarrow> 'z cos option" where
  "SerializeUnknownField_stream ops (TYPE_VARINT n v) c =
     do { c \<leftarrow> WriteVarint32 ops (MakeTag n WIRETYPE_VARINT) c; WriteVarint64 ops v c }"
| "SerializeUnknownField_stream ops (TYPE_FIXED32 n v) c =
     do { c \<leftarrow> WriteVarint32 ops (MakeTag n WIRETYPE_FIXED32) c; WriteLittleEndian32 ops v c }"
| "SerializeUnknownField_stream ops (TYPE_FIXED64 n v) c =
     do { c \<leftarrow> WriteVarint32 ops (MakeTag n WIRETYPE_FIXED64) c; WriteLittleEndian64 ops v c }"
| "SerializeUnknownField_stream ops (TYPE_LENGTH_DELIMITED n v) c =
     do { c \<leftarrow> WriteVarint32 ops (MakeTag n WIRETYPE_LENGTH_DELIMITED) c;
          c \<leftarrow> WriteVarint32 ops (of_nat (length v)) c; WriteRaw ops v c }"
| "SerializeUnknownField_stream ops (TYPE_GROUP n g) c =
     do { c \<leftarrow> WriteVarint32 ops (MakeTag n WIRETYPE_START_GROUP) c;
          c \<leftarrow> SerializeUnknownFields ops g c;
          WriteVarint32 ops (MakeTag n WIRETYPE_END_GROUP) c }"
| "SerializeUnknownFields ops [] c = Some c"
| "SerializeUnknownFields ops (f # fs) c =
     do { c \<leftarrow> SerializeUnknownField_stream ops f c; SerializeUnknownFields ops fs c }"

section \<open>Messages\<close>

definition Parameter_SerializeWithCachedSizes :: "'z zero_copy_ops \<Rightarrow> Parameter \<Rightarrow> 'z cos \<Rightarrow> 'z cos option" where
  "Parameter_SerializeWithCachedSizes ops m c =
     do { c \<leftarrow> (if length (key m) > 0 then WriteStringMaybeAliased ops 1 (key m) c else Some c);
          c \<leftarrow> (if length (par_value_get m) > 0 then WriteStringMaybeAliased ops 2 (par_value_get m) c else Some c);
          if have_unknown_fields (par_metadata m)
          then SerializeUnknownFields ops (unknown_fields (par_metadata m)) c else Some c }"

definition WriteMessageMaybeToArray :: "'z zero_copy_ops \<Rightarrow> u32 \<Rightarrow> Parameter \<Rightarrow> 'z cos \<Rightarrow> 'z cos option" where
  "WriteMessageMaybeToArray ops n m c =
     do { c \<leftarrow> WriteTag ops n WIRETYPE_LENGTH_DELIMITED c;
          c \<leftarrow> WriteVarint32 ops (word_of_int (par_cached_size m)) c;
          (case GetDirectBufferForNBytesAndAdvance (nat (par_cached_size m)) c of
             (Some target, c) \<Rightarrow>
               Some (c\<lparr>o_output := z_store ops target (Parameter_InternalSerialize m) (o_output c)\<rparr>)
           | (None, c) \<Rightarrow> Parameter_SerializeWithCachedSizes ops m c) }"

fun write_parameters :: "'z zero_copy_ops \<Rightarrow> Parameter list \<Rightarrow> 'z cos \<Rightarrow> 'z cos option" where
  "write_parameters ops [] c = Some c"
| "write_parameters ops (p # ps) c = do { c \<leftarrow> WriteMessageMaybeToArray ops 20 p c; write_parameters ops ps c }"

definition SerializeWithCachedSizes :: "'z zero_copy_ops \<Rightarrow> ConnectProtocol \<Rightarrow> 'z cos \<Rightarrow> 'z cos option" where
  "SerializeWithCachedSizes ops m c =
     do { c \<leftarrow> (if statecode m \<noteq> 0 then WriteUInt32 ops 1 (statecode m) c else Some c);
          c \<leftarrow> (if length (apiname m) > 0 then WriteStringMaybeAliased ops 2 (apiname m) c else Some c);
          c \<leftarrow> write_parameters ops (map (\<lambda>i. parametergroup_get i m) [0..<parametergroup_size m]) c;
          c \<leftarrow> (if length (bytedata m) > 0 then WriteBytesMaybeAliased ops 21 (bytedata m) c else Some c);
          if have_unknown_fields (metadata m)
          then SerializeUnknownFields ops (unknown_fields (metadata m)) c else Some c }"

text \<open>The result, the message with its sizes stored, and the stream.\<close>

definition SerializePartialToCodedStream ::
  "'z zero_copy_ops \<Rightarrow> ConnectProtocol \<Rightarrow> 'z cos \<Rightarrow> (bool \<times> ConnectProtocol \<times> 'z cos) option" where
  "SerializePartialToCodedStream ops m c =
     (let (size', m) = ByteSizeLong m
      in if int size' > INT_MAX then Some (False, m, c)
         else case GetDirectBufferForNBytesAndAdvance size' c of
           (Some buffer, c) \<Rightarrow>
             let bytes = InternalSerialize m
             in if length bytes \<noteq> size' then None
                else Some (True, m, c\<lparr>o_output := z_store ops buffer bytes (o_output c)\<rparr>)
         | (None, c) \<Rightarrow>
             let original_byte_count = o_ByteCount c
             in do { c \<leftarrow> SerializeWithCachedSizes ops m c;
                     if o_had_error c then Some (False, m, c)
                     else if o_ByteCount c - original_byte_count \<noteq> size' then None
                     else Some (True, m, c) })"

text \<open>The destructor of the encoder gives back what it did not use.\<close>

definition SerializeToZeroCopyStream ::
  "'z zero_copy_ops \<Rightarrow> ConnectProtocol \<Rightarrow> 'z \<Rightarrow> (bool \<times> ConnectProtocol \<times> 'z) option" where
  "SerializeToZeroCopyStream ops m output =
     do { (ok, m, encoder) \<leftarrow> SerializePartialToCodedStream ops m (CodedOutputStream0 ops output);
          encoder \<leftarrow> o_Trim ops encoder;
          Some (ok, m, o_output encoder) }"

definition AppendPartialToString :: "ConnectProtocol \<Rightarrow> bytes \<Rightarrow> (bool \<times> ConnectProtocol \<times> bytes) option" where
  "AppendPartialToString m output =
     (let (byte_size, m) = ByteSizeLong m
      in if int byte_size > INT_MAX then Some (False, m, output)
         else let bytes = InternalSerialize m
              in if length bytes \<noteq> byte_size then None else Some (True, m, output @ bytes))"

definition AppendToString :: "ConnectProtocol \<Rightarrow> bytes \<Rightarrow> (bool \<times> ConnectProtocol \<times> bytes) option" where
  "AppendToString m output = AppendPartialToString m output"

definition SerializeToString :: "ConnectProtocol \<Rightarrow> bytes \<Rightarrow> (bool \<times> ConnectProtocol \<times> bytes) option" where
  "SerializeToString m output = AppendToString m []"

definition SerializeAsString :: "ConnectProtocol \<Rightarrow> (ConnectProtocol \<times> bytes) option" where
  "SerializeAsString m =
     do { (ok, m, output) \<leftarrow> AppendToString m []; Some (m, if ok then output else []) }"

definition ParseFromString :: "bytes \<Rightarrow> ConnectProtocol \<Rightarrow> (bool \<times> ConnectProtocol) option" where
  "ParseFromString data m = ParseFromArray data m"


lemma memcpy_simps [simp]:
  "o_buffer_size (memcpy_buffer ops bs c) = o_buffer_size c" "o_had_error (memcpy_buffer ops bs c) = o_had_error c"
  "o_total_bytes (memcpy_buffer ops bs c) = o_total_bytes c" "o_buffer (memcpy_buffer ops bs c) = o_buffer c"
  by (simp_all add: memcpy_buffer_def split: option.split)

section \<open>What a stream promises\<close>

text \<open>
  \<open>content\<close> is the memory handed out so far, in order; \<open>handed z n\<close> says that the last \<open>n\<close> bytes of it are
  the region the last \<open>Next\<close> returned. The client may write into that region and give its end back.
  \<open>Next\<close> does not fail before \<open>limit\<close> bytes are handed out.
\<close>

locale zero_copy_output =
  fixes ops :: "'z zero_copy_ops" and ok :: "'z \<Rightarrow> bool" and content :: "'z \<Rightarrow> bytes" and handed :: "'z \<Rightarrow> nat \<Rightarrow> bool"
    and limit :: nat
  assumes next_region: "ok z \<Longrightarrow> z_Next ops z = (Some (off, n), z') \<Longrightarrow>
      ok z' \<and> handed z' n \<and> 0 < n \<and> off = length (content z) \<and> length (content z') = off + n \<and>
      take off (content z') = content z"
    and next_end: "ok z \<Longrightarrow> z_Next ops z = (None, z') \<Longrightarrow> ok z' \<and> content z' = content z \<and> limit \<le> length (content z)"
    and store_region: "ok z \<Longrightarrow> handed z n \<Longrightarrow> length (content z) - n \<le> off \<Longrightarrow> off + length bs \<le> length (content z) \<Longrightarrow>
      ok (z_store ops off bs z) \<and> handed (z_store ops off bs z) n \<and>
      content (z_store ops off bs z) = overwrite off bs (content z)"
    and store_nothing: "z_store ops off [] z = z"
    and back_up: "ok z \<Longrightarrow> handed z n \<Longrightarrow> 0 < k \<Longrightarrow> k \<le> n \<Longrightarrow>
      \<exists>z'. z_BackUp ops k z = Some z' \<and> ok z' \<and> content z' = take (length (content z) - k) (content z)"
begin

text \<open>The bytes before \<open>base\<close> were there when the encoder was made.\<close>

definition cos_ok :: "nat \<Rightarrow> 'z cos \<Rightarrow> bool" where
  "cos_ok base c \<longleftrightarrow> ok (o_output c) \<and> length (content (o_output c)) = base + o_total_bytes c \<and>
     o_buffer_size c \<le> o_total_bytes c \<and>
     (o_buffer_size c > 0 \<longrightarrow> o_buffer c = Some (length (content (o_output c)) - o_buffer_size c) \<and>
        (\<exists>n. handed (o_output c) n \<and> o_buffer_size c \<le> n))"

definition emitted :: "'z cos \<Rightarrow> bytes" where
  "emitted c = take (length (content (o_output c)) - o_buffer_size c) (content (o_output c))"

text \<open>
  A writer succeeds and appends its bytes, unless the stream has no room for them; then, or after an
  earlier error, it leaves the error flag set.
\<close>

definition wrote :: "bytes \<Rightarrow> 'z cos \<Rightarrow> 'z cos \<Rightarrow> bool" where
  "wrote bs c c' \<longleftrightarrow> (o_had_error c \<longrightarrow> o_had_error c') \<and> (\<not> o_had_error c' \<longrightarrow> emitted c' = emitted c @ bs) \<and>
     (o_had_error c' \<longrightarrow> o_had_error c \<or> limit < length (emitted c @ bs))"

definition writes :: "('z cos \<Rightarrow> 'z cos option) \<Rightarrow> bytes \<Rightarrow> bool" where
  "writes W bs \<longleftrightarrow> (\<forall>base c. cos_ok base c \<longrightarrow> (\<exists>c'. W c = Some c' \<and> cos_ok base c' \<and> wrote bs c c'))"

lemma writes_bind:
  assumes "writes W bs" "writes V cs"
  shows "writes (\<lambda>c. Option.bind (W c) V) (bs @ cs)"
  unfolding writes_def
proof (intro allI impI)
  fix base c assume c: "cos_ok base c"
  obtain c1 where c1: "W c = Some c1" "cos_ok base c1" "wrote bs c c1" using assms(1) c unfolding writes_def by blast
  obtain c2 where c2: "V c1 = Some c2" "cos_ok base c2" "wrote cs c1 c2" using assms(2) c1(2) unfolding writes_def by blast
  show "\<exists>c'. Option.bind (W c) V = Some c' \<and> cos_ok base c' \<and> wrote (bs @ cs) c c'"
    using c1 c2 by (auto simp: wrote_def)
qed

lemma writes_Some: "writes Some []"
  by (simp add: writes_def wrote_def)

lemma writes_if: "(P \<Longrightarrow> writes W bs) \<Longrightarrow> (\<not> P \<Longrightarrow> writes V cs) \<Longrightarrow>
    writes (\<lambda>c. if P then W c else V c) (if P then bs else cs)"
  by simp

lemma ByteCount_emitted: "cos_ok base c \<Longrightarrow> length (emitted c) = base + o_ByteCount c"
  by (auto simp: cos_ok_def emitted_def o_ByteCount_def)

subsection \<open>The buffer\<close>

lemma Refresh_ok:
  assumes "cos_ok base c" "o_Refresh ops c = (r, c')"
  shows "cos_ok base c'" "r \<Longrightarrow> 0 < o_buffer_size c' \<and> o_had_error c' = o_had_error c \<and> emitted c' = content (o_output c)"
    "\<not> r \<Longrightarrow> o_had_error c' \<and> limit \<le> length (content (o_output c))"
proof -
  have ok: "ok (o_output c)" using assms(1) by (simp add: cos_ok_def)
  have "cos_ok base c' \<and> (r \<longrightarrow> 0 < o_buffer_size c' \<and> o_had_error c' = o_had_error c \<and> emitted c' = content (o_output c)) \<and>
      (\<not> r \<longrightarrow> o_had_error c' \<and> limit \<le> length (content (o_output c)))"
  proof (cases "z_Next ops (o_output c)")
    case (Pair reg z)
    show ?thesis
    proof (cases reg)
      case None
      then show ?thesis using assms next_end [OF ok, of z] Pair by (auto simp: o_Refresh_def cos_ok_def)
    next
      case (Some on)
      obtain off n where on: "on = (off, n)" by force
      note N = next_region [OF ok, of off n z]
      show ?thesis using assms N Pair Some on by (auto simp: o_Refresh_def cos_ok_def emitted_def)
    qed
  qed
  then show "cos_ok base c'" "r \<Longrightarrow> 0 < o_buffer_size c' \<and> o_had_error c' = o_had_error c \<and> emitted c' = content (o_output c)"
    "\<not> r \<Longrightarrow> o_had_error c' \<and> limit \<le> length (content (o_output c))" by auto
qed

text \<open>Bytes copied to the start of the buffer.\<close>

lemma memcpy_ok:
  assumes "cos_ok base c" "length bs \<le> o_buffer_size c"
  shows "cos_ok base (memcpy_buffer ops bs c)"
    "content (o_output (memcpy_buffer ops bs c)) =
       emitted c @ bs @ drop (length (content (o_output c)) - o_buffer_size c + length bs) (content (o_output c))"
proof -
  have "cos_ok base (memcpy_buffer ops bs c) \<and> content (o_output (memcpy_buffer ops bs c)) =
      emitted c @ bs @ drop (length (content (o_output c)) - o_buffer_size c + length bs) (content (o_output c))"
  proof (cases bs)
    case Nil
    then show ?thesis using assms by (simp add: memcpy_buffer_def store_nothing emitted_def split: option.split)
  next
    case (Cons b bs')
    then have "0 < o_buffer_size c" using assms(2) by auto
    then obtain n where n: "ok (o_output c)" "handed (o_output c) n" "o_buffer_size c \<le> n"
      "o_buffer c = Some (length (content (o_output c)) - o_buffer_size c)"
      using assms(1) by (auto simp: cos_ok_def)
    have "o_buffer_size c \<le> length (content (o_output c))" using assms(1) by (simp add: cos_ok_def)
    then have "length (content (o_output c)) - n \<le> length (content (o_output c)) - o_buffer_size c"
      "length (content (o_output c)) - o_buffer_size c + length bs \<le> length (content (o_output c))"
      using assms(2) n(3) by auto
    note s = store_region [OF n(1,2) this]
    then show ?thesis using s n assms
      by (auto simp: memcpy_buffer_def cos_ok_def overwrite_def emitted_def)
  qed
  then show "cos_ok base (memcpy_buffer ops bs c)"
    "content (o_output (memcpy_buffer ops bs c)) =
       emitted c @ bs @ drop (length (content (o_output c)) - o_buffer_size c + length bs) (content (o_output c))" by auto
qed

lemma length_emitted: "cos_ok base c \<Longrightarrow> length (emitted c) = length (content (o_output c)) - o_buffer_size c"
  by (simp add: emitted_def)

lemma Advance_ok:
  assumes "cos_ok base c" "n \<le> o_buffer_size c"
  shows "cos_ok base (o_Advance n c)" "o_had_error (o_Advance n c) = o_had_error c"
    "emitted (o_Advance n c) = take (length (emitted c) + n) (content (o_output c))"
  using assms length_emitted [OF assms(1)] by (auto simp: cos_ok_def o_Advance_def emitted_def)

lemma put_ok:
  assumes "cos_ok base c" "length bs \<le> o_buffer_size c"
  shows "cos_ok base (o_Advance (length bs) (memcpy_buffer ops bs c))"
    "emitted (o_Advance (length bs) (memcpy_buffer ops bs c)) = emitted c @ bs"
    "wrote bs c (o_Advance (length bs) (memcpy_buffer ops bs c))"
proof -
  note m = memcpy_ok [OF assms]
  have b: "length bs \<le> o_buffer_size (memcpy_buffer ops bs c)" "o_had_error (memcpy_buffer ops bs c) = o_had_error c"
    using assms(2) by simp_all
  note a = Advance_ok [OF m(1) b(1)]
  show "cos_ok base (o_Advance (length bs) (memcpy_buffer ops bs c))" by (rule a)
  have l: "length (content (o_output (memcpy_buffer ops bs c))) = length (content (o_output c))"
    using m(1) assms(1) by (simp add: cos_ok_def)
  have "length (emitted (memcpy_buffer ops bs c)) = length (emitted c)"
    using length_emitted [OF m(1)] length_emitted [OF assms(1)] l by simp
  then show "emitted (o_Advance (length bs) (memcpy_buffer ops bs c)) = emitted c @ bs" by (simp add: a m(2))
  then show "wrote bs c (o_Advance (length bs) (memcpy_buffer ops bs c))" using a(2) b(2) by (simp add: wrote_def)
qed

lemma fill_ok:
  assumes "cos_ok base c" "o_buffer_size c \<le> length data"
  shows "cos_ok base (memcpy_buffer ops (take (o_buffer_size c) data) c)"
    "content (o_output (memcpy_buffer ops (take (o_buffer_size c) data) c)) = emitted c @ take (o_buffer_size c) data"
proof -
  have l: "length (take (o_buffer_size c) data) \<le> o_buffer_size c" "length (take (o_buffer_size c) data) = o_buffer_size c"
    using assms(2) by auto
  have "o_buffer_size c \<le> length (content (o_output c))" using assms(1) by (auto simp: cos_ok_def)
  then show "cos_ok base (memcpy_buffer ops (take (o_buffer_size c) data) c)"
    "content (o_output (memcpy_buffer ops (take (o_buffer_size c) data) c)) = emitted c @ take (o_buffer_size c) data"
    using memcpy_ok [OF assms(1) l(1)] l(2) by simp_all
qed

lemma WriteRaw_loop_ok:
  assumes "cos_ok base c" "length data + (if o_buffer_size c = 0 then 1 else 0) < fuel"
  shows "\<exists>c'. WriteRaw_loop ops fuel data c = Some c' \<and> cos_ok base c' \<and> wrote data c c'"
  using assms
proof (induction fuel arbitrary: data c)
  case (Suc fuel)
  let ?k = "o_buffer_size c"
  show ?case
  proof (cases "?k < length data")
    case False
    then show ?thesis using put_ok [OF Suc.prems(1), of data] by simp
  next
    case True
    let ?c1 = "memcpy_buffer ops (take ?k data) c"
    note f = fill_ok [OF Suc.prems(1) less_imp_le [OF True]]
    obtain r c2 where r: "o_Refresh ops ?c1 = (r, c2)" by force
    note R = Refresh_ok [OF f(1) r]
    show ?thesis
    proof (cases r)
      case False
      then show ?thesis using True r R f(2) by (simp add: wrote_def)
    next
      case ok: True
      have "length (drop ?k data) + (if o_buffer_size c2 = 0 then 1 else 0) < fuel"
        using R(2) [OF ok] True Suc.prems(2) by (auto split: if_splits)
      from Suc.IH [OF R(1) this] True obtain c3 where
        "WriteRaw_loop ops fuel (drop ?k data) c2 = Some c3" "cos_ok base c3" "wrote (drop ?k data) c2 c3"
        by auto
      then show ?thesis using True r ok R(2) f(2) by (auto simp: wrote_def)
    qed
  qed
qed simp

lemma WriteRaw_writes: "writes (WriteRaw ops data) data"
  unfolding writes_def WriteRaw_def by (intro allI impI WriteRaw_loop_ok) auto

lemma put_writes:
  assumes "length bs \<le> n" "writes W bs"
  shows "writes (\<lambda>c. if n \<le> o_buffer_size c then Some (o_Advance (length bs) (memcpy_buffer ops bs c)) else W c) bs"
  unfolding writes_def
proof (intro allI impI)
  fix base c assume c: "cos_ok base c"
  then show "\<exists>c'. (if n \<le> o_buffer_size c then Some (o_Advance (length bs) (memcpy_buffer ops bs c)) else W c) = Some c' \<and>
      cos_ok base c' \<and> wrote bs c c'"
    using put_ok [OF c, of bs] assms unfolding writes_def by auto
qed

subsection \<open>Typed writers\<close>

lemma number_writes [intro]:
  "writes (WriteVarint32 ops v) (WriteVarint32ToArray v)" "writes (WriteVarint64 ops w) (WriteVarint64ToArray w)"
  "writes (WriteLittleEndian32 ops v) (WriteLittleEndian32ToArray v)"
  "writes (WriteLittleEndian64 ops w) (WriteLittleEndian64ToArray w)"
proof -
  have l: "length (WriteVarint32ToArray v) \<le> 5" "length (WriteVarint64ToArray w) \<le> 10"
    using length_varint_enc32 [of v] length_varint_enc64 [of w] by (simp_all add: VarintSize32_length VarintSize64_length)
  show "writes (WriteVarint32 ops v) (WriteVarint32ToArray v)"
    unfolding WriteVarint32_def [abs_def] WriteVarint32SlowPath_def [abs_def] Let_def by (rule put_writes [OF l(1) WriteRaw_writes])
  show "writes (WriteVarint64 ops w) (WriteVarint64ToArray w)"
    unfolding WriteVarint64_def [abs_def] WriteVarint64SlowPath_def [abs_def] Let_def by (rule put_writes [OF l(2) WriteRaw_writes])
  show "writes (WriteLittleEndian32 ops v) (WriteLittleEndian32ToArray v)"
    using put_writes [OF _ WriteRaw_writes, of "WriteLittleEndian32ToArray v" 4]
    by (simp add: WriteLittleEndian32_def [abs_def] write_or_slow_def length_WriteLittleEndian)
  show "writes (WriteLittleEndian64 ops w) (WriteLittleEndian64ToArray w)"
    using put_writes [OF _ WriteRaw_writes, of "WriteLittleEndian64ToArray w" 8]
    by (simp add: WriteLittleEndian64_def [abs_def] write_or_slow_def length_WriteLittleEndian)
qed

lemma tag_writes [intro]: "writes (WriteTag ops n type) (WriteTagToArray n type)"
  using number_writes(1) by (simp add: WriteTag_def [abs_def] o_WriteTag_def WriteTagToArray_def WriteTagToArray0_def)

lemma typed_writes:
  "writes (WriteInt32 ops n v) (WriteInt32ToArray n v)" "writes (WriteInt64 ops n w) (WriteInt64ToArray n w)"
  "writes (WriteUInt32 ops n v) (WriteUInt32ToArray n v)" "writes (WriteUInt64 ops n w) (WriteUInt64ToArray n w)"
  "writes (WriteSInt32 ops n v) (WriteSInt32ToArray n v)" "writes (WriteSInt64 ops n w) (WriteSInt64ToArray n w)"
  "writes (WriteFixed32 ops n v) (WriteFixed32ToArray n v)" "writes (WriteFixed64 ops n w) (WriteFixed64ToArray n w)"
  unfolding WriteInt32_def [abs_def] WriteInt64_def [abs_def] WriteUInt32_def [abs_def] WriteUInt64_def [abs_def]
    WriteSInt32_def [abs_def] WriteSInt64_def [abs_def] WriteFixed32_def [abs_def] WriteFixed64_def [abs_def]
    WriteInt32ToArray_def WriteInt64ToArray_def WriteUInt32ToArray_def WriteUInt64ToArray_def WriteSInt32ToArray_def
    WriteSInt64ToArray_def WriteFixed32ToArray_def WriteFixed64ToArray_def WriteVarint32SignExtended_def [abs_def]
    WriteVarint32SignExtendedToArray_def
  by (intro writes_bind tag_writes number_writes)+

lemma sized_writes:
  assumes "length v < 2 ^ 31"
  shows "writes (write_sized ops n v) (WriteBytesToArray n v)"
proof -
  have "\<not> int (length v) > INT_MAX" using assms by simp
  then show ?thesis
    unfolding write_sized_def [abs_def] WriteBytesToArray_def WriteStringWithSizeToArray_def
    by (simp only: if_False) (intro writes_bind tag_writes number_writes WriteRaw_writes)
qed

lemma make_tag_writes: "writes (WriteVarint32 ops (MakeTag n type)) (WriteTagToArray n type)"
  using number_writes(1) by (simp add: WriteTagToArray_def WriteTagToArray0_def)

lemma unknown_writes:
  "writes (SerializeUnknownField_stream ops f) (SerializeUnknownField f)"
  "writes (SerializeUnknownFields ops fs) (SerializeUnknownFieldsToArray fs)"
proof (induction f and fs rule: SerializeUnknownField_SerializeUnknownFieldsToArray.induct)
  case (1 n v)
  have "writes (\<lambda>c. SerializeUnknownField_stream ops (TYPE_VARINT n v) c) (SerializeUnknownField (TYPE_VARINT n v))"
    by (simp add: WriteInt64ToArray_def) (intro writes_bind make_tag_writes number_writes)
  then show ?case by simp
next
  case (2 n v)
  have "writes (\<lambda>c. SerializeUnknownField_stream ops (TYPE_FIXED32 n v) c) (SerializeUnknownField (TYPE_FIXED32 n v))"
    by (simp add: WriteFixed32ToArray_def) (intro writes_bind make_tag_writes number_writes)
  then show ?case by simp
next
  case (3 n v)
  have "writes (\<lambda>c. SerializeUnknownField_stream ops (TYPE_FIXED64 n v) c) (SerializeUnknownField (TYPE_FIXED64 n v))"
    by (simp add: WriteFixed64ToArray_def) (intro writes_bind make_tag_writes number_writes)
  then show ?case by simp
next
  case (4 n v)
  have "writes (\<lambda>c. SerializeUnknownField_stream ops (TYPE_LENGTH_DELIMITED n v) c)
      (SerializeUnknownField (TYPE_LENGTH_DELIMITED n v))"
    by (simp add: WriteBytesToArray_def WriteStringWithSizeToArray_def)
      (intro writes_bind make_tag_writes number_writes WriteRaw_writes)
  then show ?case by simp
next
  case (5 n g)
  have "writes (\<lambda>c. SerializeUnknownField_stream ops (TYPE_GROUP n g) c) (SerializeUnknownField (TYPE_GROUP n g))"
    by (simp, intro writes_bind make_tag_writes 5)
  then show ?case by simp
next
  case 6
  have "writes (\<lambda>c. SerializeUnknownFields ops [] c) []" using writes_Some by simp
  then show ?case by simp
next
  case (7 f fs)
  have "writes (\<lambda>c. SerializeUnknownFields ops (f # fs) c) (SerializeUnknownFieldsToArray (f # fs))"
    by (simp, intro writes_bind 7)
  then show ?case by simp
qed

end


context zero_copy_output
begin

subsection \<open>Messages\<close>

text \<open>Writing through a pointer into the buffer, where there is room, or through the writers.\<close>

lemma direct_buffer:
  assumes "cos_ok base c"
  obtains (room) a c' where "GetDirectBufferForNBytesAndAdvance (length bs) c = (Some a, c')"
      "c'\<lparr>o_output := z_store ops a bs (o_output c')\<rparr> = o_Advance (length bs) (memcpy_buffer ops bs c)"
      "length bs \<le> o_buffer_size c"
    | (none) "GetDirectBufferForNBytesAndAdvance (length bs) c = (None, c)"
proof (cases "o_buffer_size c < length bs")
  case True
  then show ?thesis using none by (simp add: GetDirectBufferForNBytesAndAdvance_def)
next
  case False
  show ?thesis
  proof (cases "o_buffer c")
    case None
    then have "o_buffer_size c = 0" using assms by (auto simp: cos_ok_def)
    with False have "bs = []" by simp
    moreover have "o_Advance 0 c = c" using None by (simp add: o_Advance_def)
    ultimately show ?thesis using none None by (simp add: GetDirectBufferForNBytesAndAdvance_def)
  next
    case (Some a)
    then show ?thesis using False
      by (intro room [of a "o_Advance (length bs) c"])
        (simp_all add: GetDirectBufferForNBytesAndAdvance_def memcpy_buffer_def o_Advance_def)
  qed
qed

lemma direct_writes:
  assumes "writes W bs" "n = length bs"
  shows "writes (\<lambda>c. case GetDirectBufferForNBytesAndAdvance n c of
      (Some target, c) \<Rightarrow> Some (c\<lparr>o_output := z_store ops target bs (o_output c)\<rparr>) | (None, c) \<Rightarrow> W c) bs"
  unfolding writes_def assms(2)
proof (intro allI impI)
  fix base c assume c: "cos_ok base c"
  show "\<exists>c'. (case GetDirectBufferForNBytesAndAdvance (length bs) c of
      (Some target, c) \<Rightarrow> Some (c\<lparr>o_output := z_store ops target bs (o_output c)\<rparr>) | (None, c) \<Rightarrow> W c) = Some c' \<and>
      cos_ok base c' \<and> wrote bs c c'"
  proof (cases rule: direct_buffer [OF c, of bs])
    case (1 a c')
    then show ?thesis using put_ok [OF c 1(3)] by simp
  next
    case 2
    then show ?thesis using assms(1) c unfolding writes_def by simp
  qed
qed

lemma string_writes:
  assumes "length v < 2 ^ 31"
  shows "writes (WriteStringMaybeAliased ops n v) (WriteStringToArray n v)"
    "writes (WriteBytesMaybeAliased ops n v) (WriteBytesToArray n v)"
    "writes (out_WriteString ops n v) (WriteStringToArray n v)"
    "writes (out_WriteBytes ops n v) (WriteBytesToArray n v)"
  using sized_writes [OF assms, of n]
  by (simp_all add: WriteStringMaybeAliased_def [abs_def] WriteBytesMaybeAliased_def [abs_def]
      out_WriteString_def [abs_def] out_WriteBytes_def [abs_def] WriteStringToArray_def WriteBytesToArray_def)

lemma unknown_part_writes:
  "writes (\<lambda>c. if have_unknown_fields d then SerializeUnknownFields ops (unknown_fields d) c else Some c)
     (SerializeUnknownFieldsToArray (unknown_fields d))"
proof (cases "have_unknown_fields d")
  case False
  then have "unknown_fields d = []" by (auto simp: have_unknown_fields_def unknown_fields_def split: option.splits)
  then show ?thesis using False writes_Some by simp
qed (simp add: unknown_writes)

lemma parameter_writes:
  assumes "length (encode_parameter (parameter_view p)) < 2 ^ 31"
  shows "writes (Parameter_SerializeWithCachedSizes ops p) (encode_parameter (parameter_view p))"
proof -
  have len: "length (key p) < 2 ^ 31" "length (par_value_get p) < 2 ^ 31"
    using assms by (auto simp: parameter_view_def length_encode_parameter StringSize_def LengthDelimitedSize_def split: if_splits)
  have "writes (Parameter_SerializeWithCachedSizes ops p)
     ((if 0 < length (key p) then WriteStringToArray 1 (key p) else []) @
      (if 0 < length (par_value_get p) then WriteStringToArray 2 (par_value_get p) else []) @
      SerializeUnknownFieldsToArray (unknown_fields (par_metadata p)))"
    unfolding Parameter_SerializeWithCachedSizes_def [abs_def]
    by (intro writes_bind writes_if string_writes len writes_Some unknown_part_writes)
  then show ?thesis by (simp add: encode_parameter_def parameter_view_def)
qed

lemma submessage_writes:
  assumes "size_cached p" "length (encode_parameter (parameter_view p)) < 2 ^ 31"
  shows "writes (WriteMessageMaybeToArray ops n p) (WriteBytesToArray n (encode_parameter (parameter_view p)))"
proof -
  have s: "par_cached_size p = int (length (encode_parameter (parameter_view p)))"
    using assms by (simp add: size_cached_def ToCachedSize_small)
  then show ?thesis
    unfolding WriteMessageMaybeToArray_def [abs_def] WriteBytesToArray_def WriteStringWithSizeToArray_def
      Parameter_InternalSerialize_view s
    by (simp only: of_int_of_nat_eq nat_int)
      (intro writes_bind tag_writes number_writes direct_writes parameter_writes assms refl)
qed

lemma parameters_writes:
  assumes "\<forall>p\<in>set ps. size_cached p \<and> length (encode_parameter (parameter_view p)) < 2 ^ 31"
  shows "writes (write_parameters ops ps) (concat (map (\<lambda>p. WriteBytesToArray 20 (encode_parameter (parameter_view p))) ps))"
  using assms
proof (induction ps)
  case Nil
  have "writes (\<lambda>c. write_parameters ops [] c) []" using writes_Some by simp
  then show ?case by simp
next
  case (Cons p ps)
  then have "writes (\<lambda>c. write_parameters ops (p # ps) c)
      (concat (map (\<lambda>p. WriteBytesToArray 20 (encode_parameter (parameter_view p))) (p # ps)))"
    by (simp add: writes_bind submessage_writes)
  then show ?case by simp
qed

lemma message_writes:
  assumes "message_ok m" "sizes_cached m" "length (encode_message (message_view m)) < 2 ^ 31"
  shows "writes (SerializeWithCachedSizes ops m) (encode_message (message_view m))"
proof -
  have v: "v_parameters (message_view m) = map parameter_view (items (parametergroup m))"
    by (simp add: message_view_def par.view_items_def)
  have len: "length (apiname m) < 2 ^ 31" "length (bytedata m) < 2 ^ 31"
    "\<forall>p\<in>set (items (parametergroup m)). length (encode_parameter (parameter_view p)) < 2 ^ 31"
    using encoding_lengths [OF assms(3)] by (simp_all add: v) (simp_all add: message_view_def)
  have "\<forall>p\<in>set (items (parametergroup m)). size_cached p \<and> length (encode_parameter (parameter_view p)) < 2 ^ 31"
    using len(3) assms(2) by (simp add: sizes_cached_def)
  note p = parameters_writes [OF this]
  have e: "encode_message (message_view m) =
     (if statecode m \<noteq> 0 then WriteUInt32ToArray 1 (statecode m) else []) @
     (if 0 < length (apiname m) then WriteStringToArray 2 (apiname m) else []) @
     concat (map (\<lambda>p. WriteBytesToArray 20 (encode_parameter (parameter_view p))) (items (parametergroup m))) @
     (if 0 < length (bytedata m) then WriteBytesToArray 21 (bytedata m) else []) @
     SerializeUnknownFieldsToArray (unknown_fields (metadata m))"
    by (simp add: encode_message_def message_view_def par.view_items_def comp_def)
  show ?thesis
    unfolding e SerializeWithCachedSizes_def [abs_def] parametergroup_items [OF assms(1)]
    by (intro writes_bind writes_if string_writes typed_writes len writes_Some unknown_part_writes p)
qed

end


text \<open>Arrays and strings never hold more than an \<open>int\<close> can count.\<close>

locale bounded_output = zero_copy_output +
  assumes ok_int: "ok z \<Longrightarrow> int (length (content z)) \<le> INT_MAX"
begin

lemma counters_int: "cos_ok base c \<Longrightarrow> int (base + o_total_bytes c) \<le> INT_MAX"
  using ok_int [of "o_output c"] by (auto simp: cos_ok_def)

end

context zero_copy_output
begin

subsection \<open>Encoders\<close>

lemma CodedOutputStream0_ok:
  assumes "ok z"
  shows "cos_ok (length (content z)) (CodedOutputStream0 ops z)" "\<not> o_had_error (CodedOutputStream0 ops z)"
    "emitted (CodedOutputStream0 ops z) = content z"
proof -
  define c0 where "c0 = \<lparr>o_output = z, o_buffer = None, o_buffer_size = 0, o_total_bytes = 0, o_had_error = False\<rparr>"
  have c0: "cos_ok (length (content z)) c0" "emitted c0 = content z" using assms by (simp_all add: c0_def cos_ok_def emitted_def)
  obtain r c1 where r: "o_Refresh ops c0 = (r, c1)" by force
  have c: "CodedOutputStream0 ops z = c1\<lparr>o_had_error := False\<rparr>"
    using r by (simp add: CodedOutputStream0_def Let_def c0_def)
  note R = Refresh_ok [OF c0(1) r]
  have "emitted c1 = content z"
  proof (cases r)
    case True
    then show ?thesis using R(2) c0 by (simp add: c0_def)
  next
    case False
    then have "z_Next ops z = (None, o_output c1)" "o_buffer_size c1 = 0"
      using r by (auto simp: o_Refresh_def c0_def split: prod.splits option.splits)
    then show ?thesis using next_end [OF assms] by (simp add: emitted_def)
  qed
  then show "cos_ok (length (content z)) (CodedOutputStream0 ops z)" "\<not> o_had_error (CodedOutputStream0 ops z)"
    "emitted (CodedOutputStream0 ops z) = content z"
    using R(1) by (simp_all add: c cos_ok_def emitted_def)
qed

lemma Trim_ok:
  assumes "cos_ok base c"
  obtains c' where "o_Trim ops c = Some c'" "ok (o_output c')" "content (o_output c') = emitted c"
proof (cases "o_buffer_size c > 0")
  case True
  then obtain n where n: "ok (o_output c)" "handed (o_output c) n" "o_buffer_size c \<le> n"
    using assms by (auto simp: cos_ok_def)
  from back_up [OF n(1,2) True n(3)] obtain z where "z_BackUp ops (o_buffer_size c) (o_output c) = Some z" "ok z"
    "content z = emitted c" by (auto simp: emitted_def)
  with True show ?thesis by (intro that) (auto simp: o_Trim_def)
next
  case False
  then show ?thesis using assms by (intro that [of c]) (auto simp: o_Trim_def cos_ok_def emitted_def)
qed

lemma SerializePartialToCodedStream_ok:
  assumes "cos_ok base c" "message_ok m" "length (encode_message (message_view m)) < 2 ^ 31"
  shows "\<exists>r c'. SerializePartialToCodedStream ops m c = Some (r, snd (ByteSizeLong m), c') \<and> cos_ok base c' \<and>
    (r \<longrightarrow> emitted c' = emitted c @ encode_message (message_view m)) \<and>
    (\<not> r \<longrightarrow> o_had_error c \<or> limit < length (emitted c @ encode_message (message_view m)))"
proof -
  obtain n m' where n: "ByteSizeLong m = (n, m')" by force
  note B = ByteSizeLong_view [OF assms(2), unfolded n fst_conv snd_conv]
  let ?bs = "encode_message (message_view m)"
  have s: "InternalSerialize m' = ?bs" using InternalSerialize_view [OF B(2,4)] B(3) by simp
  have size: "\<not> INT_MAX < int n" "n = length ?bs" using B(1) assms(3) by simp_all
  show ?thesis
  proof (cases rule: direct_buffer [OF assms(1), of ?bs])
    case (1 a c')
    let ?c = "o_Advance (length ?bs) (memcpy_buffer ops ?bs c)"
    have "SerializePartialToCodedStream ops m c = Some (True, m', ?c)"
      using size(1) 1(1) unfolding 1(2) [symmetric] SerializePartialToCodedStream_def n size(2) by (simp add: s)
    then show ?thesis using put_ok(1,2) [OF assms(1) 1(3)] n by auto
  next
    case 2
    have "writes (SerializeWithCachedSizes ops m') ?bs" using message_writes [OF B(2,4)] B(3) assms(3) by simp
    then obtain c' where c': "SerializeWithCachedSizes ops m' c = Some c'" "cos_ok base c'" "wrote ?bs c c'"
      using assms(1) unfolding writes_def by blast
    have "o_ByteCount c' - o_ByteCount c = n" if "\<not> o_had_error c'"
      using that c'(3) ByteCount_emitted [OF c'(2)] ByteCount_emitted [OF assms(1)] size(2) by (simp add: wrote_def)
    then show ?thesis using c' n s size 2 by (auto simp: SerializePartialToCodedStream_def Let_def wrote_def)
  qed
qed

lemma SerializeToZeroCopyStream_ok:
  assumes "ok z" "message_ok m" "length (encode_message (message_view m)) < 2 ^ 31"
  obtains r z' where "SerializeToZeroCopyStream ops m z = Some (r, snd (ByteSizeLong m), z')" "ok z'"
    "r \<Longrightarrow> content z' = content z @ encode_message (message_view m)"
    "\<not> r \<Longrightarrow> limit < length (content z @ encode_message (message_view m))"
proof -
  note c0 = CodedOutputStream0_ok [OF assms(1)]
  obtain r c where c: "SerializePartialToCodedStream ops m (CodedOutputStream0 ops z) = Some (r, snd (ByteSizeLong m), c)"
    "cos_ok (length (content z)) c" "r \<longrightarrow> emitted c = content z @ encode_message (message_view m)"
    "\<not> r \<longrightarrow> limit < length (content z @ encode_message (message_view m))"
    using SerializePartialToCodedStream_ok [OF c0(1) assms(2,3)] c0(2,3) by auto
  obtain c' where "o_Trim ops c = Some c'" "ok (o_output c')" "content (o_output c') = emitted c"
    using Trim_ok [OF c(2)] by blast
  then show ?thesis
    using that [of r "o_output c'"] c by (simp add: SerializeToZeroCopyStream_def)
qed

end

section \<open>Arrays and strings as streams\<close>

definition array_ok :: "nat \<Rightarrow> ArrayOutputStream \<Rightarrow> bool" where
  "array_ok n s \<longleftrightarrow> length (a_data s) = n \<and> int n \<le> INT_MAX \<and> a_position s \<le> n \<and> a_last_returned_size s \<le> a_position s \<and>
     (0 < n \<longrightarrow> 0 < a_block_size s)"

interpretation array_stream: bounded_output array_ops "array_ok n"
  "\<lambda>s. take (a_position s) (a_data s)" "\<lambda>s k. k = a_last_returned_size s" n for n
proof unfold_locales
  fix s :: ArrayOutputStream and off k s'
  assume ok: "array_ok n s"
  show "int (length (take (a_position s) (a_data s))) \<le> INT_MAX" using ok by (simp add: array_ok_def)
  show "array_ok n s' \<and> k = a_last_returned_size s' \<and> 0 < k \<and> off = length (take (a_position s) (a_data s)) \<and>
      length (take (a_position s') (a_data s')) = off + k \<and>
      take off (take (a_position s') (a_data s')) = take (a_position s) (a_data s)"
    if "z_Next array_ops s = (Some (off, k), s')"
    using that ok by (auto simp: array_ops_def array_Next_def array_ok_def Let_def split: if_splits)
  show "array_ok n s' \<and> take (a_position s') (a_data s') = take (a_position s) (a_data s) \<and>
      n \<le> length (take (a_position s) (a_data s))" if "z_Next array_ops s = (None, s')"
    using that ok by (auto simp: array_ops_def array_Next_def array_ok_def Let_def split: if_splits)
next
  fix s :: ArrayOutputStream and k off and bs :: bytes
  assume ok: "array_ok n s" and k: "k = a_last_returned_size s"
    and off: "length (take (a_position s) (a_data s)) - k \<le> off" "off + length bs \<le> length (take (a_position s) (a_data s))"
  let ?s = "z_store array_ops off bs s"
  have "a_position s \<le> length (a_data s)" using ok by (simp add: array_ok_def)
  then show "array_ok n ?s \<and> k = a_last_returned_size ?s \<and>
      take (a_position ?s) (a_data ?s) = overwrite off bs (take (a_position s) (a_data s))"
    using ok k off by (auto simp: array_ops_def array_ok_def overwrite_def take_drop)
next
  fix s :: ArrayOutputStream and k j
  assume "array_ok n s" "k = a_last_returned_size s" "0 < j" "j \<le> k"
  then show "\<exists>s'. z_BackUp array_ops j s = Some s' \<and> array_ok n s' \<and>
      take (a_position s') (a_data s') = take (length (take (a_position s) (a_data s)) - j) (take (a_position s) (a_data s))"
    by (auto simp: array_ops_def array_BackUp_def array_ok_def)
qed (simp add: array_ops_def overwrite_def)

definition string_ok :: "StringOutputStream \<Rightarrow> bool" where
  "string_ok s \<longleftrightarrow> length (s_target s) \<le> s_capacity s \<and> int (s_capacity s) \<le> INT_MAX"

lemma length_resize [simp]: "length (resize n xs) = n"
  by (simp add: resize_def)

lemma take_resize: "n \<le> length xs \<Longrightarrow> resize n xs = take n xs" "length xs \<le> n \<Longrightarrow> take (length xs) (resize n xs) = xs"
  by (simp_all add: resize_def)

text \<open>A string grows until it is half as long as an \<open>int\<close> can say.\<close>

lemma string_stream:
  assumes "growth_ok grow"
  shows "bounded_output (string_ops grow) string_ok s_target (\<lambda>s n. n \<le> length (s_target s)) (2 ^ 30)"
proof unfold_locales
  fix s :: StringOutputStream and off k s'
  assume ok: "string_ok s"
  show "int (length (s_target s)) \<le> INT_MAX" using ok by (simp add: string_ok_def)
  have g: "j \<le> grow j" "int j \<le> INT_MAX \<Longrightarrow> int (grow j) \<le> INT_MAX" for j using assms unfolding growth_ok_def by blast+
  show "string_ok s' \<and> k \<le> length (s_target s') \<and> 0 < k \<and> off = length (s_target s) \<and>
      length (s_target s') = off + k \<and> take off (s_target s') = s_target s"
    if "z_Next (string_ops grow) s = (Some (off, k), s')"
    using that ok g [of "max (length (s_target s) * 2) kMinimumSize"]
    by (auto simp: string_ops_def string_Next_def string_ok_def Let_def take_resize kMinimumSize_def split: if_splits)
  show "string_ok s' \<and> s_target s' = s_target s \<and> 2 ^ 30 \<le> length (s_target s)"
    if "z_Next (string_ops grow) s = (None, s')"
    using that ok by (auto simp: string_ops_def string_Next_def string_ok_def Let_def split: if_splits)
next
  fix s :: StringOutputStream and k off and bs :: bytes
  assume "string_ok s" "k \<le> length (s_target s)" "off + length bs \<le> length (s_target s)"
  then show "string_ok (z_store (string_ops grow) off bs s) \<and> k \<le> length (s_target (z_store (string_ops grow) off bs s)) \<and>
      s_target (z_store (string_ops grow) off bs s) = overwrite off bs (s_target s)"
    by (auto simp: string_ops_def string_ok_def overwrite_def)
next
  fix s :: StringOutputStream and k j
  assume "string_ok s" "k \<le> length (s_target s)" "0 < j" "j \<le> k"
  then show "\<exists>s'. z_BackUp (string_ops grow) j s = Some s' \<and> string_ok s' \<and>
      s_target s' = take (length (s_target s) - j) (s_target s)"
    by (auto simp: string_ops_def string_BackUp_def string_ok_def take_resize)
qed (simp add: string_ops_def overwrite_def)


section \<open>Serialising to streams and strings\<close>

lemma AppendPartialToString_view:
  assumes "message_ok m" "length (encode_message (message_view m)) < 2 ^ 31"
  shows "AppendPartialToString m output = Some (True, snd (ByteSizeLong m), output @ encode_message (message_view m))"
  using ByteSizeLong_view [OF assms(1)] InternalSerialize_view [of "snd (ByteSizeLong m)"] assms(2)
  by (simp add: AppendPartialToString_def Let_def case_prod_beta)

lemma ArrayOutputStream0_ok:
  "int (length data) \<le> INT_MAX \<Longrightarrow> array_ok (length data) (ArrayOutputStream0 data block_size)"
  by (simp add: array_ok_def ArrayOutputStream0_def)

text \<open>C23: Serialising to an array through a stream gives what \<open>SerializeToArray\<close> gives, however small the
  blocks are into which the stream cuts the array: it succeeds exactly when the array has room for
  the message, and then the bytes the stream counts are the same bytes.\<close>

theorem array_stream_serialises:
  assumes "message_ok m" "length (encode_message (message_view m)) < 2 ^ 31" "int (length data) \<le> INT_MAX"
  shows "\<exists>ok z. SerializeToZeroCopyStream array_ops m (ArrayOutputStream0 data block_size) = Some (ok, snd (ByteSizeLong m), z) \<and>
    length (a_data z) = length data \<and>
    fst (SerializeToArray (int (length data)) m) = (if ok then Written (take (array_ByteCount z) (a_data z)) else Too_small)"
proof -
  let ?bs = "encode_message (message_view m)"
  have z0: "take (a_position (ArrayOutputStream0 data block_size)) (a_data (ArrayOutputStream0 data block_size)) = []"
    by (simp add: ArrayOutputStream0_def)
  obtain ok z where z: "SerializeToZeroCopyStream array_ops m (ArrayOutputStream0 data block_size) = Some (ok, snd (ByteSizeLong m), z)"
    "array_ok (length data) z" "ok \<Longrightarrow> take (a_position z) (a_data z) = ?bs" "\<not> ok \<Longrightarrow> length data < length ?bs"
    by (rule array_stream.SerializeToZeroCopyStream_ok [OF ArrayOutputStream0_ok [OF assms(3)] assms(1,2), of block_size])
      (auto simp: z0)
  have "length ?bs \<le> length data" if ok
    using z(2) unfolding z(3) [OF that, symmetric] by (simp add: array_ok_def)
  then show ?thesis using z SerializeToArray_view [OF assms(1,2), of "int (length data)"]
    by (auto simp: array_ok_def array_ByteCount_def)
qed

lemma array_stream_serialises_witness:
  "\<exists>z. SerializeToZeroCopyStream array_ops (set_apiname [97, 98] ConnectProtocol0)
      (ArrayOutputStream0 (replicate 9 0) 3) = Some (True, snd (ByteSizeLong (set_apiname [97, 98] ConnectProtocol0)), z) \<and>
    take (array_ByteCount z) (a_data z) = [18, 2, 97, 98]"
proof -
  have n: "encode_message (message_view (set_apiname [97, 98] ConnectProtocol0)) = [18, 2, 97, 98]"
    unfolding named_message by code_simp
  have "fst (SerializeToArray 9 (set_apiname [97, 98] ConnectProtocol0)) = Written [18, 2, 97, 98]"
    using SerializeToArray_view [OF named_message(1) [of "[97, 98]"], where size' = 9] by (simp add: n)
  with array_stream_serialises [OF named_message(1) [of "[97, 98]"], where data = "replicate 9 0" and block_size = 3] show ?thesis
    by (simp add: n split: if_splits)
qed

text \<open>Appending a message to a string through a stream never fails below a gigabyte and leaves the
  string that \<open>AppendToString\<close> leaves, whatever capacity the string has and however the standard
  library lets it grow.\<close>

lemma string_stream_serialises:
  assumes "growth_ok grow" "length (s_target s) \<le> s_capacity s" "int (s_capacity s) \<le> INT_MAX" "message_ok m"
    "length (s_target s @ encode_message (message_view m)) \<le> 2 ^ 30"
  shows "\<exists>z. SerializeToZeroCopyStream (string_ops grow) m s = Some (True, snd (ByteSizeLong m), z) \<and>
    AppendToString m (s_target s) = Some (True, snd (ByteSizeLong m), s_target z) \<and>
    s_target z = s_target s @ encode_message (message_view m)"
proof -
  let ?bs = "encode_message (message_view m)"
  have s: "string_ok s" "length ?bs < 2 ^ 31" using assms(2,3,5) by (simp_all add: string_ok_def)
  obtain ok z where z: "SerializeToZeroCopyStream (string_ops grow) m s = Some (ok, snd (ByteSizeLong m), z)"
    "ok \<Longrightarrow> s_target z = s_target s @ ?bs" "\<not> ok \<Longrightarrow> 2 ^ 30 < length (s_target s @ ?bs)"
    using zero_copy_output.SerializeToZeroCopyStream_ok [OF bounded_output.axioms(1) [OF string_stream [OF assms(1)]] s(1) assms(4) s(2)] by blast
  have ok using z(3) assms(5) by (meson not_le)
  then show ?thesis using z(1,2) AppendPartialToString_view [OF assms(4) s(2)] by (simp add: AppendToString_def)
qed

text \<open>A library that allocates what is asked for, for the witness.\<close>

definition sample_growth :: "nat \<Rightarrow> nat" where
  "sample_growth n = n"

lemma string_stream_serialises_witness:
  "\<exists>z. SerializeToZeroCopyStream (string_ops sample_growth) (set_apiname [97, 98] ConnectProtocol0)
      \<lparr>s_target = [1, 2], s_capacity = 3\<rparr> = Some (True, snd (ByteSizeLong (set_apiname [97, 98] ConnectProtocol0)), z) \<and>
    s_target z = [1, 2, 18, 2, 97, 98]"
proof -
  have n: "encode_message (message_view (set_apiname [97, 98] ConnectProtocol0)) = [18, 2, 97, 98]"
    unfolding named_message by code_simp
  have "growth_ok sample_growth" by (simp add: growth_ok_def sample_growth_def)
  from string_stream_serialises [OF this _ _ named_message(1) [of "[97, 98]"], of "\<lparr>s_target = [1, 2], s_capacity = 3\<rparr>"]
  show ?thesis by (auto simp: n)
qed

text \<open>A message put into a string is read back from it.\<close>

lemma string_roundtrip:
  assumes "message_ok m" "message_fits (message_view m)" "message_ok m0"
  obtains bytes m' where "SerializeAsString m = Some (snd (ByteSizeLong m), bytes)" "ParseFromString bytes m0 = Some (True, m')"
    "message_view m' = message_view m"
proof -
  have "length (encode_message (message_view m)) < 2 ^ 31" using assms(2) by (simp add: message_fits_def)
  from AppendPartialToString_view [OF assms(1) this, of "[]"] ParseFromArray_encode [OF assms(2,3)]
  show ?thesis using that by (auto simp: SerializeAsString_def AppendToString_def ParseFromString_def)
qed

end
