(* ===== verification/StreamInput.thy ===== *)
theory StreamInput
  imports CodedInput
begin

text \<open>
  \<open>CodedInputStream\<close> over a stream of any class, which hands out its bytes in regions (\<open>io/coded_stream.cc\<close>).
  Such a decoder stands for a flat one over all the bytes at the same place, and every read, skip and
  limit keeps that: the operations of \<open>CodedInput\<close> do the same on both, wherever the regions end.
\<close>

section \<open>Streams in regions\<close>

text \<open>
  While something is left of the current region, before or behind the limit, it is the end of what
  \<open>input\<close> has handed out last, and can still be given back.
\<close>

definition chunked :: "cis \<Rightarrow> bool" where
  "chunked s \<longleftrightarrow> (case cinput s of None \<Rightarrow> False | Some z \<Rightarrow>
     stream_ok z \<and> cbuffer s \<le> cbuffer_end s \<and> overflow_bytes s = 0 \<and> total_bytes_limit s = INT_MAX \<and>
     \<not> null_input s \<and> 0 \<le> current_limit s \<and> current_limit s \<le> INT_MAX \<and>
     buffer_size_after_limit s = max 0 (total_bytes_read s - current_limit s) \<and>
     total_bytes_read s + int (length (stream_rest z)) \<le> INT_MAX \<and>
     BufferSize s + buffer_size_after_limit s \<le> total_bytes_read s \<and>
     (0 < BufferSize s + buffer_size_after_limit s \<longrightarrow>
        int (cbuffer_end s) + buffer_size_after_limit s = int (length (cdata s)) \<and>
        (\<exists>earlier. stream_last z = earlier @ drop (cbuffer s) (cdata s))))"

text \<open>\<open>kept_bytes\<close> is what the decoder has of the region, \<open>flatten\<close> the flat stream over all the bytes, after some that were read before.\<close>

definition kept_bytes :: "cis \<Rightarrow> bytes" where
  "kept_bytes s = (if 0 < BufferSize s + buffer_size_after_limit s then drop (cbuffer s) (cdata s) else [])"

definition flatten :: "bytes \<Rightarrow> cis \<Rightarrow> cis" where
  "flatten before s =
     (let bs = before @ kept_bytes s @ stream_rest (the (cinput s)); end' = min (current_limit s) (int (length bs))
      in s\<lparr>cdata := bs, cbuffer := length before, cbuffer_end := nat end',
           total_bytes_read := int (length bs), current_limit := end',
           buffer_size_after_limit := int (length bs) - end', cinput := None\<rparr>)"

definition stands_for :: "cis \<Rightarrow> cis \<Rightarrow> bool" where
  "stands_for s f \<longleftrightarrow> (\<exists>before. int (length before) = CurrentPosition s \<and> f = flatten before s)"

lemma chunkedE:
  assumes "chunked s"
  obtains z where "cinput s = Some z" "stream_ok z" "cbuffer s \<le> cbuffer_end s" "overflow_bytes s = 0"
    "total_bytes_limit s = INT_MAX" "\<not> null_input s" "0 \<le> current_limit s" "current_limit s \<le> INT_MAX"
    "buffer_size_after_limit s = max 0 (total_bytes_read s - current_limit s)"
    "total_bytes_read s + int (length (stream_rest z)) \<le> INT_MAX"
    "BufferSize s + buffer_size_after_limit s \<le> total_bytes_read s"
    "0 < BufferSize s + buffer_size_after_limit s \<longrightarrow>
      int (cbuffer_end s) + buffer_size_after_limit s = int (length (cdata s)) \<and>
      (\<exists>earlier. stream_last z = earlier @ drop (cbuffer s) (cdata s))"
proof -
  obtain z where z: "cinput s = Some z" using assms by (cases "cinput s") (simp_all add: chunked_def)
  from assms have "stream_ok z \<and> cbuffer s \<le> cbuffer_end s \<and> overflow_bytes s = 0 \<and> total_bytes_limit s = INT_MAX \<and>
     \<not> null_input s \<and> 0 \<le> current_limit s \<and> current_limit s \<le> INT_MAX \<and>
     buffer_size_after_limit s = max 0 (total_bytes_read s - current_limit s) \<and>
     total_bytes_read s + int (length (stream_rest z)) \<le> INT_MAX \<and>
     BufferSize s + buffer_size_after_limit s \<le> total_bytes_read s \<and>
     (0 < BufferSize s + buffer_size_after_limit s \<longrightarrow>
        int (cbuffer_end s) + buffer_size_after_limit s = int (length (cdata s)) \<and>
        (\<exists>earlier. stream_last z = earlier @ drop (cbuffer s) (cdata s)))"
    unfolding chunked_def z option.case .
  with z that show thesis by blast
qed

lemma BufferSize_updates [simp]:
  "BufferSize (s\<lparr>last_tag := t\<rparr>) = BufferSize s" "BufferSize (s\<lparr>legitimate_message_end := b\<rparr>) = BufferSize s"
  "BufferSize (s\<lparr>recursion_budget := k\<rparr>) = BufferSize s" "BufferSize (s\<lparr>current_limit := l\<rparr>) = BufferSize s"
  by (simp_all add: BufferSize_def)

lemma CurrentPosition_updates [simp]:
  "CurrentPosition (s\<lparr>last_tag := t\<rparr>) = CurrentPosition s"
  "CurrentPosition (s\<lparr>legitimate_message_end := b\<rparr>) = CurrentPosition s"
  "CurrentPosition (s\<lparr>recursion_budget := k\<rparr>) = CurrentPosition s"
  by (simp_all add: CurrentPosition_def)

lemma held_updates [simp]:
  "kept_bytes (s\<lparr>last_tag := t\<rparr>) = kept_bytes s" "kept_bytes (s\<lparr>legitimate_message_end := b\<rparr>) = kept_bytes s"
  "kept_bytes (s\<lparr>recursion_budget := k\<rparr>) = kept_bytes s"
  by (simp_all add: kept_bytes_def)

lemma flatten_simps [simp]:
  "last_tag (flatten p s) = last_tag s" "legitimate_message_end (flatten p s) = legitimate_message_end s"
  "recursion_budget (flatten p s) = recursion_budget s" "recursion_limit (flatten p s) = recursion_limit s"
  "overflow_bytes (flatten p s) = overflow_bytes s" "total_bytes_limit (flatten p s) = total_bytes_limit s"
  "null_input (flatten p s) = null_input s" "cbuffer (flatten p s) = length p" "cinput (flatten p s) = None"
  "cdata (flatten p s) = p @ kept_bytes s @ stream_rest (the (cinput s))"
  by (simp_all add: flatten_def Let_def)

lemma flatten_updates [simp]:
  "flatten p (s\<lparr>last_tag := t\<rparr>) = (flatten p s)\<lparr>last_tag := t\<rparr>"
  "flatten p (s\<lparr>legitimate_message_end := b\<rparr>) = (flatten p s)\<lparr>legitimate_message_end := b\<rparr>"
  "flatten p (s\<lparr>recursion_budget := k\<rparr>) = (flatten p s)\<lparr>recursion_budget := k\<rparr>"
  by (simp_all add: flatten_def Let_def)

lemma stands_for_updates [intro]:
  assumes "stands_for s f"
  shows "stands_for (s\<lparr>last_tag := t\<rparr>) (f\<lparr>last_tag := t\<rparr>)"
    "stands_for (s\<lparr>legitimate_message_end := b\<rparr>) (f\<lparr>legitimate_message_end := b\<rparr>)"
    "stands_for (s\<lparr>recursion_budget := k\<rparr>) (f\<lparr>recursion_budget := k\<rparr>)"
  using assms by (auto simp: stands_for_def)

lemma chunked_updates [simp]:
  "chunked (s\<lparr>last_tag := t\<rparr>) = chunked s" "chunked (s\<lparr>legitimate_message_end := b\<rparr>) = chunked s"
  "chunked (s\<lparr>recursion_budget := k\<rparr>) = chunked s"
  by (simp_all add: chunked_def split: option.split)

lemma chunked_position:
  assumes "chunked s"
  shows "0 \<le> CurrentPosition s" "CurrentPosition s \<le> current_limit s"
    "CurrentPosition s + int (length (kept_bytes s)) = total_bytes_read s"
proof -
  have "0 \<le> CurrentPosition s \<and> CurrentPosition s \<le> current_limit s \<and> CurrentPosition s + int (length (kept_bytes s)) = total_bytes_read s"
    using assms
  proof (rule chunkedE)
    fix z assume z: "cbuffer s \<le> cbuffer_end s" "0 \<le> current_limit s"
      "buffer_size_after_limit s = max 0 (total_bytes_read s - current_limit s)"
      "BufferSize s + buffer_size_after_limit s \<le> total_bytes_read s"
      "0 < BufferSize s + buffer_size_after_limit s \<longrightarrow>
        int (cbuffer_end s) + buffer_size_after_limit s = int (length (cdata s)) \<and>
        (\<exists>earlier. stream_last z = earlier @ drop (cbuffer s) (cdata s))"
    then show ?thesis by (cases "0 < BufferSize s + buffer_size_after_limit s") (auto simp: CurrentPosition_def kept_bytes_def BufferSize_def)
  qed
  then show "0 \<le> CurrentPosition s" "CurrentPosition s \<le> current_limit s"
    "CurrentPosition s + int (length (kept_bytes s)) = total_bytes_read s" by auto
qed

text \<open>The length of the whole.\<close>

lemma stands_for_length:
  assumes "chunked s" "stands_for s f"
  shows "int (length (cdata f)) = total_bytes_read s + int (length (stream_rest (the (cinput s))))"
    "int (cbuffer f) = CurrentPosition s" "int (length (cdata f)) \<le> INT_MAX"
proof -
  have l: "int (length (cdata f)) = total_bytes_read s + int (length (stream_rest (the (cinput s)))) \<and> int (cbuffer f) = CurrentPosition s"
    using assms chunked_position(3) [OF assms(1)] by (auto simp: stands_for_def)
  then show "int (length (cdata f)) = total_bytes_read s + int (length (stream_rest (the (cinput s))))"
    "int (cbuffer f) = CurrentPosition s" by auto
  show "int (length (cdata f)) \<le> INT_MAX" by (rule chunkedE [OF assms(1)]) (use l in simp)
qed

lemma stands_for_flat:
  assumes "chunked s" "stands_for s f"
  shows "flat f"
proof -
  note p = chunked_position [OF assms(1)] and l = stands_for_length [OF assms]
  obtain before where b: "int (length before) = CurrentPosition s" "f = flatten before s" using assms(2) by (auto simp: stands_for_def)
  have "0 \<le> min (current_limit s) (int (length (cdata f)))" using p by simp
  then show ?thesis
    by (rule_tac chunkedE [OF assms(1)]) (use p l b in \<open>auto simp: flat_def flatten_def Let_def\<close>)
qed

text \<open>The bytes before the limit: the rest of the buffer, and then what \<open>input\<close> has not handed out.\<close>

definition upcoming :: "cis \<Rightarrow> bytes" where
  "upcoming s = (case cinput s of None \<Rightarrow> [] | Some z \<Rightarrow> take (nat (current_limit s - total_bytes_read s)) (stream_rest z))"

lemma chunked_buffer:
  assumes "chunked s"
  shows "length (avail s) = cbuffer_end s - cbuffer s" "BufferSize s = int (length (avail s))"
    "avail s = take (cbuffer_end s - cbuffer s) (kept_bytes s)"
proof -
  have "length (avail s) = cbuffer_end s - cbuffer s \<and> BufferSize s = int (length (avail s)) \<and>
      avail s = take (cbuffer_end s - cbuffer s) (kept_bytes s)"
    using assms
  proof (rule chunkedE)
    fix z assume z: "cbuffer s \<le> cbuffer_end s" "buffer_size_after_limit s = max 0 (total_bytes_read s - current_limit s)"
      "0 < BufferSize s + buffer_size_after_limit s \<longrightarrow>
        int (cbuffer_end s) + buffer_size_after_limit s = int (length (cdata s)) \<and>
        (\<exists>earlier. stream_last z = earlier @ drop (cbuffer s) (cdata s))"
    show ?thesis
    proof (cases "cbuffer s = cbuffer_end s")
      case True
      then show ?thesis by (simp add: avail_def BufferSize_def)
    next
      case False
      then have "0 < BufferSize s + buffer_size_after_limit s" using z(1,2) by (simp add: BufferSize_def)
      with z(3) have "int (cbuffer_end s) + buffer_size_after_limit s = int (length (cdata s))"
        "kept_bytes s = drop (cbuffer s) (cdata s)" by (auto simp: kept_bytes_def)
      moreover from this z(2) have "cbuffer_end s \<le> length (cdata s)" by linarith
      ultimately show ?thesis using z(1) by (simp add: avail_def BufferSize_def)
    qed
  qed
  then show "length (avail s) = cbuffer_end s - cbuffer s" "BufferSize s = int (length (avail s))"
    "avail s = take (cbuffer_end s - cbuffer s) (kept_bytes s)" by auto
qed

lemma avail_flatten:
  assumes c: "chunked s" and f: "stands_for s f"
  shows "avail f = avail s @ upcoming s"
proof -
  obtain z where z: "cinput s = Some z" "cbuffer s \<le> cbuffer_end s" "0 \<le> current_limit s"
    "buffer_size_after_limit s = max 0 (total_bytes_read s - current_limit s)"
    by (rule chunkedE [OF c])
  note p = chunked_position [OF c] and b = chunked_buffer [OF c] and l = stands_for_length [OF c f]
  obtain before where f': "int (length before) = CurrentPosition s" "f = flatten before s" using f by (auto simp: stands_for_def)
  have size: "int (length (kept_bytes s)) = BufferSize s + buffer_size_after_limit s"
    using p(3) by (simp add: CurrentPosition_def)
  define n where "n = nat (min (current_limit s) (total_bytes_read s + int (length (stream_rest z)))) - length before"
  have av: "avail f = take n (kept_bytes s @ stream_rest z)"
  proof -
    have "cbuffer_end f = nat (min (current_limit s) (int (length (cdata f))))" by (simp add: f'(2) flatten_def Let_def)
    then have "cbuffer_end f - cbuffer f = n" unfolding l(1) z(1) option.sel by (simp add: n_def f'(2))
    then show ?thesis unfolding avail_def by (simp add: f'(2) z(1))
  qed
  show ?thesis
  proof (cases "current_limit s < total_bytes_read s")
    case True
    then have "n = cbuffer_end s - cbuffer s" using f'(1) size z p(3)
      by (simp add: n_def BufferSize_def max_def min_def)
    moreover have "n \<le> length (kept_bytes s)" using calculation size z(2,4) True by (simp add: BufferSize_def)
    ultimately show ?thesis using True by (simp add: av b(3) upcoming_def z(1))
  next
    case False
    have "length (kept_bytes s) = cbuffer_end s - cbuffer s" using size z(2,4) False by (simp add: BufferSize_def)
    then have kept_bytes: "kept_bytes s = avail s" using b(3) by simp
    have "n - length (kept_bytes s) = nat (min (current_limit s - total_bytes_read s) (int (length (stream_rest z))))" "length (kept_bytes s) \<le> n"
      using f'(1) p False by (auto simp: n_def min_def)
    then show ?thesis
      by (simp add: av upcoming_def z(1) kept_bytes [symmetric] min_def nat_le_iff)
  qed
qed

text \<open>A read inside the buffer.\<close>

lemma held_Advance:
  assumes "chunked s" "n \<le> length (avail s)"
  shows "kept_bytes (Advance n s) = drop n (kept_bytes s)"
proof (cases "0 < BufferSize (Advance n s) + buffer_size_after_limit s")
  case True
  then have "0 < BufferSize s + buffer_size_after_limit s" by (simp add: BufferSize_def)
  with True show ?thesis by (simp add: kept_bytes_def add.commute)
next
  case False
  have "int (length (kept_bytes s)) = BufferSize s + buffer_size_after_limit s"
    using chunked_position(3) [OF assms(1)] by (simp add: CurrentPosition_def)
  also have "\<dots> \<le> int n" using False by (simp add: BufferSize_def)
  finally show ?thesis using False by (simp add: kept_bytes_def)
qed

lemma Advance_chunked:
  assumes "chunked s" "n \<le> length (avail s)"
  shows "chunked (Advance n s)" "stands_for s f \<Longrightarrow> stands_for (Advance n s) (Advance n f)"
proof -
  have n: "cbuffer s + n \<le> cbuffer_end s" using chunked_buffer(1) [OF assms(1)] assms(2) chunkedE [OF assms(1)]
    by (cases "n = 0") (auto simp del: length_0_conv)
  have b: "BufferSize (Advance n s) = BufferSize s - int n" by (simp add: BufferSize_def)
  obtain z where z: "cinput s = Some z" "stream_ok z" "overflow_bytes s = 0"
    "total_bytes_limit s = INT_MAX" "\<not> null_input s" "0 \<le> current_limit s" "current_limit s \<le> INT_MAX"
    "buffer_size_after_limit s = max 0 (total_bytes_read s - current_limit s)"
    "total_bytes_read s + int (length (stream_rest z)) \<le> INT_MAX"
    "BufferSize s + buffer_size_after_limit s \<le> total_bytes_read s"
    "0 < BufferSize s + buffer_size_after_limit s \<longrightarrow>
      int (cbuffer_end s) + buffer_size_after_limit s = int (length (cdata s)) \<and>
      (\<exists>earlier. stream_last z = earlier @ drop (cbuffer s) (cdata s))"
    by (rule chunkedE [OF assms(1)])
  have "\<exists>earlier. stream_last z = earlier @ drop (cbuffer s + n) (cdata s)"
    if "0 < BufferSize s - int n + buffer_size_after_limit s"
  proof -
    from that have "0 < BufferSize s + buffer_size_after_limit s" by simp
    with z(11) obtain earlier where "stream_last z = earlier @ drop (cbuffer s) (cdata s)" by blast
    then have "stream_last z = (earlier @ take n (drop (cbuffer s) (cdata s))) @ drop (cbuffer s + n) (cdata s)"
      by (simp add: add.commute flip: drop_drop)
    then show ?thesis by blast
  qed
  then show "chunked (Advance n s)" using z n by (simp add: chunked_def b)
  show "stands_for (Advance n s) (Advance n f)" if f: "stands_for s f"
  proof -
    obtain before where f': "int (length before) = CurrentPosition s" "f = flatten before s" using f by (auto simp: stands_for_def)
    have "n \<le> length (kept_bytes s)" using chunked_buffer(1,3) [OF assms(1)] assms(2) by simp
    then have "Advance n f = flatten (before @ take n (kept_bytes s)) (Advance n s)"
      unfolding f'(2) flatten_def Let_def held_Advance [OF assms] by (simp add: Advance_def z(1))
    moreover have "int (length (before @ take n (kept_bytes s))) = CurrentPosition (Advance n s)"
      using f'(1) \<open>n \<le> length (kept_bytes s)\<close> by (simp add: CurrentPosition_def b)
    ultimately show ?thesis unfolding stands_for_def by blast
  qed
qed

lemma upcoming_Advance [simp]: "upcoming (Advance n s) = upcoming s"
  by (simp add: upcoming_def split: option.split)

lemma chunked_buffered: "chunked s \<Longrightarrow> buffered s"
  using chunked_buffer(1) [of s] by (auto simp: buffered_def elim: chunkedE)

lemmas buffer_empty = buffer_eq [OF chunked_buffered]

text \<open>The decoder knows that it is at the end: it has come to a limit, or the stream has told it.\<close>

definition told_end :: "cis \<Rightarrow> bool" where
  "told_end s \<longleftrightarrow> current_limit s \<le> total_bytes_read s \<or> (\<exists>z. cinput s = Some z \<and> stream_told z)"

lemma told_end_updates [simp]:
  "told_end (s\<lparr>last_tag := t\<rparr>) = told_end s" "told_end (s\<lparr>legitimate_message_end := b\<rparr>) = told_end s"
  by (simp_all add: told_end_def)


lemma Refresh_chunked:
  assumes c: "chunked s" and e: "avail s = []"
  obtains t where "Refresh s = (upcoming s \<noteq> [], t)" "chunked t" "\<And>f. stands_for s f \<Longrightarrow> stands_for t f"
    "avail t = [] \<longleftrightarrow> upcoming s = []" "upcoming s = [] \<Longrightarrow> told_end t"
proof -
  obtain z where z: "cinput s = Some z" "stream_ok z" "cbuffer s \<le> cbuffer_end s" "overflow_bytes s = 0"
    "total_bytes_limit s = INT_MAX" "\<not> null_input s" "0 \<le> current_limit s" "current_limit s \<le> INT_MAX"
    "buffer_size_after_limit s = max 0 (total_bytes_read s - current_limit s)"
    "total_bytes_read s + int (length (stream_rest z)) \<le> INT_MAX"
    "BufferSize s + buffer_size_after_limit s \<le> total_bytes_read s"
    by (rule chunkedE [OF c])
  have b: "BufferSize s = 0" "cbuffer s = cbuffer_end s" using buffer_empty [OF c] e by (simp_all add: BufferSize_def)
  have tot: "0 \<le> total_bytes_read s" using z(9,11) b(1) by simp
  show thesis
  proof (cases "current_limit s \<le> total_bytes_read s")
    case True
    then have "Refresh s = (False, s)" using z by (auto simp: Refresh_def)
    moreover have "upcoming s = []" using True by (simp add: upcoming_def z)
    ultimately show thesis using that c e True by (simp add: told_end_def)
  next
    case below: False
    then have a: "buffer_size_after_limit s = 0" using z(9) by simp
    have kept_bytes: "kept_bytes s = []" using a b(1) by (simp add: kept_bytes_def)
    obtain r w where n: "zi_Next virtual_ops z = (r, w)" by force
    show thesis
    proof (cases r)
      case None
      note w = virtual_input.next_end [OF z(2) n [unfolded None]]
      let ?t = "s\<lparr>cinput := Some w, cbuffer := 0, cbuffer_end := 0\<rparr>"
      have "Refresh s = (False, ?t)" using below z n None by (simp add: Refresh_def NextNonEmpty_def)
      moreover have "upcoming s = []" using w by (simp add: upcoming_def z)
      moreover have "chunked ?t" using z w below by (simp add: chunked_def BufferSize_def)
      moreover have "stands_for ?t f" if "stands_for s f" for f
        using that w b(1) z(1) kept_bytes a
        by (simp add: stands_for_def CurrentPosition_def flatten_def BufferSize_def kept_bytes_def Let_def)
      moreover have "avail ?t = []" by (simp add: avail_def)
      moreover have "told_end ?t" using w by (simp add: told_end_def)
      ultimately show thesis using that by simp
    next
      case (Some bs)
      note w = virtual_input.next_region [OF z(2) n [unfolded Some]]
      define t where "t = new_buffer bs w s"
      have len: "total_bytes_read s + int (length bs) \<le> INT_MAX" "0 < length bs" using w z(10) by auto
      have r: "Refresh s = (True, t)"
        using below z n Some w by (simp add: Refresh_def NextNonEmpty_def t_def)
      have t: "t = s\<lparr>cinput := Some w, cdata := bs, cbuffer := 0,
          cbuffer_end := nat (int (length bs) - max 0 (total_bytes_read s + int (length bs) - current_limit s)),
          total_bytes_read := total_bytes_read s + int (length bs),
          buffer_size_after_limit := max 0 (total_bytes_read s + int (length bs) - current_limit s)\<rparr>"
        using len z a below tot by (auto simp: t_def new_buffer_def RecomputeBufferLimits_def Let_def min_def max_def)
      have size: "BufferSize t + buffer_size_after_limit t = int (length bs)"
        using below tot by (simp add: t BufferSize_def max_def)
      have held_t: "kept_bytes t = bs" using size len by (simp add: kept_bytes_def) (simp add: t)
      obtain earlier where "stream_last w = earlier @ bs" using w by blast
      then have "chunked t" using z w len below tot size by (auto simp: chunked_def t BufferSize_def max_def)
      moreover have "stands_for t f" if "stands_for s f" for f
      proof -
        obtain before where f: "int (length before) = CurrentPosition s" "f = flatten before s"
          using \<open>stands_for s f\<close> by (auto simp: stands_for_def)
        have "CurrentPosition t = CurrentPosition s" using size a b(1) by (simp add: CurrentPosition_def) (simp add: t)
        moreover have "flatten before t = flatten before s"
          unfolding flatten_def held_t kept_bytes z(1) by (simp add: t w Let_def)
        ultimately show ?thesis using f by (auto simp: stands_for_def)
      qed
      moreover have "avail t \<noteq> []" "upcoming s \<noteq> []" using len below w by (auto simp: avail_def t upcoming_def z max_def)
      ultimately show thesis using that r by simp
    qed
  qed
qed

section \<open>Reads\<close>

text \<open>
  \<open>rep l s f\<close>: the stream \<open>s\<close> under the limit \<open>l\<close> stands for the flat stream \<open>f\<close>, in the middle of a
  message. Two reads are alike when both fail, or both succeed with the same value and leave such
  streams.
\<close>

definition rep :: "int \<Rightarrow> cis \<Rightarrow> cis \<Rightarrow> bool" where
  "rep l s f \<longleftrightarrow> chunked s \<and> current_limit s = l \<and> stands_for s f \<and> \<not> legitimate_message_end s"

fun alike :: "int \<Rightarrow> bool \<times> 'a \<times> cis \<Rightarrow> bool \<times> 'a \<times> cis \<Rightarrow> bool" where
  "alike l (ok, v, t) (ok', v', f) \<longleftrightarrow> ok = ok' \<and> (ok \<longrightarrow> v = v' \<and> rep l t f)"

lemma rep_legitimate: "rep l s f \<Longrightarrow> \<not> legitimate_message_end f"
  by (auto simp: rep_def stands_for_def)

lemma rep_flat: "rep l s f \<Longrightarrow> flat f"
  by (auto simp: rep_def stands_for_flat)

lemma rep_avail: "rep l s f \<Longrightarrow> avail f = avail s @ upcoming s"
  by (auto simp: rep_def avail_flatten)

lemma rep_buffered: "rep l s f \<Longrightarrow> buffered s"
  by (auto simp: rep_def chunked_buffered)

lemma rep_Advance: "rep l s f \<Longrightarrow> n \<le> length (avail s) \<Longrightarrow> rep l (Advance n s) (Advance n f)"
  by (auto simp: rep_def Advance_chunked)

lemma rep_updates:
  "rep l s f \<Longrightarrow> rep l (s\<lparr>last_tag := t\<rparr>) (f\<lparr>last_tag := t\<rparr>)"
  "rep l s f \<Longrightarrow> rep l (s\<lparr>recursion_budget := k\<rparr>) (f\<lparr>recursion_budget := k\<rparr>)"
  by (auto simp: rep_def)

lemma rep_fields:
  "rep l s f \<Longrightarrow> recursion_budget s = recursion_budget f" "rep l s f \<Longrightarrow> recursion_limit s = recursion_limit f"
  "rep l s f \<Longrightarrow> last_tag s = last_tag f" "rep l s f \<Longrightarrow> CurrentPosition s = int (cbuffer f)"
  by (auto simp: rep_def stands_for_def)

lemma new_buffer_kept: "current_limit (new_buffer bs z s) = current_limit s"
  "legitimate_message_end (new_buffer bs z s) = legitimate_message_end s"
  by (simp_all add: new_buffer_def RecomputeBufferLimits_def Let_def)

lemma Refresh_rep:
  assumes r: "rep l s f" and e: "avail s = []"
  obtains t where "Refresh s = (avail f \<noteq> [], t)" "rep l t f" "avail t = [] \<longleftrightarrow> avail f = []" "avail f = [] \<Longrightarrow> told_end t"
proof -
  have c: "chunked s" "avail f = upcoming s" using r e rep_avail [OF r] by (auto simp: rep_def)
  obtain t where t: "Refresh s = (upcoming s \<noteq> [], t)" "chunked t" "\<And>f. stands_for s f \<Longrightarrow> stands_for t f"
    "avail t = [] \<longleftrightarrow> upcoming s = []" "upcoming s = [] \<Longrightarrow> told_end t"
    by (rule Refresh_chunked [OF c(1) e]) blast
  have "current_limit t = current_limit s" "legitimate_message_end t = legitimate_message_end s"
    using t(1) by (auto simp: Refresh_def new_buffer_kept split: if_splits option.splits prod.splits)
  with t r that show thesis by (simp add: rep_def c)
qed

lemma FillBuffer_rep:
  assumes "rep l s f"
  obtains t where "FillBuffer s = (avail f \<noteq> [], t)" "rep l t f" "avail t = [] \<longleftrightarrow> avail f = []"
proof (cases "avail s = []")
  case True
  obtain t where t: "Refresh s = (avail f \<noteq> [], t)" "rep l t f" "avail t = [] \<longleftrightarrow> avail f = []"
    by (rule Refresh_rep [OF assms True])
  then have "FillBuffer s = (avail f \<noteq> [], t)"
    using True buffer_eq [OF rep_buffered [OF assms]] buffer_eq [OF rep_buffered [OF t(2)]]
    by (subst FillBuffer.simps) (auto simp: FillBuffer.simps [of t] split: bool.splits)
  with t(2,3) that show thesis by blast
next
  case False
  then have "FillBuffer s = (avail f \<noteq> [], s)"
    using buffer_eq [OF rep_buffered [OF assms]] rep_avail [OF assms] by (simp add: FillBuffer.simps)
  with False assms rep_avail [OF assms] that show thesis by simp
qed

subsection \<open>Raw bytes\<close>

lemma ReadRaw_rep: "rep l s f \<Longrightarrow> alike l (ReadRaw acc (int n) s) (ReadRaw acc (int n) f)"
proof (induction acc "int n" s arbitrary: n f rule: ReadRaw.induct)
  case (1 acc s)
  note r = 1(2)
  note f = rep_flat [OF r] and b = BufferSize_avail [OF rep_buffered [OF r]] and a = rep_avail [OF r]
  show ?case
  proof (cases "length (avail s) < n")
    case False
    then have "n \<le> length (avail f)" "take n (avail f) = take n (avail s)" using a by simp_all
    with False show ?thesis
      using rep_Advance [OF r, of n] by (simp add: ReadRaw.simps [of acc _ s] b ReadRaw_flat [OF f])
  next
    case True
    let ?k = "length (avail s)"
    let ?s = "Advance ?k s"
    have r': "rep l ?s (Advance ?k f)" "avail ?s = []" "avail (Advance ?k f) = upcoming s"
      using rep_Advance [OF r, of ?k] a by simp_all
    obtain t where t: "Refresh ?s = (upcoming s \<noteq> [], t)" "rep l t (Advance ?k f)"
      using Refresh_rep [OF r'(1,2)] r'(3) by metis
    have s: "ReadRaw acc (int n) s = (if upcoming s \<noteq> [] then ReadRaw (acc @ avail s) (int (n - ?k)) t
        else (False, acc @ avail s, t))"
      using True t(1) by (simp add: ReadRaw.simps [of acc _ s] b Let_def of_nat_diff)
    have f': "ReadRaw acc (int n) f = ReadRaw (acc @ avail s) (int (n - ?k)) (Advance ?k f)"
    proof -
      have fa: "flat (Advance ?k f)" using f a by simp
      show ?thesis unfolding ReadRaw_flat [OF f] ReadRaw_flat [OF fa] using True a by auto
    qed
    show ?thesis
    proof (cases "upcoming s = []")
      case True
      then show ?thesis using \<open>?k < n\<close> a by (simp add: s ReadRaw_flat [OF f])
    next
      case False
      have "alike l (ReadRaw (acc @ avail s) (int (n - ?k)) t) (ReadRaw (acc @ avail s) (int (n - ?k)) (Advance ?k f))"
        using True t False b r' by (intro 1(1)) (auto simp: of_nat_diff)
      then show ?thesis using False s f' by simp
    qed
  qed
qed

lemma InternalReadStringInline_rep:
  assumes r: "rep l s f"
  shows "alike l (InternalReadStringInline buffer size' s) (InternalReadStringInline buffer size' f)"
proof (cases "size' < 0")
  case True
  then show ?thesis by (simp add: InternalReadStringInline_def)
next
  case False
  then obtain n where n: "size' = int n" by (metis not_less zero_le_imp_eq_int)
  note f = rep_flat [OF r] and b = BufferSize_avail [OF rep_buffered [OF r]] and a = rep_avail [OF r]
  have f': "InternalReadStringInline buffer (int n) f = ReadRaw [] (int n) f"
    by (simp add: InternalReadStringInline_def ReadStringFallback_def BufferSize_flat [OF f] ReadRaw_flat [OF f])
  have s': "InternalReadStringInline buffer (int n) s = ReadRaw [] (int n) s"
    by (simp add: InternalReadStringInline_def ReadStringFallback_def ReadRaw.simps [of "[]" _ s] b Let_def)
  show ?thesis unfolding n s' f' by (rule ReadRaw_rep [OF r])
qed

lemma ReadString_rep: "rep l s f \<Longrightarrow> alike l (ReadString buffer size' s) (ReadString buffer size' f)"
  using InternalReadStringInline_rep by (simp add: ReadString_def)

lemma alike_word:
  assumes "alike l (ReadRaw [] (int n) s) (ReadRaw [] (int n) f)"
  shows "alike l (let (ok, bytes, s) = ReadRaw [] (int n) s in (ok, if ok then g bytes else 0, s))
    (let (ok, bytes, s) = ReadRaw [] (int n) f in (ok, if ok then g bytes else 0, s))"
  using assms by (cases "ReadRaw [] (int n) s"; cases "ReadRaw [] (int n) f") auto

text \<open>The little-endian readers are \<open>ReadRaw\<close> of four and of eight bytes.\<close>

lemma ReadLittleEndian32_ReadRaw:
  assumes "buffered s"
  shows "ReadLittleEndian32 s =
    (let (ok, bytes, s) = ReadRaw [] (int 4) s in (ok, if ok then ReadLittleEndian32FromArray bytes else 0, s))"
proof (cases "4 \<le> length (avail s)")
  case True
  then have "ReadLittleEndian32FromArray (take 4 (avail s)) = ReadLittleEndian32FromArray (avail s)"
    by (simp add: ReadLittleEndian32FromArray_def)
  with True show ?thesis
    by (simp add: ReadLittleEndian32_def ReadRaw.simps [of "[]" _ s] BufferSize_avail [OF assms])
next
  case False
  then show ?thesis by (simp add: ReadLittleEndian32_def ReadLittleEndian32Fallback_def BufferSize_avail [OF assms])
qed

lemma ReadLittleEndian64_ReadRaw:
  assumes "buffered s"
  shows "ReadLittleEndian64 s =
    (let (ok, bytes, s) = ReadRaw [] (int 8) s in (ok, if ok then ReadLittleEndian64FromArray bytes else 0, s))"
proof (cases "8 \<le> length (avail s)")
  case True
  then have "ReadLittleEndian64FromArray (take 8 (avail s)) = ReadLittleEndian64FromArray (avail s)"
    by (simp add: ReadLittleEndian64FromArray_def)
  with True show ?thesis
    by (simp add: ReadLittleEndian64_def ReadRaw.simps [of "[]" _ s] BufferSize_avail [OF assms])
next
  case False
  then show ?thesis by (simp add: ReadLittleEndian64_def ReadLittleEndian64Fallback_def BufferSize_avail [OF assms])
qed

lemma ReadLittleEndian_rep:
  assumes r: "rep l s f"
  shows "alike l (ReadLittleEndian32 s) (ReadLittleEndian32 f)" "alike l (ReadLittleEndian64 s) (ReadLittleEndian64 f)"
  unfolding ReadLittleEndian32_ReadRaw [OF rep_buffered [OF r]] ReadLittleEndian64_ReadRaw [OF rep_buffered [OF r]]
    ReadLittleEndian32_ReadRaw [OF flat_buffered [OF rep_flat [OF r]]]
    ReadLittleEndian64_ReadRaw [OF flat_buffered [OF rep_flat [OF r]]]
  by (intro alike_word ReadRaw_rep r)+

subsection \<open>Varints\<close>

lemma ReadVarint64Slow_loop_rep:
  "rep l s f \<Longrightarrow> alike l (ReadVarint64Slow_loop left count v s) (ReadVarint64Slow_loop left count v f)"
proof (induction left arbitrary: count v s f)
  case 0
  then show ?case by simp
next
  case (Suc left)
  note f = rep_flat [OF Suc.prems]
  obtain t where t: "FillBuffer s = (avail f \<noteq> [], t)" "rep l t f" "avail t = [] \<longleftrightarrow> avail f = []"
    by (rule FillBuffer_rep [OF Suc.prems])
  show ?case
  proof (cases "avail f")
    case Nil
    then show ?thesis using t by (simp add: FillBuffer_flat [OF f])
  next
    case (Cons b bs)
    then obtain cs where c: "avail t = b # cs" using t rep_avail [OF t(2)] by (cases "avail t") auto
    let ?v = "v OR push_bit (7 * count) (ucast ((ucast b :: u32) AND 0x7F))"
    have r: "rep l (Advance 1 t) (Advance 1 f)" using rep_Advance [OF t(2)] c by simp
    show ?thesis
      using Cons t(1) data_buffer [OF rep_buffered [OF t(2)] c] data_buffer_flat [OF f Cons] Suc.IH [OF r] r
      by (simp add: FillBuffer_flat [OF f] Let_def)
  qed
qed

lemma varint_dec_append: "varint_safe k bs \<Longrightarrow> varint_dec k (bs @ cs) = varint_dec k bs"
proof (induction k arbitrary: bs)
  case 0
  then show ?case by simp
next
  case (Suc k)
  obtain b bs' where b: "bs = b # bs'" using varint_safe_nonempty [OF Suc.prems] by (cases bs) auto
  show ?case
  proof (cases "unat b < 128")
    case False
    then have "varint_safe k bs'" using Suc.prems b varint_safe_Cons [of k b bs'] by simp
    then show ?thesis using Suc.IH b False by simp
  qed (simp add: b)
qed

text \<open>The unrolled readers, on what is left of the block.\<close>

lemma fast_varint_rep:
  assumes "rep l s f" "fast_varint s"
  shows "varint_safe 10 (avail s)" "varint_dec 10 (avail f) = varint_dec 10 (avail s)"
  using assms varint_dec_append [of 10 "avail s" "upcoming s"]
  by (simp_all add: fast_varint_avail [OF rep_buffered] rep_avail)

text \<open>What a varint read comes to.\<close>

definition varint_like :: "int \<Rightarrow> (nat \<Rightarrow> 'a) \<Rightarrow> cis \<Rightarrow> bool \<times> 'a \<times> cis \<Rightarrow> bool" where
  "varint_like l g f r \<longleftrightarrow> (case varint_dec 10 (avail f) of
     Some (v, n) \<Rightarrow> \<exists>t. r = (True, g v, t) \<and> rep l t (Advance n f)
   | None \<Rightarrow> \<not> fst r)"

lemma varint_dec_Advance:
  assumes "rep l s f" "varint_dec 10 (avail s) = Some (v, n)"
  shows "rep l (Advance n s) (Advance n f)"
  using assms varint_dec_less [OF assms(2)] by (intro rep_Advance) simp_all

lemma ReadVarint64Fallback_rep:
  assumes r: "rep l s f"
  shows "varint_like l of_nat f (let (v, ok, t) = ReadVarint64Fallback s in (ok, v, t))"
proof (cases "fast_varint s")
  case True
  note fast = fast_varint_rep [OF r True]
  show ?thesis
    using True varint_dec_Advance [OF r]
    by (auto simp: varint_like_def ReadVarint64Fallback_def ReadVarint64FromArray_eq [OF fast(1)] fast(2) split: option.splits)
next
  case False
  have "ReadVarint64Slow_loop 10 0 0 f = (case varint_dec 10 (avail f) of
        Some (v, n) \<Rightarrow> (True, of_nat v, Advance n f)
      | None \<Rightarrow> (False, 0, Advance (min 10 (length (avail f))) f))"
    using ReadVarint64Slow_loop_flat [OF rep_flat [OF r], of 0 0 10] by (simp split: option.splits)
  with False ReadVarint64Slow_loop_rep [OF r, of 10 0 0] show ?thesis
    by (auto simp: varint_like_def ReadVarint64Fallback_def ReadVarint64Slow_def split: option.splits prod.splits)
qed

lemma small_varint_rep:
  assumes "rep l s f" "cbuffer s < cbuffer_end s" "unat (cdata s ! cbuffer s) < 128"
  shows "varint_dec 10 (avail f) = Some (unat (cdata s ! cbuffer s), 1)" "rep l (Advance 1 s) (Advance 1 f)"
proof -
  obtain b bs where b: "avail s = b # bs" using assms(2) buffer_lt [OF rep_buffered [OF assms(1)]] by (cases "avail s") auto
  with assms(3) data_buffer [OF rep_buffered [OF assms(1)] b] rep_avail [OF assms(1)]
  show "varint_dec 10 (avail f) = Some (unat (cdata s ! cbuffer s), 1)" by (simp add: varint_dec_small)
  show "rep l (Advance 1 s) (Advance 1 f)" using rep_Advance [OF assms(1), of 1] b by simp
qed

lemma ReadVarint64_like:
  assumes r: "rep l s f"
  shows "varint_like l of_nat f (ReadVarint64 s)"
  using small_varint_rep [OF r] ReadVarint64Fallback_rep [OF r]
  by (auto simp: ReadVarint64_def varint_like_def Let_def split: option.splits)

lemma ReadVarint32Fallback_rep:
  assumes r: "rep l s f" and v: "avail s \<noteq> [] \<Longrightarrow> v = ucast (hd (avail s)) \<and> 128 \<le> unat (hd (avail s))"
  shows "varint_like l of_nat f (let (result, t) = ReadVarint32Fallback v s in (result \<ge> 0, word_of_int result :: u32, t))"
proof (cases "fast_varint s")
  case True
  note fast = fast_varint_rep [OF r True]
  have "avail s \<noteq> []" using fast(1) by (auto simp: varint_safe_def)
  note v [OF this]
  then show ?thesis
    using ReadVarint32Fallback_fast [OF rep_buffered [OF r] fast(1), of v] varint_dec_Advance [OF r]
    by (auto simp: varint_like_def fast(2) split: option.splits)
next
  case False
  then show ?thesis using ReadVarint64Fallback_rep [OF r]
    by (auto simp: varint_like_def ReadVarint32Fallback_def ReadVarint32Slow_def ucast_of_nat_u64 split: option.splits prod.splits)
qed

lemma ReadVarint32_like:
  assumes r: "rep l s f"
  shows "varint_like l of_nat f (ReadVarint32 s)"
proof (cases "cbuffer s < cbuffer_end s \<and> unat (cdata s ! cbuffer s) < 128")
  case True
  then show ?thesis using small_varint_rep [OF r] by (simp add: ReadVarint32_def varint_like_def Let_def)
next
  case False
  let ?v = "(if cbuffer s < cbuffer_end s then ucast (cdata s ! cbuffer s) else 0) :: u32"
  have e: "ReadVarint32 s = (let (result, t) = ReadVarint32Fallback ?v s in (result \<ge> 0, word_of_int result, t))"
    using False by (auto simp: ReadVarint32_def Let_def)
  have v: "?v = ucast (hd (avail s)) \<and> 128 \<le> unat (hd (avail s))" if "avail s \<noteq> []"
    using that False buffer_lt [OF rep_buffered [OF r]] data_buffer [OF rep_buffered [OF r]]
    by (cases "avail s") auto
  show ?thesis unfolding e by (rule ReadVarint32Fallback_rep [OF r v])
qed

lemma alike_varint:
  assumes "varint_like l g f r" "r' = (case varint_dec 10 (avail f) of
        Some (v, n) \<Rightarrow> (True, g v, Advance n f) | None \<Rightarrow> (False, x, y))"
  shows "alike l r r'"
  using assms by (cases r) (auto simp: varint_like_def split: option.splits prod.splits)

lemma ReadVarint_rep:
  assumes r: "rep l s f"
  shows "alike l (ReadVarint64 s) (ReadVarint64 f)" "alike l (ReadVarint32 s) (ReadVarint32 f)"
  by (rule alike_varint [OF ReadVarint64_like [OF r] ReadVarint64_flat [OF rep_flat [OF r]]],
      rule alike_varint [OF ReadVarint32_like [OF r] ReadVarint32_flat [OF rep_flat [OF r]]])

lemma ReadVarintSizeAsInt_rep:
  assumes r: "rep l s f"
  shows "alike l (ReadVarintSizeAsInt s) (ReadVarintSizeAsInt f)"
proof (cases "cbuffer s < cbuffer_end s \<and> unat (cdata s ! cbuffer s) < 128")
  case True
  let ?b = "cdata s ! cbuffer s"
  from True small_varint_rep [OF r] have b: "varint_dec 10 (avail f) = Some (unat ?b, 1)" "rep l (Advance 1 s) (Advance 1 f)" by auto
  have "unat ?b mod 2 ^ 64 = unat ?b" using True by simp
  moreover have "int (unat ?b) \<le> INT_MAX" using True by linarith
  moreover have "ReadVarintSizeAsInt s = (True, int (unat ?b), Advance 1 s)"
    using True by (simp add: ReadVarintSizeAsInt_def)
  ultimately show ?thesis
    using b by (simp only: ReadVarintSizeAsInt_flat [OF rep_flat [OF r]] option.case prod.case if_True alike.simps) simp
next
  case False
  have "alike l (let (v, s) = ReadVarintSizeAsIntFallback s in (v \<ge> 0, v, s)) (ReadVarintSizeAsInt f)"
  proof (cases "fast_varint s")
    case True
    note fast = fast_varint_rep [OF r True]
    show ?thesis using True varint_dec_Advance [OF r]
      by (auto simp: ReadVarintSizeAsInt_flat [OF rep_flat [OF r]] ReadVarintSizeAsIntFallback_def
          ReadVarint64FromArray_eq [OF fast(1)] fast(2) uint_of_nat_u64 split: option.splits)
  next
    case False
    then show ?thesis using ReadVarint64Fallback_rep [OF r]
      by (auto simp: ReadVarintSizeAsInt_flat [OF rep_flat [OF r]] ReadVarintSizeAsIntFallback_def
          ReadVarintSizeAsIntSlow_def varint_like_def uint_of_nat_u64 split: option.splits prod.splits)
  qed
  with False show ?thesis by (auto simp: ReadVarintSizeAsInt_def)
qed

subsection \<open>Tags\<close>

text \<open>
  After a tag, the reading goes on; after tag 0 it has ended, and the streams agree when it ended at
  the end of what the limit shows.
\<close>

definition ended :: "int \<Rightarrow> cis \<Rightarrow> cis \<Rightarrow> bool" where
  "ended l t f \<longleftrightarrow> legitimate_message_end t = legitimate_message_end f \<and>
     (legitimate_message_end f \<longrightarrow> chunked t \<and> current_limit t = l \<and> stands_for t f \<and> avail f = [] \<and> told_end t)"

definition tag_alike :: "int \<Rightarrow> u32 \<times> cis \<Rightarrow> u32 \<times> cis \<Rightarrow> bool" where
  "tag_alike l r r' \<longleftrightarrow> fst r = fst r' \<and> (fst r \<noteq> 0 \<longrightarrow> rep l (snd r) (snd r')) \<and> (fst r = 0 \<longrightarrow> ended l (snd r) (snd r'))"

lemma ended_updates: "ended l t f \<Longrightarrow> ended l (t\<lparr>last_tag := x\<rparr>) (f\<lparr>last_tag := x\<rparr>)"
  by (auto simp: ended_def)

lemma rep_ended: "rep l t f \<Longrightarrow> ended l t f"
  using rep_legitimate [of l t f] by (simp add: ended_def rep_def)

text \<open>How a tag read ends: with a varint, or without one in the middle, or at the end.\<close>

lemma tag_varint:
  assumes r: "rep l s f" and ne: "avail f \<noteq> []" and v: "varint_like l of_nat f (ok, v :: u64, t)"
    and keep: "legitimate_message_end t = legitimate_message_end s"
  shows "tag_alike l (if ok then ucast v else 0, t) (tag_spec f)"
proof (cases "varint_dec 10 (avail f)")
  case None
  then show ?thesis using v ne keep r rep_legitimate [OF r]
    by (simp add: varint_like_def tag_spec_def tag_alike_def ended_def rep_def)
next
  case (Some x)
  then show ?thesis using v ne
    by (cases x) (auto simp: varint_like_def tag_spec_def tag_alike_def ucast_of_nat_u64 rep_ended)
qed

lemma Refresh_legitimate: "legitimate_message_end (snd (Refresh s)) = legitimate_message_end s"
  by (auto simp: Refresh_def new_buffer_kept split: option.splits prod.splits)

lemma FillBuffer_legitimate: "legitimate_message_end (snd (FillBuffer s)) = legitimate_message_end s"
proof (induction s rule: FillBuffer.induct)
  case (1 s)
  then show ?case using Refresh_legitimate [of s]
    by (subst FillBuffer.simps) (auto split: prod.splits bool.splits)
qed

lemma ReadVarint64Slow_loop_legitimate:
  "legitimate_message_end (snd (snd (ReadVarint64Slow_loop left count v s))) = legitimate_message_end s"
proof (induction left arbitrary: count v s)
  case (Suc left)
  then show ?case using FillBuffer_legitimate [of s]
    by (auto simp: Let_def split: prod.splits bool.splits)
qed simp

lemma ReadVarint64_legitimate:
  "ReadVarint64 s = (ok, v, t) \<Longrightarrow> legitimate_message_end t = legitimate_message_end s"
  using ReadVarint64Slow_loop_legitimate [of 10 0 0 s]
  by (auto simp: ReadVarint64_def ReadVarint64Fallback_def ReadVarint64Slow_def
      split: if_splits option.splits prod.splits)

lemma end_here:
  assumes "rep l s f" "avail f = []" "told_end s"
  shows "tag_alike l (0, s\<lparr>legitimate_message_end := True\<rparr>) (tag_spec f)"
  using assms rep_legitimate [OF assms(1)] by (auto simp: tag_alike_def tag_spec_def ended_def rep_def)

lemma ReadTagSlow_rep:
  assumes r: "rep l s f"
  shows "tag_alike l (ReadTagSlow s) (tag_spec f)"
proof -
  have go: "tag_alike l (let (ok, v, u) = ReadVarint64 t in (if ok then ucast v else 0, u)) (tag_spec f)"
    if "rep l t f" "avail f \<noteq> []" for t
  proof -
    obtain ok v u where u: "ReadVarint64 t = (ok, v, u)" by (metis prod_cases3)
    from tag_varint [OF that _ ReadVarint64_legitimate [OF u]] ReadVarint64_like [OF that(1)] show ?thesis
      by (simp add: u)
  qed
  show ?thesis
  proof (cases "avail s = []")
    case False
    then have "ReadTagSlow s = (let (ok, v, u) = ReadVarint64 s in (if ok then ucast v else 0, u))" "avail f \<noteq> []"
      using buffer_eq [OF rep_buffered [OF r]] rep_avail [OF r] by (simp_all add: ReadTagSlow_def)
    with go [OF r] show ?thesis by simp
  next
    case True
    obtain t where t: "Refresh s = (avail f \<noteq> [], t)" "rep l t f" "avail t = [] \<longleftrightarrow> avail f = []" "avail f = [] \<Longrightarrow> told_end t"
      by (rule Refresh_rep [OF r True]) blast
    have b: "cbuffer s = cbuffer_end s" using True buffer_eq [OF rep_buffered [OF r]] by simp
    show ?thesis
    proof (cases "avail f = []")
      case False
      then have "ReadTagSlow s = (let (ok, v, u) = ReadVarint64 t in (if ok then ucast v else 0, u))"
        using b t by (simp add: ReadTagSlow_def)
      with go [OF t(2) False] show ?thesis by simp
    next
      case True
      have c: "chunked t" using t(2) by (simp add: rep_def)
      have "current_limit t = total_bytes_limit t" if "total_bytes_read t - buffer_size_after_limit t \<ge> total_bytes_limit t"
      proof -
        have "BufferSize t = 0" using True t(3) chunked_buffer(2) [OF c] by simp
        then have "CurrentPosition t = total_bytes_read t - buffer_size_after_limit t" by (simp add: CurrentPosition_def)
        then have le: "total_bytes_read t - buffer_size_after_limit t \<le> current_limit t"
          using chunked_position(2) [OF c] by simp
        show ?thesis by (rule chunkedE [OF c]) (use that le in simp)
      qed
      then have "ReadTagSlow s = (0, t\<lparr>legitimate_message_end := True\<rparr>)"
        using b t(1) True by (auto simp: ReadTagSlow_def Let_def)
      with end_here [OF t(2) True t(4) [OF True]] show ?thesis by simp
    qed
  qed
qed

lemma ReadTagFallback_rep:
  assumes r: "rep l s f"
    and first: "avail s \<noteq> [] \<Longrightarrow> v = ucast (hd (avail s)) \<and> (v = 0 \<or> 128 \<le> unat (hd (avail s)))"
  shows "tag_alike l (ReadTagFallback v s) (tag_spec f)"
proof (cases "avail s = []")
  case True
  then have b: "BufferSize s = 0" using BufferSize_avail [OF rep_buffered [OF r]] by simp
  show ?thesis
  proof (cases "(buffer_size_after_limit s > 0 \<or> total_bytes_read s = current_limit s) \<and>
      total_bytes_read s - buffer_size_after_limit s < total_bytes_limit s")
    case False
    with b have "ReadTagFallback v s = ReadTagSlow s" by (auto simp: ReadTagFallback_def)
    with ReadTagSlow_rep [OF r] show ?thesis by simp
  next
    case limit: True
    have c: "chunked s" using r by (simp add: rep_def)
    have "upcoming s = []" by (rule chunkedE [OF c]) (use limit in \<open>auto simp: upcoming_def\<close>)
    then have "avail f = []" using True rep_avail [OF r] by simp
    moreover have "ReadTagFallback v s = (0, s\<lparr>legitimate_message_end := True\<rparr>)"
      using limit b by (simp add: ReadTagFallback_def)
    moreover have "told_end s" by (rule chunkedE [OF c]) (use limit in \<open>auto simp: told_end_def\<close>)
    ultimately show ?thesis using end_here [OF r] by simp
  qed
next
  case ne: False
  note b = rep_buffered [OF r]
  show ?thesis
  proof (cases "varint_safe 10 (avail s)")
    case False
    from ReadTagFallback_slow [OF b this ne] ReadTagSlow_rep [OF r] show ?thesis by simp
  next
    case True
    have dec: "varint_dec 10 (avail f) = varint_dec 10 (avail s)" "avail f \<noteq> []"
      using ne varint_dec_append [OF True] rep_avail [OF r] by simp_all
    have "ReadTagFallback v s = (case varint_dec 10 (avail s) of Some (w, n) \<Rightarrow> (of_nat w, Advance n s) | None \<Rightarrow> (0, s))"
      using first [OF ne] by (intro ReadTagFallback_fast [OF b True]) auto
    then show ?thesis
      using dec r varint_dec_Advance [OF r]
      by (auto simp: tag_spec_def tag_alike_def ended_def rep_ended split: option.splits) (auto simp: rep_def stands_for_def)
  qed
qed

lemma ReadTagNoLastTag_rep:
  assumes r: "rep l s f"
  shows "tag_alike l (ReadTagNoLastTag s) (tag_spec f)"
proof (cases "cbuffer s < cbuffer_end s \<and> unat (cdata s ! cbuffer s) < 128")
  case True
  then show ?thesis using small_varint_rep [OF r] rep_avail [OF r] buffer_lt [OF rep_buffered [OF r]]
    by (auto simp: ReadTagNoLastTag_def tag_spec_def tag_alike_def rep_ended Let_def)
next
  case False
  let ?v = "(if cbuffer s < cbuffer_end s then ucast (cdata s ! cbuffer s) else 0) :: u32"
  have e: "ReadTagNoLastTag s = ReadTagFallback ?v s" using False by (auto simp: ReadTagNoLastTag_def Let_def)
  have v: "?v = ucast (hd (avail s)) \<and> (?v = 0 \<or> 128 \<le> unat (hd (avail s)))" if "avail s \<noteq> []"
    using that False buffer_lt [OF rep_buffered [OF r]] data_buffer [OF rep_buffered [OF r]]
    by (cases "avail s") auto
  show ?thesis unfolding e by (rule ReadTagFallback_rep [OF r v])
qed

lemma ReadTag_rep:
  assumes r: "rep l s f"
  shows "tag_alike l (ReadTag s) (ReadTag f)"
  using ReadTagNoLastTag_rep [OF r]
  by (auto simp: ReadTag_def ReadTagNoLastTag_flat [OF rep_flat [OF r]] tag_alike_def rep_updates ended_updates
      split: prod.splits)

lemma varint_dec_more: "varint_dec k bs = Some x \<Longrightarrow> varint_dec k (bs @ cs) = Some x"
  by (induction k bs arbitrary: x rule: varint_dec.induct) (auto split: if_splits)

lemma ReadTagWithCutoff_rep:
  assumes r: "rep l s f"
  obtains tag cut t cut' f' where "ReadTagWithCutoffNoLastTag cutoff s = (tag, cut, t)"
    "ReadTagWithCutoffNoLastTag cutoff f = (tag, cut', f')" "tag_alike l (tag, t) (tag, f')" "tag \<noteq> 0 \<Longrightarrow> cut' = cut"
proof -
  obtain cut' where f: "ReadTagWithCutoffNoLastTag cutoff f = (fst (tag_spec f), cut', snd (tag_spec f))"
    "fst (tag_spec f) \<noteq> 0 \<Longrightarrow> cut' = (fst (tag_spec f) \<le> cutoff)"
    using ReadTagWithCutoffNoLastTag_flat [OF rep_flat [OF r], of cutoff] by blast
  show thesis
  proof (rule ReadTagWithCutoff_paths [OF rep_buffered [OF r], of cutoff])
    fix w n assume w: "varint_dec 10 (avail s) = Some (w, n)"
      "ReadTagWithCutoffNoLastTag cutoff s = (of_nat w, of_nat w \<le> cutoff, Advance n s)"
    have "varint_dec 10 (avail f) = Some (w, n)" "avail f \<noteq> []"
      using w(1) varint_dec_more [OF w(1)] rep_avail [OF r] by auto
    then have "tag_spec f = (of_nat w, Advance n f)" by (simp add: tag_spec_def del: varint_dec.simps)
    with f w varint_dec_Advance [OF r w(1)] that show thesis by (auto simp: tag_alike_def rep_ended)
  next
    fix v assume v: "ReadTagWithCutoffNoLastTag cutoff s = cutoff_fallback v cutoff s"
      "avail s \<noteq> [] \<Longrightarrow> v = ucast (hd (avail s)) \<and> (v = 0 \<or> 128 \<le> unat (hd (avail s)))"
    obtain tag t where t: "ReadTagFallback v s = (tag, t)" by force
    have a: "tag_alike l (tag, t) (tag_spec f)" using ReadTagFallback_rep [OF r v(2)] t by simp
    then have e: "fst (tag_spec f) = tag" by (simp add: tag_alike_def)
    have "ReadTagWithCutoffNoLastTag cutoff s = (tag, tag - 1 < cutoff, t)" by (simp add: v(1) cutoff_fallback_def t)
    then show thesis
      using that [of tag "tag - 1 < cutoff" t cut' "snd (tag_spec f)"] f a e tag_less_cutoff
      by (metis prod.collapse)
  qed
qed

subsection \<open>Skipping\<close>

lemma Skip_rep:
  assumes r: "rep l s f" and n: "Skip (int n) s = (ok, t)"
  shows "ok \<longleftrightarrow> n \<le> length (avail f)" "ok \<Longrightarrow> rep l t (Advance n f)"
proof -
  note b = BufferSize_avail [OF rep_buffered [OF r]] and a = rep_avail [OF r]
  have c: "chunked s" "stands_for s f" "current_limit s = l" "\<not> legitimate_message_end s" using r by (simp_all add: rep_def)
  obtain z where z: "cinput s = Some z" "stream_ok z" "cbuffer s \<le> cbuffer_end s" "overflow_bytes s = 0"
    "total_bytes_limit s = INT_MAX" "\<not> null_input s" "0 \<le> current_limit s" "current_limit s \<le> INT_MAX"
    "buffer_size_after_limit s = max 0 (total_bytes_read s - current_limit s)"
    "total_bytes_read s + int (length (stream_rest z)) \<le> INT_MAX"
    "BufferSize s + buffer_size_after_limit s \<le> total_bytes_read s"
    by (rule chunkedE [OF c(1)])
  have "(ok \<longleftrightarrow> n \<le> length (avail f)) \<and> (ok \<longrightarrow> rep l t (Advance n f))"
  proof (cases "n \<le> length (avail s)")
    case True
    then show ?thesis using n a rep_Advance [OF r True] by (auto simp: Skip_def b)
  next
    case False
    let ?k = "length (avail s)" and ?m = "n - length (avail s)"
    let ?s = "s\<lparr>cbuffer := cbuffer_end s\<rparr>"
    have sk: "Skip (int n) s = SkipFallback (int n) (int ?k) s" using False by (simp add: Skip_def b)
    have up: "length (avail f) = ?k + min (nat (l - total_bytes_read s)) (length (stream_rest z))"
      by (simp add: a upcoming_def z(1) c(3))
    show ?thesis
    proof (cases "total_bytes_read s < current_limit s")
      case nol: False
      then have "length (avail f) = ?k" using up c(3) by simp
      moreover have "\<not> ok" using n z False nol by (auto simp: sk SkipFallback_def Let_def split: if_splits)
      ultimately show ?thesis using False by simp
    next
      case True
      have eq: "SkipFallback (int n) (int ?k) s =
          (if current_limit s - total_bytes_read s < int ?m
           then (False, snd (input_Skip (current_limit s - total_bytes_read s) (?s\<lparr>total_bytes_read := current_limit s\<rparr>)))
           else input_Skip (int ?m) (?s\<lparr>total_bytes_read := total_bytes_read s + int ?m\<rparr>))"
        using True z False by (simp add: SkipFallback_def Let_def of_nat_diff)
      show ?thesis
      proof (cases "current_limit s - total_bytes_read s < int ?m")
        case short: True
        then have "\<not> n \<le> length (avail f)" using up False c(3) by linarith
        with n sk eq short show ?thesis by simp
      next
        case fits: False
        obtain q w where w: "zi_Skip virtual_ops ?m z = (q, w)" by force
        note law = virtual_input.skip [OF z(2) w]
        let ?t = "?s\<lparr>total_bytes_read := total_bytes_read s + int ?m, cinput := Some w\<rparr>"
        have t: "ok = q" "t = ?t" using n sk eq fits z(1) w by (auto simp: input_Skip_def)
        have "0 < ?m" using False by simp
        then have q: "q \<longleftrightarrow> ?m \<le> length (stream_rest z)" using law by blast
        have "ok \<longleftrightarrow> n \<le> length (avail f)" using q t(1) up fits False c(3) by linarith
        moreover have "rep l ?t (Advance n f)" if "ok"
        proof -
          have m: "?m \<le> length (stream_rest z)" using q t(1) that by simp
          have w': "stream_ok w" "stream_rest w = drop ?m (stream_rest z)" using law by auto
          have ch: "chunked ?t" using z m w' fits True b by (auto simp: chunked_def BufferSize_def)
          have size: "int (length (kept_bytes s)) = int ?k" "buffer_size_after_limit s = 0"
            using chunked_position(3) [OF c(1)] True z(9) b by (simp_all add: CurrentPosition_def)
          then have kept_bytes: "kept_bytes s = avail s" using chunked_buffer [OF c(1)] by simp
          have held_t: "kept_bytes ?t = []" using size(2) by (simp add: kept_bytes_def BufferSize_def)
          obtain before where f: "int (length before) = CurrentPosition s" "f = flatten before s"
            using c(2) by (auto simp: stands_for_def)
          let ?before = "before @ avail s @ take ?m (stream_rest z)"
          have "int (length ?before) = CurrentPosition ?t"
            using f(1) m chunked_position(3) [OF c(1)] size by (simp add: CurrentPosition_def BufferSize_def kept_bytes)
          moreover have "Advance n f = flatten ?before ?t"
            unfolding f(2) flatten_def held_t kept_bytes z(1) using m False
            by (simp add: w' Advance_def Let_def)
          ultimately have "stands_for ?t (Advance n f)" unfolding stands_for_def by blast
          with ch c(3,4) show ?thesis by (simp add: rep_def)
        qed
        ultimately show ?thesis using t(2) by blast
      qed
    qed
  qed
  then show "ok \<longleftrightarrow> n \<le> length (avail f)" "ok \<Longrightarrow> rep l t (Advance n f)" by blast+
qed

lemma Skip_negative: "n < 0 \<Longrightarrow> Skip n s = (False, s)"
  by (simp add: Skip_def)

lemma Skip_alike:
  assumes r: "rep l s f" and s: "Skip n s = (ok, t)" and f: "Skip n f = (ok', f')"
  shows "ok = ok'" "ok \<Longrightarrow> rep l t f'"
proof -
  have "ok = ok' \<and> (ok \<longrightarrow> rep l t f')"
  proof (cases "n < 0")
    case True
    then show ?thesis using s f by (simp add: Skip_negative)
  next
    case False
    then obtain k where k: "n = int k" by (metis not_less zero_le_imp_eq_int)
    show ?thesis using Skip_rep [OF r s [unfolded k]] f by (auto simp: k Skip_flat [OF rep_flat [OF r]])
  qed
  then show "ok = ok'" "ok \<Longrightarrow> rep l t f'" by blast+
qed

subsection \<open>Limits\<close>

lemma RecomputeBufferLimits_chunked:
  assumes c: "chunked s" and l: "CurrentPosition s \<le> l" "l \<le> INT_MAX"
  shows "chunked (RecomputeBufferLimits (s\<lparr>current_limit := l\<rparr>))"
    "CurrentPosition (RecomputeBufferLimits (s\<lparr>current_limit := l\<rparr>)) = CurrentPosition s"
    "kept_bytes (RecomputeBufferLimits (s\<lparr>current_limit := l\<rparr>)) = kept_bytes s"
proof -
  obtain z where z: "cinput s = Some z" "stream_ok z" "cbuffer s \<le> cbuffer_end s" "overflow_bytes s = 0"
    "total_bytes_limit s = INT_MAX" "\<not> null_input s" "0 \<le> current_limit s" "current_limit s \<le> INT_MAX"
    "buffer_size_after_limit s = max 0 (total_bytes_read s - current_limit s)"
    "total_bytes_read s + int (length (stream_rest z)) \<le> INT_MAX"
    "BufferSize s + buffer_size_after_limit s \<le> total_bytes_read s"
    "0 < BufferSize s + buffer_size_after_limit s \<longrightarrow>
      int (cbuffer_end s) + buffer_size_after_limit s = int (length (cdata s)) \<and>
      (\<exists>earlier. stream_last z = earlier @ drop (cbuffer s) (cdata s))"
    by (rule chunkedE [OF c])
  note p = chunked_position(1) [OF c]
  let ?e = "int (cbuffer_end s) + buffer_size_after_limit s"
  let ?after = "max 0 (total_bytes_read s - l)"
  have pos: "CurrentPosition s = total_bytes_read s - (?e - int (cbuffer s))"
    by (simp add: CurrentPosition_def BufferSize_def)
  define q where "q = nat (?e - ?after)"
  have t: "RecomputeBufferLimits (s\<lparr>current_limit := l\<rparr>) =
      s\<lparr>current_limit := l, buffer_size_after_limit := ?after, cbuffer_end := q\<rparr>"
    using l z(5) by (auto simp: RecomputeBufferLimits_def Let_def max_def q_def)
  have e: "int (cbuffer s) \<le> ?e - ?after" using l pos z(3,9) by (simp add: max_def)
  then have "0 \<le> ?e - ?after" by linarith
  then have q: "int q = ?e - ?after" by (simp only: q_def nat_0_le)
  have b: "BufferSize (RecomputeBufferLimits (s\<lparr>current_limit := l\<rparr>)) + ?after = BufferSize s + buffer_size_after_limit s"
    using q by (simp add: t BufferSize_def)
  show "chunked (RecomputeBufferLimits (s\<lparr>current_limit := l\<rparr>))"
    using z l p e b q by (auto simp: chunked_def t)
  show "CurrentPosition (RecomputeBufferLimits (s\<lparr>current_limit := l\<rparr>)) = CurrentPosition s"
    using b by (simp add: CurrentPosition_def t)
  show "kept_bytes (RecomputeBufferLimits (s\<lparr>current_limit := l\<rparr>)) = kept_bytes s"
    using b by (simp add: kept_bytes_def t)
qed

text \<open>The flat stream cannot have a limit behind its end; the other one can.\<close>

definition flat_limit :: "int \<Rightarrow> cis \<Rightarrow> nat" where
  "flat_limit l f = nat (min l (int (length (cdata f))))"

lemma flatten_ends:
  "cbuffer_end (flatten p s) = flat_limit (current_limit s) (flatten p s)"
  "current_limit (flatten p s) = min (current_limit s) (int (length (cdata (flatten p s))))"
  "buffer_size_after_limit (flatten p s) =
     int (length (cdata (flatten p s))) - min (current_limit s) (int (length (cdata (flatten p s))))"
  "total_bytes_read (flatten p s) = int (length (cdata (flatten p s)))"
  by (simp_all add: flatten_def flat_limit_def Let_def)

lemma flat_limit:
  assumes "rep l s f"
  shows "cbuffer_end f = flat_limit l f" "0 \<le> l" "l \<le> INT_MAX" "current_limit f = int (flat_limit l f)"
proof -
  have c: "chunked s" "current_limit s = l" using assms by (auto simp: rep_def)
  obtain before where f: "f = flatten before s" using assms by (auto simp: rep_def stands_for_def)
  have "0 \<le> l \<and> l \<le> INT_MAX" by (rule chunkedE [OF c(1)]) (use c(2) in simp)
  then show "cbuffer_end f = flat_limit l f" "0 \<le> l" "l \<le> INT_MAX" "current_limit f = int (flat_limit l f)"
    unfolding f flatten_ends c(2) by (simp_all add: flat_limit_def)
qed

lemma RecomputeBufferLimits_simps [simp]:
  "cdata (RecomputeBufferLimits s) = cdata s" "cbuffer (RecomputeBufferLimits s) = cbuffer s"
  "total_bytes_read (RecomputeBufferLimits s) = total_bytes_read s" "overflow_bytes (RecomputeBufferLimits s) = overflow_bytes s"
  "last_tag (RecomputeBufferLimits s) = last_tag s" "legitimate_message_end (RecomputeBufferLimits s) = legitimate_message_end s"
  "current_limit (RecomputeBufferLimits s) = current_limit s" "total_bytes_limit (RecomputeBufferLimits s) = total_bytes_limit s"
  "recursion_budget (RecomputeBufferLimits s) = recursion_budget s" "recursion_limit (RecomputeBufferLimits s) = recursion_limit s"
  "null_input (RecomputeBufferLimits s) = null_input s"
  by (simp_all add: RecomputeBufferLimits_def Let_def)

lemma limit_rep:
  assumes c: "chunked s" and f: "stands_for s f" and k: "CurrentPosition s \<le> k" "k \<le> INT_MAX"
  shows "chunked (RecomputeBufferLimits (s\<lparr>current_limit := k\<rparr>))"
    "current_limit (RecomputeBufferLimits (s\<lparr>current_limit := k\<rparr>)) = k"
    "stands_for (RecomputeBufferLimits (s\<lparr>current_limit := k\<rparr>)) (limit_to (flat_limit k f) f)"
    "legitimate_message_end (RecomputeBufferLimits (s\<lparr>current_limit := k\<rparr>)) = legitimate_message_end s"
proof -
  let ?t = "RecomputeBufferLimits (s\<lparr>current_limit := k\<rparr>)"
  note t = RecomputeBufferLimits_chunked [OF c k]
  have pos: "0 \<le> k" using chunked_position(1) [OF c] k(1) by linarith
  obtain before where b: "int (length before) = CurrentPosition s" "f = flatten before s" using f by (auto simp: stands_for_def)
  have "flatten before ?t = limit_to (flat_limit k (flatten before s)) (flatten before s)"
  proof (rule cis.equality)
    have d: "cdata (flatten before ?t) = cdata (flatten before s)" by (simp add: t(3))
    show "cbuffer_end (flatten before ?t) = cbuffer_end (limit_to (flat_limit k (flatten before s)) (flatten before s))"
      "current_limit (flatten before ?t) = current_limit (limit_to (flat_limit k (flatten before s)) (flatten before s))"
      "buffer_size_after_limit (flatten before ?t) = buffer_size_after_limit (limit_to (flat_limit k (flatten before s)) (flatten before s))"
      "total_bytes_read (flatten before ?t) = total_bytes_read (limit_to (flat_limit k (flatten before s)) (flatten before s))"
      unfolding flatten_ends d using pos by (simp_all add: flatten_ends flat_limit_def limit_to_def t(3))
  qed (simp_all add: t(3) limit_to_def)
  then show "stands_for ?t (limit_to (flat_limit k f) f)" using b t(2) unfolding stands_for_def by metis
  show "chunked ?t" by (rule t(1))
  show "current_limit ?t = k" "legitimate_message_end ?t = legitimate_message_end s"
    by simp_all
qed

lemma PushLimit_rep:
  assumes r: "rep l s f" and n: "0 \<le> n" "n \<le> INT_MAX"
  obtains m t where "PushLimit n s = (l, t)" "PushLimit n f = (int (flat_limit l f), limit_to (flat_limit m f) f)"
    "rep m t (limit_to (flat_limit m f) f)" "m \<le> l" "CurrentPosition s \<le> m"
proof -
  have c: "chunked s" and f: "stands_for s f" "current_limit s = l" "\<not> legitimate_message_end s" using r by (auto simp: rep_def)
  note fl = flat_limit [OF r] and p = rep_fields(4) [OF r] and ff = rep_flat [OF r]
  obtain k where k: "n = int k" using n(1) by (metis zero_le_imp_eq_int)
  have len: "length (avail f) = flat_limit l f - cbuffer f" "cbuffer f \<le> flat_limit l f"
    using length_avail_flat [OF ff] fl(1) ff by (simp_all add: flat_def)
  have pf: "PushLimit n f = (int (flat_limit l f), limit_to (cbuffer f + min k (length (avail f))) f)"
    by (simp add: k PushLimit_flat [OF ff] fl(1))
  define m where "m = (if n < l - CurrentPosition s then CurrentPosition s + n else l)"
  have m: "m \<le> l" "CurrentPosition s \<le> m" using n(1) chunked_position(2) [OF c] f(2) by (auto simp: m_def)
  have "flat_limit m f = cbuffer f + min k (length (avail f))"
    using m fl(2) len by (auto simp: flat_limit_def m_def p k min_def)
  moreover have "\<exists>t. PushLimit n s = (l, t) \<and> rep m t (limit_to (flat_limit m f) f)"
  proof (cases "n < l - CurrentPosition s")
    case True
    then have "PushLimit n s = (l, RecomputeBufferLimits (s\<lparr>current_limit := m\<rparr>))"
      using n fl(3) by (simp add: PushLimit_def f(2) Let_def m_def)
    moreover have "CurrentPosition s \<le> m" "m \<le> INT_MAX" using m fl(3) by linarith+
    ultimately show ?thesis using limit_rep [OF c f(1), of m] f(3) by (simp add: rep_def)
  next
    case False
    then have "PushLimit n s = (l, s)" "m = l" by (auto simp: PushLimit_def f(2) Let_def m_def)
    then show ?thesis using r fl(1) limit_to_same [OF ff] by simp
  qed
  ultimately show thesis using that pf m by metis
qed

lemma PopLimit_rep:
  assumes c: "chunked s" "stands_for s f" and l: "CurrentPosition s \<le> l" "l \<le> INT_MAX" and e: "cbuffer_end f \<le> flat_limit l f"
  shows "rep l (PopLimit l s) (PopLimit (int (flat_limit l f)) f)"
proof -
  have ff: "flat f" by (rule stands_for_flat [OF c])
  have "flat_limit l f \<le> length (cdata f)" by (simp add: flat_limit_def nat_le_iff)
  then have "PopLimit (int (flat_limit l f)) f = (limit_to (flat_limit l f) f)\<lparr>legitimate_message_end := False\<rparr>"
    by (rule PopLimit_flat [OF ff e])
  then show ?thesis using limit_rep [OF c l] by (simp add: rep_def PopLimit_def stands_for_updates)
qed

end
