(* ===== verification/StreamParse.thy ===== *)
theory StreamParse
  imports StreamInput MessageParse
begin

text \<open>
  Parsing a message from a stream (\<open>message_lite.cc\<close>, \<open>message.cc\<close>): the loops of \<open>Message\<close> run on a stream
  of any class as they do on the array of its bytes, so the parsers over a \<open>ZeroCopyInputStream\<close>, with and without
  a bound, a file or a standard stream return what the array parser returns.
\<close>

section \<open>Unknown fields\<close>

fun alike_opt :: "int \<Rightarrow> (bool \<times> 'a \<times> cis) option \<Rightarrow> (bool \<times> 'a \<times> cis) option \<Rightarrow> bool" where
  "alike_opt l (Some r) (Some r') \<longleftrightarrow> alike l r r'"
| "alike_opt l None None \<longleftrightarrow> True"
| "alike_opt l _ _ \<longleftrightarrow> False"

text \<open>A \<open>SkipMessage\<close> that succeeds has read an end tag, or tag 0.\<close>

fun group_alike :: "int \<Rightarrow> (bool \<times> 'a \<times> cis) option \<Rightarrow> (bool \<times> 'a \<times> cis) option \<Rightarrow> bool" where
  "group_alike l (Some (ok, u, t)) (Some (ok', u', f)) \<longleftrightarrow> ok = ok' \<and>
     (ok \<longrightarrow> u = u' \<and> last_tag t = last_tag f \<and> (last_tag f \<noteq> 0 \<longrightarrow> rep l t f) \<and> (last_tag f = 0 \<longrightarrow> ended l t f))"
| "group_alike l None None \<longleftrightarrow> True"
| "group_alike l _ _ \<longleftrightarrow> False"

lemma alike_cases:
  assumes "alike l r r'"
  obtains (failed) v t v' f where "r = (False, v, t)" "r' = (False, v', f)"
  | (read) v t f where "r = (True, v, t)" "r' = (True, v, f)" "rep l t f"
  using assms by (cases r; cases r'; cases "fst r") auto

lemma alike_map:
  assumes "alike l r r'"
  shows "alike_opt l (let (ok, v, t) = r in Some (ok, if ok then g v else u, t))
    (let (ok, v, t) = r' in Some (ok, if ok then g v else u, t))"
  using assms by (rule alike_cases) auto

lemma end_group_tag: "MakeTag n WIRETYPE_END_GROUP \<noteq> 0"
proof
  assume "MakeTag n WIRETYPE_END_GROUP = 0"
  then have "bit (MakeTag n WIRETYPE_END_GROUP) 2 = bit (0 :: u32) 2" by simp
  then show False by (simp add: MakeTag_def wire_code_def kTagTypeBits_def bit_simps)
qed

lemma SkipField_rep:
  assumes r: "rep l s f"
    and group: "\<And>u s f. rep l s f \<Longrightarrow> group_alike l (SkipMessage fuel u s) (SkipMessage fuel u f)"
  shows "alike_opt l (SkipField fuel tag ufs s) (SkipField fuel tag ufs f)"
proof (cases "GetTagFieldNumber tag = 0")
  case True
  then show ?thesis by (simp add: SkipField.simps)
next
  case nz: False
  consider (v) "GetTagWireType tag = Some WIRETYPE_VARINT" | (f64) "GetTagWireType tag = Some WIRETYPE_FIXED64"
    | (len) "GetTagWireType tag = Some WIRETYPE_LENGTH_DELIMITED" | (group) "GetTagWireType tag = Some WIRETYPE_START_GROUP"
    | (eg) "GetTagWireType tag = Some WIRETYPE_END_GROUP" | (f32) "GetTagWireType tag = Some WIRETYPE_FIXED32"
    | (no) "GetTagWireType tag = None"
    by (cases "GetTagWireType tag"; cases "the (GetTagWireType tag)") auto
  then show ?thesis
  proof cases
    case v
    then show ?thesis using alike_map [OF ReadVarint_rep(1) [OF r]] nz by (simp add: SkipField.simps)
  next
    case f64
    then show ?thesis using alike_map [OF ReadLittleEndian_rep(2) [OF r]] nz by (simp add: SkipField.simps)
  next
    case f32
    then show ?thesis using alike_map [OF ReadLittleEndian_rep(1) [OF r]] nz by (simp add: SkipField.simps)
  next
    case len
    show ?thesis
    proof (rule alike_cases [OF ReadVarint_rep(2) [OF r]])
      fix v t v' f' assume "ReadVarint32 s = (False, v, t)" "ReadVarint32 f = (False, v', f')"
      then show ?thesis using len nz by (simp add: SkipField.simps)
    next
      fix n t f' assume n: "ReadVarint32 s = (True, n, t)" "ReadVarint32 f = (True, n, f')" and r': "rep l t f'"
      show ?thesis
      proof (cases ufs)
        case None
        then show ?thesis using Skip_alike [OF r', of "sint n"] len nz n by (auto simp: SkipField.simps split: prod.splits)
      next
        case (Some u)
        then show ?thesis using ReadString_rep [OF r', of "[]" "sint n"] len nz n
          by (cases "ReadString [] (sint n) t"; cases "ReadString [] (sint n) f'") (auto simp: SkipField.simps)
      qed
    qed
  next
    case group
    let ?s = "s\<lparr>recursion_budget := recursion_budget s - 1\<rparr>" and ?f = "f\<lparr>recursion_budget := recursion_budget f - 1\<rparr>"
    let ?u = "map_option (\<lambda>_. []) ufs"
    have r': "rep l ?s ?f" using rep_updates(2) [OF r] rep_fields(1) [OF r] by simp
    have inc: "IncrementRecursionDepth s = (recursion_budget f - 1 \<ge> 0, ?s)" "IncrementRecursionDepth f = (recursion_budget f - 1 \<ge> 0, ?f)"
      using rep_fields(1) [OF r] by (simp_all add: IncrementRecursionDepth_def)
    note g = assms(2) [OF r', of ?u]
    show ?thesis
    proof (cases "recursion_budget f - 1 \<ge> 0")
      case False
      then show ?thesis using group nz inc by (simp add: SkipField.simps)
    next
      case True
      note eq = SkipField.simps [of fuel tag ufs] group inc
      show ?thesis
      proof (cases "SkipMessage fuel ?u ?s")
        case None
        then have "SkipMessage fuel ?u ?f = None" using g by (cases "SkipMessage fuel ?u ?f") auto
        with None show ?thesis using eq True nz by simp
      next
        case (Some x)
        obtain ok g1 t where x: "x = (ok, g1, t)" by (cases x)
        obtain g2 f' where f': "SkipMessage fuel ?u ?f = Some (ok, g2, f')"
          "ok \<Longrightarrow> g2 = g1 \<and> last_tag t = last_tag f' \<and> (last_tag f' \<noteq> 0 \<longrightarrow> rep l t f')"
          using g Some x by (cases "SkipMessage fuel ?u ?f") auto
        show ?thesis
        proof (cases ok)
          case False
          then show ?thesis using eq True nz Some x f'(1) by simp
        next
          case ok: True
          have d: "last_tag (DecrementRecursionDepth t) = last_tag t" for t by (simp add: DecrementRecursionDepth_def)
          have "rep l (DecrementRecursionDepth t) (DecrementRecursionDepth f')" if "rep l t f'"
            using rep_updates(2) [OF that] rep_fields [OF that] that by (simp add: DecrementRecursionDepth_def)
          then show ?thesis using eq True nz Some x f' ok end_group_tag
            by (auto simp: LastTagWas_def d Let_def)
        qed
      qed
    qed
  next
    case eg
    then show ?thesis using nz by (simp add: SkipField.simps)
  next
    case no
    then show ?thesis using nz by (simp add: SkipField.simps)
  qed
qed

lemma SkipMessage_rep:
  "rep l s f \<Longrightarrow> group_alike l (SkipMessage fuel u s) (SkipMessage fuel u f)"
proof (induction fuel arbitrary: u s f)
  case 0
  then show ?case by (simp add: SkipMessage.simps)
next
  case (Suc fuel)
  obtain tag t where t: "ReadTag s = (tag, t)" by force
  obtain f' where f': "ReadTag f = (tag, f')" "tag_alike l (tag, t) (tag, f')"
    using ReadTag_rep [OF Suc.prems] t by (cases "ReadTag f") (auto simp: tag_alike_def)
  have lt: "last_tag t = tag" "last_tag f' = tag" using t f'(1) by (auto simp: ReadTag_def split: prod.splits)
  show ?case
  proof (cases "tag = 0 \<or> GetTagWireType tag = Some WIRETYPE_END_GROUP")
    case True
    then show ?thesis using t f' lt by (auto simp: SkipMessage.simps tag_alike_def)
  next
    case False
    then have r: "rep l t f'" using f'(2) by (simp add: tag_alike_def)
    note a = SkipField_rep [OF r Suc.IH, of tag u]
    have eq: "SkipMessage (Suc fuel) u s = (case SkipField fuel tag u t of None \<Rightarrow> None
        | Some (ok, u, t) \<Rightarrow> if ok then SkipMessage fuel u t else Some (False, u, t))"
      "SkipMessage (Suc fuel) u f = (case SkipField fuel tag u f' of None \<Rightarrow> None
        | Some (ok, u, t) \<Rightarrow> if ok then SkipMessage fuel u t else Some (False, u, t))"
      using False t f'(1) by (simp_all add: SkipMessage.simps)
    show ?thesis
    proof (cases "SkipField fuel tag u t")
      case None
      then show ?thesis using a eq by (cases "SkipField fuel tag u f'") auto
    next
      case (Some x)
      then obtain y where y: "SkipField fuel tag u f' = Some y" "alike l x y"
        using a by (cases "SkipField fuel tag u f'") auto
      from y(2) show ?thesis
        by (rule alike_cases) (use Some y eq Suc.IH in auto)
    qed
  qed
qed

section \<open>Parse loops\<close>

fun step_alike :: "int \<Rightarrow> 'm step \<Rightarrow> 'm step \<Rightarrow> bool" where
  "step_alike l (Continue m t) (Continue m' f) \<longleftrightarrow> m = m' \<and> rep l t f"
| "step_alike l (Done ok m t) (Done ok' m' f) \<longleftrightarrow> ok = ok' \<and> (ok \<longrightarrow> m = m' \<and> ended l t f)"
| "step_alike l OutOfFuel OutOfFuel \<longleftrightarrow> True"
| "step_alike l _ _ \<longleftrightarrow> False"

fun loop_alike :: "int \<Rightarrow> (bool \<times> 'a \<times> cis) option \<Rightarrow> (bool \<times> 'a \<times> cis) option \<Rightarrow> bool" where
  "loop_alike l (Some (ok, m, t)) (Some (ok', m', f)) \<longleftrightarrow> ok = ok' \<and> (ok \<longrightarrow> m = m' \<and> ended l t f)"
| "loop_alike l None None \<longleftrightarrow> True"
| "loop_alike l _ _ \<longleftrightarrow> False"

text \<open>A parse loop whose rounds do not see where a block ends does not see it either.\<close>

locale chunk_loop = parse_loop step loop for step loop +
  assumes step_rep: "rep l s f \<Longrightarrow> length (avail f) \<le> fuel \<Longrightarrow> step_alike l (step fuel m s) (step fuel m f)"
begin

lemma loop_rep: "rep l s f \<Longrightarrow> length (avail f) < fuel \<Longrightarrow> loop_alike l (loop fuel m s) (loop fuel m f)"
proof (induction fuel arbitrary: m s f)
  case 0
  then show ?case by simp
next
  case (Suc fuel)
  then have a: "step_alike l (step fuel m s) (step fuel m f)" "step_ends f (step fuel m f)"
    using ends [OF rep_flat] by (simp_all add: step_rep)
  show ?case
  proof (cases "step fuel m f")
    case (Continue m' f')
    with a obtain t where "step fuel m s = Continue m' t" "rep l t f'" by (cases "step fuel m s") auto
    then show ?thesis using Continue Suc.IH [of t f' m'] a(2) Suc.prems(2) by (simp add: loop_Suc)
  next
    case (Done ok m' f')
    with a(1) show ?thesis by (cases "step fuel m s") (auto simp: loop_Suc)
  next
    case OutOfFuel
    with a(1) show ?thesis by (cases "step fuel m s") (auto simp: loop_Suc)
  qed
qed

end

lemma unknown_field_rep:
  assumes r: "rep l t f"
  shows "step_alike l (case SkipField fuel tag u t of None \<Rightarrow> OutOfFuel
        | Some (ok, u, t) \<Rightarrow> let m = g u in if ok then Continue m t else Done False m t)
      (case SkipField fuel tag u f of None \<Rightarrow> OutOfFuel
        | Some (ok, u, t) \<Rightarrow> let m = g u in if ok then Continue m t else Done False m t)"
proof (cases "SkipField fuel tag u t")
  case None
  then show ?thesis using SkipField_rep [OF r SkipMessage_rep, of fuel tag u]
    by (cases "SkipField fuel tag u f") auto
next
  case (Some x)
  then obtain y where y: "SkipField fuel tag u f = Some y" "alike l x y"
    using SkipField_rep [OF r SkipMessage_rep, of fuel tag u] by (cases "SkipField fuel tag u f") auto
  from y(2) show ?thesis by (rule alike_cases) (use Some y in auto)
qed

lemma handle_unusual_rep:
  assumes "tag_alike l (tag, t) (tag, f)"
  shows "step_alike l (handle_unusual fuel tag m t) (handle_unusual fuel tag m f)"
    "step_alike l (Parameter_handle_unusual fuel tag p t) (Parameter_handle_unusual fuel tag p f)"
  using assms unknown_field_rep [where g = "\<lambda>u. m\<lparr>metadata := u\<rparr>"]
    unknown_field_rep [where g = "\<lambda>u. p\<lparr>par_metadata := u\<rparr>"]
  by (auto simp: handle_unusual_def Parameter_handle_unusual_def tag_alike_def)

lemma ReadBytes_rep:
  assumes r: "rep l s f"
  shows "alike l (ReadBytes old s) (ReadBytes old f)"
proof (rule alike_cases [OF ReadVarint_rep(2) [OF r]])
  fix n t f' assume "ReadVarint32 s = (True, n, t)" "ReadVarint32 f = (True, n, f')" "rep l t f'"
  then show ?thesis using InternalReadStringInline_rep [of l t f'] by (simp add: ReadBytes_def)
qed (simp add: ReadBytes_def)

text \<open>A value is read and stored.\<close>

lemma store_rep:
  assumes "alike l r r'"
  shows "step_alike l (case r of (ok, v, t) \<Rightarrow> let m = g v in if ok \<and> P m then Continue m t else Done False m t)
    (case r' of (ok, v, t) \<Rightarrow> let m = g v in if ok \<and> P m then Continue m t else Done False m t)"
    "step_alike l (case r of (ok, v, t) \<Rightarrow> let m = g v in if ok then Continue m t else Done False m t)
    (case r' of (ok, v, t) \<Rightarrow> let m = g v in if ok then Continue m t else Done False m t)"
  using assms by (rule alike_cases; auto simp: Let_def)+

lemma tag_not_zero: "GetTagFieldNumber tag = n \<Longrightarrow> n \<noteq> 0 \<Longrightarrow> tag \<noteq> 0"
  using GetTagFieldNumber_0 by metis

lemma Parameter_parse_step_rep:
  assumes r: "rep l s f"
  shows "step_alike l (Parameter_parse_step fuel m s) (Parameter_parse_step fuel m f)"
proof (rule ReadTagWithCutoff_rep [OF r, of 127])
  fix tag cut t cut' f'
  assume tag: "ReadTagWithCutoffNoLastTag 127 s = (tag, cut, t)" "ReadTagWithCutoffNoLastTag 127 f = (tag, cut', f')"
    "tag_alike l (tag, t) (tag, f')" "tag \<noteq> 0 \<Longrightarrow> cut' = cut"
  note un = handle_unusual_rep(2) [OF tag(3), of fuel m]
  show ?thesis
  proof (cases "tag = 0")
    case True
    then show ?thesis using un by (simp add: Parameter_parse_step_def tag GetTagFieldNumber_0)
  next
    case False
    then have r': "rep l t f'" "cut' = cut" using tag(3,4) by (simp_all add: tag_alike_def)
    show ?thesis using un
      by (simp add: Parameter_parse_step_def tag(1,2) r'(2) store_rep [OF ReadBytes_rep [OF r'(1)]])
  qed
qed

interpretation par_chunks: chunk_loop Parameter_parse_step Parameter_MergePartial
  by unfold_locales (simp add: Parameter_parse_step_rep)

text \<open>A nested message: the length, the limit, the loop, and the limit taken off again.\<close>

lemma flat_limit_mono: "m \<le> l \<Longrightarrow> flat_limit m f \<le> flat_limit l f"
  by (simp add: flat_limit_def nat_le_eq_zle min_def) linarith

lemma ReadMessage_rep:
  assumes r: "rep l s f" and len: "length (avail f) < fuel"
  shows "alike_opt l (ReadMessage fuel m s) (ReadMessage fuel m f)"
proof (rule alike_cases [OF ReadVarintSizeAsInt_rep [OF r]])
  fix v t v' f' assume "ReadVarintSizeAsInt s = (False, v, t)" "ReadVarintSizeAsInt f = (False, v', f')"
  then show ?thesis by (simp add: ReadMessage_def)
next
  fix n s1 f1 assume n: "ReadVarintSizeAsInt s = (True, n, s1)" "ReadVarintSizeAsInt f = (True, n, f1)" and r1: "rep l s1 f1"
  have b: "0 \<le> n" "n \<le> INT_MAX"
    using n(2) by (auto simp: ReadVarintSizeAsInt_flat [OF rep_flat [OF r]] split: option.splits if_splits)
  obtain k t where push: "PushLimit n s1 = (l, t)" "PushLimit n f1 = (int (flat_limit l f1), limit_to (flat_limit k f1) f1)"
    "rep k t (limit_to (flat_limit k f1) f1)" "k \<le> l" "CurrentPosition s1 \<le> k"
    by (rule PushLimit_rep [OF r1 b])
  let ?q = "recursion_budget f1 - 1"
  let ?t = "t\<lparr>recursion_budget := ?q\<rparr>"
  let ?f = "(limit_to (flat_limit k f1) f1)\<lparr>recursion_budget := ?q\<rparr>"
  have r2: "rep k ?t ?f" by (rule rep_updates(2) [OF push(3)])
  have q: "recursion_budget t = recursion_budget f1" using rep_fields(1) [OF push(3)] by simp
  have inc: "IncrementRecursionDepthAndPushLimit n s1 = (l, ?q, ?t)"
    "IncrementRecursionDepthAndPushLimit n f1 = (int (flat_limit l f1), ?q, ?f)"
    by (simp_all add: IncrementRecursionDepthAndPushLimit_def push(1,2) q)
  note f1 = rep_flat [OF r1]
  have "length (avail f1) \<le> length (avail f)"
    using advanced_length [OF rep_flat [OF r] ReadVarintSizeAsInt_advances [OF rep_flat [OF r] n(2)]] .
  moreover have "length (avail ?f) \<le> length (avail f1)"
    using length_avail_flat [OF rep_flat [OF r2]] length_avail_flat [OF f1] flat_limit(1) [OF r1] flat_limit_mono [OF push(4), of f1]
    by simp
  ultimately have len2: "length (avail ?f) < fuel" using len by linarith
  note lp = par_chunks.loop_rep [OF r2 len2, of m]
  obtain ok m' f2 where f2: "Parameter_MergePartial fuel m ?f = Some (ok, m', f2)" "ok \<Longrightarrow> advanced ?f f2"
    using par_loop.loop_ends [OF rep_flat [OF r2] len2] by blast
  with lp obtain m2 t2 where t2: "Parameter_MergePartial fuel m ?t = Some (ok, m2, t2)" "ok \<Longrightarrow> m2 = m' \<and> ended k t2 f2"
    by (cases "Parameter_MergePartial fuel m ?t") auto
  show ?thesis
  proof (cases "?q < 0 \<or> \<not> ok")
    case True
    then show ?thesis using n inc f2(1) t2(1) by (auto simp: ReadMessage_def)
  next
    case False
    then have e: "m2 = m'" "ended k t2 f2" "advanced ?f f2" using t2(2) f2(2) by auto
    have eq: "ReadMessage fuel m s = (let (consumed, u) = DecrementRecursionDepthAndPopLimit l t2 in Some (consumed, m', u))"
      "ReadMessage fuel m f = (let (consumed, u) = DecrementRecursionDepthAndPopLimit (int (flat_limit l f1)) f2 in Some (consumed, m', u))"
      using False n inc f2(1) t2(1) e(1) by (auto simp: ReadMessage_def)
    show ?thesis
    proof (cases "legitimate_message_end f2")
      case False
      then show ?thesis using e(2) unfolding eq
        by (simp add: DecrementRecursionDepthAndPopLimit_def ConsumedEntireMessage_def ended_def Let_def)
    next
      case True
      with e(2) have c: "chunked t2" "current_limit t2 = k" "stands_for t2 f2" "legitimate_message_end t2"
        by (auto simp: ended_def)
      have fl: "flat_limit l f1 = flat_limit l f2" using e(3) by (simp add: flat_limit_def advanced_def)
      have "cbuffer_end f2 = flat_limit k f2"
        using c(2,3) by (auto simp: stands_for_def flatten_ends)
      then have "cbuffer_end f2 \<le> flat_limit l f2" using flat_limit_mono [OF push(4)] by simp
      moreover have "CurrentPosition t2 \<le> l" "l \<le> INT_MAX"
        using chunked_position(2) [OF c(1)] c(2) push(4) flat_limit(3) [OF r1] by simp_all
      ultimately have pop: "rep l (PopLimit l t2) (PopLimit (int (flat_limit l f1)) f2)"
        unfolding fl by (intro PopLimit_rep c(1,3))
      show ?thesis unfolding eq
        using rep_updates(2) [OF pop] rep_fields(1) [OF pop] c(4) True
        by (simp add: DecrementRecursionDepthAndPopLimit_def ConsumedEntireMessage_def Let_def)
    qed
  qed
qed

lemma parse_parameter_rep:
  assumes "rep l s f" "length (avail f) < fuel"
  shows "step_alike l (parse_parameter fuel m s) (parse_parameter fuel m f)"
proof -
  obtain i m' where add: "add_parametergroup m = (i, m')" by force
  note a = ReadMessage_rep [OF assms, of "parametergroup_get i m'"]
  show ?thesis
  proof (cases "ReadMessage fuel (parametergroup_get i m') s")
    case None
    then show ?thesis using a by (cases "ReadMessage fuel (parametergroup_get i m') f") (auto simp: parse_parameter_def add)
  next
    case (Some x)
    then obtain y where y: "ReadMessage fuel (parametergroup_get i m') f = Some y" "alike l x y"
      using a by (cases "ReadMessage fuel (parametergroup_get i m') f") auto
    from y(2) show ?thesis by (rule alike_cases) (use Some y in \<open>auto simp: parse_parameter_def add Let_def\<close>)
  qed
qed

lemma parse_step_rep:
  assumes r: "rep l s f" and len: "length (avail f) \<le> fuel"
  shows "step_alike l (parse_step fuel m s) (parse_step fuel m f)"
proof (rule ReadTagWithCutoff_rep [OF r, of 16383])
  fix tag cut t cut' f'
  assume tag: "ReadTagWithCutoffNoLastTag 16383 s = (tag, cut, t)" "ReadTagWithCutoffNoLastTag 16383 f = (tag, cut', f')"
    "tag_alike l (tag, t) (tag, f')" "tag \<noteq> 0 \<Longrightarrow> cut' = cut"
  note un = handle_unusual_rep(1) [OF tag(3), of fuel m]
  show ?thesis
  proof (cases "tag = 0")
    case True
    then show ?thesis using un by (simp add: parse_step_def tag GetTagFieldNumber_0)
  next
    case False
    then have r': "rep l t f'" "cut' = cut" using tag(3,4) by (simp_all add: tag_alike_def)
    have "length (avail f') < length (avail f)" using ReadTagWithCutoff_advances(2) [OF rep_flat [OF r] tag(2) False] .
    then have "length (avail f') < fuel" using len by linarith
    note par = parse_parameter_rep [OF r'(1) this]
    show ?thesis using un par
      by (simp add: parse_step_def tag(1,2) r'(2) ReadUInt32_def store_rep [OF ReadBytes_rep [OF r'(1)]]
          store_rep [OF ReadVarint_rep(2) [OF r'(1)]])
  qed
qed

interpretation msg_chunks: chunk_loop parse_step MergePartialFromCodedStream
  by unfold_locales (simp add: parse_step_rep)

section \<open>Messages from streams\<close>

text \<open>
  \<open>message_lite.cc\<close>. A message of this program is always initialized, so that the \<open>Partial\<close> functions
  do the same. The fuel is one more than the bytes of the stream. The stream that is left is \<open>None\<close>
  when the destructor of the decoder fails a check as it gives the unread bytes back.
\<close>

definition InlineMergeFromCodedStream :: "nat \<Rightarrow> cis \<Rightarrow> ConnectProtocol \<Rightarrow> (bool \<times> ConnectProtocol \<times> cis) option" where
  "InlineMergeFromCodedStream fuel input message = MergePartialFromCodedStream fuel message input"

definition InlineParseFromCodedStream :: "nat \<Rightarrow> cis \<Rightarrow> ConnectProtocol \<Rightarrow> (bool \<times> ConnectProtocol \<times> cis) option" where
  "InlineParseFromCodedStream fuel input message =
     InlineMergeFromCodedStream fuel input (ConnectProtocol_Clear message)"

definition destroy_decoder :: "cis \<Rightarrow> ZeroCopyInputStream option" where
  "destroy_decoder decoder = Option.bind (BackUpInputToCurrentPosition decoder) cinput"

definition ParseFromZeroCopyStream ::
    "ZeroCopyInputStream \<Rightarrow> ConnectProtocol \<Rightarrow> (bool \<times> ConnectProtocol \<times> ZeroCopyInputStream option) option" where
  "ParseFromZeroCopyStream input message =
     (let decoder = CodedInputStream_of input
      in case InlineParseFromCodedStream (Suc (unread input)) decoder message of
           None \<Rightarrow> None
         | Some (ok, message, decoder) \<Rightarrow>
             Some (ok \<and> ConsumedEntireMessage decoder, message, destroy_decoder decoder))"

definition ParseFromBoundedZeroCopyStream ::
    "ZeroCopyInputStream \<Rightarrow> int \<Rightarrow> ConnectProtocol \<Rightarrow> (bool \<times> ConnectProtocol \<times> ZeroCopyInputStream option) option" where
  "ParseFromBoundedZeroCopyStream input size' message =
     (let decoder = CodedInputStream_of input; (old, decoder) = PushLimit size' decoder
      in case InlineParseFromCodedStream (Suc (unread input)) decoder message of
           None \<Rightarrow> None
         | Some (ok, message, decoder) \<Rightarrow>
             Some (ok \<and> ConsumedEntireMessage decoder \<and> BytesUntilLimit decoder = 0,
                   message, destroy_decoder decoder))"

text \<open>
  \<open>message.cc\<close>. The stream is made here, and is still of its class when the decoder is gone; \<open>GetErrno\<close> and \<open>eof\<close>
  look at the file and the standard stream below. A stream that is \<open>None\<close> has stopped the process.
\<close>

fun stream_GetErrno :: "ZeroCopyInputStream \<Rightarrow> nat" where
  "stream_GetErrno (Inl (Inr (Inr f))) = fi_errno (ci_copying_stream f)"
| "stream_GetErrno _ = 0"

fun stream_eof :: "ZeroCopyInputStream \<Rightarrow> bool" where
  "stream_eof (Inl (Inr (Inl s))) = is_eof (ci_copying_stream s)"
| "stream_eof _ = True"

definition ParseFromFileDescriptor :: "read_answer list \<Rightarrow> ConnectProtocol \<Rightarrow> (bool \<times> ConnectProtocol) option" where
  "ParseFromFileDescriptor answers message =
     (case ParseFromZeroCopyStream (FileIn (FileInputStream0 answers (-1))) message of
        Some (ok, message, Some input) \<Rightarrow> Some (ok \<and> stream_GetErrno input = 0, message)
      | _ \<Rightarrow> None)"

definition ParseFromIstream :: "istream \<Rightarrow> ConnectProtocol \<Rightarrow> (bool \<times> ConnectProtocol) option" where
  "ParseFromIstream input message =
     (case ParseFromZeroCopyStream (IstreamIn (IstreamInputStream0 input (-1))) message of
        Some (ok, message, Some zero_copy) \<Rightarrow> Some (ok \<and> stream_eof zero_copy, message)
      | _ \<Rightarrow> None)"

lemma CodedInputStream_of_rep:
  assumes "stream_ok z" "int (length (stream_rest z)) \<le> INT_MAX"
  shows "rep INT_MAX (CodedInputStream_of z) (CodedInputStream (stream_rest z) (int (length (stream_rest z))))"
proof -
  define s where "s = \<lparr>cdata = [], cbuffer = 0, cbuffer_end = 0, total_bytes_read = 0,
       overflow_bytes = 0, last_tag = 0, legitimate_message_end = False,
       current_limit = INT_MAX, buffer_size_after_limit = 0,
       total_bytes_limit = INT_MAX, recursion_budget = default_recursion_limit,
       recursion_limit = default_recursion_limit, null_input = False, cinput = Some z\<rparr>"
  let ?f = "CodedInputStream (stream_rest z) (int (length (stream_rest z)))"
  have "chunked s" using assms by (simp add: chunked_def s_def BufferSize_def)
  moreover have "flatten [] s = ?f"
    using assms by (simp add: flatten_def kept_bytes_def s_def CodedInputStream_def BufferSize_def Let_def min_def)
  then have "stands_for s ?f" unfolding stands_for_def by (intro exI [of _ "[]"]) (simp add: CurrentPosition_def BufferSize_def s_def)
  ultimately have r: "rep INT_MAX s ?f" by (simp add: rep_def s_def)
  have "avail s = []" by (simp add: avail_def s_def)
  then obtain t where "Refresh s = (avail ?f \<noteq> [], t)" "rep INT_MAX t ?f" by (rule Refresh_rep [OF r])
  then show ?thesis by (simp add: CodedInputStream_of_def s_def [symmetric])
qed

text \<open>Whatever was not read goes back to the stream.\<close>

lemma destroy_decoder_rest:
  assumes c: "chunked t" and f: "stands_for t f"
  obtains w where "destroy_decoder t = Some w" "stream_ok w" "stream_rest w = drop (cbuffer f) (cdata f)"
    "kept_bytes t = [] \<Longrightarrow> cinput t = Some w"
proof -
  obtain z where z: "cinput t = Some z" "stream_ok z" "overflow_bytes t = 0"
    "0 < BufferSize t + buffer_size_after_limit t \<longrightarrow>
      int (cbuffer_end t) + buffer_size_after_limit t = int (length (cdata t)) \<and>
      (\<exists>earlier. stream_last z = earlier @ drop (cbuffer t) (cdata t))"
    by (rule chunkedE [OF c])
  have rest: "drop (cbuffer f) (cdata f) = kept_bytes t @ stream_rest z" using f z(1) by (auto simp: stands_for_def)
  have size: "int (length (kept_bytes t)) = BufferSize t + buffer_size_after_limit t"
    using chunked_position(3) [OF c] by (simp add: CurrentPosition_def)
  show thesis
  proof (cases "0 < BufferSize t + buffer_size_after_limit t")
    case False
    then have "length (kept_bytes t) = 0" using size by linarith
    then have "kept_bytes t = []" by simp
    then show thesis using False z that [of z] rest
      by (simp add: destroy_decoder_def BackUpInputToCurrentPosition_def Let_def)
  next
    case True
    then obtain earlier where e: "stream_last z = earlier @ kept_bytes t" using z(4) by (auto simp: kept_bytes_def)
    have "kept_bytes t \<noteq> []" using True size by auto
    then obtain w where "zi_BackUp virtual_ops (length (kept_bytes t)) z = Some w" "stream_ok w" "stream_rest w = kept_bytes t @ stream_rest z"
      using virtual_input.back_up [OF z(2), of "length (kept_bytes t)"] e by auto
    moreover have "nat (BufferSize t + buffer_size_after_limit t) = length (kept_bytes t)" using size by linarith
    ultimately show thesis using True z that [of w] rest \<open>kept_bytes t \<noteq> []\<close>
      by (simp add: destroy_decoder_def BackUpInputToCurrentPosition_def Let_def)
  qed
qed

lemma stream_parse:
  assumes "stream_ok z" "int (length (stream_rest z)) \<le> INT_MAX"
  obtains ok m1 m2 w where "ParseFromZeroCopyStream z m = Some (ok, m1, w)" "ParseFromArray (stream_rest z) m = Some (ok, m2)"
    "ok \<Longrightarrow> m1 = m2 \<and> (\<exists>w'. w = Some w' \<and> stream_ok w' \<and> stream_rest w' = [] \<and>
      (int (length (stream_rest z)) < INT_MAX \<longrightarrow> stream_told w'))"
proof -
  let ?data = "stream_rest z"
  let ?s = "CodedInputStream_of z" and ?f = "CodedInputStream ?data (int (length ?data))" and ?c = "ConnectProtocol_Clear m"
  have r: "rep INT_MAX ?s ?f" by (rule CodedInputStream_of_rep [OF assms])
  have len: "length (avail ?f) < Suc (length ?data)" by simp
  obtain ok m2 f where f: "MergePartialFromCodedStream (Suc (length ?data)) ?c ?f = Some (ok, m2, f)"
    "ok \<Longrightarrow> advanced ?f f"
    using msg_loop.loop_ends [OF rep_flat [OF r] len] by blast
  with msg_chunks.loop_rep [OF r len, of ?c] obtain m1 t where
    t: "MergePartialFromCodedStream (Suc (length ?data)) ?c ?s = Some (ok, m1, t)" "ok \<Longrightarrow> m1 = m2 \<and> ended INT_MAX t f"
    by (cases "MergePartialFromCodedStream (Suc (length ?data)) ?c ?s") auto
  have e: "ok \<Longrightarrow> legitimate_message_end t = legitimate_message_end f" using t(2) by (simp add: ended_def)
  have s: "ParseFromZeroCopyStream z m = Some (ok \<and> legitimate_message_end f, m1, destroy_decoder t)"
    using t(1) e stream_rest_unread [OF assms(1)] by (auto simp: ParseFromZeroCopyStream_def InlineParseFromCodedStream_def
        InlineMergeFromCodedStream_def ConsumedEntireMessage_def simp del: MergePartialFromCodedStream.simps)
  have a: "ParseFromArray ?data m = Some (ok \<and> legitimate_message_end f, m2)"
    using f(1) by (simp add: ParseFromArray_def ConsumedEntireMessage_def del: MergePartialFromCodedStream.simps)
  show thesis
  proof (rule that [OF s a])
    assume ok: "ok \<and> legitimate_message_end f"
    then have c: "chunked t" "stands_for t f" "avail f = []" "told_end t" "current_limit t = INT_MAX" "m1 = m2"
      using t(2) by (auto simp: ended_def)
    have cb: "cbuffer f = length ?data" "cdata f = ?data" using f(2) ok c(3) buffer_eq_flat [of f]
      by (simp_all add: advanced_def) (simp_all add: CodedInputStream_def)
    obtain w where w: "destroy_decoder t = Some w" "stream_ok w" "stream_rest w = drop (cbuffer f) (cdata f)"
      "kept_bytes t = [] \<Longrightarrow> cinput t = Some w"
      by (rule destroy_decoder_rest [OF c(1,2)]) blast
    have l: "int (length ?data) = total_bytes_read t + int (length (stream_rest (the (cinput t))))"
      "int (length ?data) = CurrentPosition t"
      using stands_for_length(1,2) [OF c(1,2)] cb by simp_all
    then have "length (kept_bytes t) = 0" "total_bytes_read t \<le> int (length ?data)" using chunked_position(3) [OF c(1)] by linarith+
    then have "int (length ?data) < INT_MAX \<longrightarrow> stream_told w" using c(4,5) w(4) by (auto simp: told_end_def)
    with w(1-3) cb c(6) show "m1 = m2 \<and> (\<exists>w'. destroy_decoder t = Some w' \<and> stream_ok w' \<and> stream_rest w' = [] \<and>
        (int (length ?data) < INT_MAX \<longrightarrow> stream_told w'))" by auto
  qed
qed

text \<open>C24: Parsing does not see how a stream hands out its bytes: from a stream of any class (an array in
  blocks, a file, a standard stream, a concatenation, a part of one of them) a message is parsed exactly
  when it is parsed from the array of its bytes, to the same message, however the varints, the strings
  and the nested messages lie across the ends of the regions; and when it succeeds, the decoder leaves the
  stream at its end.\<close>

theorem stream_parse_equals_array_parse:
  assumes "stream_ok z" "int (length (stream_rest z)) \<le> INT_MAX"
  shows "\<exists>ok m1 m2 w. ParseFromZeroCopyStream z m = Some (ok, m1, w) \<and> ParseFromArray (stream_rest z) m = Some (ok, m2) \<and>
    (ok \<longrightarrow> m1 = m2 \<and> (\<exists>w'. w = Some w' \<and> stream_ok w' \<and> stream_rest w' = []))"
proof -
  obtain ok m1 m2 w where "ParseFromZeroCopyStream z m = Some (ok, m1, w)" "ParseFromArray (stream_rest z) m = Some (ok, m2)"
    "ok \<Longrightarrow> m1 = m2 \<and> (\<exists>w'. w = Some w' \<and> stream_ok w' \<and> stream_rest w' = [] \<and>
      (int (length (stream_rest z)) < INT_MAX \<longrightarrow> stream_told w'))"
    by (rule stream_parse [OF assms, of m]) blast
  then show ?thesis by auto
qed

lemma ArrayIn_stream:
  assumes "int (length data) \<le> INT_MAX"
  shows "stream_ok (ArrayIn (ArrayInputStream0 data block_size))" "stream_rest (ArrayIn (ArrayInputStream0 data block_size)) = data"
  using ArrayInputStream0_ok [OF assms, of block_size]
  by (simp_all add: ArrayIn_def stream_ok_def stream_rest_def plain_ok_def plain_rest_def array_rest_def) (simp add: ArrayInputStream0_def)

lemma IstreamIn_stream:
  assumes "\<not> is_fail s" "\<not> is_eof s"
  shows "stream_ok (IstreamIn (IstreamInputStream0 s block_size))" "stream_rest (IstreamIn (IstreamInputStream0 s block_size)) = is_data s"
  using std_istream.adaptor_start [of s block_size] assms
  by (simp_all add: IstreamIn_def IstreamInputStream0_def stream_ok_def stream_rest_def plain_ok_def plain_rest_def istream_sound_def)

lemma FileIn_stream:
  assumes "\<forall>a\<in>set answers. read_ok a"
  shows "stream_ok (FileIn (FileInputStream0 answers block_size))" "stream_rest (FileIn (FileInputStream0 answers block_size)) = answers_content answers"
  using posix_file.adaptor_start [of "CopyingFileInputStream0 answers" block_size] assms
  by (simp_all add: FileIn_def FileInputStream0_def stream_ok_def stream_rest_def plain_ok_def plain_rest_def file_sound_def CopyingFileInputStream0_def)

lemma stream_parse_witness:
  "\<exists>m w. ParseFromZeroCopyStream (ArrayIn (ArrayInputStream0 (encode_message (empty_view\<lparr>v_apiname := [97, 98]\<rparr>)) 1))
      ConnectProtocol0 = Some (True, m, Some w) \<and> apiname m = [97, 98] \<and> stream_rest w = []"
proof -
  let ?v = "empty_view\<lparr>v_apiname := [97, 98]\<rparr>"
  obtain m where m: "ParseFromArray (encode_message ?v) ConnectProtocol0 = Some (True, m)" "message_view m = ?v"
    using ParseFromArray_encode [OF named_message(3) message_ok_new(1)] by blast
  have "v_apiname (message_view m) = [97, 98]" by (simp add: m(2))
  then have "apiname m = [97, 98]" by (simp add: message_view_def)
  moreover have "int (length (encode_message ?v)) \<le> INT_MAX" by (simp add: named_message(4))
  note z = ArrayIn_stream [OF this, of 1]
  from stream_parse_equals_array_parse [of "ArrayIn (ArrayInputStream0 (encode_message ?v) 1)" ConnectProtocol0] z m(1)
  have "\<exists>w. ParseFromZeroCopyStream (ArrayIn (ArrayInputStream0 (encode_message ?v) 1)) ConnectProtocol0 = Some (True, m, Some w) \<and>
      stream_rest w = []" by (auto simp: named_message(4))
  ultimately show ?thesis by blast
qed

lemma told_eof: "stream_told z \<Longrightarrow> stream_eof z"
  by (induction z rule: stream_eof.induct) (simp_all add: stream_told_def plain_told_def)

lemma ok_GetErrno: "stream_ok z \<Longrightarrow> stream_GetErrno z = 0"
  by (induction z rule: stream_GetErrno.induct) (simp_all add: stream_ok_def plain_ok_def posix_file.adaptor_ok_def file_sound_def)

lemma file_parse_equals:
  assumes "\<forall>a\<in>set answers. read_ok a" "is_data s = answers_content answers" "\<not> is_fail s" "\<not> is_eof s"
    "int (length (answers_content answers)) < INT_MAX"
  shows "(ParseFromFileDescriptor answers m = Some (True, m') \<longleftrightarrow> ParseFromArray (answers_content answers) m = Some (True, m')) \<and>
    (ParseFromIstream s m = Some (True, m') \<longleftrightarrow> ParseFromArray (answers_content answers) m = Some (True, m'))"
proof -
  let ?f = "FileIn (FileInputStream0 answers (-1))" and ?s = "IstreamIn (IstreamInputStream0 s (-1))"
  note f = FileIn_stream [OF assms(1), of "-1"] and z = IstreamIn_stream [OF assms(3,4), of "-1"]
  have len: "int (length (stream_rest ?f)) \<le> INT_MAX" "int (length (stream_rest ?s)) \<le> INT_MAX" "int (length (stream_rest ?s)) < INT_MAX"
    using assms(5) f(2) z(2) assms(2) by simp_all
  obtain ok m1 m2 w where w: "ParseFromZeroCopyStream ?f m = Some (ok, m1, w)" "ParseFromArray (stream_rest ?f) m = Some (ok, m2)"
    "ok \<Longrightarrow> m1 = m2 \<and> (\<exists>w'. w = Some w' \<and> stream_ok w')"
    by (rule stream_parse [OF f(1) len(1), of m]) blast
  obtain ok' m3 m4 v where v: "ParseFromZeroCopyStream ?s m = Some (ok', m3, v)" "ParseFromArray (stream_rest ?s) m = Some (ok', m4)"
    "ok' \<Longrightarrow> m3 = m4 \<and> (\<exists>v'. v = Some v' \<and> stream_told v')"
    by (rule stream_parse [OF z(1) len(2), of m]) (use len(3) in blast)
  have "ParseFromFileDescriptor answers m = Some (True, m') \<longleftrightarrow> ok \<and> m2 = m'"
    using w(1,3) ok_GetErrno by (auto simp: ParseFromFileDescriptor_def split: option.splits)
  moreover have "ParseFromIstream s m = Some (True, m') \<longleftrightarrow> ok' \<and> m4 = m'"
    using v(1,3) told_eof by (auto simp: ParseFromIstream_def split: option.splits)
  ultimately show ?thesis using w(2) v(2) f(2) z(2) assms(2) by auto
qed

text \<open>C27: \<open>ParseFromFileDescriptor\<close> and \<open>ParseFromIstream\<close> return a message exactly when \<open>ParseFromArray\<close>
  returns it for the bytes of the file or of the stream, whatever the sizes of the reads, interruptions
  included: when the message has been parsed, the error number of the file is still zero, and the standard stream
  has been read up to its end, so that its flag says so.\<close>

theorem file_parse_equals_array_parse:
  assumes "\<forall>a\<in>set answers. read_ok a" "is_data s = answers_content answers" "\<not> is_fail s" "\<not> is_eof s"
    "int (length (answers_content answers)) < INT_MAX"
  shows "(ParseFromFileDescriptor answers m = Some (True, m') \<longleftrightarrow> ParseFromArray (answers_content answers) m = Some (True, m')) \<and>
    (ParseFromIstream s m = Some (True, m') \<longleftrightarrow> ParseFromArray (answers_content answers) m = Some (True, m'))"
  by (rule file_parse_equals [OF assms])

lemma file_parse_witness:
  "\<exists>m. ParseFromFileDescriptor [GotBytes [18, 2], GotErrno EINTR, GotBytes [97, 98]] ConnectProtocol0 = Some (True, m) \<and>
     apiname m = [97, 98]"
proof -
  let ?v = "empty_view\<lparr>v_apiname := [97, 98]\<rparr>"
  obtain m where m: "ParseFromArray (encode_message ?v) ConnectProtocol0 = Some (True, m)" "message_view m = ?v"
    using ParseFromArray_encode [OF named_message(3) message_ok_new(1)] by blast
  have "v_apiname (message_view m) = [97, 98]" by (simp add: m(2))
  then have "apiname m = [97, 98]" by (simp add: message_view_def)
  moreover have "encode_message ?v = [18, 2, 97, 98]" by code_simp
  with file_parse_equals_array_parse [where answers = "[GotBytes [18, 2], GotErrno EINTR, GotBytes [97, 98]]"
      and s = "\<lparr>is_data = [18, 2, 97, 98], is_fail = False, is_eof = False\<rparr>" and m = ConnectProtocol0 and m' = m] m(1)
  have "ParseFromFileDescriptor [GotBytes [18, 2], GotErrno EINTR, GotBytes [97, 98]] ConnectProtocol0 = Some (True, m)" by simp
  ultimately show ?thesis by blast
qed

text \<open>A limit on the decoder: what is behind it is not read, and stays in the stream.\<close>

lemma bounded_decoder:
  assumes "stream_ok z" "int (length (stream_rest z)) \<le> INT_MAX" "0 \<le> n" "n \<le> INT_MAX"
  obtains old t f where "PushLimit n (CodedInputStream_of z) = (old, t)" "rep n t f"
    "avail f = take (nat n) (stream_rest z)" "cdata f = stream_rest z" "cbuffer f = 0" "recursion_budget f = 100" "recursion_limit f = 100"
proof -
  let ?data = "stream_rest z" and ?s = "CodedInputStream_of z"
  let ?f = "CodedInputStream ?data (int (length ?data))"
  have r: "rep INT_MAX ?s ?f" by (rule CodedInputStream_of_rep [OF assms(1,2)])
  obtain k t where p: "PushLimit n ?s = (INT_MAX, t)"
    "PushLimit n ?f = (int (flat_limit INT_MAX ?f), limit_to (flat_limit k ?f) ?f)" "rep k t (limit_to (flat_limit k ?f) ?f)"
    by (rule PushLimit_rep [OF r assms(3,4)])
  obtain j where n: "n = int j" using assms(3) by (metis zero_le_imp_eq_int)
  have "CurrentPosition ?s = 0" "current_limit ?s = INT_MAX"
    using rep_fields(4) [OF r] r by (simp_all add: CodedInputStream_def rep_def)
  then have "current_limit t = n" using p(1) assms(3,4) by (auto simp: PushLimit_def Let_def split: if_splits)
  then have k: "k = n" using p(3) by (simp add: rep_def)
  have "limit_to (flat_limit k ?f) ?f = limit_to (min j (length ?data)) ?f"
    by (simp add: k n flat_limit_def CodedInputStream_def min_def nat_le_iff)
  then have "avail (limit_to (flat_limit k ?f) ?f) = take j ?data"
    by (simp add: avail_def limit_to_def CodedInputStream_def) (simp add: min_def)
  then show thesis using that [OF p(1) p(3) [unfolded k]] k n
    by (simp add: CodedInputStream_def default_recursion_limit_def limit_to_def)
qed

text \<open>A frame longer than what is left of the stream is refused, even when the bytes there are a message.\<close>

lemma short_frame_refused:
  assumes "stream_ok z" "int (length (stream_rest z)) < n" "n \<le> INT_MAX"
  shows "\<exists>m' w. ParseFromBoundedZeroCopyStream z n m = Some (False, m', w)"
proof -
  let ?c = "ConnectProtocol_Clear m" and ?data = "stream_rest z"
  have "int (length ?data) \<le> INT_MAX" "0 \<le> n" using assms by linarith+
  then obtain old t f where t: "PushLimit n (CodedInputStream_of z) = (old, t)" "rep n t f"
    "avail f = take (nat n) ?data" "cbuffer f = 0"
    using bounded_decoder [OF assms(1), of n] assms(3) by metis
  have len: "length (avail f) < Suc (length ?data)" using t(3) by simp
  obtain ok m2 g where g: "MergePartialFromCodedStream (Suc (length ?data)) ?c f = Some (ok, m2, g)" "ok \<Longrightarrow> advanced f g"
    using msg_loop.loop_ends [OF rep_flat [OF t(2)] len] by blast
  from msg_chunks.loop_rep [OF t(2) len, of ?c] g(1) obtain m1 u where
    u: "MergePartialFromCodedStream (Suc (length ?data)) ?c t = Some (ok, m1, u)" "ok \<Longrightarrow> ended n u g"
    by (cases "MergePartialFromCodedStream (Suc (length ?data)) ?c t") auto
  have "BytesUntilLimit u \<noteq> 0" if ok: "ok" "legitimate_message_end u"
  proof -
    have c: "chunked u" "current_limit u = n" "stands_for u g" using u(2) ok by (auto simp: ended_def)
    have "cbuffer g \<le> cbuffer_end f" using g(2) [OF ok(1)] by (auto simp: advanced_def flat_def)
    also have "\<dots> = length (avail f)" using length_avail_flat [OF rep_flat [OF t(2)]] t(4) by simp
    finally have "int (cbuffer g) \<le> int (length ?data)" using t(3) by simp
    moreover have "CurrentPosition u = int (cbuffer g)" using stands_for_length(2) [OF c(1,3)] by simp
    ultimately show ?thesis using c(2) assms(2) by (simp add: BytesUntilLimit_def)
  qed
  then show ?thesis
    using t(1) u(1) stream_rest_unread [OF assms(1)]
    by (auto simp: ParseFromBoundedZeroCopyStream_def InlineParseFromCodedStream_def InlineMergeFromCodedStream_def
        ConsumedEntireMessage_def simp del: MergePartialFromCodedStream.simps)
qed

text \<open>C25: The encoding of a message that fits, in a stream with anything behind it, is read back by the bounded
  parser told its length, whatever regions the stream hands out: the parser returns the message, and leaves
  the stream right behind it, so that the next one can be read from there. A message fits (\<open>message_fits\<close>) if its name, keys
  and values are UTF-8 and its unknown fields are well formed, have none of the class's own tags and nest at most a hundred
  deep; the stream must hold at most \<open>INT_MAX\<close> bytes, and the encoding fewer than \<open>INT_MAX\<close>, because that length is
  the decoder's way of saying that there is no limit, and is refused.\<close>

theorem framed_message_roundtrip:
  assumes "message_fits v" "message_ok m" "stream_ok z" "stream_rest z = encode_message v @ rest"
    "int (length (encode_message v @ rest)) \<le> INT_MAX" "int (length (encode_message v)) < INT_MAX"
  shows "\<exists>m' w. ParseFromBoundedZeroCopyStream z (int (length (encode_message v))) m = Some (True, m', Some w) \<and>
    message_ok m' \<and> message_view m' = v \<and> stream_ok w \<and> stream_rest w = rest"
proof -
  let ?data = "encode_message v @ rest" and ?n = "int (length (encode_message v))"
  let ?c = "ConnectProtocol_Clear m"
  have n: "int (length (stream_rest z)) \<le> INT_MAX" "0 \<le> ?n" "?n \<le> INT_MAX" using assms(4-6) by simp_all
  obtain old t f where t: "PushLimit ?n (CodedInputStream_of z) = (old, t)" "rep ?n t f"
    "avail f = encode_message v" "cdata f = ?data" "cbuffer f = 0" "recursion_budget f = 100" "recursion_limit f = 100"
    by (rule bounded_decoder [OF assms(3) n]) (simp add: assms(4))
  obtain m' where m': "msg_loop.eats 100 (encode_message v) ?c m'" "message_ok m'" "message_view m' = v"
    using eats_message [OF assms(1) message_ok_Clear(1) [OF assms(2)]] message_ok_Clear(2) [of m] by auto
  have len: "length (avail f) < Suc (length ?data)" using t(3) by simp
  obtain g where g: "MergePartialFromCodedStream (Suc (length ?data)) ?c f = Some (True, m', g)"
    "after f (length (avail f)) g" "legitimate_message_end g"
    using msg_loop.eats_whole [of 100 f ?c m' "Suc (length ?data)"] m'(1) t(3,6,7) rep_flat [OF t(2)] len by auto
  from msg_chunks.loop_rep [OF t(2) len, of ?c] g(1) obtain u where
    u: "MergePartialFromCodedStream (Suc (length ?data)) ?c t = Some (True, m', u)" "ended ?n u g"
    by (cases "MergePartialFromCodedStream (Suc (length ?data)) ?c t") auto
  have c: "chunked u" "current_limit u = ?n" "stands_for u g" "legitimate_message_end u" using u(2) g(3) by (auto simp: ended_def)
  have gb: "cbuffer g = length (encode_message v)" "cdata g = ?data" using after_fields(4,5) [OF g(2)] t(3-5) by simp_all
  then have pos: "CurrentPosition u = ?n" using stands_for_length(2) [OF c(1,3)] by simp
  obtain w where w: "destroy_decoder u = Some w" "stream_ok w" "stream_rest w = drop (cbuffer g) (cdata g)"
    by (rule destroy_decoder_rest [OF c(1,3)]) blast
  have "BytesUntilLimit u = 0" using pos c(2) assms(6) by (simp add: BytesUntilLimit_def)
  then have "ParseFromBoundedZeroCopyStream z ?n m = Some (True, m', Some w)"
    using t(1) u(1) w(1) c(4) stream_rest_unread [OF assms(3)] assms(4)
    by (simp add: ParseFromBoundedZeroCopyStream_def InlineParseFromCodedStream_def InlineMergeFromCodedStream_def
        ConsumedEntireMessage_def del: MergePartialFromCodedStream.simps)
  with m' w(2,3) gb show ?thesis by simp
qed

lemma framed_message_witness:
  "\<exists>m' w. ParseFromBoundedZeroCopyStream (ArrayIn (ArrayInputStream0 (encode_message (empty_view\<lparr>v_apiname := [97, 98]\<rparr>) @ [8, 1]) 3))
      (int (length (encode_message (empty_view\<lparr>v_apiname := [97, 98]\<rparr>)))) ConnectProtocol0 = Some (True, m', Some w) \<and>
    message_ok m' \<and> message_view m' = empty_view\<lparr>v_apiname := [97, 98]\<rparr> \<and> stream_ok w \<and> stream_rest w = [8, 1]"
proof -
  have "int (length (encode_message (empty_view\<lparr>v_apiname := [97, 98]\<rparr>) @ [8, 1])) \<le> INT_MAX" by (simp add: named_message(4))
  note z = ArrayIn_stream [OF this, of 3]
  show ?thesis by (rule framed_message_roundtrip [OF _ _ z]) (simp_all add: named_message message_ok_new)
qed

end
