(* ===== verification/OutputAdaptors.thy ===== *)
theory OutputAdaptors
  imports OutputStream StreamParse
begin

text \<open>
  Output streams with a buffer over a copying stream (\<open>io/zero_copy_stream_impl_lite.cc\<close>,
  \<open>io/zero_copy_stream_impl.cc\<close>), over files and standard streams, and the functions of \<open>message.cc\<close>
  that write a message to them. As long as the stream below takes what it is given, such a stream keeps the
  contract of \<open>zero_copy_output\<close>; when it does not, the bytes are lost, and who learns of it is stated at the end.
\<close>

section \<open>The adaptor\<close>

text \<open>
  A region is named by the place its bytes have in the stream, counted from where the adaptor began.
  \<open>co_fresh\<close> is what a new buffer happens to hold.
\<close>

record 'c CopyingOutputStreamAdaptor =
  co_copying_stream :: 'c
  co_failed :: bool
  co_position :: nat
  co_buffer_size :: nat
  co_buffer :: "bytes option"
  co_buffer_used :: nat
  co_fresh :: bytes

definition CopyingOutputStreamAdaptor0 :: "bytes \<Rightarrow> 'c \<Rightarrow> int \<Rightarrow> 'c CopyingOutputStreamAdaptor" where
  "CopyingOutputStreamAdaptor0 fresh copying_stream block_size =
     \<lparr>co_copying_stream = copying_stream, co_failed = False, co_position = 0,
      co_buffer_size = (if block_size > 0 then nat block_size else kDefaultBlockSize),
      co_buffer = None, co_buffer_used = 0, co_fresh = fresh\<rparr>"

definition co_AllocateBufferIfNeeded :: "'c CopyingOutputStreamAdaptor \<Rightarrow> 'c CopyingOutputStreamAdaptor" where
  "co_AllocateBufferIfNeeded a =
     (if co_buffer a = None then a\<lparr>co_buffer := Some (resize (co_buffer_size a) (co_fresh a))\<rparr> else a)"

definition co_FreeBuffer :: "'c CopyingOutputStreamAdaptor \<Rightarrow> 'c CopyingOutputStreamAdaptor" where
  "co_FreeBuffer a = a\<lparr>co_buffer_used := 0, co_buffer := None\<rparr>"

definition WriteBuffer :: "(bytes \<Rightarrow> 'c \<Rightarrow> bool \<times> 'c) \<Rightarrow> 'c CopyingOutputStreamAdaptor \<Rightarrow> bool \<times> 'c CopyingOutputStreamAdaptor" where
  "WriteBuffer Write a =
     (if co_failed a then (False, a)
      else if co_buffer_used a = 0 then (True, a)
      else let (ok, c) = Write (take (co_buffer_used a) (the (co_buffer a))) (co_copying_stream a);
               a = a\<lparr>co_copying_stream := c\<rparr>
           in if ok then (True, a\<lparr>co_position := co_position a + co_buffer_used a, co_buffer_used := 0\<rparr>)
              else (False, co_FreeBuffer (a\<lparr>co_failed := True\<rparr>)))"

definition co_Flush :: "(bytes \<Rightarrow> 'c \<Rightarrow> bool \<times> 'c) \<Rightarrow> 'c CopyingOutputStreamAdaptor \<Rightarrow> bool \<times> 'c CopyingOutputStreamAdaptor" where
  "co_Flush Write a = WriteBuffer Write a"

text \<open>The destructor writes the rest; nobody sees whether it could.\<close>

definition destroy_adaptor :: "(bytes \<Rightarrow> 'c \<Rightarrow> bool \<times> 'c) \<Rightarrow> 'c CopyingOutputStreamAdaptor \<Rightarrow> 'c" where
  "destroy_adaptor Write a = co_copying_stream (snd (WriteBuffer Write a))"

definition co_Next :: "(bytes \<Rightarrow> 'c \<Rightarrow> bool \<times> 'c) \<Rightarrow> 'c CopyingOutputStreamAdaptor \<Rightarrow> (nat \<times> nat) option \<times> 'c CopyingOutputStreamAdaptor" where
  "co_Next Write a =
     (let (ok, a) = (if co_buffer_used a = co_buffer_size a then WriteBuffer Write a else (True, a))
      in if \<not> ok then (None, a)
         else let a = co_AllocateBufferIfNeeded a
              in (Some (co_position a + co_buffer_used a, co_buffer_size a - co_buffer_used a),
                  a\<lparr>co_buffer_used := co_buffer_size a\<rparr>))"

definition co_BackUp :: "nat \<Rightarrow> 'c CopyingOutputStreamAdaptor \<Rightarrow> 'c CopyingOutputStreamAdaptor option" where
  "co_BackUp count a =
     (if co_buffer_used a = co_buffer_size a \<and> count \<le> co_buffer_used a
      then Some (a\<lparr>co_buffer_used := co_buffer_used a - count\<rparr>) else None)"

definition co_ByteCount :: "'c CopyingOutputStreamAdaptor \<Rightarrow> nat" where
  "co_ByteCount a = co_position a + co_buffer_used a"

definition copying_output_ops :: "(bytes \<Rightarrow> 'c \<Rightarrow> bool \<times> 'c) \<Rightarrow> 'c CopyingOutputStreamAdaptor zero_copy_ops" where
  "copying_output_ops Write = \<lparr>z_Next = co_Next Write, z_BackUp = co_BackUp,
     z_store = (\<lambda>off bs a. a\<lparr>co_buffer := map_option (overwrite (off - co_position a) bs) (co_buffer a)\<rparr>)\<rparr>"

section \<open>Files and standard streams\<close>

text \<open>
  A file descriptor is the sequence of answers \<open>write\<close> will give: the number of bytes it takes, or an
  \<open>errno\<close>; behind the last answer it takes what it is given. On a closed file a \<open>GOOGLE_CHECK\<close> stops the process:
  \<open>fo_Close\<close> then has no result, and \<open>fo_Write\<close>, called from inside the adaptor, takes nothing and leaves the mark
  \<open>fo_check_failed\<close>.
\<close>

datatype write_answer = Wrote nat | WriteError nat

record CopyingFileOutputStream =
  fo_answers :: "write_answer list"
  fo_written :: bytes
  fo_is_closed :: bool
  fo_errno :: nat
  fo_check_failed :: bool

definition CopyingFileOutputStream0 :: "write_answer list \<Rightarrow> CopyingFileOutputStream" where
  "CopyingFileOutputStream0 answers = \<lparr>fo_answers = answers, fo_written = [], fo_is_closed = False, fo_errno = 0,
     fo_check_failed = False\<rparr>"

fun write_loop :: "bytes \<Rightarrow> write_answer list \<Rightarrow> bool \<times> nat option \<times> bytes \<times> write_answer list" where
  "write_loop [] as = (True, None, [], as)"
| "write_loop bs [] = (True, None, bs, [])"
| "write_loop bs (WriteError e # as) = (if e = EINTR then write_loop bs as else (False, Some e, [], as))"
| "write_loop bs (Wrote n # as) =
     (if n = 0 then (False, None, [], as)
      else let (ok, e, written, as) = write_loop (drop n bs) as in (ok, e, take n bs @ written, as))"

definition fo_Write :: "bytes \<Rightarrow> CopyingFileOutputStream \<Rightarrow> bool \<times> CopyingFileOutputStream" where
  "fo_Write bs f =
     (if fo_is_closed f then (False, f\<lparr>fo_check_failed := True\<rparr>)
      else let (ok, e, written, as) = write_loop bs (fo_answers f)
        in (ok, f\<lparr>fo_answers := as, fo_written := fo_written f @ written,
                 fo_errno := (case e of Some e \<Rightarrow> e | None \<Rightarrow> fo_errno f)\<rparr>))"

definition FileOutputStream0 :: "bytes \<Rightarrow> write_answer list \<Rightarrow> int \<Rightarrow> CopyingFileOutputStream CopyingOutputStreamAdaptor" where
  "FileOutputStream0 fresh answers block_size = CopyingOutputStreamAdaptor0 fresh (CopyingFileOutputStream0 answers) block_size"

definition fo_Close :: "nat list \<Rightarrow> CopyingFileOutputStream \<Rightarrow> (bool \<times> CopyingFileOutputStream) option" where
  "fo_Close errors f =
     (if fo_is_closed f then None
      else let f = f\<lparr>fo_is_closed := True\<rparr>
        in Some (case close_no_eintr errors of Some e \<Rightarrow> (False, f\<lparr>fo_errno := e\<rparr>) | None \<Rightarrow> (True, f)))"

definition FileOutputStream_Close :: "nat list \<Rightarrow> CopyingFileOutputStream CopyingOutputStreamAdaptor \<Rightarrow>
    (bool \<times> CopyingFileOutputStream CopyingOutputStreamAdaptor) option" where
  "FileOutputStream_Close errors a =
     (let (flush_succeeded, a) = co_Flush fo_Write a
      in do { (closed, f) \<leftarrow> fo_Close errors (co_copying_stream a);
              Some (closed \<and> flush_succeeded, a\<lparr>co_copying_stream := f\<rparr>) })"

text \<open>A \<open>std::ostream\<close> whose buffer takes \<open>os_room\<close> more bytes, or any number of them; it is bad from the first byte it cannot take.\<close>

record ostream =
  os_data :: bytes
  os_good :: bool
  os_room :: "nat option"

definition ostream_write :: "bytes \<Rightarrow> ostream \<Rightarrow> ostream" where
  "ostream_write bs s =
     (if \<not> os_good s then s
      else case os_room s of
        None \<Rightarrow> s\<lparr>os_data := os_data s @ bs\<rparr>
      | Some room \<Rightarrow> s\<lparr>os_data := os_data s @ take room bs, os_room := Some (room - length bs), os_good := length bs \<le> room\<rparr>)"

definition ostream_Write :: "bytes \<Rightarrow> ostream \<Rightarrow> bool \<times> ostream" where
  "ostream_Write bs s = (let s = ostream_write bs s in (os_good s, s))"

definition OstreamOutputStream0 :: "bytes \<Rightarrow> ostream \<Rightarrow> int \<Rightarrow> ostream CopyingOutputStreamAdaptor" where
  "OstreamOutputStream0 fresh output block_size = CopyingOutputStreamAdaptor0 fresh output block_size"

section \<open>Messages to files and standard streams\<close>

text \<open>The stream is destroyed on return.\<close>

definition SerializeToFileDescriptor ::
  "bytes \<Rightarrow> ConnectProtocol \<Rightarrow> write_answer list \<Rightarrow> (bool \<times> ConnectProtocol \<times> CopyingFileOutputStream) option" where
  "SerializeToFileDescriptor fresh m answers =
     do { (ok, m, output) \<leftarrow> SerializeToZeroCopyStream (copying_output_ops fo_Write) m (FileOutputStream0 fresh answers (-1));
          Some (ok, m, destroy_adaptor fo_Write output) }"

definition SerializeToOstream ::
  "bytes \<Rightarrow> ConnectProtocol \<Rightarrow> ostream \<Rightarrow> (bool \<times> ConnectProtocol \<times> ostream) option" where
  "SerializeToOstream fresh m output =
     do { (ok, m, zero_copy) \<leftarrow> SerializeToZeroCopyStream (copying_output_ops ostream_Write) m (OstreamOutputStream0 fresh output (-1));
          let output = destroy_adaptor ostream_Write zero_copy;
          Some (if \<not> ok then False else os_good output, m, output) }"

section \<open>Streams that take everything\<close>

locale copying_output =
  fixes Write :: "bytes \<Rightarrow> 'c \<Rightarrow> bool \<times> 'c" and sound :: "'c \<Rightarrow> bool" and sunk :: "'c \<Rightarrow> bytes"
  assumes write_some: "sound c \<Longrightarrow> \<exists>d. Write bs c = (True, d) \<and> sound d \<and> sunk d = sunk c @ bs"
begin

text \<open>\<open>before\<close> is what the stream had when the adaptor was made.\<close>

definition adaptor_ok :: "bytes \<Rightarrow> 'c CopyingOutputStreamAdaptor \<Rightarrow> bool" where
  "adaptor_ok before a \<longleftrightarrow> \<not> co_failed a \<and> sound (co_copying_stream a) \<and> 0 < co_buffer_size a \<and>
     co_buffer_used a \<le> co_buffer_size a \<and>
     (case co_buffer a of None \<Rightarrow> co_buffer_used a = 0 | Some buf \<Rightarrow> length buf = co_buffer_size a) \<and>
     length (sunk (co_copying_stream a)) = length before + co_position a \<and>
     take (length before) (sunk (co_copying_stream a)) = before"

definition pending :: "'c CopyingOutputStreamAdaptor \<Rightarrow> bytes" where
  "pending a = (case co_buffer a of None \<Rightarrow> [] | Some buf \<Rightarrow> take (co_buffer_used a) buf)"

definition adaptor_content :: "bytes \<Rightarrow> 'c CopyingOutputStreamAdaptor \<Rightarrow> bytes" where
  "adaptor_content before a = drop (length before) (sunk (co_copying_stream a)) @ pending a"

definition adaptor_handed :: "'c CopyingOutputStreamAdaptor \<Rightarrow> nat \<Rightarrow> bool" where
  "adaptor_handed a n \<longleftrightarrow> co_buffer_used a = co_buffer_size a \<and> n \<le> co_buffer_size a"

lemma length_content:
  "adaptor_ok before a \<Longrightarrow> length (adaptor_content before a) = co_position a + co_buffer_used a"
  by (auto simp: adaptor_ok_def adaptor_content_def pending_def split: option.splits)

lemma WriteBuffer_ok:
  assumes "adaptor_ok before a"
  obtains b where "WriteBuffer Write a = (True, b)" "adaptor_ok before b" "adaptor_content before b = adaptor_content before a"
    "co_buffer_used b = 0" "sunk (co_copying_stream b) = sunk (co_copying_stream a) @ pending a" "co_buffer_size b = co_buffer_size a"
    "co_fresh b = co_fresh a"
proof (cases "co_buffer_used a = 0")
  case True
  then show ?thesis using assms that [of a]
    by (auto simp: WriteBuffer_def adaptor_ok_def pending_def split: option.splits)
next
  case False
  then obtain buf where buf: "co_buffer a = Some buf" "length buf = co_buffer_size a"
    using assms by (auto simp: adaptor_ok_def split: option.splits)
  obtain d where d: "Write (take (co_buffer_used a) buf) (co_copying_stream a) = (True, d)" "sound d"
    "sunk d = sunk (co_copying_stream a) @ take (co_buffer_used a) buf"
    using write_some [of "co_copying_stream a"] assms by (auto simp: adaptor_ok_def)
  show ?thesis
  proof (rule that [of "a\<lparr>co_copying_stream := d, co_position := co_position a + co_buffer_used a, co_buffer_used := 0\<rparr>"])
    show "WriteBuffer Write a = (True, a\<lparr>co_copying_stream := d, co_position := co_position a + co_buffer_used a, co_buffer_used := 0\<rparr>)"
      using assms False buf d(1) by (simp add: WriteBuffer_def adaptor_ok_def)
  qed (use assms buf d(2,3) in \<open>auto simp: adaptor_ok_def adaptor_content_def pending_def\<close>)
qed

lemma AllocateBufferIfNeeded_ok:
  assumes "adaptor_ok before a"
  shows "adaptor_ok before (co_AllocateBufferIfNeeded a)" "adaptor_content before (co_AllocateBufferIfNeeded a) = adaptor_content before a"
    "co_buffer (co_AllocateBufferIfNeeded a) \<noteq> None" "co_buffer_used (co_AllocateBufferIfNeeded a) = co_buffer_used a"
    "co_buffer_size (co_AllocateBufferIfNeeded a) = co_buffer_size a"
  using assms by (auto simp: co_AllocateBufferIfNeeded_def adaptor_ok_def adaptor_content_def pending_def split: option.splits)

lemma co_Next_ok:
  assumes "adaptor_ok before a" "co_Next Write a = (r, b)"
  shows "\<exists>off n. r = Some (off, n) \<and> adaptor_ok before b \<and> adaptor_handed b n \<and> 0 < n \<and> off = length (adaptor_content before a) \<and>
    length (adaptor_content before b) = off + n \<and> take off (adaptor_content before b) = adaptor_content before a"
proof -
  obtain c where c: "(if co_buffer_used a = co_buffer_size a then WriteBuffer Write a else (True, a)) = (True, c)"
    "adaptor_ok before c" "adaptor_content before c = adaptor_content before a" "co_buffer_used c < co_buffer_size c"
  proof (cases "co_buffer_used a = co_buffer_size a")
    case True
    with WriteBuffer_ok [OF assms(1)] that show thesis by (metis adaptor_ok_def)
  next
    case False
    with assms(1) that [of a] show thesis by (simp add: adaptor_ok_def)
  qed
  define d where "d = co_AllocateBufferIfNeeded c"
  note d = AllocateBufferIfNeeded_ok [OF c(2), folded d_def]
  have "r = Some (co_position d + co_buffer_used d, co_buffer_size d - co_buffer_used d)" "b = d\<lparr>co_buffer_used := co_buffer_size d\<rparr>"
    using assms(2) unfolding co_Next_def c(1) by (simp_all add: Let_def d_def)
  moreover obtain buf where buf: "co_buffer d = Some buf" "length buf = co_buffer_size d"
    using d(1,3) by (auto simp: adaptor_ok_def split: option.splits)
  define S where "S = drop (length before) (sunk (co_copying_stream d))"
  have S: "length S = co_position d" using d(1) by (simp add: S_def adaptor_ok_def)
  have a: "adaptor_content before a = S @ take (co_buffer_used d) buf"
    using d(2) c(3) by (simp add: adaptor_content_def pending_def buf S_def)
  moreover have "adaptor_content before (d\<lparr>co_buffer_used := co_buffer_size d\<rparr>) = S @ buf"
    by (simp add: adaptor_content_def pending_def buf S_def)
  moreover have "co_buffer_used d < length buf" using c(4) d(4,5) buf(2) by simp
  moreover have "adaptor_ok before (d\<lparr>co_buffer_used := co_buffer_size d\<rparr>)" using d(1) buf by (simp add: adaptor_ok_def)
  ultimately show ?thesis using S buf(2) by (auto simp: adaptor_handed_def)
qed

lemma co_store_ok:
  assumes "adaptor_ok before a" "adaptor_handed a n" "length (adaptor_content before a) - n \<le> off"
    "off + length bs \<le> length (adaptor_content before a)"
  shows "adaptor_ok before (z_store (copying_output_ops Write) off bs a) \<and> adaptor_handed (z_store (copying_output_ops Write) off bs a) n \<and>
    adaptor_content before (z_store (copying_output_ops Write) off bs a) = overwrite off bs (adaptor_content before a)"
proof -
  obtain buf where buf: "co_buffer a = Some buf" "length buf = co_buffer_size a"
    using assms(1,2) by (cases "co_buffer a") (auto simp: adaptor_ok_def adaptor_handed_def)
  define S where "S = drop (length before) (sunk (co_copying_stream a))"
  have S: "length S = co_position a" using assms(1) by (simp add: S_def adaptor_ok_def)
  have c: "adaptor_content before a = S @ buf" using assms(2) buf by (simp add: adaptor_content_def pending_def adaptor_handed_def S_def)
  have off: "co_position a \<le> off" "off - co_position a + length bs \<le> length buf"
    using assms(2-4) buf S by (auto simp: c adaptor_handed_def)
  then have l: "length (overwrite (off - co_position a) bs buf) = length buf" by (simp add: overwrite_def)
  have "overwrite off bs (S @ buf) = S @ overwrite (off - co_position a) bs buf"
    using off S by (simp add: overwrite_def)
  then show ?thesis using assms(1,2) buf l
    by (auto simp: c copying_output_ops_def adaptor_ok_def adaptor_handed_def adaptor_content_def pending_def S_def)
qed

lemma co_BackUp_ok:
  assumes "adaptor_ok before a" "adaptor_handed a n" "k \<le> n"
  shows "\<exists>b. co_BackUp k a = Some b \<and> adaptor_ok before b \<and>
    adaptor_content before b = take (length (adaptor_content before a) - k) (adaptor_content before a)"
  using assms
  by (auto simp: co_BackUp_def adaptor_ok_def adaptor_handed_def adaptor_content_def pending_def split: option.splits)

lemma adaptor_is_output: "zero_copy_output (copying_output_ops Write) (adaptor_ok before) (adaptor_content before) adaptor_handed limit"
proof unfold_locales
  show "z_store (copying_output_ops Write) off [] a = a" for off a
    by (cases "co_buffer a") (simp_all add: copying_output_ops_def overwrite_def)
next
  fix a :: "'c CopyingOutputStreamAdaptor" and off n b
  assume ok: "adaptor_ok before a"
  show "adaptor_ok before b \<and> adaptor_handed b n \<and> 0 < n \<and> off = length (adaptor_content before a) \<and>
      length (adaptor_content before b) = off + n \<and> take off (adaptor_content before b) = adaptor_content before a"
    if "z_Next (copying_output_ops Write) a = (Some (off, n), b)"
    using co_Next_ok [OF ok, of "Some (off, n)" b] that by (auto simp: copying_output_ops_def)
  show "adaptor_ok before b \<and> adaptor_content before b = adaptor_content before a \<and> limit \<le> length (adaptor_content before a)"
    if "z_Next (copying_output_ops Write) a = (None, b)"
    using co_Next_ok [OF ok, of None b] that by (simp add: copying_output_ops_def)
qed (use co_store_ok co_BackUp_ok in \<open>simp_all add: copying_output_ops_def\<close>)

lemma adaptor_start:
  assumes "sound c"
  shows "adaptor_ok (sunk c) (CopyingOutputStreamAdaptor0 fresh c n)" "adaptor_content (sunk c) (CopyingOutputStreamAdaptor0 fresh c n) = []"
  using assms by (simp_all add: CopyingOutputStreamAdaptor0_def adaptor_ok_def adaptor_content_def pending_def kDefaultBlockSize_def)

text \<open>A message reaches the stream below whole, by the time the adaptor is destroyed.\<close>

lemma message_reaches_stream:
  assumes "sound c" "message_ok m" "length (encode_message (message_view m)) < 2 ^ 31"
  obtains z where "SerializeToZeroCopyStream (copying_output_ops Write) m (CopyingOutputStreamAdaptor0 fresh c n) = Some (True, snd (ByteSizeLong m), z)"
    "sunk (destroy_adaptor Write z) = sunk c @ encode_message (message_view m)" "sound (destroy_adaptor Write z)"
proof -
  let ?bs = "encode_message (message_view m)"
  obtain ok z where z: "SerializeToZeroCopyStream (copying_output_ops Write) m (CopyingOutputStreamAdaptor0 fresh c n) = Some (ok, snd (ByteSizeLong m), z)"
    "adaptor_ok (sunk c) z" "ok \<Longrightarrow> adaptor_content (sunk c) z = ?bs" "\<not> ok \<Longrightarrow> 2 ^ 31 < length ?bs"
    using zero_copy_output.SerializeToZeroCopyStream_ok [OF adaptor_is_output adaptor_start(1) [OF assms(1)] assms(2,3), where limit = "2 ^ 31"]
    unfolding adaptor_start(2) [OF assms(1)] append_Nil by blast
  have ok using z(4) assms(3) by fastforce
  obtain w where w: "WriteBuffer Write z = (True, w)" "adaptor_ok (sunk c) w" "adaptor_content (sunk c) w = ?bs" "co_buffer_used w = 0"
    using WriteBuffer_ok [OF z(2)] z(3) [OF \<open>ok\<close>] by metis
  have "pending w = []" using w(4) by (simp add: pending_def split: option.splits)
  then have "drop (length (sunk c)) (sunk (co_copying_stream w)) = ?bs" using w(3) by (simp add: adaptor_content_def)
  moreover have "take (length (sunk c)) (sunk (co_copying_stream w)) = sunk c" using w(2) by (simp add: adaptor_ok_def)
  ultimately have "sunk (co_copying_stream w) = sunk c @ ?bs" by (metis append_take_drop_id)
  then show thesis using that [of z] z(1) \<open>ok\<close> w(1,2) by (simp add: destroy_adaptor_def adaptor_ok_def)
qed

text \<open>The counters of the encoder are at most a buffer ahead of what was written.\<close>

lemma counters_ahead:
  assumes "zero_copy_output.cos_ok (adaptor_ok before) (adaptor_content before) adaptor_handed base c"
  shows "base + o_total_bytes c \<le> length (zero_copy_output.emitted (adaptor_content before) c) + co_buffer_size (o_output c)"
proof -
  note out = adaptor_is_output [of before 0]
  have "o_buffer_size c \<le> co_buffer_size (o_output c)"
    using assms unfolding zero_copy_output.cos_ok_def [OF out] by (cases "o_buffer_size c = 0") (auto simp: adaptor_handed_def)
  moreover have "length (adaptor_content before (o_output c)) = base + o_total_bytes c" "o_buffer_size c \<le> o_total_bytes c"
    using assms unfolding zero_copy_output.cos_ok_def [OF out] by simp_all
  ultimately show ?thesis by (simp add: zero_copy_output.emitted_def [OF out])
qed

end

section \<open>Who learns of an error\<close>

fun write_ok :: "write_answer \<Rightarrow> bool" where
  "write_ok (Wrote n) \<longleftrightarrow> 0 < n"
| "write_ok (WriteError e) \<longleftrightarrow> e = EINTR"

definition fo_sound :: "CopyingFileOutputStream \<Rightarrow> bool" where
  "fo_sound f \<longleftrightarrow> \<not> fo_is_closed f \<and> (\<forall>a\<in>set (fo_answers f). write_ok a)"

lemma write_loop_sound:
  assumes "\<forall>a\<in>set as. write_ok a"
  shows "\<exists>as'. write_loop bs as = (True, None, bs, as') \<and> (\<forall>a\<in>set as'. write_ok a)"
  using assms
proof (induction bs as rule: write_loop.induct)
  case (4 b bs n as)
  then have n: "0 < n" by simp
  then obtain as' where "write_loop (drop n (b # bs)) as = (True, None, drop n (b # bs), as')"
    "\<forall>a\<in>set as'. write_ok a"
    using 4 by auto
  with n show ?case by (simp del: take_Cons' drop_Cons')
qed auto

interpretation posix_output: copying_output fo_Write fo_sound fo_written
proof
  fix f :: CopyingFileOutputStream and bs
  assume "fo_sound f"
  with write_loop_sound [of "fo_answers f" bs]
  show "\<exists>d. fo_Write bs f = (True, d) \<and> fo_sound d \<and> fo_written d = fo_written f @ bs"
    by (auto simp: fo_sound_def fo_Write_def)
qed

definition ostream_sound :: "ostream \<Rightarrow> bool" where
  "ostream_sound s \<longleftrightarrow> os_good s \<and> os_room s = None"

interpretation std_ostream: copying_output ostream_Write ostream_sound os_data
  by unfold_locales (auto simp: ostream_Write_def ostream_write_def ostream_sound_def)

interpretation file_output: zero_copy_output "copying_output_ops fo_Write" "posix_output.adaptor_ok before" "posix_output.adaptor_content before"
    posix_output.adaptor_handed limit for before limit
  by (rule posix_output.adaptor_is_output)

text \<open>Writing a message to a file or to a standard stream puts all its bytes there: writes that are
  interrupted or take only a part are repeated for the rest, and the part that is still in the buffer goes out when the
  stream is destroyed.\<close>

lemma message_to_file:
  assumes "message_ok m" "int (length (encode_message (message_view m))) \<le> INT_MAX - 8192"
    "\<forall>a\<in>set answers. write_ok a" "os_good output" "os_room output = None"
  shows "(\<exists>f. SerializeToFileDescriptor fresh m answers = Some (True, snd (ByteSizeLong m), f) \<and>
      fo_written f = encode_message (message_view m)) \<and>
    (\<exists>s. SerializeToOstream fresh m output = Some (True, snd (ByteSizeLong m), s) \<and>
      os_data s = os_data output @ encode_message (message_view m))"
proof
  have len: "length (encode_message (message_view m)) < 2 ^ 31" using assms(2) by simp
  have "fo_sound (CopyingFileOutputStream0 answers)" using assms(3) by (simp add: fo_sound_def CopyingFileOutputStream0_def)
  then obtain z where "SerializeToZeroCopyStream (copying_output_ops fo_Write) m (FileOutputStream0 fresh answers (-1)) = Some (True, snd (ByteSizeLong m), z)"
    "fo_written (destroy_adaptor fo_Write z) = fo_written (CopyingFileOutputStream0 answers) @ encode_message (message_view m)"
    unfolding FileOutputStream0_def by (rule posix_output.message_reaches_stream [OF _ assms(1) len])
  then show "\<exists>f. SerializeToFileDescriptor fresh m answers = Some (True, snd (ByteSizeLong m), f) \<and>
      fo_written f = encode_message (message_view m)"
    by (simp add: SerializeToFileDescriptor_def CopyingFileOutputStream0_def)
  have "ostream_sound output" using assms(4,5) by (simp add: ostream_sound_def)
  then obtain z where "SerializeToZeroCopyStream (copying_output_ops ostream_Write) m (OstreamOutputStream0 fresh output (-1)) = Some (True, snd (ByteSizeLong m), z)"
    "os_data (destroy_adaptor ostream_Write z) = os_data output @ encode_message (message_view m)"
    "ostream_sound (destroy_adaptor ostream_Write z)"
    unfolding OstreamOutputStream0_def by (rule std_ostream.message_reaches_stream [OF _ assms(1) len])
  then show "\<exists>s. SerializeToOstream fresh m output = Some (True, snd (ByteSizeLong m), s) \<and>
      os_data s = os_data output @ encode_message (message_view m)"
    by (simp add: SerializeToOstream_def ostream_sound_def)
qed

text \<open>C26: A message that fits, written to a file, is read back from it: \<open>SerializeToFileDescriptor\<close> repeats writes
  that are interrupted or take only a part, and the rest of its buffer is written when the stream is
  destroyed; \<open>ParseFromFileDescriptor\<close>, on whatever pieces the reads of that file return, interruptions
  included, returns a message of the same value. A message fits (\<open>message_fits\<close>) if its name, keys and values are UTF-8 and its
  unknown fields are well formed, have none of the class's own tags and nest at most a hundred deep; the encoding must be at
  least one buffer of 8192 bytes shorter than \<open>INT_MAX\<close>, and the writes and reads do not fail other than by interruption.\<close>

theorem file_roundtrip:
  assumes "message_ok m" "message_fits (message_view m)" "message_ok m0"
    "int (length (encode_message (message_view m))) \<le> INT_MAX - 8192" "\<forall>a\<in>set writes. write_ok a"
  shows "\<exists>f. SerializeToFileDescriptor fresh m writes = Some (True, snd (ByteSizeLong m), f) \<and>
    fo_written f = encode_message (message_view m) \<and>
    (\<forall>reads. (\<forall>a\<in>set reads. read_ok a) \<and> answers_content reads = fo_written f \<longrightarrow>
      (\<exists>m'. ParseFromFileDescriptor reads m0 = Some (True, m') \<and> message_ok m' \<and> message_view m' = message_view m))"
proof -
  let ?bs = "encode_message (message_view m)"
  define s where "s = \<lparr>os_data = [], os_good = True, os_room = None\<rparr>"
  obtain f where f: "SerializeToFileDescriptor fresh m writes = Some (True, snd (ByteSizeLong m), f)" "fo_written f = ?bs"
    using message_to_file [OF assms(1,4,5), of s fresh] by (auto simp: s_def)
  have "\<exists>m'. ParseFromFileDescriptor reads m0 = Some (True, m') \<and> message_ok m' \<and> message_view m' = message_view m"
    if reads: "\<forall>a\<in>set reads. read_ok a" "answers_content reads = ?bs" for reads
  proof -
    obtain m' where m': "ParseFromArray ?bs m0 = Some (True, m')" "message_ok m'" "message_view m' = message_view m"
      using ParseFromArray_encode [OF assms(2,3)] by blast
    have "int (length (answers_content reads)) < INT_MAX" using assms(4) reads(2) by simp
    from file_parse_equals [OF reads(1) _ _ _ this, of "\<lparr>is_data = ?bs, is_fail = False, is_eof = False\<rparr>" m0 m'] m' reads(2)
    show ?thesis by auto
  qed
  with f show ?thesis by auto
qed

lemma file_roundtrip_witness:
  "\<exists>f m'. SerializeToFileDescriptor [] (set_apiname [97, 98] ConnectProtocol0) [Wrote 3, WriteError EINTR] =
      Some (True, snd (ByteSizeLong (set_apiname [97, 98] ConnectProtocol0)), f) \<and> fo_written f = [18, 2, 97, 98] \<and>
    ParseFromFileDescriptor [GotBytes [18], GotErrno EINTR, GotBytes [2, 97, 98]] ConnectProtocol0 = Some (True, m') \<and>
    message_view m' = message_view (set_apiname [97, 98] ConnectProtocol0)"
proof -
  have e: "encode_message (empty_view\<lparr>v_apiname := [97, 98]\<rparr>) = [18, 2, 97, 98]" by code_simp
  obtain f where f: "SerializeToFileDescriptor [] (set_apiname [97, 98] ConnectProtocol0) [Wrote 3, WriteError EINTR] =
      Some (True, snd (ByteSizeLong (set_apiname [97, 98] ConnectProtocol0)), f)" "fo_written f = [18, 2, 97, 98]"
    "\<forall>reads. (\<forall>a\<in>set reads. read_ok a) \<and> answers_content reads = fo_written f \<longrightarrow>
      (\<exists>m'. ParseFromFileDescriptor reads ConnectProtocol0 = Some (True, m') \<and> message_ok m' \<and>
        message_view m' = message_view (set_apiname [97, 98] ConnectProtocol0))"
    using file_roundtrip [where m = "set_apiname [97, 98] ConnectProtocol0" and writes = "[Wrote 3, WriteError EINTR]" and fresh = "[]",
        OF named_message(1) _ message_ok_new(1)] named_message(2,3) e by auto
  let ?reads = "[GotBytes [18], GotErrno EINTR, GotBytes [2, 97, 98]]"
  have "\<forall>a\<in>set ?reads. read_ok a" "answers_content ?reads = fo_written f" using f(2) by simp_all
  then obtain m' where "ParseFromFileDescriptor ?reads ConnectProtocol0 = Some (True, m')"
    "message_view m' = message_view (set_apiname [97, 98] ConnectProtocol0)"
    using f(3) by blast
  with f(1,2) show ?thesis by blast
qed

lemma small_message:
  assumes "message_ok m" "length (encode_message (message_view m)) \<le> 8192"
  obtains z where "SerializeToZeroCopyStream (copying_output_ops Write) m (CopyingOutputStreamAdaptor0 fresh c (-1)) =
      Some (True, snd (ByteSizeLong m), z)"
    "fst (co_Flush Write z) = (encode_message (message_view m) = [] \<or> fst (Write (encode_message (message_view m)) c))"
    "destroy_adaptor Write z = (if encode_message (message_view m) = [] then c else snd (Write (encode_message (message_view m)) c))"
proof -
  let ?bs = "encode_message (message_view m)" and ?buf = "resize 8192 fresh"
  obtain n m' where n: "ByteSizeLong m = (n, m')" by force
  note B = ByteSizeLong_view [OF assms(1), unfolded n fst_conv snd_conv]
  have s: "InternalSerialize m' = ?bs" "n = length ?bs" using InternalSerialize_view [OF B(2,4)] B(1,3) assms(2) by simp_all
  define z where "z = (CopyingOutputStreamAdaptor0 fresh c (-1)) \<lparr>co_buffer := Some (overwrite 0 ?bs ?buf), co_buffer_used := length ?bs\<rparr>"
  have "SerializeToZeroCopyStream (copying_output_ops Write) m (CopyingOutputStreamAdaptor0 fresh c (-1)) = Some (True, m', z)"
    using assms(2) n s
    by (simp add: kDefaultBlockSize_def SerializeToZeroCopyStream_def SerializePartialToCodedStream_def CodedOutputStream0_def o_Refresh_def
      copying_output_ops_def co_Next_def co_AllocateBufferIfNeeded_def CopyingOutputStreamAdaptor0_def
      GetDirectBufferForNBytesAndAdvance_def o_Advance_def o_Trim_def co_BackUp_def z_def Let_def)
  moreover have b: "take (length ?bs) (overwrite 0 ?bs ?buf) = ?bs" by (simp add: overwrite_def)
  then have "fst (co_Flush Write z) = (?bs = [] \<or> fst (Write ?bs c))"
    by (simp add: co_Flush_def WriteBuffer_def z_def CopyingOutputStreamAdaptor0_def Let_def case_prod_beta)
  moreover have "destroy_adaptor Write z = (if ?bs = [] then c else snd (Write ?bs c))"
    using b by (simp add: destroy_adaptor_def WriteBuffer_def z_def CopyingOutputStreamAdaptor0_def Let_def case_prod_beta co_FreeBuffer_def)
  ultimately show thesis using that n by simp
qed

text \<open>C28: A failed write to a file is not noticed. A message of up to 8192 bytes is in the buffer when
  \<open>SerializeToFileDescriptor\<close> takes its result, and the destructor of the stream, which writes it, has none: the
  function says true and nothing is in the file. \<open>SerializeToOstream\<close> asks the standard stream after the destructor,
  and notices.\<close>

theorem file_error_unnoticed:
  assumes "message_ok m" "encode_message (message_view m) \<noteq> []" "length (encode_message (message_view m)) \<le> 8192"
    "e \<noteq> EINTR" "os_good output" "os_room output = Some room" "room < length (encode_message (message_view m))"
  shows "(\<exists>f. SerializeToFileDescriptor fresh m (WriteError e # answers) = Some (True, snd (ByteSizeLong m), f) \<and>
      fo_written f = [] \<and> fo_errno f = e) \<and>
    (\<exists>s. SerializeToOstream fresh m output = Some (False, snd (ByteSizeLong m), s))"
proof
  obtain b bs where bs: "encode_message (message_view m) = b # bs" using assms(2) by (cases "encode_message (message_view m)") auto
  obtain z where z: "SerializeToZeroCopyStream (copying_output_ops fo_Write) m (FileOutputStream0 fresh (WriteError e # answers) (-1)) = Some (True, snd (ByteSizeLong m), z)"
    "destroy_adaptor fo_Write z = snd (fo_Write (b # bs) (CopyingFileOutputStream0 (WriteError e # answers)))"
    unfolding FileOutputStream0_def by (rule small_message [OF assms(1,3)]) (simp add: bs)
  then show "\<exists>f. SerializeToFileDescriptor fresh m (WriteError e # answers) = Some (True, snd (ByteSizeLong m), f) \<and>
      fo_written f = [] \<and> fo_errno f = e"
    using assms(4) by (simp add: SerializeToFileDescriptor_def fo_Write_def CopyingFileOutputStream0_def)
  obtain z where z: "SerializeToZeroCopyStream (copying_output_ops ostream_Write) m (OstreamOutputStream0 fresh output (-1)) = Some (True, snd (ByteSizeLong m), z)"
    "destroy_adaptor ostream_Write z = snd (ostream_Write (encode_message (message_view m)) output)"
    unfolding OstreamOutputStream0_def by (rule small_message [OF assms(1,3)]) (simp add: assms(2))
  then show "\<exists>s. SerializeToOstream fresh m output = Some (False, snd (ByteSizeLong m), s)"
    using assms(5-7) by (simp add: SerializeToOstream_def ostream_Write_def ostream_write_def)
qed

lemma file_error_unnoticed_witness:
  "(\<exists>f. SerializeToFileDescriptor [] (set_apiname [97, 98] ConnectProtocol0) [WriteError 28] =
      Some (True, snd (ByteSizeLong (set_apiname [97, 98] ConnectProtocol0)), f) \<and> fo_written f = [] \<and> fo_errno f = 28) \<and>
    (\<exists>s. SerializeToOstream [] (set_apiname [97, 98] ConnectProtocol0) \<lparr>os_data = [], os_good = True, os_room = Some 3\<rparr> =
      Some (False, snd (ByteSizeLong (set_apiname [97, 98] ConnectProtocol0)), s))"
proof -
  have "encode_message (empty_view\<lparr>v_apiname := [97, 98]\<rparr>) = [18, 2, 97, 98]" by code_simp
  then show ?thesis
    using file_error_unnoticed [OF named_message(1), of "[97, 98]" 28 "\<lparr>os_data = [], os_good = True, os_room = Some 3\<rparr>" 3 "[]" "[]"]
    by (simp add: named_message(2) EINTR_def)
qed

text \<open>A caller that closes the stream itself is told.\<close>

lemma close_tells:
  assumes "message_ok m" "encode_message (message_view m) \<noteq> []" "length (encode_message (message_view m)) \<le> 8192" "e \<noteq> EINTR"
  obtains z w where
    "SerializeToZeroCopyStream (copying_output_ops fo_Write) m (FileOutputStream0 fresh (WriteError e # answers) (-1)) =
      Some (True, snd (ByteSizeLong m), z)"
    "FileOutputStream_Close [] z = Some (False, w)"
proof -
  obtain b bs where bs: "encode_message (message_view m) = b # bs" using assms(2) by (cases "encode_message (message_view m)") auto
  obtain z where z: "SerializeToZeroCopyStream (copying_output_ops fo_Write) m (FileOutputStream0 fresh (WriteError e # answers) (-1)) =
      Some (True, snd (ByteSizeLong m), z)"
    "fst (co_Flush fo_Write z) = fst (fo_Write (b # bs) (CopyingFileOutputStream0 (WriteError e # answers)))"
    "destroy_adaptor fo_Write z = snd (fo_Write (b # bs) (CopyingFileOutputStream0 (WriteError e # answers)))"
    unfolding FileOutputStream0_def by (rule small_message [OF assms(1,3)]) (simp add: bs)
  obtain ok a where f: "co_Flush fo_Write z = (ok, a)" by force
  then have "\<not> ok" "\<not> fo_is_closed (co_copying_stream a)"
    using z(2,3) assms(4) by (simp_all add: fo_Write_def CopyingFileOutputStream0_def destroy_adaptor_def co_Flush_def)
  then show thesis using that [OF z(1)] f by (simp add: FileOutputStream_Close_def fo_Close_def)
qed

end
