(* ===== verification/EntryPoints.thy ===== *)
theory EntryPoints
  imports OutputAdaptors
begin

text \<open>
  The entry points of \<open>message_lite.cc\<close> and \<open>message.cc\<close> for messages that may lack required fields. The
  messages of this program have none (\<open>ConnectProtocol.pb.cc\<close>), so that each comes to what the checking one does.
\<close>

section \<open>The code\<close>

definition Parameter_IsInitialized :: "Parameter \<Rightarrow> bool" where
  "Parameter_IsInitialized m \<longleftrightarrow> True"

definition IsInitialized :: "ConnectProtocol \<Rightarrow> bool" where
  "IsInitialized m \<longleftrightarrow> True"

definition MergeFromCodedStream :: "nat \<Rightarrow> cis \<Rightarrow> ConnectProtocol \<Rightarrow> (bool \<times> ConnectProtocol \<times> cis) option" where
  "MergeFromCodedStream fuel input message =
     map_option (\<lambda>(ok, message, input). (ok \<and> IsInitialized message, message, input))
       (MergePartialFromCodedStream fuel message input)"

definition ParseFromCodedStream :: "nat \<Rightarrow> cis \<Rightarrow> ConnectProtocol \<Rightarrow> (bool \<times> ConnectProtocol \<times> cis) option" where
  "ParseFromCodedStream fuel input message = MergeFromCodedStream fuel input (ConnectProtocol_Clear message)"

definition ParsePartialFromCodedStream :: "nat \<Rightarrow> cis \<Rightarrow> ConnectProtocol \<Rightarrow> (bool \<times> ConnectProtocol \<times> cis) option" where
  "ParsePartialFromCodedStream fuel input message =
     MergePartialFromCodedStream fuel (ConnectProtocol_Clear message) input"

definition InlineParsePartialFromArray :: "bytes \<Rightarrow> ConnectProtocol \<Rightarrow> (bool \<times> ConnectProtocol) option" where
  "InlineParsePartialFromArray data message =
     (case ParsePartialFromCodedStream (Suc (length data)) (CodedInputStream data (int (length data))) message of
        None \<Rightarrow> None
      | Some (ok, message, input) \<Rightarrow> Some (ok \<and> ConsumedEntireMessage input, message))"

definition ParsePartialFromArray :: "bytes \<Rightarrow> ConnectProtocol \<Rightarrow> (bool \<times> ConnectProtocol) option" where
  "ParsePartialFromArray data message = InlineParsePartialFromArray data message"

definition ParsePartialFromString :: "bytes \<Rightarrow> ConnectProtocol \<Rightarrow> (bool \<times> ConnectProtocol) option" where
  "ParsePartialFromString data message = InlineParsePartialFromArray data message"

definition ParsePartialFromZeroCopyStream ::
    "ZeroCopyInputStream \<Rightarrow> ConnectProtocol \<Rightarrow> (bool \<times> ConnectProtocol \<times> ZeroCopyInputStream option) option" where
  "ParsePartialFromZeroCopyStream input message =
     (case ParsePartialFromCodedStream (Suc (unread input)) (CodedInputStream_of input) message of
        None \<Rightarrow> None
      | Some (ok, message, decoder) \<Rightarrow> Some (ok \<and> ConsumedEntireMessage decoder, message, destroy_decoder decoder))"

definition ParsePartialFromBoundedZeroCopyStream ::
    "ZeroCopyInputStream \<Rightarrow> int \<Rightarrow> ConnectProtocol \<Rightarrow> (bool \<times> ConnectProtocol \<times> ZeroCopyInputStream option) option" where
  "ParsePartialFromBoundedZeroCopyStream input size' message =
     (let (old, decoder) = PushLimit size' (CodedInputStream_of input)
      in case ParsePartialFromCodedStream (Suc (unread input)) decoder message of
           None \<Rightarrow> None
         | Some (ok, message, decoder) \<Rightarrow>
             Some (ok \<and> ConsumedEntireMessage decoder \<and> BytesUntilLimit decoder = 0, message, destroy_decoder decoder))"

definition ParsePartialFromFileDescriptor :: "read_answer list \<Rightarrow> ConnectProtocol \<Rightarrow> (bool \<times> ConnectProtocol) option" where
  "ParsePartialFromFileDescriptor answers message =
     (case ParsePartialFromZeroCopyStream (FileIn (FileInputStream0 answers (-1))) message of
        Some (ok, message, Some input) \<Rightarrow> Some (ok \<and> stream_GetErrno input = 0, message)
      | _ \<Rightarrow> None)"

definition ParsePartialFromIstream :: "istream \<Rightarrow> ConnectProtocol \<Rightarrow> (bool \<times> ConnectProtocol) option" where
  "ParsePartialFromIstream input message =
     (case ParsePartialFromZeroCopyStream (IstreamIn (IstreamInputStream0 input (-1))) message of
        Some (ok, message, Some zero_copy) \<Rightarrow> Some (ok \<and> stream_eof zero_copy, message)
      | _ \<Rightarrow> None)"

text \<open>What does not check on the way out. A \<open>GOOGLE_DCHECK\<close> of \<open>IsInitialized\<close> in the others never fails here.\<close>

definition SerializeToCodedStream ::
  "'z zero_copy_ops \<Rightarrow> ConnectProtocol \<Rightarrow> 'z cos \<Rightarrow> (bool \<times> ConnectProtocol \<times> 'z cos) option" where
  "SerializeToCodedStream ops m output = (if IsInitialized m then SerializePartialToCodedStream ops m output else None)"

definition SerializePartialToZeroCopyStream ::
  "'z zero_copy_ops \<Rightarrow> ConnectProtocol \<Rightarrow> 'z \<Rightarrow> (bool \<times> ConnectProtocol \<times> 'z) option" where
  "SerializePartialToZeroCopyStream ops m output =
     do { (ok, m, encoder) \<leftarrow> SerializePartialToCodedStream ops m (CodedOutputStream0 ops output);
          encoder \<leftarrow> o_Trim ops encoder;
          Some (ok, m, o_output encoder) }"

definition SerializePartialToString :: "ConnectProtocol \<Rightarrow> bytes \<Rightarrow> (bool \<times> ConnectProtocol \<times> bytes) option" where
  "SerializePartialToString m output = AppendPartialToString m []"

definition SerializePartialAsString :: "ConnectProtocol \<Rightarrow> (ConnectProtocol \<times> bytes) option" where
  "SerializePartialAsString m =
     do { (ok, m, output) \<leftarrow> AppendPartialToString m []; Some (m, if ok then output else []) }"

definition SerializePartialToFileDescriptor ::
  "bytes \<Rightarrow> ConnectProtocol \<Rightarrow> write_answer list \<Rightarrow> (bool \<times> ConnectProtocol \<times> CopyingFileOutputStream) option" where
  "SerializePartialToFileDescriptor fresh m answers =
     do { (ok, m, output) \<leftarrow> SerializePartialToZeroCopyStream (copying_output_ops fo_Write) m (FileOutputStream0 fresh answers (-1));
          Some (ok, m, destroy_adaptor fo_Write output) }"

definition SerializePartialToOstream ::
  "bytes \<Rightarrow> ConnectProtocol \<Rightarrow> ostream \<Rightarrow> (bool \<times> ConnectProtocol \<times> ostream) option" where
  "SerializePartialToOstream fresh m output =
     do { (ok, m, zero_copy) \<leftarrow> SerializePartialToZeroCopyStream (copying_output_ops ostream_Write) m (OstreamOutputStream0 fresh output (-1));
          Some (ok, m, destroy_adaptor ostream_Write zero_copy) }"

section \<open>They agree\<close>

lemma checked_parse: "MergeFromCodedStream fuel input m = MergePartialFromCodedStream fuel m input"
  by (cases "MergePartialFromCodedStream fuel m input")
    (auto simp: MergeFromCodedStream_def IsInitialized_def simp del: MergePartialFromCodedStream.simps)

lemma partial_parse:
  "ParsePartialFromArray data m = ParseFromArray data m" "ParsePartialFromString data m = ParseFromString data m"
  "ParsePartialFromCodedStream fuel input m = ParseFromCodedStream fuel input m"
  "ParsePartialFromZeroCopyStream z m = ParseFromZeroCopyStream z m"
  "ParsePartialFromBoundedZeroCopyStream z n m = ParseFromBoundedZeroCopyStream z n m"
proof -
  show a: "ParsePartialFromArray data m = ParseFromArray data m"
    by (simp add: ParsePartialFromArray_def InlineParsePartialFromArray_def ParsePartialFromCodedStream_def
        ParseFromArray_def Let_def del: MergePartialFromCodedStream.simps)
  then show "ParsePartialFromString data m = ParseFromString data m"
    by (simp add: ParsePartialFromArray_def ParsePartialFromString_def ParseFromString_def)
  show "ParsePartialFromCodedStream fuel input m = ParseFromCodedStream fuel input m"
    by (simp add: ParsePartialFromCodedStream_def ParseFromCodedStream_def checked_parse)
  show "ParsePartialFromZeroCopyStream z m = ParseFromZeroCopyStream z m"
    "ParsePartialFromBoundedZeroCopyStream z n m = ParseFromBoundedZeroCopyStream z n m"
    by (simp_all add: ParsePartialFromZeroCopyStream_def ParsePartialFromBoundedZeroCopyStream_def ParsePartialFromCodedStream_def
        ParseFromZeroCopyStream_def ParseFromBoundedZeroCopyStream_def InlineParseFromCodedStream_def
        InlineMergeFromCodedStream_def Let_def del: MergePartialFromCodedStream.simps)
qed

lemma partial_file_parse:
  "ParsePartialFromFileDescriptor answers m = ParseFromFileDescriptor answers m"
  "ParsePartialFromIstream s m = ParseFromIstream s m"
  by (simp_all add: ParsePartialFromFileDescriptor_def ParseFromFileDescriptor_def ParsePartialFromIstream_def
      ParseFromIstream_def partial_parse(4))

lemma partial_serialize:
  "SerializeToCodedStream ops m c = SerializePartialToCodedStream ops m c"
  "SerializePartialToZeroCopyStream ops m z = SerializeToZeroCopyStream ops m z"
  "SerializePartialToString m out = SerializeToString m out" "SerializePartialAsString m = SerializeAsString m"
  by (simp_all add: SerializeToCodedStream_def IsInitialized_def SerializePartialToZeroCopyStream_def SerializeToZeroCopyStream_def
      SerializePartialToString_def SerializeToString_def SerializePartialAsString_def SerializeAsString_def AppendToString_def)

text \<open>All but one: on a standard stream only the function that checks asks, afterwards, whether all was written.\<close>

lemma partial_file_serialize:
  "SerializePartialToFileDescriptor fresh m answers = SerializeToFileDescriptor fresh m answers"
  "SerializeToOstream fresh m output =
    map_option (\<lambda>(ok, m, s). (ok \<and> os_good s, m, s)) (SerializePartialToOstream fresh m output)"
  by (auto simp: SerializePartialToFileDescriptor_def SerializeToFileDescriptor_def SerializePartialToOstream_def
      SerializeToOstream_def partial_serialize(2) Let_def split: Option.bind_splits prod.splits)

end
