(* ===== verification/RepeatedField.thy ===== *)
theory RepeatedField
  imports RepeatedPtr
begin

text \<open>
  \<open>RepeatedField<Element>\<close> (\<open>repeated_field.h\<close>), the array of a repeated field of numbers, off any arena.
  \<open>rf_storage\<close> is \<open>rep_->elements\<close>, all \<open>total_size_\<close> of them, and empty while \<open>rep_\<close> is \<open>NULL\<close>; the elements of
  the field are the first \<open>rf_size\<close>. What lies behind them is whatever was there: new storage is
  filled with the argument \<open>junk\<close>, which stands for uninitialised memory. \<open>None\<close> is an access outside
  the storage. Sizes are \<open>int\<close>s of 32 bits, which wrap (\<open>c_int\<close>) where the source adds or doubles them without a check.
\<close>

section \<open>The field and its operations\<close>

record 'a RepeatedField =
  rf_storage :: "'a list"
  rf_size :: int

definition RepeatedField0 :: "'a RepeatedField" where
  "RepeatedField0 = \<lparr>rf_storage = [], rf_size = 0\<rparr>"

definition rf_empty :: "'a RepeatedField \<Rightarrow> bool" where
  "rf_empty f \<longleftrightarrow> rf_size f = 0"

definition rf_Capacity :: "'a RepeatedField \<Rightarrow> int" where
  "rf_Capacity f = int (length (rf_storage f))"

definition rf_Reserve :: "'a \<Rightarrow> int \<Rightarrow> 'a RepeatedField \<Rightarrow> 'a RepeatedField" where
  "rf_Reserve junk new_size f =
     (if rf_Capacity f \<ge> new_size then f
      else let new_size = max (int kMinRepeatedFieldAllocationSize) (max (c_int (rf_Capacity f * 2)) new_size)
           in f\<lparr>rf_storage := take (nat (rf_size f)) (rf_storage f) @ replicate (nat new_size - nat (rf_size f)) junk\<rparr>)"

text \<open>Reading and writing \<open>rep_->elements[index]\<close>.\<close>

definition rf_Get :: "int \<Rightarrow> 'a RepeatedField \<Rightarrow> 'a option" where
  "rf_Get index f = (if 0 \<le> index \<and> index < rf_Capacity f then Some (rf_storage f ! nat index) else None)"

definition rf_Set :: "int \<Rightarrow> 'a \<Rightarrow> 'a RepeatedField \<Rightarrow> 'a RepeatedField option" where
  "rf_Set index v f =
     (if 0 \<le> index \<and> index < rf_Capacity f then Some (f\<lparr>rf_storage := (rf_storage f)[nat index := v]\<rparr>) else None)"

text \<open>What the holder of the pointer \<open>Mutable(index)\<close> returned does through it.\<close>

definition rf_Mutable :: "int \<Rightarrow> ('a \<Rightarrow> 'a) \<Rightarrow> 'a RepeatedField \<Rightarrow> 'a RepeatedField option" where
  "rf_Mutable index g f = Option.bind (rf_Get index f) (\<lambda>v. rf_Set index (g v) f)"

definition rf_AddAlreadyReserved :: "'a \<Rightarrow> 'a RepeatedField \<Rightarrow> 'a RepeatedField option" where
  "rf_AddAlreadyReserved v f = rf_Set (rf_size f) v (f\<lparr>rf_size := c_int (rf_size f + 1)\<rparr>)"

definition rf_Add :: "'a \<Rightarrow> 'a \<Rightarrow> 'a RepeatedField \<Rightarrow> 'a RepeatedField option" where
  "rf_Add junk v f =
     (let f = (if rf_size f = rf_Capacity f then rf_Reserve junk (c_int (rf_Capacity f + 1)) f else f)
      in rf_Set (rf_size f) v (f\<lparr>rf_size := c_int (rf_size f + 1)\<rparr>))"

definition rf_RemoveLast :: "'a RepeatedField \<Rightarrow> 'a RepeatedField" where
  "rf_RemoveLast f = f\<lparr>rf_size := rf_size f - 1\<rparr>"

definition rf_Truncate :: "int \<Rightarrow> 'a RepeatedField \<Rightarrow> 'a RepeatedField" where
  "rf_Truncate new_size f = (if rf_size f > 0 then f\<lparr>rf_size := new_size\<rparr> else f)"

definition rf_Clear :: "'a RepeatedField \<Rightarrow> 'a RepeatedField" where
  "rf_Clear f = f\<lparr>rf_size := 0\<rparr>"

text \<open>\<open>std::fill\<close> and \<open>CopyArray\<close>: consecutive stores from an index on.\<close>

fun rf_store :: "int \<Rightarrow> 'a list \<Rightarrow> 'a RepeatedField \<Rightarrow> 'a RepeatedField option" where
  "rf_store index [] f = Some f"
| "rf_store index (v # vs) f = Option.bind (rf_Set index v f) (rf_store (index + 1) vs)"

definition rf_Resize :: "'a \<Rightarrow> int \<Rightarrow> 'a \<Rightarrow> 'a RepeatedField \<Rightarrow> 'a RepeatedField option" where
  "rf_Resize junk new_size v f =
     (if new_size > rf_size f
      then map_option (\<lambda>f. f\<lparr>rf_size := new_size\<rparr>)
             (rf_store (rf_size f) (replicate (nat (new_size - rf_size f)) v) (rf_Reserve junk new_size f))
      else Some (f\<lparr>rf_size := new_size\<rparr>))"

definition rf_MergeFrom :: "'a \<Rightarrow> 'a RepeatedField \<Rightarrow> 'a RepeatedField \<Rightarrow> 'a RepeatedField option" where
  "rf_MergeFrom junk other f =
     (if rf_size other \<noteq> 0
      then map_option (\<lambda>g. g\<lparr>rf_size := c_int (rf_size f + rf_size other)\<rparr>)
             (rf_store (rf_size f) (take (nat (rf_size other)) (rf_storage other))
               (rf_Reserve junk (c_int (rf_size f + rf_size other)) f))
      else Some f)"

text \<open>\<open>None\<close> as \<open>other\<close> is the field itself.\<close>

definition rf_CopyFrom :: "'a \<Rightarrow> 'a RepeatedField option \<Rightarrow> 'a RepeatedField \<Rightarrow> 'a RepeatedField option" where
  "rf_CopyFrom junk other f =
     (case other of None \<Rightarrow> Some f | Some other \<Rightarrow> rf_MergeFrom junk other (rf_Clear f))"

definition rf_copy :: "'a \<Rightarrow> 'a RepeatedField \<Rightarrow> 'a RepeatedField option" where
  "rf_copy junk other =
     (if rf_size other \<noteq> 0
      then map_option (\<lambda>g. g\<lparr>rf_size := rf_size other\<rparr>)
             (rf_store 0 (take (nat (rf_size other)) (rf_storage other)) (rf_Reserve junk (rf_size other) RepeatedField0))
      else Some RepeatedField0)"

text \<open>The two loops of \<open>ExtractSubrange\<close>, and the whole.\<close>

fun rf_read :: "int \<Rightarrow> nat \<Rightarrow> 'a RepeatedField \<Rightarrow> 'a list option" where
  "rf_read index 0 f = Some []"
| "rf_read index (Suc n) f = Option.bind (rf_Get index f) (\<lambda>v. map_option ((#) v) (rf_read (index + 1) n f))"

fun rf_slide :: "int \<Rightarrow> int \<Rightarrow> nat \<Rightarrow> 'a RepeatedField \<Rightarrow> 'a RepeatedField option" where
  "rf_slide num i 0 f = Some f"
| "rf_slide num i (Suc n) f =
     Option.bind (rf_Get i f) (\<lambda>v. Option.bind (rf_Set (i - num) v f) (rf_slide num (i + 1) n))"

definition rf_ExtractSubrange :: "int \<Rightarrow> int \<Rightarrow> 'a RepeatedField \<Rightarrow> ('a list \<times> 'a RepeatedField) option" where
  "rf_ExtractSubrange start num f =
     Option.bind (rf_read start (nat num) f) (\<lambda>extracted.
       if num > 0
       then map_option (\<lambda>g. (extracted, rf_Truncate (rf_size g - num) g))
              (rf_slide num (start + num) (nat (rf_size f - (start + num))) f)
       else Some (extracted, f))"

text \<open>\<open>erase(first, last)\<close>, with \<open>std::copy\<close> down from \<open>last\<close>.\<close>

definition rf_erase :: "int \<Rightarrow> int \<Rightarrow> 'a RepeatedField \<Rightarrow> 'a RepeatedField option" where
  "rf_erase first' last' f =
     (if first' \<noteq> last'
      then map_option (\<lambda>g. rf_Truncate (first' + (rf_size f - last')) g)
             (rf_slide (last' - first') last' (nat (rf_size f - last')) f)
      else Some f)"

definition rf_InternalSwap :: "'a RepeatedField \<Rightarrow> 'a RepeatedField \<Rightarrow> 'a RepeatedField \<times> 'a RepeatedField" where
  "rf_InternalSwap f other = (other, f)"

definition rf_SwapElements :: "int \<Rightarrow> int \<Rightarrow> 'a RepeatedField \<Rightarrow> 'a RepeatedField option" where
  "rf_SwapElements index1 index2 f =
     Option.bind (rf_Get index1 f) (\<lambda>a. Option.bind (rf_Get index2 f) (\<lambda>b.
       Option.bind (rf_Set index1 b f) (rf_Set index2 a)))"

section \<open>The list it stands for\<close>

text \<open>The first \<open>rf_size\<close> elements of the storage are the list, and the size of the storage is an \<open>int\<close>.\<close>

definition rf_ok :: "'a RepeatedField \<Rightarrow> bool" where
  "rf_ok f \<longleftrightarrow> 0 \<le> rf_size f \<and> rf_size f \<le> rf_Capacity f \<and> rf_Capacity f \<le> INT_MAX"

definition rf_list :: "'a RepeatedField \<Rightarrow> 'a list" where
  "rf_list f = take (nat (rf_size f)) (rf_storage f)"

definition rf_shows :: "'a RepeatedField \<Rightarrow> 'a list \<Rightarrow> bool" where
  "rf_shows f xs \<longleftrightarrow> rf_ok f \<and> rf_list f = xs"

lemma rf_showsE:
  assumes "rf_shows f xs"
  obtains ys where "rf_storage f = xs @ ys" "rf_size f = int (length xs)" "int (length (xs @ ys)) \<le> INT_MAX"
proof -
  have s: "rf_storage f = xs @ drop (nat (rf_size f)) (rf_storage f)"
    using assms append_take_drop_id [of "nat (rf_size f)" "rf_storage f"] by (simp add: rf_shows_def rf_list_def)
  moreover have "rf_size f = int (length xs)"
    using assms by (auto simp: rf_shows_def rf_list_def rf_ok_def rf_Capacity_def)
  moreover have "int (length (xs @ drop (nat (rf_size f)) (rf_storage f))) \<le> INT_MAX"
    unfolding s [symmetric] using assms by (simp add: rf_shows_def rf_ok_def rf_Capacity_def)
  ultimately show thesis using that by blast
qed

lemma rf_showsI:
  "rf_storage f = xs @ ys \<Longrightarrow> rf_size f = int (length xs) \<Longrightarrow> int (length (xs @ ys)) \<le> INT_MAX \<Longrightarrow> rf_shows f xs"
  by (simp add: rf_shows_def rf_ok_def rf_Capacity_def rf_list_def)

lemma rf_shows_size: "rf_shows f xs \<Longrightarrow> rf_size f = int (length xs)"
  by (erule rf_showsE) simp

lemma rf_shows_bounds:
  assumes "rf_shows f xs"
  shows "int (length xs) \<le> rf_Capacity f" "rf_Capacity f \<le> INT_MAX" "int (length xs) \<le> INT_MAX"
  using assms rf_shows_size [OF assms] by (auto simp: rf_shows_def rf_ok_def)

lemma rf_shows_new: "rf_shows RepeatedField0 []"
  by (rule rf_showsI [of _ _ "[]"]) (simp_all add: RepeatedField0_def)

lemma rf_Reserve_shows:
  assumes "rf_shows f xs" "n \<le> INT_MAX"
  shows "rf_shows (rf_Reserve junk n f) xs" "n \<le> rf_Capacity (rf_Reserve junk n f)"
    "rf_Capacity f \<le> rf_Capacity (rf_Reserve junk n f)" "rf_size (rf_Reserve junk n f) = rf_size f"
proof -
  obtain ys where f: "rf_storage f = xs @ ys" "rf_size f = int (length xs)" "int (length (xs @ ys)) \<le> INT_MAX"
    by (rule rf_showsE [OF assms(1)])
  let ?m = "max (int kMinRepeatedFieldAllocationSize) (max (c_int (rf_Capacity f * 2)) n)"
  have m: "?m \<le> INT_MAX" using assms(2) c_int_max [of "rf_Capacity f * 2"] by (simp add: kMinRepeatedFieldAllocationSize_def)
  show "rf_shows (rf_Reserve junk n f) xs"
  proof (cases "rf_Capacity f \<ge> n")
    case True
    with assms show ?thesis by (simp add: rf_Reserve_def)
  next
    case False
    then have "int (length xs) < n" using rf_shows_bounds [OF assms(1)] by simp
    then have "length xs \<le> nat ?m" by (simp add: le_nat_iff)
    then have "int (length (xs @ replicate (nat ?m - length xs) junk)) \<le> INT_MAX" using m by (simp add: nat_le_iff)
    then show ?thesis using f False
      by (intro rf_showsI [of _ _ "replicate (nat ?m - length xs) junk"]) (simp_all add: rf_Reserve_def Let_def)
  qed
  show "n \<le> rf_Capacity (rf_Reserve junk n f)" "rf_Capacity f \<le> rf_Capacity (rf_Reserve junk n f)"
    "rf_size (rf_Reserve junk n f) = rf_size f"
    using f by (auto simp: rf_Reserve_def rf_Capacity_def Let_def)
qed

lemma rf_Get_shows: "rf_shows f xs \<Longrightarrow> i < length xs \<Longrightarrow> rf_Get (int i) f = Some (xs ! i)"
  by (erule rf_showsE) (simp add: rf_Get_def rf_Capacity_def nth_append)

lemma rf_Set_shows:
  assumes "rf_shows f xs" "i < length xs"
  shows "\<exists>g. rf_Set (int i) v f = Some g \<and> rf_shows g (xs[i := v])"
proof -
  obtain ys where f: "rf_storage f = xs @ ys" "rf_size f = int (length xs)" "int (length (xs @ ys)) \<le> INT_MAX"
    by (rule rf_showsE [OF assms(1)])
  then show ?thesis using assms(2)
    by (auto simp: rf_Set_def rf_Capacity_def list_update_append intro!: rf_showsI [of _ _ ys])
qed

text \<open>A store behind the last element, and a run of them.\<close>

lemma rf_store_size: "rf_store i vs (h\<lparr>rf_size := k\<rparr>) = map_option (\<lambda>g. g\<lparr>rf_size := k\<rparr>) (rf_store i vs h)"
proof (induction vs arbitrary: i h)
  case (Cons w ws)
  have "rf_Set i w (h\<lparr>rf_size := k\<rparr>) = map_option (\<lambda>g. g\<lparr>rf_size := k\<rparr>) (rf_Set i w h)"
    by (simp add: rf_Set_def rf_Capacity_def)
  then show ?case using Cons by (cases "rf_Set i w h") simp_all
qed simp

lemma rf_store_shows:
  assumes "rf_shows f xs" "int (length xs + length vs) \<le> rf_Capacity f"
  shows "\<exists>g. rf_store (rf_size f) vs f = Some g \<and> rf_shows (g\<lparr>rf_size := int (length xs + length vs)\<rparr>) (xs @ vs) \<and>
    rf_Capacity g = rf_Capacity f"
  using assms
proof (induction vs arbitrary: f xs)
  case Nil
  moreover have "f\<lparr>rf_size := int (length xs)\<rparr> = f" using rf_shows_size [OF Nil.prems(1)] by (cases f) simp
  ultimately show ?case by simp
next
  case (Cons v vs)
  obtain ys where f: "rf_storage f = xs @ ys" "rf_size f = int (length xs)" "int (length (xs @ ys)) \<le> INT_MAX"
    by (rule rf_showsE [OF Cons.prems(1)])
  then obtain y zs where ys: "ys = y # zs" using Cons.prems(2) by (cases ys) (auto simp: rf_Capacity_def)
  let ?g = "f\<lparr>rf_storage := xs @ v # zs, rf_size := int (length xs) + 1\<rparr>"
  have set: "rf_Set (rf_size f) v f = Some (?g\<lparr>rf_size := rf_size f\<rparr>)"
    using f ys by (cases f) (simp add: rf_Set_def rf_Capacity_def list_update_append)
  have "rf_shows ?g (xs @ [v])" by (rule rf_showsI [of _ _ zs]) (use f(3) ys in simp_all)
  moreover have "int (length (xs @ [v]) + length vs) \<le> rf_Capacity ?g"
    using Cons.prems(2) f ys by (simp add: rf_Capacity_def)
  ultimately obtain g where g: "rf_store (rf_size ?g) vs ?g = Some g"
    "rf_shows (g\<lparr>rf_size := int (length (xs @ [v]) + length vs)\<rparr>) ((xs @ [v]) @ vs)" "rf_Capacity g = rf_Capacity ?g"
    using Cons.IH by blast
  have "rf_store (rf_size f) (v # vs) f = Some (g\<lparr>rf_size := rf_size f\<rparr>)"
    using set g(1) rf_store_size [where i = "int (length xs) + 1" and vs = vs and h = ?g and k = "rf_size f"] f(2) by simp
  moreover have "rf_Capacity (g\<lparr>rf_size := rf_size f\<rparr>) = rf_Capacity f"
    using g(3) f ys by (simp add: rf_Capacity_def)
  ultimately show ?case using g(2) by simp
qed

lemma rf_store_after:
  assumes "rf_shows f xs" "int (length xs + length vs) \<le> rf_Capacity f" "n = int (length xs + length vs)" "k = int (length xs)"
  obtains g where "rf_store k vs f = Some g" "rf_shows (g\<lparr>rf_size := n\<rparr>) (xs @ vs)" "rf_Capacity g = rf_Capacity f"
  using rf_store_shows [OF assms(1,2)] assms(3,4) rf_shows_size [OF assms(1)] by auto

text \<open>One element more.\<close>

lemma rf_AddAlreadyReserved_shows:
  assumes "rf_shows f xs" "int (length xs) < rf_Capacity f"
  shows "\<exists>g. rf_AddAlreadyReserved v f = Some g \<and> rf_shows g (xs @ [v]) \<and> rf_Capacity g = rf_Capacity f"
proof -
  have "c_int (rf_size f + 1) = rf_size f + 1"
    using assms(2) rf_shows_size [OF assms(1)] rf_shows_bounds [OF assms(1)] by (intro c_int_small) simp_all
  then have eq: "rf_AddAlreadyReserved v f = map_option (\<lambda>g. g\<lparr>rf_size := rf_size f + 1\<rparr>) (rf_store (rf_size f) [v] f)"
    by (simp add: rf_AddAlreadyReserved_def rf_Set_def rf_Capacity_def)
  obtain g where "rf_store (rf_size f) [v] f = Some g" "rf_shows (g\<lparr>rf_size := rf_size f + 1\<rparr>) (xs @ [v])"
    "rf_Capacity g = rf_Capacity f"
    using rf_store_after [OF assms(1), of "[v]" "rf_size f + 1" "rf_size f"] assms rf_shows_size [OF assms(1)] by auto
  then show ?thesis unfolding eq by (simp add: rf_Capacity_def)
qed

lemma rf_Add_shows:
  assumes f: "rf_shows f xs" and n: "int (length xs) < INT_MAX"
  shows "\<exists>g. rf_Add junk v f = Some g \<and> rf_shows g (xs @ [v]) \<and> rf_Capacity f \<le> rf_Capacity g"
proof -
  let ?f = "if rf_size f = rf_Capacity f then rf_Reserve junk (c_int (rf_Capacity f + 1)) f else f"
  note size = rf_shows_size [OF f] and bounds = rf_shows_bounds [OF f]
  note r = rf_Reserve_shows [OF f c_int_max [of "rf_Capacity f + 1"], where junk = junk]
  have s: "rf_shows ?f xs" "rf_Capacity f \<le> rf_Capacity ?f" using f r by simp_all
  have "c_int (rf_Capacity f + 1) = rf_Capacity f + 1" if "rf_size f = rf_Capacity f"
    using that n size by (intro c_int_small) simp_all
  then have "int (length xs) < rf_Capacity ?f" using r(2) size bounds by auto
  from rf_AddAlreadyReserved_shows [OF s(1) this, of v] s(2) show ?thesis
    by (auto simp: rf_Add_def rf_AddAlreadyReserved_def Let_def)
qed

text \<open>Fewer elements.\<close>

lemma rf_shows_less:
  assumes "rf_shows f xs" "n \<le> length xs"
  shows "rf_shows (f\<lparr>rf_size := int n\<rparr>) (take n xs)"
proof -
  obtain ys where f: "rf_storage f = xs @ ys" "int (length (xs @ ys)) \<le> INT_MAX" by (rule rf_showsE [OF assms(1)])
  then have "rf_storage f = take n xs @ drop n xs @ ys" by simp
  then show ?thesis using assms(2) f(2) by (intro rf_showsI [of _ _ "drop n xs @ ys"]) simp_all
qed

lemma rf_RemoveLast_shows:
  assumes "rf_shows f xs" "xs \<noteq> []"
  shows "rf_shows (rf_RemoveLast f) (butlast xs)"
proof -
  have "rf_RemoveLast f = f\<lparr>rf_size := int (length xs - 1)\<rparr>"
    using assms(2) rf_shows_size [OF assms(1)] by (simp add: rf_RemoveLast_def of_nat_diff Suc_leI)
  then show ?thesis using rf_shows_less [OF assms(1), of "length xs - 1"] by (simp add: butlast_conv_take)
qed

lemma rf_Truncate_shows:
  assumes "rf_shows f xs" "n \<le> length xs"
  shows "rf_shows (rf_Truncate (int n) f) (take n xs)"
  using assms rf_shows_less [OF assms] rf_shows_size [OF assms(1)] by (cases "xs = []") (auto simp: rf_Truncate_def)

lemma rf_Clear_shows: "rf_shows f xs \<Longrightarrow> rf_shows (rf_Clear f) []"
  using rf_shows_less [of f xs 0] by (simp add: rf_Clear_def)

lemma rf_Resize_shows:
  assumes f: "rf_shows f xs" and max: "int n \<le> INT_MAX"
  shows "\<exists>g. rf_Resize junk (int n) v f = Some g \<and> rf_shows g (take n xs @ replicate (n - length xs) v)"
proof (cases "length xs < n")
  case False
  then show ?thesis using rf_shows_less [OF f, of n] rf_shows_size [OF f] by (simp add: rf_Resize_def)
next
  case True
  let ?f = "rf_Reserve junk (int n) f" and ?vs = "replicate (n - length xs) v"
  note r = rf_Reserve_shows [OF f max, where junk = junk]
  have n: "int (length xs + length ?vs) = int n" using True by simp
  obtain g where g: "rf_store (int (length xs)) ?vs ?f = Some g" "rf_shows (g\<lparr>rf_size := int n\<rparr>) (xs @ ?vs)"
    using rf_store_after [OF r(1), of ?vs "int n" "int (length xs)"] n r(2) by metis
  have "nat (int n - int (length xs)) = n - length xs" by simp
  with g True show ?thesis by (simp add: rf_Resize_def rf_shows_size [OF f])
qed

lemma rf_MergeFrom_shows:
  assumes f: "rf_shows f xs" and g: "rf_shows other ys" and max: "int (length xs + length ys) \<le> INT_MAX"
  shows "\<exists>h. rf_MergeFrom junk other f = Some h \<and> rf_shows h (xs @ ys)"
proof (cases "ys = []")
  case True
  then show ?thesis using f rf_shows_size [OF g] by (simp add: rf_MergeFrom_def)
next
  case False
  let ?n = "int (length xs + length ys)"
  let ?f = "rf_Reserve junk ?n f"
  note r = rf_Reserve_shows [OF f max, where junk = junk]
  have n: "c_int (int (length xs) + int (length ys)) = ?n" using max by (simp add: c_int_small)
  have ys: "take (length ys) (rf_storage other) = ys" using g rf_shows_size [OF g] by (simp add: rf_shows_def rf_list_def)
  obtain h where "rf_store (int (length xs)) ys ?f = Some h" "rf_shows (h\<lparr>rf_size := ?n\<rparr>) (xs @ ys)"
    by (rule rf_store_after [OF r(1,2) refl refl])
  with False ys n show ?thesis by (simp add: rf_MergeFrom_def rf_shows_size [OF f] rf_shows_size [OF g])
qed

lemma rf_copy_shows:
  assumes "rf_shows other ys"
  shows "\<exists>h. rf_copy junk other = Some h \<and> rf_shows h ys"
proof -
  have "c_int (rf_size other) = rf_size other"
    using rf_shows_size [OF assms] rf_shows_bounds [OF assms] by (intro c_int_small) simp_all
  then have "rf_copy junk other = rf_MergeFrom junk other RepeatedField0"
    by (simp add: rf_copy_def rf_MergeFrom_def RepeatedField0_def)
  then show ?thesis using rf_MergeFrom_shows [OF rf_shows_new assms, of junk] rf_shows_bounds [OF assms] by simp
qed

lemma rf_SwapElements_shows:
  assumes f: "rf_shows f xs" and i: "i < length xs" "j < length xs"
  shows "\<exists>g. rf_SwapElements (int i) (int j) f = Some g \<and> rf_shows g (xs[i := xs ! j, j := xs ! i])"
proof -
  obtain g where g: "rf_Set (int i) (xs ! j) f = Some g" "rf_shows g (xs[i := xs ! j])" using rf_Set_shows [OF f i(1)] by blast
  obtain h where "rf_Set (int j) (xs ! i) g = Some h" "rf_shows h (xs[i := xs ! j, j := xs ! i])"
    using rf_Set_shows [OF g(2), of j] i(2) by auto
  then show ?thesis using g(1) by (simp add: rf_SwapElements_def rf_Get_shows [OF f] i)
qed

text \<open>Taking elements out of the middle.\<close>

lemma rf_read_shows: "rf_shows f xs \<Longrightarrow> i + n \<le> length xs \<Longrightarrow> rf_read (int i) n f = Some (take n (drop i xs))"
proof (induction n arbitrary: i)
  case (Suc n)
  then show ?case using rf_Get_shows [of f xs i] Suc.IH [of "Suc i"]
    by (simp add: Cons_nth_drop_Suc [symmetric] add.commute [of 1])
qed simp

lemma rf_slide_shows:
  assumes "rf_shows f xs" "i + n \<le> length xs" "k \<le> i"
  shows "\<exists>g. rf_slide (int k) (int i) n f = Some g \<and> rf_size g = rf_size f \<and>
    rf_shows g (take (i - k) xs @ take n (drop i xs) @ drop (i - k + n) xs)"
  using assms
proof (induction n arbitrary: i f xs)
  case 0
  then show ?case by simp
next
  case (Suc n)
  have i: "i < length xs" "i - k < length xs" using Suc.prems by linarith+
  obtain g where g: "rf_Set (int (i - k)) (xs ! i) f = Some g" "rf_shows g (xs[i - k := xs ! i])"
    using rf_Set_shows [OF Suc.prems(1) i(2)] by blast
  have "rf_size g = rf_size f" using g(1) by (auto simp: rf_Set_def split: if_splits)
  moreover obtain h where h: "rf_slide (int k) (int (Suc i)) n g = Some h" "rf_size h = rf_size g"
    "rf_shows h (take (Suc i - k) (xs[i - k := xs ! i]) @ take n (drop (Suc i) (xs[i - k := xs ! i])) @
       drop (Suc i - k + n) (xs[i - k := xs ! i]))"
    using Suc.IH [OF g(2), of "Suc i"] Suc.prems(2,3) by auto
  moreover have "take (Suc i - k) (xs[i - k := xs ! i]) = take (i - k) xs @ [xs ! i]"
    using i(2) Suc.prems(3) by (simp add: Suc_diff_le take_Suc_conv_app_nth)
  moreover have "take n (drop (Suc i) (xs[i - k := xs ! i])) = take n (drop (Suc i) xs)"
    "drop (Suc i - k + n) (xs[i - k := xs ! i]) = drop (i - k + Suc n) xs"
    using Suc.prems(3) by (simp_all add: Suc_diff_le)
  ultimately have "rf_shows h (take (i - k) xs @ take (Suc n) (drop i xs) @ drop (i - k + Suc n) xs)"
    using i(1) by (simp add: Cons_nth_drop_Suc [symmetric])
  moreover have "rf_slide (int k) (int i) (Suc n) f = Some h"
    using g(1) h(1) Suc.prems(3) rf_Get_shows [OF Suc.prems(1) i(1)] by (simp add: of_nat_diff add.commute [of 1])
  ultimately show ?case using h(2) \<open>rf_size g = rf_size f\<close> by auto
qed

lemma rf_cut_shows:
  assumes f: "rf_shows f xs" and k: "i + k \<le> length xs"
  shows "\<exists>g. rf_slide (int k) (int i + int k) (length xs - (i + k)) f = Some g \<and> rf_size g = rf_size f \<and>
    rf_shows (rf_Truncate (int (length xs - k)) g) (take i xs @ drop (i + k) xs)"
proof -
  obtain g where g: "rf_slide (int k) (int (i + k)) (length xs - (i + k)) f = Some g" "rf_size g = rf_size f"
    "rf_shows g (take i xs @ drop (i + k) xs @ drop (length xs - k) xs)"
    using rf_slide_shows [OF f, of "i + k" "length xs - (i + k)" k] k by auto
  from rf_Truncate_shows [OF g(3), of "length xs - k"] k g(1,2) show ?thesis by simp
qed

lemma rf_ExtractSubrange_shows:
  assumes f: "rf_shows f xs" and k: "i + k \<le> length xs"
  shows "\<exists>g. rf_ExtractSubrange (int i) (int k) f = Some (take k (drop i xs), g) \<and> rf_shows g (take i xs @ drop (i + k) xs)"
proof (cases "k = 0")
  case True
  then show ?thesis using f by (simp add: rf_ExtractSubrange_def)
next
  case False
  obtain g where g: "rf_slide (int k) (int i + int k) (length xs - (i + k)) f = Some g" "rf_size g = rf_size f"
    "rf_shows (rf_Truncate (int (length xs - k)) g) (take i xs @ drop (i + k) xs)"
    using rf_cut_shows [OF assms] by blast
  have "nat (rf_size f - (int i + int k)) = length xs - (i + k)" "rf_size g - int k = int (length xs - k)"
    using k g(2) rf_shows_size [OF f] by simp_all
  with g False show ?thesis by (simp add: rf_ExtractSubrange_def rf_read_shows [OF f k])
qed

lemma rf_erase_shows:
  assumes f: "rf_shows f xs" and k: "i \<le> j" "j \<le> length xs"
  shows "\<exists>g. rf_erase (int i) (int j) f = Some g \<and> rf_shows g (take i xs @ drop j xs)"
proof (cases "i = j")
  case True
  then show ?thesis using f by (simp add: rf_erase_def)
next
  case False
  have j: "i + (j - i) = j" "int i + int (j - i) = int j" using k(1) by simp_all
  obtain g where
    g: "rf_slide (int (j - i)) (int j) (length xs - j) f = Some g" "rf_size g = rf_size f"
    "rf_shows (rf_Truncate (int (length xs - (j - i))) g) (take i xs @ drop j xs)"
    using rf_cut_shows [OF f, of i "j - i"] k(2) unfolding j by blast
  have eqs: "nat (rf_size f - int j) = length xs - j" "int i + (rf_size f - int j) = int (length xs - (j - i))"
    "int j - int i = int (j - i)"
    using k rf_shows_size [OF f] by simp_all
  have "int i \<noteq> int j" using False by simp
  then have "rf_erase (int i) (int j) f = Some (rf_Truncate (int (length xs - (j - i))) g)"
    by (simp only: rf_erase_def eqs g(1) g(2) option.map if_True not_False_eq_True)
  with g(3) show ?thesis by blast
qed

section \<open>Sequences of calls\<close>

datatype 'a rf_op =
    Rf_add 'a | Rf_set int 'a | Rf_mutable int "'a \<Rightarrow> 'a" | Rf_remove_last | Rf_truncate int | Rf_clear
  | Rf_resize int 'a | Rf_reserve int | Rf_merge "'a RepeatedField" | Rf_copy "'a RepeatedField" | Rf_swap "'a RepeatedField"
  | Rf_swap_elements int int | Rf_extract int int | Rf_erase int int

primrec do_rf_op :: "'a \<Rightarrow> 'a rf_op \<Rightarrow> 'a RepeatedField \<Rightarrow> 'a RepeatedField option" where
  "do_rf_op junk (Rf_add v) f = rf_Add junk v f"
| "do_rf_op junk (Rf_set i v) f = rf_Set i v f"
| "do_rf_op junk (Rf_mutable i g) f = rf_Mutable i g f"
| "do_rf_op junk Rf_remove_last f = Some (rf_RemoveLast f)"
| "do_rf_op junk (Rf_truncate n) f = Some (rf_Truncate n f)"
| "do_rf_op junk Rf_clear f = Some (rf_Clear f)"
| "do_rf_op junk (Rf_resize n v) f = rf_Resize junk n v f"
| "do_rf_op junk (Rf_reserve n) f = Some (rf_Reserve junk n f)"
| "do_rf_op junk (Rf_merge other) f = rf_MergeFrom junk other f"
| "do_rf_op junk (Rf_copy other) f = rf_CopyFrom junk (Some other) f"
| "do_rf_op junk (Rf_swap other) f = Some (fst (rf_InternalSwap f other))"
| "do_rf_op junk (Rf_swap_elements i j) f = rf_SwapElements i j f"
| "do_rf_op junk (Rf_extract start num) f = map_option snd (rf_ExtractSubrange start num f)"
| "do_rf_op junk (Rf_erase i j) f = rf_erase i j f"

text \<open>
  The calls the comments of the header allow, on a field of \<open>n\<close> elements, as long as no size exceeds
  \<open>INT_MAX\<close>, which the code does not check, and what they do to its list.
\<close>

primrec rf_legal :: "nat \<Rightarrow> 'a rf_op \<Rightarrow> bool" where
  "rf_legal n (Rf_add v) = (int n < INT_MAX)"
| "rf_legal n (Rf_set i v) = (0 \<le> i \<and> i < int n)"
| "rf_legal n (Rf_mutable i g) = (0 \<le> i \<and> i < int n)"
| "rf_legal n Rf_remove_last = (0 < n)"
| "rf_legal n (Rf_truncate k) = (0 \<le> k \<and> k \<le> int n)"
| "rf_legal n Rf_clear = True"
| "rf_legal n (Rf_resize k v) = (0 \<le> k \<and> k \<le> INT_MAX)"
| "rf_legal n (Rf_reserve k) = (k \<le> INT_MAX)"
| "rf_legal n (Rf_merge other) = (rf_ok other \<and> int n + rf_size other \<le> INT_MAX)"
| "rf_legal n (Rf_copy other) = rf_ok other"
| "rf_legal n (Rf_swap other) = rf_ok other"
| "rf_legal n (Rf_swap_elements i j) = (0 \<le> i \<and> i < int n \<and> 0 \<le> j \<and> j < int n)"
| "rf_legal n (Rf_extract start num) = (0 \<le> start \<and> 0 \<le> num \<and> start + num \<le> int n)"
| "rf_legal n (Rf_erase i j) = (0 \<le> i \<and> i \<le> j \<and> j \<le> int n)"

primrec spec_rf_op :: "'a rf_op \<Rightarrow> 'a list \<Rightarrow> 'a list" where
  "spec_rf_op (Rf_add v) xs = xs @ [v]"
| "spec_rf_op (Rf_set i v) xs = xs[nat i := v]"
| "spec_rf_op (Rf_mutable i g) xs = xs[nat i := g (xs ! nat i)]"
| "spec_rf_op Rf_remove_last xs = butlast xs"
| "spec_rf_op (Rf_truncate k) xs = take (nat k) xs"
| "spec_rf_op Rf_clear xs = []"
| "spec_rf_op (Rf_resize k v) xs = take (nat k) xs @ replicate (nat k - length xs) v"
| "spec_rf_op (Rf_reserve k) xs = xs"
| "spec_rf_op (Rf_merge other) xs = xs @ rf_list other"
| "spec_rf_op (Rf_copy other) xs = rf_list other"
| "spec_rf_op (Rf_swap other) xs = rf_list other"
| "spec_rf_op (Rf_swap_elements i j) xs = xs[nat i := xs ! nat j, nat j := xs ! nat i]"
| "spec_rf_op (Rf_extract start num) xs = take (nat start) xs @ drop (nat start + nat num) xs"
| "spec_rf_op (Rf_erase i j) xs = take (nat i) xs @ drop (nat j) xs"

fun do_rf_ops :: "'a \<Rightarrow> 'a rf_op list \<Rightarrow> 'a RepeatedField \<Rightarrow> 'a RepeatedField option" where
  "do_rf_ops junk [] f = Some f"
| "do_rf_ops junk (c # cs) f = Option.bind (do_rf_op junk c f) (do_rf_ops junk cs)"

fun rf_legal_ops :: "'a rf_op list \<Rightarrow> 'a list \<Rightarrow> bool" where
  "rf_legal_ops [] xs = True"
| "rf_legal_ops (c # cs) xs = (rf_legal (length xs) c \<and> rf_legal_ops cs (spec_rf_op c xs))"

lemma rf_shows_ok: "rf_ok f \<Longrightarrow> rf_shows f (rf_list f)"
  by (simp add: rf_shows_def)

lemma do_rf_op_shows:
  assumes f: "rf_shows f xs" and legal: "rf_legal (length xs) c"
  shows "\<exists>g. do_rf_op junk c f = Some g \<and> rf_shows g (spec_rf_op c xs)"
proof (cases c)
  case (Rf_add v)
  then show ?thesis using rf_Add_shows [OF f, of junk v] legal by auto
next
  case (Rf_set i v)
  then show ?thesis using rf_Set_shows [OF f, of "nat i" v] legal by auto
next
  case (Rf_mutable i g)
  then show ?thesis using rf_Set_shows [OF f, of "nat i" "g (xs ! nat i)"] rf_Get_shows [OF f, of "nat i"] legal
    by (auto simp: rf_Mutable_def)
next
  case Rf_remove_last
  then show ?thesis using rf_RemoveLast_shows [OF f] legal by auto
next
  case (Rf_truncate k)
  then show ?thesis using rf_Truncate_shows [OF f, of "nat k"] legal by auto
next
  case Rf_clear
  then show ?thesis using rf_Clear_shows [OF f] by simp
next
  case (Rf_resize k v)
  then show ?thesis using rf_Resize_shows [OF f, of "nat k" junk v] legal by auto
next
  case (Rf_reserve k)
  then show ?thesis using rf_Reserve_shows(1) [OF f] legal by simp
next
  case (Rf_merge other)
  then show ?thesis
    using rf_MergeFrom_shows [OF f rf_shows_ok, of other junk] rf_shows_size [OF rf_shows_ok, of other] legal by auto
next
  case (Rf_copy other)
  then show ?thesis
    using rf_MergeFrom_shows [OF rf_Clear_shows [OF f] rf_shows_ok, of other junk] rf_shows_bounds [OF rf_shows_ok, of other] legal
    by (auto simp: rf_CopyFrom_def)
next
  case (Rf_swap other)
  then show ?thesis using rf_shows_ok [of other] legal by (simp add: rf_InternalSwap_def)
next
  case (Rf_swap_elements i j)
  then show ?thesis using rf_SwapElements_shows [OF f, of "nat i" "nat j"] legal by auto
next
  case (Rf_extract start num)
  then have "nat start + nat num \<le> length xs" "int (nat start) = start" "int (nat num) = num" using legal by auto
  with rf_ExtractSubrange_shows [OF f, of "nat start" "nat num"] Rf_extract show ?thesis by auto
next
  case (Rf_erase i j)
  then show ?thesis using rf_erase_shows [OF f, of "nat i" "nat j"] legal by auto
qed

text \<open>What the missing check leads to: fields that together have more than \<open>INT_MAX\<close> elements wrap the size that \<open>MergeFrom\<close>
  reserves to a negative number, nothing is reserved, and the copy runs out of the storage.\<close>

lemma rf_store_outside:
  "0 \<le> i \<Longrightarrow> vs \<noteq> [] \<Longrightarrow> rf_Capacity f < i + int (length vs) \<Longrightarrow> rf_store i vs f = None"
proof (induction vs arbitrary: i f)
  case (Cons v vs)
  show ?case
  proof (cases "rf_Set i v f")
    case (Some g)
    then have g: "rf_Capacity g = rf_Capacity f" "i < rf_Capacity f" by (auto simp: rf_Set_def rf_Capacity_def split: if_splits)
    then have "vs \<noteq> []" using Cons.prems(3) by auto
    then have "rf_store (i + 1) vs g = None" using Cons.IH [of "i + 1" g] Cons.prems g(1) by simp
    with Some show ?thesis by simp
  qed simp
qed simp

lemma merge_overflows:
  assumes "rf_shows f xs" "rf_shows other ys" "INT_MAX < int (length xs + length ys)"
  shows "rf_MergeFrom junk other f = None"
proof -
  note f = rf_shows_size [OF assms(1)] rf_shows_bounds [OF assms(1)] and g = rf_shows_size [OF assms(2)] rf_shows_bounds [OF assms(2)]
  have "c_int (rf_size f + rf_size other) < 0"
    using c_int_wraps [of "rf_size f + rf_size other"] f g assms(3) by simp
  then have "rf_Reserve junk (c_int (rf_size f + rf_size other)) f = f" by (simp add: rf_Reserve_def rf_Capacity_def)
  moreover have "take (nat (rf_size other)) (rf_storage other) = ys" using assms(2) by (simp add: rf_shows_def rf_list_def)
  moreover have "ys \<noteq> []" using assms(3) f by auto
  moreover have "rf_store (rf_size f) ys f = None"
    using \<open>ys \<noteq> []\<close> f assms(3) by (intro rf_store_outside) simp_all
  ultimately show ?thesis using g(1) by (simp add: rf_MergeFrom_def)
qed

text \<open>C34: A repeated field of numbers is a list: any sequence of allowed calls, in any order, with its
  reallocations, its sizes and the values left behind the last element, never touches memory outside
  the array, and leaves the elements that the calls leave on a list. Allowed are the calls the comments of the header
  allow, with indices inside the field, as long as the field never has more than \<open>INT_MAX\<close> elements: the sizes are 32-bit and
  wrap, and a \<open>MergeFrom\<close> beyond that bound is not checked and runs out of the array (\<open>merge_overflows\<close>).
  Doubling the capacity may wrap, and does no harm.\<close>

theorem repeated_field_refines:
  assumes "rf_shows f xs" "rf_legal_ops ops xs"
  shows "\<exists>g. do_rf_ops junk ops f = Some g \<and> rf_shows g (fold spec_rf_op ops xs)"
  using assms
proof (induction ops arbitrary: f xs)
  case Nil
  then show ?case by simp
next
  case (Cons c cs)
  obtain g where g: "do_rf_op junk c f = Some g" "rf_shows g (spec_rf_op c xs)"
    using do_rf_op_shows [OF Cons.prems(1)] Cons.prems(2) by auto
  with Cons.IH [OF g(2)] Cons.prems(2) show ?case by simp
qed

lemma repeated_field_witness:
  "\<exists>g. do_rf_ops 99 [Rf_add 1, Rf_add 2, Rf_add 3, Rf_resize 6 (7::nat), Rf_extract 1 2, Rf_swap_elements 0 3, Rf_erase 1 2] RepeatedField0 = Some g \<and>
     rf_shows g [7, 7, 1]"
  using repeated_field_refines [OF rf_shows_new, of "[Rf_add 1, Rf_add 2, Rf_add 3, Rf_resize 6 (7::nat), Rf_extract 1 2, Rf_swap_elements 0 3, Rf_erase 1 2]" 99]
  by (simp add: eval_nat_numeral)

end
