(* ===== verification/WireTypes.thy ===== *)
theory WireTypes
  imports WireFormat RepeatedField
begin

text \<open>
  Fields of numbers (\<open>wire_format_lite.h\<close>, \<open>wire_format_lite_inl.h\<close>, \<open>wire_format_lite.cc\<close>): the field types, the
  readers and writers of every numeric type, and repeated fields of them, packed and not.
  The templates \<open>ReadPrimitive<CType, DeclaredType>\<close> and their kin are functions of the declared type.
  A \<open>float\<close> or \<open>double\<close> is its bit pattern, so that \<open>EncodeFloat\<close> and \<open>DecodeFloat\<close>, which go through a union,
  are the identity; signed integers are words. The machine is little-endian
  (\<open>PROTOBUF_LITTLE_ENDIAN\<close>), as the program's is.
\<close>

section \<open>Field types\<close>

datatype FieldType = TYPE_DOUBLE | TYPE_FLOAT | TYPE_INT64 | TYPE_UINT64 | TYPE_INT32 | TYPE_FIXED64' | TYPE_FIXED32'
  | TYPE_BOOL | TYPE_STRING | TYPE_GROUP' | TYPE_MESSAGE | TYPE_BYTES | TYPE_UINT32 | TYPE_ENUM
  | TYPE_SFIXED32 | TYPE_SFIXED64 | TYPE_SINT32 | TYPE_SINT64

datatype CppType = CPPTYPE_INT32 | CPPTYPE_INT64 | CPPTYPE_UINT32 | CPPTYPE_UINT64 | CPPTYPE_DOUBLE | CPPTYPE_FLOAT
  | CPPTYPE_BOOL | CPPTYPE_ENUM | CPPTYPE_STRING | CPPTYPE_MESSAGE

primrec FieldTypeToCppType :: "FieldType \<Rightarrow> CppType" where
  "FieldTypeToCppType TYPE_DOUBLE = CPPTYPE_DOUBLE"
| "FieldTypeToCppType TYPE_FLOAT = CPPTYPE_FLOAT"
| "FieldTypeToCppType TYPE_INT64 = CPPTYPE_INT64"
| "FieldTypeToCppType TYPE_UINT64 = CPPTYPE_UINT64"
| "FieldTypeToCppType TYPE_INT32 = CPPTYPE_INT32"
| "FieldTypeToCppType TYPE_FIXED64' = CPPTYPE_UINT64"
| "FieldTypeToCppType TYPE_FIXED32' = CPPTYPE_UINT32"
| "FieldTypeToCppType TYPE_BOOL = CPPTYPE_BOOL"
| "FieldTypeToCppType TYPE_STRING = CPPTYPE_STRING"
| "FieldTypeToCppType TYPE_GROUP' = CPPTYPE_MESSAGE"
| "FieldTypeToCppType TYPE_MESSAGE = CPPTYPE_MESSAGE"
| "FieldTypeToCppType TYPE_BYTES = CPPTYPE_STRING"
| "FieldTypeToCppType TYPE_UINT32 = CPPTYPE_UINT32"
| "FieldTypeToCppType TYPE_ENUM = CPPTYPE_ENUM"
| "FieldTypeToCppType TYPE_SFIXED32 = CPPTYPE_INT32"
| "FieldTypeToCppType TYPE_SFIXED64 = CPPTYPE_INT64"
| "FieldTypeToCppType TYPE_SINT32 = CPPTYPE_INT32"
| "FieldTypeToCppType TYPE_SINT64 = CPPTYPE_INT64"

primrec WireTypeForFieldType :: "FieldType \<Rightarrow> WireType" where
  "WireTypeForFieldType TYPE_DOUBLE = WIRETYPE_FIXED64"
| "WireTypeForFieldType TYPE_FLOAT = WIRETYPE_FIXED32"
| "WireTypeForFieldType TYPE_INT64 = WIRETYPE_VARINT"
| "WireTypeForFieldType TYPE_UINT64 = WIRETYPE_VARINT"
| "WireTypeForFieldType TYPE_INT32 = WIRETYPE_VARINT"
| "WireTypeForFieldType TYPE_FIXED64' = WIRETYPE_FIXED64"
| "WireTypeForFieldType TYPE_FIXED32' = WIRETYPE_FIXED32"
| "WireTypeForFieldType TYPE_BOOL = WIRETYPE_VARINT"
| "WireTypeForFieldType TYPE_STRING = WIRETYPE_LENGTH_DELIMITED"
| "WireTypeForFieldType TYPE_GROUP' = WIRETYPE_START_GROUP"
| "WireTypeForFieldType TYPE_MESSAGE = WIRETYPE_LENGTH_DELIMITED"
| "WireTypeForFieldType TYPE_BYTES = WIRETYPE_LENGTH_DELIMITED"
| "WireTypeForFieldType TYPE_UINT32 = WIRETYPE_VARINT"
| "WireTypeForFieldType TYPE_ENUM = WIRETYPE_VARINT"
| "WireTypeForFieldType TYPE_SFIXED32 = WIRETYPE_FIXED32"
| "WireTypeForFieldType TYPE_SFIXED64 = WIRETYPE_FIXED64"
| "WireTypeForFieldType TYPE_SINT32 = WIRETYPE_VARINT"
| "WireTypeForFieldType TYPE_SINT64 = WIRETYPE_VARINT"

text \<open>A C++ value of a field: the 32 or 64 bits of a number, or a \<open>bool\<close>.\<close>

datatype cvalue = C32 u32 | C64 u64 | CBool bool

section \<open>Single values\<close>

text \<open>The other types have no specialisation. The value that comes with a failure is not stored.\<close>

fun ReadPrimitive :: "FieldType \<Rightarrow> cis \<Rightarrow> bool \<times> cvalue \<times> cis" where
  "ReadPrimitive TYPE_INT32 input = (let (ok, temp, input) = ReadVarint32 input in (ok, C32 temp, input))"
| "ReadPrimitive TYPE_INT64 input = (let (ok, temp, input) = ReadVarint64 input in (ok, C64 temp, input))"
| "ReadPrimitive TYPE_UINT32 input = (let (ok, v, input) = ReadVarint32 input in (ok, C32 v, input))"
| "ReadPrimitive TYPE_UINT64 input = (let (ok, v, input) = ReadVarint64 input in (ok, C64 v, input))"
| "ReadPrimitive TYPE_SINT32 input = (let (ok, temp, input) = ReadVarint32 input in (ok, C32 (ZigZagDecode32 temp), input))"
| "ReadPrimitive TYPE_SINT64 input = (let (ok, temp, input) = ReadVarint64 input in (ok, C64 (ZigZagDecode64 temp), input))"
| "ReadPrimitive TYPE_FIXED32' input = (let (ok, v, input) = ReadLittleEndian32 input in (ok, C32 v, input))"
| "ReadPrimitive TYPE_FIXED64' input = (let (ok, v, input) = ReadLittleEndian64 input in (ok, C64 v, input))"
| "ReadPrimitive TYPE_SFIXED32 input = (let (ok, temp, input) = ReadLittleEndian32 input in (ok, C32 temp, input))"
| "ReadPrimitive TYPE_SFIXED64 input = (let (ok, temp, input) = ReadLittleEndian64 input in (ok, C64 temp, input))"
| "ReadPrimitive TYPE_FLOAT input = (let (ok, temp, input) = ReadLittleEndian32 input in (ok, C32 temp, input))"
| "ReadPrimitive TYPE_DOUBLE input = (let (ok, temp, input) = ReadLittleEndian64 input in (ok, C64 temp, input))"
| "ReadPrimitive TYPE_BOOL input = (let (ok, temp, input) = ReadVarint64 input in (ok, CBool (temp \<noteq> 0), input))"
| "ReadPrimitive TYPE_ENUM input = (let (ok, temp, input) = ReadVarint32 input in (ok, C32 temp, input))"
| "ReadPrimitive _ input = (False, C32 0, input)"

fun WritePrimitiveNoTag :: "FieldType \<Rightarrow> cvalue \<Rightarrow> bytes" where
  "WritePrimitiveNoTag TYPE_INT32 (C32 v) = WriteVarint32SignExtendedToArray v"
| "WritePrimitiveNoTag TYPE_INT64 (C64 v) = WriteVarint64ToArray v"
| "WritePrimitiveNoTag TYPE_UINT32 (C32 v) = WriteVarint32ToArray v"
| "WritePrimitiveNoTag TYPE_UINT64 (C64 v) = WriteVarint64ToArray v"
| "WritePrimitiveNoTag TYPE_SINT32 (C32 v) = WriteVarint32ToArray (ZigZagEncode32 v)"
| "WritePrimitiveNoTag TYPE_SINT64 (C64 v) = WriteVarint64ToArray (ZigZagEncode64 v)"
| "WritePrimitiveNoTag TYPE_FIXED32' (C32 v) = WriteLittleEndian32ToArray v"
| "WritePrimitiveNoTag TYPE_FIXED64' (C64 v) = WriteLittleEndian64ToArray v"
| "WritePrimitiveNoTag TYPE_SFIXED32 (C32 v) = WriteLittleEndian32ToArray v"
| "WritePrimitiveNoTag TYPE_SFIXED64 (C64 v) = WriteLittleEndian64ToArray v"
| "WritePrimitiveNoTag TYPE_FLOAT (C32 v) = WriteLittleEndian32ToArray v"
| "WritePrimitiveNoTag TYPE_DOUBLE (C64 v) = WriteLittleEndian64ToArray v"
| "WritePrimitiveNoTag TYPE_BOOL (CBool v) = WriteVarint32ToArray (if v then 1 else 0)"
| "WritePrimitiveNoTag TYPE_ENUM (C32 v) = WriteVarint32SignExtendedToArray v"
| "WritePrimitiveNoTag _ _ = []"

text \<open>The values a declared type takes.\<close>

fun has_type :: "cvalue \<Rightarrow> FieldType \<Rightarrow> bool" where
  "has_type (C32 _) ty \<longleftrightarrow> ty \<in> {TYPE_INT32, TYPE_UINT32, TYPE_SINT32, TYPE_FIXED32', TYPE_SFIXED32, TYPE_FLOAT, TYPE_ENUM}"
| "has_type (C64 _) ty \<longleftrightarrow> ty \<in> {TYPE_INT64, TYPE_UINT64, TYPE_SINT64, TYPE_FIXED64', TYPE_SFIXED64, TYPE_DOUBLE}"
| "has_type (CBool _) ty \<longleftrightarrow> ty = TYPE_BOOL"

definition WritePrimitive :: "u32 \<Rightarrow> FieldType \<Rightarrow> cvalue \<Rightarrow> bytes" where
  "WritePrimitive n ty v =
     WriteTagToArray n (WireTypeForFieldType ty) @ WritePrimitiveNoTag ty v"

text \<open>\<open>Int32Size\<close> and its kin, and the constants \<open>kFixed32Size\<close> up to \<open>kBoolSize\<close>.\<close>

fun PrimitiveSize :: "FieldType \<Rightarrow> cvalue \<Rightarrow> nat" where
  "PrimitiveSize TYPE_INT32 (C32 v) = VarintSize32SignExtended v"
| "PrimitiveSize TYPE_INT64 (C64 v) = VarintSize64 v"
| "PrimitiveSize TYPE_UINT32 (C32 v) = VarintSize32 v"
| "PrimitiveSize TYPE_UINT64 (C64 v) = VarintSize64 v"
| "PrimitiveSize TYPE_SINT32 (C32 v) = VarintSize32 (ZigZagEncode32 v)"
| "PrimitiveSize TYPE_SINT64 (C64 v) = VarintSize64 (ZigZagEncode64 v)"
| "PrimitiveSize TYPE_ENUM (C32 v) = VarintSize32SignExtended v"
| "PrimitiveSize ty _ =
     (if ty = TYPE_FIXED32' \<or> ty = TYPE_SFIXED32 \<or> ty = TYPE_FLOAT then 4
      else if ty = TYPE_FIXED64' \<or> ty = TYPE_SFIXED64 \<or> ty = TYPE_DOUBLE then 8
      else if ty = TYPE_BOOL then 1 else 0)"

text \<open>\<open>ReadPrimitiveFromArray\<close>, for the types of a fixed size, and that size in memory.\<close>

definition fixed_type :: "FieldType \<Rightarrow> bool" where
  "fixed_type ty \<longleftrightarrow> ty \<in> {TYPE_FIXED32', TYPE_FIXED64', TYPE_SFIXED32, TYPE_SFIXED64, TYPE_FLOAT, TYPE_DOUBLE}"

definition sizeof_type :: "FieldType \<Rightarrow> nat" where
  "sizeof_type ty = (if ty \<in> {TYPE_FIXED64', TYPE_SFIXED64, TYPE_DOUBLE} then 8 else 4)"

definition ReadPrimitiveFromArray :: "FieldType \<Rightarrow> bytes \<Rightarrow> cvalue" where
  "ReadPrimitiveFromArray ty buffer =
     (if sizeof_type ty = 8 then C64 (ReadLittleEndian64FromArray buffer) else C32 (ReadLittleEndian32FromArray buffer))"

section \<open>Facts on single values\<close>

lemma sign_extended_low: "(of_nat (unat (scast (v :: u32) :: u64)) :: u32) = v"
proof -
  have "(of_nat (unat (scast v :: u64)) :: u32) = ucast (scast v :: u64)" by (simp add: unsigned_ucast_eq word_unat_eq_iff unat_of_nat)
  also have "\<dots> = v" by (rule bit_word_eqI) (auto simp: bit_simps)
  finally show ?thesis .
qed

lemma ReadLittleEndian_written:
  "flat s \<Longrightarrow> avail s = WriteLittleEndian32ToArray v @ rest \<Longrightarrow> ReadLittleEndian32 s = (True, v, Advance 4 s)"
  "flat s \<Longrightarrow> avail s = WriteLittleEndian64ToArray w @ rest \<Longrightarrow> ReadLittleEndian64 s = (True, w, Advance 8 s)"
  by (simp_all add: ReadLittleEndian32_flat ReadLittleEndian64_flat ReadLittleEndian32_Write ReadLittleEndian64_Write)

text \<open>A varint of one width read as the other.\<close>

lemma ReadVarint_widths:
  "flat s \<Longrightarrow> avail s = WriteVarint64ToArray w @ rest \<Longrightarrow> ReadVarint32 s = (True, of_nat (unat w), Advance (VarintSize64 w) s)"
  "flat s \<Longrightarrow> avail s = WriteVarint32ToArray v @ rest \<Longrightarrow> ReadVarint64 s = (True, of_nat (unat v), Advance (VarintSize32 v) s)"
  by (simp_all add: ReadVarint32_flat ReadVarint64_flat varint_dec_32 varint_dec_64 del: of_nat_unat)

lemma ReadPrimitive_written:
  assumes "has_type v ty" "flat s" "avail s = WritePrimitiveNoTag ty v @ rest"
  shows "ReadPrimitive ty s = (True, v, Advance (length (WritePrimitiveNoTag ty v)) s)"
proof -
  have i: "ReadVarint32 s = (True, w, Advance (VarintSize64 (scast w)) s)" if "avail s = WriteVarint32SignExtendedToArray w @ rest" for w
    using ReadVarint_widths(1) [OF assms(2), of "scast w" rest] that
    by (simp only: WriteVarint32SignExtendedToArray_def sign_extended_low)
  have b: "ReadVarint64 s = (True, if w then 1 else 0, Advance 1 s)" if "avail s = WriteVarint32ToArray (if w then 1 else 0) @ rest" for w
    using ReadVarint_widths(2) [OF assms(2) that] by (cases w) (simp_all add: VarintSize32_length varint_enc_small)
  have l: "length (WriteVarint32SignExtendedToArray w) = VarintSize64 (scast w)" "length (WriteVarint32ToArray (if c then 1 else 0)) = 1" for w c
    by (simp_all add: WriteVarint32SignExtendedToArray_def WriteVarint32ToArray_enc varint_enc_small)
  show ?thesis
    using assms l b i
    by (cases v) (auto simp: ReadVarint32_written ReadVarint64_written ReadLittleEndian_written ZigZag32_decode ZigZag64_decode
        simp del: if_split split: if_splits)
qed

lemma VarintSize32SignExtended_length:
  "VarintSize32SignExtended v = length (WriteVarint32SignExtendedToArray v)"
proof -
  have s: "sint (scast v :: u64) = sint v" by (simp add: signed_scast_eq signed_take_bit_int_eq_self_iff)
    (use sint_range_size [of v] in \<open>simp add: word_size\<close>)
  show ?thesis
  proof (cases "sint v < 0")
    case True
    have "uint (scast v :: u64) = sint v mod 2 ^ 64" by (simp flip: s add: uint_sint take_bit_eq_mod)
    moreover have "- (2 ^ 31) \<le> sint v" using sint_range_size [of v] by (simp add: word_size)
    ultimately have "uint (scast v :: u64) = 2 ^ 64 + sint v" using True mod_pos_pos_trivial [of "2 ^ 64 + sint v" "2 ^ 64"] by simp
    then have "128 ^ 9 \<le> unat (scast v :: u64)" using \<open>- (2 ^ 31) \<le> sint v\<close>
      by (simp flip: nat_uint_eq add: le_nat_iff)
    from varint_enc_length_ge [OF this] length_varint_enc64 [of "scast v"] True show ?thesis
      by (simp add: VarintSize32SignExtended_def WriteVarint32SignExtendedToArray_def WriteVarint64ToArray_enc)
  next
    case False
    have "uint (scast v :: u64) = sint v mod 2 ^ 64" by (simp flip: s add: uint_sint take_bit_eq_mod)
    moreover have "uint v = sint v mod 2 ^ 32" by (simp add: uint_sint take_bit_eq_mod)
    ultimately have "uint (scast v :: u64) = uint v" using False sint_range_size [of v] by (simp add: word_size)
    then have "unat (scast v :: u64) = unat v" by (simp only: unat_eq_nat_uint)
    with False show ?thesis
      by (simp add: VarintSize32SignExtended_def WriteVarint32SignExtendedToArray_def WriteVarint64ToArray_enc VarintSize32_length)
  qed
qed

lemma PrimitiveSize_length: "has_type v ty \<Longrightarrow> PrimitiveSize ty v = length (WritePrimitiveNoTag ty v)"
  by (cases v) (auto simp: VarintSize32SignExtended_length VarintSize32_length varint_enc_small)

lemma WritePrimitiveNoTag_nonempty: "has_type v ty \<Longrightarrow> WritePrimitiveNoTag ty v \<noteq> []"
  by (cases v) (auto simp: WriteVarint32ToArray_enc WriteVarint64ToArray_enc WriteVarint32SignExtendedToArray_def
      WriteLittleEndian32ToArray_def WriteLittleEndian64ToArray_def Let_def)

end
