(* ===== verification/PackedFields.thy ===== *)
theory PackedFields
  imports WireTypes
begin

text \<open>
  Repeated fields of numbers on the wire (\<open>wire_format_lite_inl.h\<close>, \<open>wire_format_lite.cc\<close>): the readers of
  an unpacked run and of a packed field, with their fast paths, the writers and the sizes. A reader
  returns its success, the stream and the field, or \<open>None\<close> when an access of the field is outside its
  storage or a loop is not done when its fuel is.
\<close>

section \<open>Limits and expected tags of \<open>CodedInputStream\<close>\<close>

definition CheckEntireMessageConsumedAndPopLimit :: "int \<Rightarrow> cis \<Rightarrow> bool \<times> cis" where
  "CheckEntireMessageConsumedAndPopLimit limit s =
     (let result = ConsumedEntireMessage s; s = PopLimit limit s in (result, s))"

definition ReadLengthAndPushLimit :: "cis \<Rightarrow> int \<times> cis" where
  "ReadLengthAndPushLimit s =
     (let (ok, length', s) = ReadVarint32 s in PushLimit (if ok then sint length' else 0) s)"

definition SetTotalBytesLimit :: "int \<Rightarrow> cis \<Rightarrow> cis" where
  "SetTotalBytesLimit limit s =
     (let current_position = CurrentPosition s
      in RecomputeBufferLimits (s\<lparr>total_bytes_limit := max current_position limit\<rparr>))"

definition BytesUntilTotalBytesLimit :: "cis \<Rightarrow> int" where
  "BytesUntilTotalBytesLimit s =
     (if total_bytes_limit s = INT_MAX then -1 else total_bytes_limit s - CurrentPosition s)"

definition ExpectTag :: "u32 \<Rightarrow> cis \<Rightarrow> bool \<times> cis" where
  "ExpectTag expected s =
     (if expected < 128
      then (if cbuffer s < cbuffer_end s \<and> ucast (cdata s ! cbuffer s) = expected
            then (True, Advance 1 s) else (False, s))
      else if expected < 16384
      then (if BufferSize s \<ge> 2 \<and> cdata s ! cbuffer s = ucast (expected OR 0x80) \<and>
               cdata s ! (cbuffer s + 1) = ucast (drop_bit 7 expected)
            then (True, Advance 2 s) else (False, s))
      else (False, s))"

text \<open>A pointer into an array is the list from there on.\<close>

definition ExpectTagFromArray :: "bytes \<Rightarrow> u32 \<Rightarrow> bytes option" where
  "ExpectTagFromArray buffer expected =
     (if expected < 128
      then (if ucast (buffer ! 0) = expected then Some (drop 1 buffer) else None)
      else if expected < 16384
      then (if buffer ! 0 = ucast (expected OR 0x80) \<and> buffer ! 1 = ucast (drop_bit 7 expected)
            then Some (drop 2 buffer) else None)
      else None)"

definition GetDirectBufferPointerInline :: "cis \<Rightarrow> bytes \<times> int" where
  "GetDirectBufferPointerInline s = (drop (cbuffer s) (cdata s), BufferSize s)"

section \<open>Reading a run of unpacked elements\<close>

text \<open>The loop over the storage already reserved, and the reader of the varint types.\<close>

fun ReadReserved :: "FieldType \<Rightarrow> u32 \<Rightarrow> nat \<Rightarrow> cis \<Rightarrow> cvalue RepeatedField \<Rightarrow>
    (bool \<times> cis \<times> cvalue RepeatedField) option" where
  "ReadReserved ty tag 0 input values = Some (True, input, values)"
| "ReadReserved ty tag (Suc elements_already_reserved) input values =
     (case ExpectTag tag input of
        (False, input) \<Rightarrow> Some (True, input, values)
      | (True, input) \<Rightarrow>
          (case ReadPrimitive ty input of
             (False, value, input) \<Rightarrow> Some (False, input, values)
           | (True, value, input) \<Rightarrow>
               Option.bind (rf_AddAlreadyReserved value values)
                 (ReadReserved ty tag elements_already_reserved input)))"

definition ReadRepeatedPrimitive_generic :: "cvalue \<Rightarrow> FieldType \<Rightarrow> u32 \<Rightarrow> cis \<Rightarrow> cvalue RepeatedField \<Rightarrow>
    (bool \<times> cis \<times> cvalue RepeatedField) option" where
  "ReadRepeatedPrimitive_generic junk ty tag input values =
     (case ReadPrimitive ty input of
        (False, value, input) \<Rightarrow> Some (False, input, values)
      | (True, value, input) \<Rightarrow>
          Option.bind (rf_Add junk value values) (\<lambda>values.
            ReadReserved ty tag (nat (rf_Capacity values - rf_size values)) input values))"

text \<open>The fixed-size types read from the buffer, without a check per element.\<close>

fun ReadFromArrays :: "FieldType \<Rightarrow> u32 \<Rightarrow> nat \<Rightarrow> bytes \<Rightarrow> nat \<Rightarrow> cvalue RepeatedField \<Rightarrow>
    (nat \<times> cvalue RepeatedField) option" where
  "ReadFromArrays ty tag 0 buffer num_read values = Some (num_read, values)"
| "ReadFromArrays ty tag (Suc left) buffer num_read values =
     (case ExpectTagFromArray buffer tag of
        None \<Rightarrow> Some (num_read, values)
      | Some buffer \<Rightarrow>
          Option.bind (rf_AddAlreadyReserved (ReadPrimitiveFromArray ty buffer) values)
            (ReadFromArrays ty tag left (drop (sizeof_type ty) buffer) (num_read + 1)))"

definition ReadRepeatedFixedSizePrimitive :: "cvalue \<Rightarrow> FieldType \<Rightarrow> nat \<Rightarrow> u32 \<Rightarrow> cis \<Rightarrow> cvalue RepeatedField \<Rightarrow>
    (bool \<times> cis \<times> cvalue RepeatedField) option" where
  "ReadRepeatedFixedSizePrimitive junk ty tag_size tag input values =
     (case ReadPrimitive ty input of
        (False, value, input) \<Rightarrow> Some (False, input, values)
      | (True, value, input) \<Rightarrow>
          Option.bind (rf_Add junk value values) (\<lambda>values.
            let (buffer, size') = GetDirectBufferPointerInline input
            in if size' > 0
               then (let per_value_size = tag_size + sizeof_type ty;
                         elements_available = min (rf_Capacity values - rf_size values) (size' div int per_value_size)
                     in map_option (\<lambda>(num_read, values).
                          let read_bytes = int (num_read * per_value_size);
                              input = (if read_bytes > 0 then snd (Skip read_bytes input) else input)
                          in (True, input, values))
                        (ReadFromArrays ty tag (nat elements_available) buffer 0 values))
               else Some (True, input, values)))"

definition ReadRepeatedPrimitive :: "cvalue \<Rightarrow> FieldType \<Rightarrow> nat \<Rightarrow> u32 \<Rightarrow> cis \<Rightarrow> cvalue RepeatedField \<Rightarrow>
    (bool \<times> cis \<times> cvalue RepeatedField) option" where
  "ReadRepeatedPrimitive junk ty tag_size tag input values =
     (if fixed_type ty then ReadRepeatedFixedSizePrimitive junk ty tag_size tag input values
      else ReadRepeatedPrimitive_generic junk ty tag input values)"

section \<open>Reading packed fields\<close>

text \<open>\<open>while (input->BytesUntilLimit() > 0)\<close>; the fuel is the number of bytes at the start.\<close>

fun ReadPackedPrimitive_loop :: "cvalue \<Rightarrow> FieldType \<Rightarrow> nat \<Rightarrow> cis \<Rightarrow> cvalue RepeatedField \<Rightarrow>
    (bool \<times> cis \<times> cvalue RepeatedField) option" where
  "ReadPackedPrimitive_loop junk ty fuel input values =
     (if BytesUntilLimit input > 0
      then (case fuel of
              0 \<Rightarrow> None
            | Suc fuel \<Rightarrow>
                (case ReadPrimitive ty input of
                   (False, value, input) \<Rightarrow> Some (False, input, values)
                 | (True, value, input) \<Rightarrow>
                     Option.bind (rf_Add junk value values) (ReadPackedPrimitive_loop junk ty fuel input)))
      else Some (True, input, values))"

definition ReadPackedPrimitive_generic :: "cvalue \<Rightarrow> FieldType \<Rightarrow> cis \<Rightarrow> cvalue RepeatedField \<Rightarrow>
    (bool \<times> cis \<times> cvalue RepeatedField) option" where
  "ReadPackedPrimitive_generic junk ty input values =
     (case ReadVarintSizeAsInt input of
        (False, length', input) \<Rightarrow> Some (False, input, values)
      | (True, length', input) \<Rightarrow>
          (let (limit, input) = PushLimit length' input
           in map_option (\<lambda>(ok, input, values). (ok, if ok then PopLimit limit input else input, values))
                (ReadPackedPrimitive_loop junk ty (nat (BytesUntilLimit input)) input values)))"

text \<open>The elements that the first bytes of a memory are, each of the size of the type.\<close>

fun elements_of_memory :: "FieldType \<Rightarrow> nat \<Rightarrow> bytes \<Rightarrow> cvalue list" where
  "elements_of_memory ty 0 memory' = []"
| "elements_of_memory ty (Suc n) memory' =
     ReadPrimitiveFromArray ty memory' # elements_of_memory ty n (drop (sizeof_type ty) memory')"

fun ReadPackedSlow :: "cvalue \<Rightarrow> FieldType \<Rightarrow> nat \<Rightarrow> cis \<Rightarrow> cvalue RepeatedField \<Rightarrow>
    (bool \<times> cis \<times> cvalue RepeatedField) option" where
  "ReadPackedSlow junk ty 0 input values = Some (True, input, values)"
| "ReadPackedSlow junk ty (Suc left) input values =
     (case ReadPrimitive ty input of
        (False, value, input) \<Rightarrow> Some (False, input, values)
      | (True, value, input) \<Rightarrow> Option.bind (rf_Add junk value values) (ReadPackedSlow junk ty left input))"

text \<open>
  The fast path lets \<open>ReadRaw\<close> copy into the storage; of a copy that fails, only the whole elements
  are written here, and they are cut off.
\<close>

definition zero_of_type :: "FieldType \<Rightarrow> cvalue" where
  "zero_of_type ty = (if sizeof_type ty = 8 then C64 0 else C32 0)"

definition ReadPackedFixedSizePrimitive :: "cvalue \<Rightarrow> FieldType \<Rightarrow> cis \<Rightarrow> cvalue RepeatedField \<Rightarrow>
    (bool \<times> cis \<times> cvalue RepeatedField) option" where
  "ReadPackedFixedSizePrimitive junk ty input values =
     (case ReadVarintSizeAsInt input of
        (False, length', input) \<Rightarrow> Some (False, input, values)
      | (True, length', input) \<Rightarrow>
          (let old_entries = rf_size values;
               new_entries = length' div int (sizeof_type ty);
               new_bytes = new_entries * int (sizeof_type ty)
           in if new_bytes \<noteq> length' then Some (False, input, values)
              else let bytes_limit = BytesUntilTotalBytesLimit input;
                       bytes_limit = (if bytes_limit = -1 then BytesUntilLimit input
                                      else min bytes_limit (BytesUntilLimit input))
              in if bytes_limit \<ge> new_bytes
                 then Option.bind (rf_Resize junk (c_int (old_entries + new_entries)) (zero_of_type ty) values) (\<lambda>values.
                        case ReadRaw [] new_bytes input of
                          (ok, copied, input) \<Rightarrow>
                            map_option (\<lambda>values. (ok, input, if ok then values else rf_Truncate old_entries values))
                              (rf_store old_entries (elements_of_memory ty (length copied div sizeof_type ty) copied) values))
                 else ReadPackedSlow junk ty (nat new_entries) input values))"

definition ReadPackedPrimitive :: "cvalue \<Rightarrow> FieldType \<Rightarrow> cis \<Rightarrow> cvalue RepeatedField \<Rightarrow>
    (bool \<times> cis \<times> cvalue RepeatedField) option" where
  "ReadPackedPrimitive junk ty input values =
     (if fixed_type ty then ReadPackedFixedSizePrimitive junk ty input values
      else ReadPackedPrimitive_generic junk ty input values)"

text \<open>Enums: values the generated \<open>is_valid\<close> refuses are dropped, or kept as unknown fields.\<close>

fun ReadPackedEnum_loop :: "cvalue \<Rightarrow> (u32 \<Rightarrow> bool) option \<Rightarrow> nat \<Rightarrow> cis \<Rightarrow> cvalue RepeatedField \<Rightarrow>
    (bool \<times> cis \<times> cvalue RepeatedField) option" where
  "ReadPackedEnum_loop junk is_valid fuel input values =
     (if BytesUntilLimit input > 0
      then (case fuel of
              0 \<Rightarrow> None
            | Suc fuel \<Rightarrow>
                (case ReadPrimitive TYPE_ENUM input of
                   (True, C32 value, input) \<Rightarrow>
                     (if is_valid = None \<or> the is_valid value
                      then Option.bind (rf_Add junk (C32 value) values) (ReadPackedEnum_loop junk is_valid fuel input)
                      else ReadPackedEnum_loop junk is_valid fuel input values)
                 | (_, _, input) \<Rightarrow> Some (False, input, values)))
      else Some (True, input, values))"

definition ReadPackedEnumNoInline :: "cvalue \<Rightarrow> (u32 \<Rightarrow> bool) option \<Rightarrow> cis \<Rightarrow> cvalue RepeatedField \<Rightarrow>
    (bool \<times> cis \<times> cvalue RepeatedField) option" where
  "ReadPackedEnumNoInline junk is_valid input values =
     (case ReadVarint32 input of
        (False, length', input) \<Rightarrow> Some (False, input, values)
      | (True, length', input) \<Rightarrow>
          (let (limit, input) = PushLimit (sint length') input
           in map_option (\<lambda>(ok, input, values). (ok, if ok then PopLimit limit input else input, values))
                (ReadPackedEnum_loop junk is_valid (nat (BytesUntilLimit input)) input values)))"

fun ReadPackedEnumPreserve_loop :: "cvalue \<Rightarrow> u32 \<Rightarrow> (u32 \<Rightarrow> bool) option \<Rightarrow> nat \<Rightarrow> cis \<Rightarrow> bytes \<Rightarrow>
    cvalue RepeatedField \<Rightarrow> (bool \<times> cis \<times> bytes \<times> cvalue RepeatedField) option" where
  "ReadPackedEnumPreserve_loop junk n is_valid fuel input out values =
     (if BytesUntilLimit input > 0
      then (case fuel of
              0 \<Rightarrow> None
            | Suc fuel \<Rightarrow>
                (case ReadPrimitive TYPE_ENUM input of
                   (True, C32 value, input) \<Rightarrow>
                     (if is_valid = None \<or> the is_valid value
                      then Option.bind (rf_Add junk (C32 value) values)
                             (ReadPackedEnumPreserve_loop junk n is_valid fuel input out)
                      else (let tag = MakeTag n WIRETYPE_VARINT
                            in ReadPackedEnumPreserve_loop junk n is_valid fuel input
                                 (out @ WriteVarint32ToArray tag @ WriteVarint32ToArray value) values))
                 | (_, _, input) \<Rightarrow> Some (False, input, out, values)))
      else Some (True, input, out, values))"

definition ReadPackedEnumPreserveUnknowns :: "cvalue \<Rightarrow> u32 \<Rightarrow> (u32 \<Rightarrow> bool) option \<Rightarrow> cis \<Rightarrow> bytes \<Rightarrow>
    cvalue RepeatedField \<Rightarrow> (bool \<times> cis \<times> bytes \<times> cvalue RepeatedField) option" where
  "ReadPackedEnumPreserveUnknowns junk n is_valid input out values =
     (case ReadVarint32 input of
        (False, length', input) \<Rightarrow> Some (False, input, out, values)
      | (True, length', input) \<Rightarrow>
          (let (limit, input) = PushLimit (sint length') input
           in map_option (\<lambda>(ok, input, out, values). (ok, if ok then PopLimit limit input else input, out, values))
                (ReadPackedEnumPreserve_loop junk n is_valid (nat (BytesUntilLimit input)) input out values)))"

section \<open>Writing and sizes\<close>

text \<open>The loops of the writers from an index on; the packed one is a \<open>do\<close>, which runs at least once.\<close>

fun write_elements :: "(cvalue \<Rightarrow> bytes) \<Rightarrow> int \<Rightarrow> nat \<Rightarrow> cvalue RepeatedField \<Rightarrow> bytes option" where
  "write_elements Writer i 0 value = Some []"
| "write_elements Writer i (Suc left) value =
     Option.bind (rf_Get i value) (\<lambda>v. map_option ((@) (Writer v)) (write_elements Writer (i + 1) left value))"

definition WritePrimitiveNoTagToArray :: "(cvalue \<Rightarrow> bytes) \<Rightarrow> cvalue RepeatedField \<Rightarrow> bytes option" where
  "WritePrimitiveNoTagToArray Writer value = write_elements Writer 0 (nat (max 1 (rf_size value))) value"

text \<open>The bytes of a value in memory.\<close>

primrec object_bytes :: "cvalue \<Rightarrow> bytes" where
  "object_bytes (C32 v) = WriteLittleEndian32ToArray v"
| "object_bytes (C64 v) = WriteLittleEndian64ToArray v"
| "object_bytes (CBool b) = [if b then 1 else 0]"

definition WriteFixedNoTagToArray :: "cvalue RepeatedField \<Rightarrow> bytes option" where
  "WriteFixedNoTagToArray value = map_option (concat \<circ> map object_bytes) (rf_read 0 (nat (rf_size value)) value)"

definition WriteRepeatedNoTagToArray :: "FieldType \<Rightarrow> cvalue RepeatedField \<Rightarrow> bytes option" where
  "WriteRepeatedNoTagToArray ty value =
     (if fixed_type ty then WriteFixedNoTagToArray value else WritePrimitiveNoTagToArray (WritePrimitiveNoTag ty) value)"

definition WritePrimitiveToArray :: "u32 \<Rightarrow> FieldType \<Rightarrow> cvalue RepeatedField \<Rightarrow> bytes option" where
  "WritePrimitiveToArray n ty value =
     (if rf_size value = 0 then Some []
      else write_elements (WritePrimitive n ty) 0 (nat (max 1 (rf_size value))) value)"

text \<open>\<open>WriteArray\<close> of \<open>wire_format_lite.cc\<close>, behind \<open>WriteFloatArray\<close> up to \<open>WriteBoolArray\<close>.\<close>

definition WriteArray :: "cvalue list \<Rightarrow> bytes" where
  "WriteArray a = concat (map object_bytes a)"

fun sizes_loop :: "FieldType \<Rightarrow> int \<Rightarrow> nat \<Rightarrow> nat \<Rightarrow> cvalue RepeatedField \<Rightarrow> nat option" where
  "sizes_loop ty i 0 out value = Some out"
| "sizes_loop ty i (Suc left) out value =
     Option.bind (rf_Get i value) (\<lambda>v. sizes_loop ty (i + 1) left (out + PrimitiveSize ty v) value)"

definition RepeatedSize :: "FieldType \<Rightarrow> cvalue RepeatedField \<Rightarrow> nat option" where
  "RepeatedSize ty value = sizes_loop ty 0 (nat (rf_size value)) 0 value"

section \<open>The readers on what the writers wrote\<close>

declare ReadPackedPrimitive_loop.simps [simp del] ReadPackedEnum_loop.simps [simp del]
  ReadPackedEnumPreserve_loop.simps [simp del]

fun add_reserved :: "'a list \<Rightarrow> 'a RepeatedField \<Rightarrow> 'a RepeatedField option" where
  "add_reserved [] f = Some f"
| "add_reserved (v # vs) f = Option.bind (rf_AddAlreadyReserved v f) (add_reserved vs)"

fun add_all :: "'a \<Rightarrow> 'a list \<Rightarrow> 'a RepeatedField \<Rightarrow> 'a RepeatedField option" where
  "add_all junk [] f = Some f"
| "add_all junk (v # vs) f = Option.bind (rf_Add junk v f) (add_all junk vs)"

lemma add_reserved_shows:
  "rf_shows f xs \<Longrightarrow> int (length xs + length vs) \<le> rf_Capacity f \<Longrightarrow>
   \<exists>g. add_reserved vs f = Some g \<and> rf_shows g (xs @ vs) \<and> rf_Capacity g = rf_Capacity f"
proof (induction vs arbitrary: f xs)
  case (Cons v vs)
  obtain g where "rf_AddAlreadyReserved v f = Some g" "rf_shows g (xs @ [v])" "rf_Capacity g = rf_Capacity f"
    using rf_AddAlreadyReserved_shows [OF Cons.prems(1), of v] Cons.prems(2) by auto
  with Cons.IH [of g "xs @ [v]"] Cons.prems(2) show ?case by simp
qed simp

lemma add_all_shows: "rf_shows f xs \<Longrightarrow> int (length xs + length vs) \<le> INT_MAX \<Longrightarrow> \<exists>g. add_all junk vs f = Some g \<and> rf_shows g (xs @ vs)"
proof (induction vs arbitrary: f xs)
  case (Cons v vs)
  obtain g where "rf_Add junk v f = Some g" "rf_shows g (xs @ [v])"
    using rf_Add_shows [OF Cons.prems(1), where junk = junk and v = v] Cons.prems(2) by auto
  with Cons.IH [of g "xs @ [v]"] Cons.prems(2) show ?case by simp
qed simp

text \<open>A value of a fixed-size type is written as its bytes in memory.\<close>

lemma fixed_written:
  assumes "fixed_type ty" "has_type v ty"
  shows "length (WritePrimitiveNoTag ty v) = sizeof_type ty" "object_bytes v = WritePrimitiveNoTag ty v"
    "ReadPrimitiveFromArray ty (WritePrimitiveNoTag ty v @ rest) = v"
  using assms
  by (cases v; auto simp: fixed_type_def sizeof_type_def ReadPrimitiveFromArray_def ReadLittleEndian32_Write ReadLittleEndian64_Write)+

subsection \<open>Expected tags\<close>

lemma tag_bytes:
  "tag < 128 \<Longrightarrow> WriteVarint32ToArray tag = [ucast tag]"
  "\<not> tag < 128 \<Longrightarrow> tag < 16384 \<Longrightarrow> WriteVarint32ToArray tag = [ucast (tag OR 0x80), ucast (drop_bit 7 tag)]"
proof -
  show "tag < 128 \<Longrightarrow> WriteVarint32ToArray tag = [ucast tag]"
    by (simp add: WriteVarint32ToArray.simps [of tag] word_le_nat_alt word_less_nat_alt)
  assume t: "\<not> tag < 128" "tag < 16384"
  then have "\<not> 0x80 \<le> drop_bit 7 tag"
    by (simp add: word_le_nat_alt word_less_nat_alt unat_drop_bit)
  with t show "WriteVarint32ToArray tag = [ucast (tag OR 0x80), ucast (drop_bit 7 tag)]"
    by (simp add: WriteVarint32ToArray.simps [of tag] WriteVarint32ToArray.simps [of "drop_bit 7 tag"] word_le_nat_alt word_less_nat_alt)
qed

lemma byte_is_tag: "tag < 128 \<Longrightarrow> (ucast (b :: u8) = (tag :: u32)) = (b = ucast tag)"
  by (auto simp: word_unat_eq_iff word_less_nat_alt unsigned_ucast_eq take_bit_eq_mod)

lemma ExpectTag_hit:
  assumes "flat s" "tag < 16384" "avail s = WriteVarint32ToArray tag @ rest"
  shows "ExpectTag tag s = (True, Advance (VarintSize32 tag) s)"
proof (cases "tag < 128")
  case True
  have n: "VarintSize32 tag = 1" using length_varints(1) [of tag] by (simp add: tag_bytes(1) [OF True])
  from True assms show ?thesis
    by (simp add: ExpectTag_def tag_bytes byte_is_tag data_buffer_flat buffer_lt_flat n)
next
  case False
  note w = tag_bytes(2) [OF False assms(2)]
  have n: "VarintSize32 tag = 2" using length_varints(1) [of tag] by (simp add: w)
  from False assms show ?thesis
    by (simp add: ExpectTag_def w data_buffer_flat data_buffer1_flat BufferSize_flat n)
qed

lemma ExpectTag_miss:
  assumes "flat s" "tag < 16384" "\<And>r. avail s \<noteq> WriteVarint32ToArray tag @ r"
  shows "ExpectTag tag s = (False, s)"
proof (cases "tag < 128")
  case True
  with assms(3) have m: "\<And>r. avail s \<noteq> ucast tag # r" by (simp add: tag_bytes)
  show ?thesis
  proof (cases "avail s")
    case (Cons b bs)
    with m True assms show ?thesis by (auto simp: ExpectTag_def byte_is_tag data_buffer_flat buffer_lt_flat)
  qed (use True assms in \<open>simp add: ExpectTag_def buffer_lt_flat\<close>)
next
  case False
  with assms(2,3) have m: "\<And>r. avail s \<noteq> ucast (tag OR 0x80) # ucast (drop_bit 7 tag) # r" by (simp add: tag_bytes)
  show ?thesis
  proof (cases "2 \<le> length (avail s)")
    case True
    then obtain b c r where "avail s = b # c # r" by (auto simp: numeral_2_eq_2 Suc_le_length_iff)
    with m False assms show ?thesis by (auto simp: ExpectTag_def data_buffer_flat data_buffer1_flat)
  qed (use False assms in \<open>simp add: ExpectTag_def BufferSize_flat\<close>)
qed

lemma ExpectTagFromArray_hit:
  assumes "tag < 16384"
  shows "ExpectTagFromArray (WriteVarint32ToArray tag @ rest) tag = Some rest"
  using assms by (cases "tag < 128") (simp_all add: ExpectTagFromArray_def tag_bytes byte_is_tag)

lemma ExpectTagFromArray_miss:
  assumes "tag < 16384" "VarintSize32 tag \<le> length buffer" "\<And>r. buffer \<noteq> WriteVarint32ToArray tag @ r"
  shows "ExpectTagFromArray buffer tag = None"
proof (cases "tag < 128")
  case True
  have "VarintSize32 tag = 1" using length_varints(1) [of tag] by (simp add: tag_bytes(1) [OF True])
  then obtain b bs where "buffer = b # bs" using assms(2) by (cases buffer) auto
  with assms True show ?thesis by (auto simp: ExpectTagFromArray_def tag_bytes byte_is_tag)
next
  case False
  note w = tag_bytes(2) [OF False assms(1)]
  have "VarintSize32 tag = 2" using length_varints(1) [of tag] by (simp add: w)
  then obtain b c r where "buffer = b # c # r" using assms(2) by (auto simp: numeral_2_eq_2 Suc_le_length_iff)
  with assms(1,3) False show ?thesis by (auto simp: ExpectTagFromArray_def w)
qed

subsection \<open>Runs of unpacked elements\<close>

definition tagged :: "u32 \<Rightarrow> FieldType \<Rightarrow> cvalue list \<Rightarrow> bytes" where
  "tagged tag ty vs = concat (map (\<lambda>v. WriteVarint32ToArray tag @ WritePrimitiveNoTag ty v) vs)"

lemma tagged_simps [simp]:
  "tagged tag ty [] = []"
  "tagged tag ty (v # vs) = WriteVarint32ToArray tag @ WritePrimitiveNoTag ty v @ tagged tag ty vs"
  by (simp_all add: tagged_def)

lemma ReadReserved_run:
  assumes "tag < 16384" "\<And>r. rest \<noteq> WriteVarint32ToArray tag @ r"
    "\<forall>v \<in> set vs. has_type v ty" "flat s" "avail s = tagged tag ty vs @ rest"
  shows "ReadReserved ty tag n s f =
    map_option (\<lambda>g. (True, Advance (length (tagged tag ty (take n vs))) s, g)) (add_reserved (take n vs) f)"
  using assms(3-)
proof (induction n arbitrary: vs s f)
  case (Suc n)
  show ?case
  proof (cases vs)
    case Nil
    with Suc.prems assms(1,2) show ?thesis by (simp add: ExpectTag_miss)
  next
    case (Cons v ws)
    let ?t = "Advance (VarintSize32 tag) s"
    let ?u = "Advance (length (WritePrimitiveNoTag ty v)) ?t"
    have e: "ExpectTag tag s = (True, ?t)" using Suc.prems assms(1) Cons by (intro ExpectTag_hit) simp_all
    have t: "flat ?t" "avail ?t = WritePrimitiveNoTag ty v @ tagged tag ty ws @ rest"
      using Suc.prems Cons by (auto intro!: flat_Advance)
    have p: "ReadPrimitive ty ?t = (True, v, ?u)" using Suc.prems Cons t by (intro ReadPrimitive_written) simp_all
    have u: "flat ?u" "avail ?u = tagged tag ty ws @ rest"
      using t by (auto intro!: flat_Advance simp del: avail_Advance Advance_Advance) (simp add: t(2) del: Advance_Advance)
    show ?thesis
    proof (cases "rf_AddAlreadyReserved v f")
      case (Some g)
      have "ReadReserved ty tag n ?u g =
          map_option (\<lambda>h. (True, Advance (length (tagged tag ty (take n ws))) ?u, h)) (add_reserved (take n ws) g)"
        by (rule Suc.IH) (use Suc.prems Cons u in simp_all)
      with Some Cons show ?thesis by (simp add: e p add.assoc del: Advance_Advance) (simp add: add.assoc)
    qed (simp add: e p Cons)
  qed
qed simp

lemma ReadFromArrays_run:
  assumes "tag < 16384" "\<And>r. rest \<noteq> WriteVarint32ToArray tag @ r" "fixed_type ty"
    "\<forall>v \<in> set vs. has_type v ty" "n * (VarintSize32 tag + sizeof_type ty) \<le> length (tagged tag ty vs @ rest)"
  shows "ReadFromArrays ty tag n (tagged tag ty vs @ rest @ beyond) k f =
    map_option (\<lambda>g. (k + length (take n vs), g)) (add_reserved (take n vs) f)"
  using assms(4-)
proof (induction n arbitrary: vs k f)
  case (Suc n)
  show ?case
  proof (cases vs)
    case Nil
    have m: "(rest @ beyond) \<noteq> WriteVarint32ToArray tag @ r" for r
    proof
      assume "rest @ beyond = WriteVarint32ToArray tag @ r"
      moreover have "length (WriteVarint32ToArray tag) \<le> length rest" using Suc.prems Nil by simp
      ultimately have "rest = WriteVarint32ToArray tag @ drop (length (WriteVarint32ToArray tag)) rest"
        by (metis append_eq_append_conv_if append_take_drop_id)
      with assms(2) show False by blast
    qed
    have "ExpectTagFromArray (rest @ beyond) tag = None"
      using Suc.prems Nil by (intro ExpectTagFromArray_miss assms(1) m) simp
    with Nil show ?thesis by simp
  next
    case (Cons v ws)
    have v: "has_type v ty" "length (WritePrimitiveNoTag ty v) = sizeof_type ty"
      "ReadPrimitiveFromArray ty (WritePrimitiveNoTag ty v @ r) = v" for r
      using Suc.prems Cons fixed_written [OF assms(3)] by simp_all
    show ?thesis
    proof (cases "rf_AddAlreadyReserved v f")
      case (Some g)
      have "ReadFromArrays ty tag n (tagged tag ty ws @ rest @ beyond) (k + 1) g =
          map_option (\<lambda>h. (k + 1 + length (take n ws), h)) (add_reserved (take n ws) g)"
        by (rule Suc.IH) (use Suc.prems Cons v(2) in simp_all)
      with Some Cons show ?thesis by (simp add: ExpectTagFromArray_hit [OF assms(1)] v)
    qed (simp add: ExpectTagFromArray_hit [OF assms(1)] v Cons)
  qed
qed simp

text \<open>Both readers come to the same: the first element, and as many of the others as fit the reserved storage.\<close>

lemma ReadRepeated_run:
  assumes tag: "tag < 16384" "\<And>r. rest \<noteq> WriteVarint32ToArray tag @ r"
    and ty: "has_type v ty" "\<forall>v \<in> set vs. has_type v ty"
    and s: "flat s" "avail s = WritePrimitiveNoTag ty v @ tagged tag ty vs @ rest" and g: "rf_Add junk v f = Some g"
    and k: "k = nat (rf_Capacity g - rf_size g)"
  defines "t \<equiv> Advance (length (WritePrimitiveNoTag ty v)) s"
  defines "result \<equiv> map_option (\<lambda>h. (True, Advance (length (tagged tag ty (take k vs))) t, h)) (add_reserved (take k vs) g)"
  shows "ReadRepeatedPrimitive_generic junk ty tag s f = result"
    and "fixed_type ty \<Longrightarrow> ReadRepeatedFixedSizePrimitive junk ty (VarintSize32 tag) tag s f = result"
proof -
  have p: "ReadPrimitive ty s = (True, v, t)" unfolding t_def by (rule ReadPrimitive_written [OF ty(1) s])
  have t: "flat t" "avail t = tagged tag ty vs @ rest" using s by (simp_all add: t_def)
  show "ReadRepeatedPrimitive_generic junk ty tag s f = result"
    unfolding ReadRepeatedPrimitive_generic_def p result_def
    by (simp add: g k [symmetric] ReadReserved_run [OF tag ty(2) t])
  assume fixed: "fixed_type ty"
  let ?per = "VarintSize32 tag + sizeof_type ty"
  have len: "length (tagged tag ty ws) = length ws * ?per" if "\<forall>v \<in> set ws. has_type v ty" for ws
    using that by (induction ws) (simp_all add: fixed_written(1) [OF fixed])
  define n where "n = min k (length (avail t) div ?per)"
  have avail: "nat (min (rf_Capacity g - rf_size g) (int (length (avail t)) div int ?per)) = n"
    unfolding n_def k zdiv_int [symmetric] by linarith
  have fits: "n * ?per \<le> length (avail t)"
    unfolding n_def by (rule le_trans [OF mult_le_mono1 [OF min.cobounded2] div_times_less_eq_dividend])
  have "length vs * ?per \<le> length (avail t)" by (simp add: t len ty(2) del: avail_Advance)
  then have "length vs \<le> length (avail t) div ?per" by (simp add: less_eq_div_iff_mult_less_eq)
  then have take: "take n vs = take k vs" by (simp add: n_def min_def)
  obtain beyond where buffer: "drop (cbuffer t) (cdata t) = tagged tag ty vs @ rest @ beyond"
    using append_take_drop_id [of "cbuffer_end t - cbuffer t" "drop (cbuffer t) (cdata t)"] t(2)
    by (metis avail_def append.assoc)
  have loop: "ReadFromArrays ty tag n (tagged tag ty vs @ rest @ beyond) 0 g =
      map_option (\<lambda>h. (length (take k vs), h)) (add_reserved (take k vs) g)"
    using ReadFromArrays_run [OF tag fixed ty(2) fits [unfolded t(2)], of beyond 0 g] by (simp only: take add_0)
  have tk: "\<forall>v \<in> set (take k vs). has_type v ty" using ty(2) by (auto dest: in_set_takeD)
  have "length (take k vs) * ?per \<le> length (avail t)"
    by (rule le_trans [OF mult_le_mono1 \<open>length vs * ?per \<le> length (avail t)\<close>]) simp
  then have skip: "snd (Skip (int (length (take k vs) * ?per)) t) = Advance (length (tagged tag ty (take k vs))) t"
    by (simp only: Skip_flat [OF t(1)] if_True snd_conv len [OF tk])
  have one: "(let read_bytes = int (length (take k vs) * ?per);
        input = (if read_bytes > 0 then snd (Skip read_bytes t) else t) in (True, input, h)) =
      (True, Advance (length (tagged tag ty (take k vs))) t, h)" for h :: "cvalue RepeatedField"
  proof -
    have "(if int m > 0 then Advance m t else t) = Advance m t" for m by (cases m) simp_all
    from this [of "length (take k vs) * ?per"] show ?thesis unfolding Let_def skip len [OF tk] by (simp only:)
  qed
  show "ReadRepeatedFixedSizePrimitive junk ty (VarintSize32 tag) tag s f = result"
  proof (cases "avail t = []")
    case True
    then have "tagged tag ty vs = []" using t(2) by (simp only: append_is_Nil_conv)
    then have "vs = []" using len [OF ty(2)] VarintSize32_pos [of tag] by simp
    then show ?thesis using True
      by (simp add: ReadRepeatedFixedSizePrimitive_def p g GetDirectBufferPointerInline_def BufferSize_flat [OF t(1)] result_def)
  next
    case False
    then have pos: "0 < int (length (avail t))" by simp
    show ?thesis
      unfolding ReadRepeatedFixedSizePrimitive_def p result_def
      by (simp only: prod.case bool.case g Option.bind.bind_lunit GetDirectBufferPointerInline_def BufferSize_flat [OF t(1)] Let_def
          pos if_True avail buffer loop option.map_comp o_def)
        (simp only: one [unfolded Let_def])
  qed
qed

subsection \<open>Packed fields\<close>

definition packed :: "FieldType \<Rightarrow> cvalue list \<Rightarrow> bytes" where
  "packed ty vs = concat (map (WritePrimitiveNoTag ty) vs)"

lemma packed_simps [simp]: "packed ty [] = []" "packed ty (v # vs) = WritePrimitiveNoTag ty v @ packed ty vs"
  by (simp_all add: packed_def)

lemma bytes_until_limits:
  "flat s \<Longrightarrow> int (cbuffer_end s) < INT_MAX \<Longrightarrow> BytesUntilLimit s = int (length (avail s))"
  "flat s \<Longrightarrow> BytesUntilTotalBytesLimit s = -1"
  by (simp_all add: BytesUntilLimit_def BytesUntilTotalBytesLimit_def CurrentPosition_flat length_avail_flat) (simp_all add: flat_def)

lemma ReadPackedPrimitive_loop_run:
  assumes "\<forall>v \<in> set vs. has_type v ty" "flat s" "int (cbuffer_end s) < INT_MAX" "avail s = packed ty vs"
    "length (packed ty vs) \<le> fuel"
  shows "ReadPackedPrimitive_loop junk ty fuel s f =
    map_option (\<lambda>g. (True, Advance (length (packed ty vs)) s, g)) (add_all junk vs f)"
  using assms
proof (induction vs arbitrary: fuel s f)
  case Nil
  then show ?case by (simp add: ReadPackedPrimitive_loop.simps [of _ _ _ s] bytes_until_limits)
next
  case (Cons v vs)
  let ?t = "Advance (length (WritePrimitiveNoTag ty v)) s"
  have p: "ReadPrimitive ty s = (True, v, ?t)" using Cons.prems by (intro ReadPrimitive_written [where rest = "packed ty vs"]) simp_all
  have pos: "0 < length (WritePrimitiveNoTag ty v)" using WritePrimitiveNoTag_nonempty [of v ty] Cons.prems(1) by simp
  obtain k where k: "fuel = Suc k" "length (packed ty vs) \<le> k" "0 < BytesUntilLimit s"
  proof (cases fuel)
    case (Suc k)
    have "length (packed ty vs) \<le> k" using Cons.prems(5) pos Suc by (simp only: packed_simps length_append)
    moreover have "0 < BytesUntilLimit s"
      using bytes_until_limits(1) [OF Cons.prems(2,3)] Cons.prems(4) pos by (simp only: packed_simps length_append)
    ultimately show thesis using that Suc by blast
  next
    case 0
    with Cons.prems(5) pos show thesis by simp
  qed
  have "ReadPackedPrimitive_loop junk ty k ?t g =
      map_option (\<lambda>h. (True, Advance (length (packed ty vs)) ?t, h)) (add_all junk vs g)" for g
    by (rule Cons.IH) (use Cons.prems k in simp_all)
  with k show ?case by (cases "rf_Add junk v f") (simp_all add: ReadPackedPrimitive_loop.simps [of _ _ _ s] p)
qed

lemma sized_written:
  assumes "flat s" "avail s = WriteVarint32ToArray (of_nat n) @ rest" "n < 2 ^ 31"
  defines "t \<equiv> Advance (VarintSize32 (of_nat n)) s"
  shows "ReadVarintSizeAsInt s = (True, int n, t)" "ReadVarint32 s = (True, of_nat n, t)" "flat t" "avail t = rest"
proof -
  have n: "unat (of_nat n :: u32) = n" using assms(3) by (rule unat_small)
  show "ReadVarintSizeAsInt s = (True, int n, t)"
    using assms n by (simp add: ReadVarintSizeAsInt_flat varint_dec_32 t_def)
  show "ReadVarint32 s = (True, of_nat n, t)" using ReadVarint32_written [OF assms(1,2)] by (simp add: t_def)
  show "flat t" "avail t = rest" using assms by (simp_all add: t_def)
qed

text \<open>The stream of a packed field: its limit, and what is left when the limit is popped behind the field.\<close>

lemma pushed:
  assumes "flat s" "avail s = body @ rest" "int (length (cdata s)) < INT_MAX"
  obtains old t where "PushLimit (int (length body)) s = (old, t)" "flat t" "avail t = body" "int (cbuffer_end t) < INT_MAX"
    "flat (PopLimit old (Advance (length body) t))" "avail (PopLimit old (Advance (length body) t)) = rest"
proof -
  obtain old t where p: "PushLimit (int (length body)) s = (old, t)" by (cases "PushLimit (int (length body)) s")
  have n: "length body \<le> length (avail s)" using assms(2) by simp
  have "t = limit_to (cbuffer s + length body) s" using p n by (simp add: PushLimit_flat [OF assms(1)] min_def)
  moreover have "cbuffer s + length body \<le> length (cdata s)"
    using assms(1) n length_avail_flat [OF assms(1)] unfolding flat_def by linarith
  ultimately have "int (cbuffer_end t) < INT_MAX" using assms(3) by simp
  with that [OF p] limits_nest [OF assms(1), of "length body" "length body"] p n assms(2) show thesis by simp
qed

lemma ReadPackedPrimitive_generic_run:
  assumes ty: "\<forall>v \<in> set vs. has_type v ty"
    and s: "flat s" "avail s = WriteVarint32ToArray (of_nat (length (packed ty vs))) @ packed ty vs @ rest"
      "length (packed ty vs) < 2 ^ 31" "int (length (cdata s)) < INT_MAX"
  shows "\<exists>t. ReadPackedPrimitive_generic junk ty s f = map_option (\<lambda>g. (True, t, g)) (add_all junk vs f) \<and> flat t \<and> avail t = rest"
proof -
  note z = sized_written [OF s(1,2,3)]
  let ?n = "length (packed ty vs)"
  obtain old t where t: "PushLimit (int ?n) (Advance (VarintSize32 (of_nat ?n)) s) = (old, t)" "flat t" "avail t = packed ty vs"
    "int (cbuffer_end t) < INT_MAX" "flat (PopLimit old (Advance ?n t))" "avail (PopLimit old (Advance ?n t)) = rest"
    using s(4) by (auto intro: pushed [OF z(3,4)])
  have l: "ReadPackedPrimitive_loop junk ty (nat (BytesUntilLimit t)) t f =
      map_option (\<lambda>g. (True, Advance ?n t, g)) (add_all junk vs f)"
    by (rule ReadPackedPrimitive_loop_run [OF ty t(2,4,3)]) (simp only: bytes_until_limits(1) [OF t(2,4)] t(3) nat_int order_refl)
  show ?thesis
    using t(5,6) by (intro exI [of _ "PopLimit old (Advance ?n t)"])
      (simp add: ReadPackedPrimitive_generic_def z(1) t(1) l option.map_comp o_def)
qed

text \<open>The fast path of the fixed-size types fills the resized storage.\<close>

lemma elements_of_packed:
  assumes "fixed_type ty" "\<forall>v \<in> set vs. has_type v ty"
  shows "elements_of_memory ty (length vs) (packed ty vs) = vs" "length (packed ty vs) = length vs * sizeof_type ty"
    "concat (map object_bytes vs) = packed ty vs"
  using assms(2) by (induction vs) (simp_all add: fixed_written [OF assms(1)])

lemma rf_store_inside:
  "rf_shows f (xs @ ys) \<Longrightarrow> length vs = length ys \<Longrightarrow>
   \<exists>g. rf_store (int (length xs)) vs f = Some g \<and> rf_shows g (xs @ vs)"
proof (induction vs arbitrary: f xs ys)
  case (Cons v vs)
  then obtain y zs where ys: "ys = y # zs" "length vs = length zs" by (cases ys) auto
  obtain g where g: "rf_Set (int (length xs)) v f = Some g" "rf_shows g ((xs @ [v]) @ zs)"
    using rf_Set_shows [OF Cons.prems(1), of "length xs" v] ys by auto
  with Cons.IH [OF g(2) ys(2)] show ?case by (simp add: add.commute)
qed simp

lemma ReadPackedFixedSize_run:
  assumes ty: "fixed_type ty" "\<forall>v \<in> set vs. has_type v ty"
    and s: "flat s" "avail s = WriteVarint32ToArray (of_nat (length (packed ty vs))) @ packed ty vs @ rest"
      "length (packed ty vs) < 2 ^ 31" "int (length (cdata s)) < INT_MAX"
    and f: "rf_shows f xs" "int (length xs + length vs) \<le> INT_MAX"
  shows "\<exists>t g. ReadPackedFixedSizePrimitive junk ty s f = Some (True, t, g) \<and> flat t \<and> avail t = rest \<and> rf_shows g (xs @ vs)"
proof -
  let ?n = "length (packed ty vs)"
  note e = elements_of_packed [OF ty] and sized = sized_written [OF s(1,2,3)]
  have "int (cbuffer_end (Advance (VarintSize32 (of_nat ?n)) s)) < INT_MAX" using s(1,4) unfolding flat_def Advance_simps by linarith
  then obtain u where u: "ReadVarintSizeAsInt s = (True, int ?n, u)" "flat u" "avail u = packed ty vs @ rest" "int (cbuffer_end u) < INT_MAX"
    using sized(1,3,4) by blast
  have size: "0 < sizeof_type ty" by (simp add: sizeof_type_def)
  have div: "?n div sizeof_type ty = length vs" "int ?n div int (sizeof_type ty) = int (length vs)"
    "int (length vs) * int (sizeof_type ty) = int ?n"
    using size by (simp_all add: e(2) flip: zdiv_int)
  have limit: "BytesUntilLimit u = int (length (avail u))" "int ?n \<le> int (length (avail u))"
    by (rule bytes_until_limits(1) [OF u(2,4)]) (simp add: u(3))
  obtain h where h: "rf_Resize junk (int (length xs + length vs)) (zero_of_type ty) f = Some h"
    "rf_shows h (xs @ replicate (length vs) (zero_of_type ty))"
    using rf_Resize_shows [OF f, where v = "zero_of_type ty"] by auto
  have int: "c_int (int (length xs) + int (length vs)) = int (length xs + length vs)" using f(2) by (simp add: c_int_small)
  obtain g where g: "rf_store (int (length xs)) vs h = Some g" "rf_shows g (xs @ vs)"
    using rf_store_inside [OF h(2), of vs] by auto
  have "ReadRaw [] (int ?n) u = (True, packed ty vs, Advance ?n u)" by (simp add: ReadRaw_flat [OF u(2)] u(3))
  moreover have "flat (Advance ?n u)" "avail (Advance ?n u) = rest" using u(2,3) by simp_all
  ultimately show ?thesis
    using h(1) g rf_shows_size [OF f(1)] limit(2) int
    by (intro exI [of _ "Advance ?n u"] exI [of _ g])
      (simp add: ReadPackedFixedSizePrimitive_def u(1) Let_def div e(1) bytes_until_limits(2) [OF u(2)] limit(1))
qed

lemma ReadPackedPrimitive_run:
  assumes ty: "\<forall>v \<in> set vs. has_type v ty"
    and s: "flat s" "avail s = WriteVarint32ToArray (of_nat (length (packed ty vs))) @ packed ty vs @ rest"
      "length (packed ty vs) < 2 ^ 31" "int (length (cdata s)) < INT_MAX"
    and f: "rf_shows f xs" "int (length xs + length vs) \<le> INT_MAX"
  shows "\<exists>t g. ReadPackedPrimitive junk ty s f = Some (True, t, g) \<and> flat t \<and> avail t = rest \<and> rf_shows g (xs @ vs)"
proof (cases "fixed_type ty")
  case True
  then show ?thesis using ReadPackedFixedSize_run [OF True ty s f] by (simp add: ReadPackedPrimitive_def)
next
  case False
  obtain g where "add_all junk vs f = Some g" "rf_shows g (xs @ vs)" using add_all_shows [OF f] by blast
  with ReadPackedPrimitive_generic_run [OF ty s, of junk f] False show ?thesis by (auto simp: ReadPackedPrimitive_def)
qed

subsection \<open>Writers and sizes\<close>

lemma write_elements_shows:
  "rf_shows f xs \<Longrightarrow> i + n \<le> length xs \<Longrightarrow> write_elements Writer (int i) n f = Some (concat (map Writer (take n (drop i xs))))"
proof (induction n arbitrary: i)
  case (Suc n)
  then show ?case using rf_Get_shows [of f xs i] Suc.IH [of "Suc i"]
    by (simp add: Cons_nth_drop_Suc [symmetric] add.commute [of 1])
qed simp

lemma sizes_loop_shows:
  "rf_shows f xs \<Longrightarrow> i + n \<le> length xs \<Longrightarrow>
   sizes_loop ty (int i) n out f = Some (out + sum_list (map (PrimitiveSize ty) (take n (drop i xs))))"
proof (induction n arbitrary: i out)
  case (Suc n)
  then show ?case using rf_Get_shows [of f xs i] Suc.IH [of "Suc i"]
    by (simp add: Cons_nth_drop_Suc [symmetric] add.commute [of 1])
qed simp

lemma RepeatedSize_packed:
  assumes "\<forall>v \<in> set vs. has_type v ty" "rf_shows f vs"
  shows "RepeatedSize ty f = Some (length (packed ty vs))"
proof -
  have "sum_list (map (PrimitiveSize ty) vs) = length (packed ty vs)"
    using assms(1) by (induction vs) (simp_all add: PrimitiveSize_length)
  then show ?thesis
    using sizes_loop_shows [OF assms(2), of 0 "length vs" ty 0] rf_shows_size [OF assms(2)]
    by (simp add: RepeatedSize_def)
qed

lemma WriteRepeatedNoTagToArray_packed:
  assumes "vs \<noteq> []" "\<forall>v \<in> set vs. has_type v ty" "rf_shows f vs"
  shows "WriteRepeatedNoTagToArray ty f = Some (packed ty vs)"
proof (cases "fixed_type ty")
  case True
  then show ?thesis
    using rf_read_shows [OF assms(3), of 0 "length vs"] rf_shows_size [OF assms(3)] elements_of_packed(3) [OF True assms(2)]
    by (simp add: WriteRepeatedNoTagToArray_def WriteFixedNoTagToArray_def)
next
  case False
  have "nat (max 1 (int (length vs))) = length vs" using assms(1) by (cases vs) auto
  then show ?thesis
    using False write_elements_shows [OF assms(3), of 0 "length vs"] rf_shows_size [OF assms(3)]
    by (simp add: WriteRepeatedNoTagToArray_def WritePrimitiveNoTagToArray_def packed_def)
qed

lemma WritePrimitiveToArray_tagged:
  assumes "rf_shows f vs"
  shows "WritePrimitiveToArray n ty f = Some (tagged (MakeTag n (WireTypeForFieldType ty)) ty vs)"
proof (cases "vs = []")
  case True
  then show ?thesis using rf_shows_size [OF assms] by (simp add: WritePrimitiveToArray_def)
next
  case False
  have "nat (max 1 (int (length vs))) = length vs" using False by (cases vs) auto
  then show ?thesis
    using False write_elements_shows [OF assms, of 0 "length vs"] rf_shows_size [OF assms]
    by (simp add: WritePrimitiveToArray_def tagged_def WritePrimitive_def [abs_def] WriteTagToArray_def WriteTagToArray0_def)
qed

subsection \<open>Packed enums\<close>

definition enum_valid :: "(u32 \<Rightarrow> bool) option \<Rightarrow> u32 \<Rightarrow> bool" where
  "enum_valid is_valid v \<longleftrightarrow> is_valid = None \<or> the is_valid v"

lemma ReadPackedEnumPreserve_loop_run:
  assumes "flat s" "int (cbuffer_end s) < INT_MAX" "avail s = packed TYPE_ENUM (map C32 es)"
    "length (avail s) \<le> fuel"
  shows "ReadPackedEnumPreserve_loop junk n is_valid fuel s out f =
      map_option (\<lambda>g. (True, Advance (length (avail s)) s,
          out @ concat (map (\<lambda>e. SerializeUnknownField (TYPE_VARINT n (ucast e))) (filter (\<lambda>e. \<not> enum_valid is_valid e) es)), g))
        (add_all junk (map C32 (filter (enum_valid is_valid) es)) f) \<and>
    ReadPackedEnum_loop junk is_valid fuel s f =
      map_option (\<lambda>g. (True, Advance (length (avail s)) s, g)) (add_all junk (map C32 (filter (enum_valid is_valid) es)) f)"
  using assms
proof (induction es arbitrary: fuel s f out)
  case Nil
  then show ?case
    by (simp add: ReadPackedEnumPreserve_loop.simps [of _ _ _ _ s] ReadPackedEnum_loop.simps [of _ _ _ s] bytes_until_limits)
next
  case (Cons e es)
  let ?w = "WritePrimitiveNoTag TYPE_ENUM (C32 e)" and ?rest = "packed TYPE_ENUM (map C32 es)"
  let ?t = "Advance (length ?w) s"
  have a: "avail s = ?w @ ?rest" using Cons.prems(3) by (simp only: list.map packed_simps)
  have p: "ReadPrimitive TYPE_ENUM s = (True, C32 e, ?t)" by (rule ReadPrimitive_written [OF _ Cons.prems(1) a]) simp
  have pos: "0 < length ?w" using WritePrimitiveNoTag_nonempty [of "C32 e" TYPE_ENUM] by simp
  have b: "0 < BytesUntilLimit s"
    unfolding bytes_until_limits(1) [OF Cons.prems(1,2)] a length_append using pos by linarith
  obtain k where k: "fuel = Suc k" "length ?rest \<le> k"
  proof (cases fuel)
    case (Suc k)
    have "length ?rest \<le> k" using Cons.prems(4) pos unfolding Suc a length_append by linarith
    then show thesis using that Suc by blast
  next
    case 0
    then show thesis using Cons.prems(4) pos unfolding a length_append by linarith
  qed
  have t: "flat ?t" "avail ?t = ?rest" using Cons.prems(1) a by (auto simp del: WritePrimitiveNoTag.simps)
  have adv: "Advance (length (avail ?t)) ?t = Advance (length (avail s)) s"
    using a by (simp del: WritePrimitiveNoTag.simps)
  have tag: "WriteVarint32ToArray (MakeTag n WIRETYPE_VARINT) @ WriteVarint32ToArray e = SerializeUnknownField (TYPE_VARINT n (ucast e))"
    by (simp add: WriteInt64ToArray_def WriteTagToArray_def WriteTagToArray0_def WriteVarint32ToArray_enc WriteVarint64ToArray_enc
        unsigned_ucast_eq take_bit_eq_mod less_trans [OF u32_less])
  have ih: "ReadPackedEnumPreserve_loop junk n is_valid k ?t out' g =
      map_option (\<lambda>g. (True, Advance (length (avail s)) s,
          out' @ concat (map (\<lambda>e. SerializeUnknownField (TYPE_VARINT n (ucast e))) (filter (\<lambda>e. \<not> enum_valid is_valid e) es)), g))
        (add_all junk (map C32 (filter (enum_valid is_valid) es)) g) \<and>
    ReadPackedEnum_loop junk is_valid k ?t g =
      map_option (\<lambda>g. (True, Advance (length (avail s)) s, g)) (add_all junk (map C32 (filter (enum_valid is_valid) es)) g)" for out' g
    using Cons.IH [of ?t k out' g] t k(2) Cons.prems(2) unfolding adv by simp
  let ?u = "SerializeUnknownField (TYPE_VARINT n (ucast e))"
  have "ReadPackedEnumPreserve_loop junk n is_valid fuel s out f =
      (if enum_valid is_valid e then Option.bind (rf_Add junk (C32 e) f) (ReadPackedEnumPreserve_loop junk n is_valid k ?t out)
       else ReadPackedEnumPreserve_loop junk n is_valid k ?t (out @ ?u) f)"
    unfolding ReadPackedEnumPreserve_loop.simps [of _ _ _ _ s] k(1) p tag [symmetric] enum_valid_def Let_def using b by simp
  moreover have "ReadPackedEnum_loop junk is_valid fuel s f =
      (if enum_valid is_valid e then Option.bind (rf_Add junk (C32 e) f) (ReadPackedEnum_loop junk is_valid k ?t)
       else ReadPackedEnum_loop junk is_valid k ?t f)"
    unfolding ReadPackedEnum_loop.simps [of _ _ _ s] k(1) p enum_valid_def using b by simp
  ultimately show ?case
    using ih by (cases "rf_Add junk (C32 e) f") (simp_all del: WritePrimitiveNoTag.simps SerializeUnknownField.simps)
qed

section \<open>What repeated numbers promise\<close>

text \<open>The reader of a run of unpacked elements and the one for types of a fixed size, which reads
  tags and values from the buffer behind the stream's back and skips over them at the end, return the
  same: the first element and the following ones of the same tag are added in order, all of
  them or as many as the storage of the field has room for, no access is outside that storage, and the stream
  stands before the first element not read.\<close>

lemma repeated_readers_agree:
  assumes tag: "tag < 16384" "\<forall>r. rest \<noteq> WriteVarint32ToArray tag @ r"
    and ty: "has_type v ty" "\<forall>v \<in> set vs. has_type v ty"
    and s: "flat s" "avail s = WritePrimitiveNoTag ty v @ tagged tag ty vs @ rest"
    and f: "rf_shows f xs" "int (length xs) < INT_MAX"
  shows "\<exists>k t g. ReadRepeatedPrimitive_generic junk ty tag s f = Some (True, t, g) \<and>
    rf_shows g (xs @ v # take k vs) \<and> flat t \<and> avail t = tagged tag ty (drop k vs) @ rest \<and>
    (k = length vs \<or> k < length vs \<and> rf_Capacity g = int (length xs + 1 + k)) \<and>
    ReadRepeatedPrimitive junk ty (VarintSize32 tag) tag s f = Some (True, t, g)"
proof -
  obtain g where g: "rf_Add junk v f = Some g" "rf_shows g (xs @ [v])" using rf_Add_shows [OF f] by blast
  define n where "n = nat (rf_Capacity g - rf_size g)"
  define k where "k = min n (length vs)"
  have tk: "take n vs = take k vs" "drop n vs = drop k vs" "k \<le> length vs" by (auto simp: k_def min_def)
  have size: "rf_size g = int (length xs + 1)" "rf_size g \<le> rf_Capacity g"
    using rf_shows_size [OF g(2)] g(2) by (simp_all add: rf_shows_def rf_ok_def)
  then have cap: "int (length (xs @ [v]) + length (take k vs)) \<le> rf_Capacity g"
    unfolding k_def n_def length_append length_take list.size by linarith
  obtain h where h: "add_reserved (take k vs) g = Some h" "rf_shows h ((xs @ [v]) @ take k vs)" "rf_Capacity h = rf_Capacity g"
    using add_reserved_shows [OF g(2) cap] by blast
  define t where "t = Advance (length (WritePrimitiveNoTag ty v)) s"
  define u where "u = Advance (length (tagged tag ty (take k vs))) t"
  have t: "flat t" "avail t = tagged tag ty (take k vs) @ tagged tag ty (drop k vs) @ rest"
    using s by (simp_all add: t_def) (simp add: tagged_def flip: map_append concat_append append_assoc)
  then have u: "flat u" "avail u = tagged tag ty (drop k vs) @ rest" by (simp_all add: u_def)
  note run = ReadRepeated_run [OF tag(1) spec [OF tag(2)] ty s g(1) n_def]
  have r: "ReadRepeatedPrimitive_generic junk ty tag s f = Some (True, u, h)"
    "fixed_type ty \<Longrightarrow> ReadRepeatedFixedSizePrimitive junk ty (VarintSize32 tag) tag s f = Some (True, u, h)"
    using run h(1) by (simp_all add: tk(1) u_def t_def)
  have "k = length vs \<or> k < length vs \<and> rf_Capacity h = int (length xs + 1 + k)"
    using size h(3) by (auto simp: k_def n_def min_def)
  with r h(2) u show ?thesis
    by (intro exI [of _ k] exI [of _ u] exI [of _ h]) (simp add: ReadRepeatedPrimitive_def)
qed

lemma repeated_readers_agree_witness:
  "\<exists>k t g. ReadRepeatedPrimitive (C32 0) TYPE_UINT32 (VarintSize32 8) 8 (CodedInputStream [1, 8, 2] 3) RepeatedField0 = Some (True, t, g) \<and>
    rf_shows g (C32 1 # take k [C32 2])"
proof -
  have w: "WriteVarint32ToArray 8 = [8]" "WriteVarint32ToArray 1 = [1]" "WriteVarint32ToArray 2 = [2]"
    by (simp_all add: WriteVarint32ToArray_enc varint_enc_small)
  have "flat (CodedInputStream [1, 8, 2] 3)" "avail (CodedInputStream [1, 8, 2] 3) = [1, 8, 2]"
    using flat_CodedInputStream [of "[1, 8, 2]"] avail_CodedInputStream [of "[1, 8, 2]"] by simp_all
  with repeated_readers_agree [of 8 "[]" "C32 1" TYPE_UINT32 "[C32 2]" "CodedInputStream [1, 8, 2] 3" RepeatedField0 "[]" "C32 0"] w
  show ?thesis using rf_shows_new by (simp add: tagged_def) blast
qed

text \<open>C33: A repeated field of numbers of any type that is not empty has the size its serialization has, and the
  packed reader, the loop of the varint types or the bulk copy of the fixed ones, appends exactly those numbers,
  in order and bit for bit, to the field it reads into and leaves the stream behind them, as long as that field then has
  at most \<open>INT_MAX\<close> elements.\<close>

theorem packed_roundtrip:
  assumes vs: "vs \<noteq> []" "\<forall>v \<in> set vs. has_type v ty" and fld: "rf_shows value vs"
  shows "\<exists>body. WriteRepeatedNoTagToArray ty value = Some body \<and> RepeatedSize ty value = Some (length body) \<and>
    (\<forall>s rest f xs. flat s \<and> avail s = WriteVarint32ToArray (of_nat (length body)) @ body @ rest \<and>
        length body < 2 ^ 31 \<and> int (length (cdata s)) < INT_MAX \<and> rf_shows f xs \<and> int (length xs + length vs) \<le> INT_MAX \<longrightarrow>
      (\<exists>t g. ReadPackedPrimitive junk ty s f = Some (True, t, g) \<and> flat t \<and> avail t = rest \<and> rf_shows g (xs @ vs)))"
  using WriteRepeatedNoTagToArray_packed [OF vs fld] RepeatedSize_packed [OF vs(2) fld] ReadPackedPrimitive_run [OF vs(2)]
  by blast

lemma packed_roundtrip_witness:
  "\<exists>t g. ReadPackedPrimitive (C32 0) TYPE_FIXED32' (CodedInputStream [4, 7, 0, 0, 0] 5) RepeatedField0 = Some (True, t, g) \<and>
    rf_shows g [C32 7]"
proof -
  let ?f = "\<lparr>rf_storage = [C32 7], rf_size = 1\<rparr>" and ?s = "CodedInputStream [4, 7, 0, 0, 0] 5"
  have f: "rf_shows ?f [C32 7]" by (rule rf_showsI [of _ _ "[]"]) simp_all
  have b: "WriteRepeatedNoTagToArray TYPE_FIXED32' ?f = Some [7, 0, 0, 0]"
    by (simp add: WriteRepeatedNoTagToArray_def fixed_type_def WriteFixedNoTagToArray_def rf_Get_def rf_Capacity_def WriteLittleEndian32ToArray_def)
  have s: "flat ?s" "avail ?s = WriteVarint32ToArray 4 @ [7, 0, 0, 0] @ []" "int (length (cdata ?s)) < INT_MAX"
    using flat_CodedInputStream [of "[4, 7, 0, 0, 0]"] avail_CodedInputStream [of "[4, 7, 0, 0, 0]"]
    by (simp_all add: WriteVarint32ToArray.simps [of 4] CodedInputStream_def)
  from packed_roundtrip [of "[C32 7]" "TYPE_FIXED32'" ?f "C32 0", OF _ _ f] b s rf_shows_new show ?thesis by fastforce
qed

text \<open>A packed enum field is split into the values \<open>is_valid\<close> accepts, which are added to the field in order,
  and the others, which the preserving reader writes to the stream of unknown fields, each as a varint field
  that a reader of unknown fields takes for the 32 bits of the value, not for its sign extension;
  the other reader drops them.\<close>

lemma packed_enums_split:
  assumes s: "flat s" "avail s = WriteVarint32ToArray (of_nat (length (packed TYPE_ENUM (map C32 es)))) @ packed TYPE_ENUM (map C32 es) @ rest"
      "length (packed TYPE_ENUM (map C32 es)) < 2 ^ 31" "int (length (cdata s)) < INT_MAX"
    and f: "rf_shows f xs" "int (length xs + length es) \<le> INT_MAX"
  shows "\<exists>t g. flat t \<and> avail t = rest \<and> rf_shows g (xs @ map C32 (filter (enum_valid is_valid) es)) \<and>
    ReadPackedEnumPreserveUnknowns junk n is_valid s out f = Some (True, t,
      out @ SerializeUnknownFieldsToArray (map (\<lambda>e. TYPE_VARINT n (ucast e)) (filter (\<lambda>e. \<not> enum_valid is_valid e) es)), g) \<and>
    ReadPackedEnumNoInline junk is_valid s f = Some (True, t, g)"
proof -
  let ?body = "packed TYPE_ENUM (map C32 es)"
  note z = sized_written [OF s(1,2,3)]
  obtain u where u: "ReadVarint32 s = (True, of_nat (length ?body), u)" "flat u" "avail u = ?body @ rest" "int (length (cdata u)) < INT_MAX"
    using z s(4) by (metis Advance_simps(1))
  have n: "sint (of_nat (length ?body) :: u32) = int (length ?body)" by (rule sint_small [OF s(3)])
  obtain old t where t: "PushLimit (int (length ?body)) u = (old, t)" "flat t" "avail t = ?body" "int (cbuffer_end t) < INT_MAX"
    "flat (PopLimit old (Advance (length ?body) t))" "avail (PopLimit old (Advance (length ?body) t)) = rest"
    by (rule pushed [OF u(2,3,4)])
  have "int (length xs + length (map C32 (filter (enum_valid is_valid) es))) \<le> INT_MAX"
    by (rule order.trans [OF _ f(2)]) simp
  then obtain g where g: "add_all junk (map C32 (filter (enum_valid is_valid) es)) f = Some g"
    "rf_shows g (xs @ map C32 (filter (enum_valid is_valid) es))"
    using add_all_shows [OF f(1)] by blast
  have "length (avail t) \<le> nat (BytesUntilLimit t)" by (simp only: bytes_until_limits(1) [OF t(2,4)] nat_int order_refl)
  note run = ReadPackedEnumPreserve_loop_run [OF t(2,4,3) this, where f = f and junk = junk and n = n and is_valid = is_valid and out = out]
  have ser: "SerializeUnknownFieldsToArray us = concat (map SerializeUnknownField us)" for us
    by (induction us) simp_all
  show ?thesis
    using run g t(3,5,6)
    by (intro exI [of _ "PopLimit old (Advance (length ?body) t)"] exI [of _ g])
      (simp add: ReadPackedEnumPreserveUnknowns_def ReadPackedEnumNoInline_def u(1) n t(1) ser o_def del: SerializeUnknownField.simps)
qed

lemma packed_enums_split_witness:
  "\<exists>t g. ReadPackedEnumPreserveUnknowns (C32 0) 3 (Some (\<lambda>v. v = 1)) (CodedInputStream [2, 1, 5] 3) [] RepeatedField0 =
      Some (True, t, SerializeUnknownFieldsToArray [TYPE_VARINT 3 5], g) \<and> rf_shows g [C32 1]"
proof -
  let ?s = "CodedInputStream [2, 1, 5] 3"
  have "unat (scast (1 :: u32) :: u64) = 1" "unat (scast (5 :: u32) :: u64) = 5" by code_simp+
  then have w: "packed TYPE_ENUM (map C32 [1, 5]) = [1, 5]"
    by (simp add: WriteVarint32SignExtendedToArray_def WriteVarint64ToArray_enc varint_enc_small)
  have s: "flat ?s" "avail ?s = WriteVarint32ToArray 2 @ [1, 5] @ []" "int (length (cdata ?s)) < INT_MAX"
    using flat_CodedInputStream [of "[2, 1, 5]"] avail_CodedInputStream [of "[2, 1, 5]"]
    by (simp_all add: WriteVarint32ToArray_enc varint_enc_small CodedInputStream_def)
  have "\<exists>t g. flat t \<and> avail t = [] \<and> rf_shows g ([] @ map C32 (filter (enum_valid (Some (\<lambda>v. v = 1))) [1, 5])) \<and>
    ReadPackedEnumPreserveUnknowns (C32 0) 3 (Some (\<lambda>v. v = 1)) ?s [] RepeatedField0 = Some (True, t,
      [] @ SerializeUnknownFieldsToArray (map (\<lambda>e. TYPE_VARINT 3 (ucast e)) (filter (\<lambda>e. \<not> enum_valid (Some (\<lambda>v. v = 1)) e) [1, 5])), g) \<and>
    ReadPackedEnumNoInline (C32 0) (Some (\<lambda>v. v = 1)) ?s RepeatedField0 = Some (True, t, g)"
    by (rule packed_enums_split) (use s w rf_shows_new in simp_all)
  then show ?thesis by (auto simp: enum_valid_def simp del: SerializeUnknownField.simps SerializeUnknownFieldsToArray.simps)
qed

end
