(* ===== verification/UnknownFieldSets.thy ===== *)
theory UnknownFieldSets
  imports OutputStream StreamParse PackedFields
begin

text \<open>
  The rest of \<open>unknown_field_set.*\<close> and of the unknown fields in \<open>wire_format.cc\<close>: the pointer an
  \<open>UnknownFieldSet\<close> keeps its fields under, parsing a set from arrays and streams, the format of message sets, and
  packed enums whose unknown values go to a set.
\<close>

section \<open>The fields behind their pointer\<close>

text \<open>
  \<open>fields_\<close> is \<open>NULL\<close> or a vector that is not empty. The result \<open>None\<close> is an access through \<open>NULL\<close> or
  outside the vector.
\<close>

type_synonym fields_ptr = "UnknownField list option"

fun DeepCopy :: "UnknownField \<Rightarrow> UnknownField"
  and InternalMergeFrom :: "UnknownFieldSet \<Rightarrow> UnknownFieldSet" where
  "DeepCopy (TYPE_VARINT n v) = TYPE_VARINT n v"
| "DeepCopy (TYPE_FIXED32 n v) = TYPE_FIXED32 n v"
| "DeepCopy (TYPE_FIXED64 n v) = TYPE_FIXED64 n v"
| "DeepCopy (TYPE_LENGTH_DELIMITED n v) = TYPE_LENGTH_DELIMITED n v"
| "DeepCopy (TYPE_GROUP n g) = TYPE_GROUP n (InternalMergeFrom g)"
| "InternalMergeFrom [] = []"
| "InternalMergeFrom (f # fs) = DeepCopy f # InternalMergeFrom fs"

definition p_field_count :: "fields_ptr \<Rightarrow> nat" where
  "p_field_count p = (case p of Some v \<Rightarrow> length v | None \<Rightarrow> 0)"

definition p_empty :: "fields_ptr \<Rightarrow> bool" where
  "p_empty p \<longleftrightarrow> p = None"

definition p_field :: "nat \<Rightarrow> fields_ptr \<Rightarrow> UnknownField option" where
  "p_field i p = Option.bind p (\<lambda>v. if i < length v then Some (v ! i) else None)"

definition p_Clear :: "fields_ptr \<Rightarrow> fields_ptr" where
  "p_Clear p = (if p \<noteq> None then None else p)"

definition push_back :: "UnknownField \<Rightarrow> fields_ptr \<Rightarrow> fields_ptr" where
  "push_back f p = Some ((case p of None \<Rightarrow> [] | Some v \<Rightarrow> v) @ [f])"

definition p_MergeFrom :: "fields_ptr \<Rightarrow> fields_ptr \<Rightarrow> fields_ptr" where
  "p_MergeFrom other p =
     (if p_field_count other > 0
      then Some ((case p of None \<Rightarrow> [] | Some v \<Rightarrow> v) @ map DeepCopy (the other))
      else p)"

definition p_MergeFromAndDestroy :: "fields_ptr \<Rightarrow> fields_ptr \<Rightarrow> fields_ptr \<times> fields_ptr" where
  "p_MergeFromAndDestroy other p =
     (if p_field_count other > 0
      then Some ((case p of None \<Rightarrow> [] | Some v \<Rightarrow> v) @ the other)
      else p, None)"

definition p_AddField :: "UnknownField \<Rightarrow> fields_ptr \<Rightarrow> fields_ptr" where
  "p_AddField f p = push_back (DeepCopy f) p"

definition p_Swap :: "fields_ptr \<Rightarrow> fields_ptr \<Rightarrow> fields_ptr \<times> fields_ptr" where
  "p_Swap p q = (q, p)"

text \<open>The loops: fields are deleted, the rest slides down, and as many are popped.\<close>

fun slide_down :: "nat \<Rightarrow> nat \<Rightarrow> nat \<Rightarrow> UnknownField list \<Rightarrow> UnknownField list" where
  "slide_down num i 0 v = v"
| "slide_down num i (Suc n) v = slide_down num (Suc i) n (v[i - num := v ! i])"

definition p_DeleteSubrange :: "nat \<Rightarrow> nat \<Rightarrow> fields_ptr \<Rightarrow> fields_ptr option" where
  "p_DeleteSubrange start num p =
     (case p of
        None \<Rightarrow> None
      | Some v \<Rightarrow>
          if 0 < num \<and> length v < start + num then None
          else let v = slide_down num (start + num) (length v - (start + num)) v;
                   v = take (length v - num) v
               in Some (if v = [] then None else Some v))"

definition p_DeleteByNumber :: "u32 \<Rightarrow> fields_ptr \<Rightarrow> fields_ptr" where
  "p_DeleteByNumber n p =
     (case p of
        None \<Rightarrow> None
      | Some v \<Rightarrow>
          let v = DeleteByNumber_loop n (length v) 0 0 v
          in if v = [] then None else Some v)"

text \<open>What is not a field of the right type stops the process.\<close>

fun set_varint :: "u64 \<Rightarrow> UnknownField \<Rightarrow> UnknownField option" where
  "set_varint v (TYPE_VARINT n _) = Some (TYPE_VARINT n v)"
| "set_varint v _ = None"

fun set_fixed32 :: "u32 \<Rightarrow> UnknownField \<Rightarrow> UnknownField option" where
  "set_fixed32 v (TYPE_FIXED32 n _) = Some (TYPE_FIXED32 n v)"
| "set_fixed32 v _ = None"

fun set_fixed64 :: "u64 \<Rightarrow> UnknownField \<Rightarrow> UnknownField option" where
  "set_fixed64 v (TYPE_FIXED64 n _) = Some (TYPE_FIXED64 n v)"
| "set_fixed64 v _ = None"

fun set_length_delimited :: "bytes \<Rightarrow> UnknownField \<Rightarrow> UnknownField option" where
  "set_length_delimited v (TYPE_LENGTH_DELIMITED n _) = Some (TYPE_LENGTH_DELIMITED n v)"
| "set_length_delimited v _ = None"

fun get_varint :: "UnknownField \<Rightarrow> u64 option" where
  "get_varint (TYPE_VARINT n v) = Some v"
| "get_varint _ = None"

fun get_fixed32 :: "UnknownField \<Rightarrow> u32 option" where
  "get_fixed32 (TYPE_FIXED32 n v) = Some v"
| "get_fixed32 _ = None"

fun get_fixed64 :: "UnknownField \<Rightarrow> u64 option" where
  "get_fixed64 (TYPE_FIXED64 n v) = Some v"
| "get_fixed64 _ = None"

fun get_length_delimited :: "UnknownField \<Rightarrow> bytes option" where
  "get_length_delimited (TYPE_LENGTH_DELIMITED n v) = Some v"
| "get_length_delimited _ = None"

fun get_group :: "UnknownField \<Rightarrow> UnknownFieldSet option" where
  "get_group (TYPE_GROUP n g) = Some g"
| "get_group _ = None"

definition mutable_field :: "nat \<Rightarrow> (UnknownField \<Rightarrow> UnknownField option) \<Rightarrow> fields_ptr \<Rightarrow> fields_ptr option" where
  "mutable_field i change p =
     Option.bind (p_field i p) (\<lambda>f. Option.bind (change f) (\<lambda>f. Some (Some ((the p)[i := f]))))"

section \<open>Sequences of calls\<close>

datatype set_call =
    Call_Add UnknownField
  | Call_AddField UnknownField
  | Call_Clear
  | Call_MergeFrom fields_ptr
  | Call_MergeFromAndDestroy fields_ptr
  | Call_Swap fields_ptr
  | Call_DeleteSubrange nat nat
  | Call_DeleteByNumber u32
  | Call_set_varint nat u64
  | Call_set_length_delimited nat bytes

fun do_set_call :: "set_call \<Rightarrow> fields_ptr \<Rightarrow> fields_ptr option" where
  "do_set_call (Call_Add f) p = Some (push_back f p)"
| "do_set_call (Call_AddField f) p = Some (p_AddField f p)"
| "do_set_call Call_Clear p = Some (p_Clear p)"
| "do_set_call (Call_MergeFrom q) p = Some (p_MergeFrom q p)"
| "do_set_call (Call_MergeFromAndDestroy q) p = Some (fst (p_MergeFromAndDestroy q p))"
| "do_set_call (Call_Swap q) p = Some (fst (p_Swap p q))"
| "do_set_call (Call_DeleteSubrange start num) p = p_DeleteSubrange start num p"
| "do_set_call (Call_DeleteByNumber n) p = Some (p_DeleteByNumber n p)"
| "do_set_call (Call_set_varint i v) p = mutable_field i (set_varint v) p"
| "do_set_call (Call_set_length_delimited i v) p = mutable_field i (set_length_delimited v) p"

fun set_calls :: "set_call list \<Rightarrow> fields_ptr \<Rightarrow> fields_ptr option" where
  "set_calls [] p = Some p"
| "set_calls (c # cs) p = Option.bind (do_set_call c p) (set_calls cs)"

text \<open>The specification: a set is the list of its fields.\<close>

definition ptr_fields :: "fields_ptr \<Rightarrow> UnknownFieldSet" where
  "ptr_fields p = (case p of None \<Rightarrow> [] | Some v \<Rightarrow> v)"

definition ptr_ok :: "fields_ptr \<Rightarrow> bool" where
  "ptr_ok p \<longleftrightarrow> p \<noteq> Some []"

fun call_ok :: "set_call \<Rightarrow> UnknownFieldSet \<Rightarrow> bool" where
  "call_ok (Call_MergeFrom q) fs \<longleftrightarrow> ptr_ok q"
| "call_ok (Call_MergeFromAndDestroy q) fs \<longleftrightarrow> ptr_ok q"
| "call_ok (Call_Swap q) fs \<longleftrightarrow> ptr_ok q"
| "call_ok (Call_DeleteSubrange start num) fs \<longleftrightarrow> fs \<noteq> [] \<and> start + num \<le> length fs"
| "call_ok (Call_set_varint i v) fs \<longleftrightarrow> i < length fs \<and> get_varint (fs ! i) \<noteq> None"
| "call_ok (Call_set_length_delimited i v) fs \<longleftrightarrow> i < length fs \<and> get_length_delimited (fs ! i) \<noteq> None"
| "call_ok _ fs \<longleftrightarrow> True"

fun call_spec :: "set_call \<Rightarrow> UnknownFieldSet \<Rightarrow> UnknownFieldSet" where
  "call_spec (Call_Add f) fs = fs @ [f]"
| "call_spec (Call_AddField f) fs = fs @ [f]"
| "call_spec Call_Clear fs = []"
| "call_spec (Call_MergeFrom q) fs = fs @ ptr_fields q"
| "call_spec (Call_MergeFromAndDestroy q) fs = fs @ ptr_fields q"
| "call_spec (Call_Swap q) fs = ptr_fields q"
| "call_spec (Call_DeleteSubrange start num) fs = take start fs @ drop (start + num) fs"
| "call_spec (Call_DeleteByNumber n) fs = filter (\<lambda>f. field_number f \<noteq> n) fs"
| "call_spec (Call_set_varint i v) fs = fs[i := TYPE_VARINT (field_number (fs ! i)) v]"
| "call_spec (Call_set_length_delimited i v) fs = fs[i := TYPE_LENGTH_DELIMITED (field_number (fs ! i)) v]"

fun calls_ok :: "set_call list \<Rightarrow> UnknownFieldSet \<Rightarrow> bool" where
  "calls_ok [] fs \<longleftrightarrow> True"
| "calls_ok (c # cs) fs \<longleftrightarrow> call_ok c fs \<and> calls_ok cs (call_spec c fs)"

lemma DeepCopy_same: "DeepCopy f = f" "InternalMergeFrom fs = fs"
  by (induction f and fs rule: DeepCopy_InternalMergeFrom.induct) simp_all

lemma map_DeepCopy [simp]: "map DeepCopy fs = fs"
  by (induction fs) (simp_all add: DeepCopy_same)

lemma length_slide_down [simp]: "length (slide_down num i n v) = length v"
  by (induction n arbitrary: i v) simp_all

lemma nth_slide_down:
  "num \<le> i \<Longrightarrow> i + n \<le> length v \<Longrightarrow> j < length v - num \<Longrightarrow>
   slide_down num i n v ! j = (if i - num \<le> j \<and> j < i + n - num then v ! (j + num) else v ! j)"
proof (induction n arbitrary: i v)
  case (Suc n)
  let ?v = "v[i - num := v ! i]"
  have "slide_down num (Suc i) n ?v ! j =
      (if Suc i - num \<le> j \<and> j < Suc i + n - num then ?v ! (j + num) else ?v ! j)"
    by (rule Suc.IH) (use Suc.prems in simp_all)
  then show ?case using Suc.prems by (auto simp: nth_list_update)
qed (auto dest: leD)

lemma slide_down_subrange:
  assumes "start + num \<le> length v"
  shows "take (length v - num) (slide_down num (start + num) (length v - (start + num)) v) = take start v @ drop (start + num) v"
proof (rule nth_equalityI)
  show "length (take (length v - num) (slide_down num (start + num) (length v - (start + num)) v)) =
      length (take start v @ drop (start + num) v)"
    using assms by simp
next
  fix j assume "j < length (take (length v - num) (slide_down num (start + num) (length v - (start + num)) v))"
  then have j: "j < length v - num" by simp
  then show "take (length v - num) (slide_down num (start + num) (length v - (start + num)) v) ! j =
      (take start v @ drop (start + num) v) ! j"
    using assms nth_slide_down [of num "start + num" "length v - (start + num)" v j] by (auto simp: nth_append add.commute)
qed

lemma do_set_call_spec:
  assumes "ptr_ok p" "call_ok c (ptr_fields p)"
  shows "\<exists>q. do_set_call c p = Some q \<and> ptr_ok q \<and> ptr_fields q = call_spec c (ptr_fields p)"
proof (cases c)
  case (Call_DeleteSubrange start num)
  then obtain v where v: "p = Some v" "v \<noteq> []" "start + num \<le> length v"
    using assms(2) by (cases p) (auto simp: ptr_fields_def)
  then show ?thesis using slide_down_subrange [OF v(3)]
    by (auto simp: Call_DeleteSubrange p_DeleteSubrange_def Let_def ptr_ok_def ptr_fields_def)
next
  case (Call_DeleteByNumber n)
  then show ?thesis
    by (cases p) (auto simp: p_DeleteByNumber_def Let_def ptr_ok_def ptr_fields_def
        UFS_DeleteByNumber_filter [unfolded UFS_DeleteByNumber_def])
next
  case (Call_MergeFrom q)
  then show ?thesis using assms by (cases p; cases q) (auto simp: p_MergeFrom_def p_field_count_def ptr_ok_def ptr_fields_def)
next
  case (Call_MergeFromAndDestroy q)
  then show ?thesis using assms by (cases p; cases q) (auto simp: p_MergeFromAndDestroy_def p_field_count_def ptr_ok_def ptr_fields_def)
next
  case (Call_set_varint i v)
  then obtain fs n w where p: "p = Some fs" "i < length fs" "fs ! i = TYPE_VARINT n w"
    using assms(2) by (cases p; cases "ptr_fields p ! i") (auto simp: ptr_fields_def)
  then show ?thesis by (auto simp: Call_set_varint mutable_field_def p_field_def ptr_ok_def ptr_fields_def)
next
  case (Call_set_length_delimited i v)
  then obtain fs n w where p: "p = Some fs" "i < length fs" "fs ! i = TYPE_LENGTH_DELIMITED n w"
    using assms(2) by (cases p; cases "ptr_fields p ! i") (auto simp: ptr_fields_def)
  then show ?thesis by (auto simp: Call_set_length_delimited mutable_field_def p_field_def ptr_ok_def ptr_fields_def)
qed (use assms in \<open>auto simp: push_back_def p_AddField_def DeepCopy_same p_Clear_def p_Swap_def ptr_ok_def ptr_fields_def split: option.splits\<close>)

text \<open>C38: An \<open>UnknownFieldSet\<close> is the list of its fields behind a pointer that is null exactly when the list is
  empty: any sequence of adding, merging, swapping, clearing, changing and deleting fields keeps that, goes through no
  null pointer and computes what the same operations on the list compute. \<open>empty\<close>, which only looks at the
  pointer, is right therefore. The sets given to the calls must keep the same rule, and the calls
  must be allowed, each on the list it finds: a field that is changed is there and
  of the type, and \<open>DeleteSubrange\<close> is given a range inside the list, and not the empty range of an empty set. That range is excepted because the
  code is wrong there: \<open>DeleteSubrange\<close> for no field on an empty set goes through the null pointer, which its loop looks
  at before the check of it.\<close>

theorem unknown_field_set_refines:
  assumes "ptr_ok p" "calls_ok cs (ptr_fields p)"
  shows "\<exists>q. set_calls cs p = Some q \<and> ptr_ok q \<and> ptr_fields q = fold call_spec cs (ptr_fields p) \<and>
    (p_empty q \<longleftrightarrow> ptr_fields q = []) \<and> p_field_count q = length (ptr_fields q) \<and>
    (\<forall>i. p_field i q = (if i < length (ptr_fields q) then Some (ptr_fields q ! i) else None)) \<and>
    (\<forall>start. p_DeleteSubrange start 0 None = None)"
  using assms
proof (induction cs arbitrary: p)
  case Nil
  then show ?case
    by (cases p) (auto simp: p_empty_def ptr_fields_def ptr_ok_def p_field_count_def p_field_def p_DeleteSubrange_def)
next
  case (Cons c cs)
  then obtain q where q: "do_set_call c p = Some q" "ptr_ok q" "ptr_fields q = call_spec c (ptr_fields p)"
    using do_set_call_spec [of p c] by auto
  with Cons.prems(2) have "calls_ok cs (ptr_fields q)" by simp
  from Cons.IH [OF q(2) this] q(1,3) show ?case by simp
qed

lemma unknown_field_set_witness:
  "\<exists>q. set_calls [Call_Add (TYPE_VARINT 1 5), Call_AddField (TYPE_GROUP 2 [TYPE_FIXED32 3 9]), Call_set_varint 0 6,
      Call_MergeFrom (Some [TYPE_VARINT 1 7]), Call_DeleteSubrange 1 1, Call_DeleteByNumber 1] None = Some q \<and> p_empty q"
  using unknown_field_set_refines [of None "[Call_Add (TYPE_VARINT 1 5), Call_AddField (TYPE_GROUP 2 [TYPE_FIXED32 3 9]), Call_set_varint 0 6,
      Call_MergeFrom (Some [TYPE_VARINT 1 7]), Call_DeleteSubrange 1 1, Call_DeleteByNumber 1]"]
  by (auto simp: ptr_ok_def ptr_fields_def)

section \<open>Sets from arrays and streams\<close>

definition UFS_ParseFromZeroCopyStream ::
    "ZeroCopyInputStream \<Rightarrow> UnknownFieldSet \<Rightarrow> (bool \<times> UnknownFieldSet \<times> ZeroCopyInputStream option) option" where
  "UFS_ParseFromZeroCopyStream input ufs =
     (let coded_input = CodedInputStream_of input
      in case UFS_ParseFromCodedStream (Suc (unread input)) coded_input ufs of
           None \<Rightarrow> None
         | Some (ok, ufs, coded_input) \<Rightarrow>
             Some (ok \<and> ConsumedEntireMessage coded_input, ufs, destroy_decoder coded_input))"

definition UFS_ParseFromArray :: "bytes \<Rightarrow> UnknownFieldSet \<Rightarrow> (bool \<times> UnknownFieldSet) option" where
  "UFS_ParseFromArray data ufs =
     (case UFS_ParseFromZeroCopyStream (ArrayIn (ArrayInputStream0 data (-1))) ufs of
        Some (ok, ufs, Some input) \<Rightarrow> Some (ok, ufs)
      | _ \<Rightarrow> None)"

definition UFS_ParseFromString :: "bytes \<Rightarrow> UnknownFieldSet \<Rightarrow> (bool \<times> UnknownFieldSet) option" where
  "UFS_ParseFromString data ufs = UFS_ParseFromArray data ufs"

lemma SkipMessage_at_end:
  assumes "avail f = []" "flat f"
  shows "SkipMessage (Suc fuel) u f = Some (True, u, f\<lparr>legitimate_message_end := True, last_tag := 0\<rparr>)"
  using assms by (simp add: SkipMessage.simps ReadTag_flat tag_spec_def)

lemma UFS_parse_stream:
  assumes "stream_ok z" "int (length (stream_rest z)) \<le> INT_MAX"
    "fields_ok fs" "fields_depth fs \<le> 100" "stream_rest z = SerializeUnknownFieldsToArray fs"
  obtains w where "UFS_ParseFromZeroCopyStream z ufs = Some (True, fs, Some w)" "stream_ok w" "stream_rest w = []"
proof -
  let ?data = "SerializeUnknownFieldsToArray fs"
  let ?f = "CodedInputStream ?data (int (length ?data))" and ?s = "CodedInputStream_of z"
  have r: "rep INT_MAX ?s ?f" using CodedInputStream_of_rep [OF assms(1,2)] unfolding assms(5) .
  have a: "avail ?f = ?data @ []" "length (avail ?f) < Suc (length ?data)" by simp_all
  have b: "int (fields_depth fs) \<le> recursion_budget ?f" "recursion_budget ?f \<le> recursion_limit ?f"
    using assms(4) by (simp_all add: CodedInputStream_def default_recursion_limit_def)
  obtain fuel lt where sm: "0 < fuel" "SkipMessage (Suc (length ?data)) (Some []) ?f =
      SkipMessage fuel (Some fs) ((Advance (length ?data) ?f)\<lparr>last_tag := lt\<rparr>)"
    using unknown_roundtrip(2) [OF assms(3) rep_flat [OF r] a(1) b a(2), of "[]"] by auto
  let ?e = "(Advance (length ?data) ?f)\<lparr>legitimate_message_end := True, last_tag := 0\<rparr>"
  have e: "avail ((Advance (length ?data) ?f)\<lparr>last_tag := lt\<rparr>) = []" "flat ((Advance (length ?data) ?f)\<lparr>last_tag := lt\<rparr>)"
    using rep_flat [OF r] by simp_all
  obtain k where "fuel = Suc k" using sm(1) by (cases fuel) auto
  then have f: "SkipMessage (Suc (length ?data)) (Some []) ?f = Some (True, Some fs, ?e)"
    using sm(2) SkipMessage_at_end [OF e, of k "Some fs"] by simp
  then obtain t where t: "SkipMessage (Suc (length ?data)) (Some []) ?s = Some (True, Some fs, t)" "ended INT_MAX t ?e"
    using SkipMessage_rep [OF r, of "Suc (length ?data)" "Some []"]
    by (cases "SkipMessage (Suc (length ?data)) (Some []) ?s") auto
  then have c: "legitimate_message_end t" "chunked t" "stands_for t ?e" by (simp_all add: ended_def)
  obtain w where w: "destroy_decoder t = Some w" "stream_ok w" "stream_rest w = drop (cbuffer ?e) (cdata ?e)"
    by (rule destroy_decoder_rest [OF c(2,3)]) blast
  have "UFS_ParseFromZeroCopyStream z ufs = Some (True, fs, Some w)"
    using t(1) c(1) w(1) assms(5) stream_rest_unread [OF assms(1)]
    by (simp add: UFS_ParseFromZeroCopyStream_def UFS_ParseFromCodedStream_def UFS_MergeFromCodedStream_def UFS_Clear_def
        UFS_MergeFromAndDestroy_def ConsumedEntireMessage_def)
  moreover have "stream_rest w = []" using w(3) by (simp add: Advance_def CodedInputStream_def)
  ultimately show thesis using that w(2) by blast
qed

lemma UFS_ParseFromArray_written:
  assumes "fields_ok fs" "fields_depth fs \<le> 100" "int (length (SerializeUnknownFieldsToArray fs)) \<le> INT_MAX"
  shows "UFS_ParseFromArray (SerializeUnknownFieldsToArray fs) ufs = Some (True, fs)"
proof -
  note z = ArrayIn_stream [OF assms(3), of "-1"]
  have "int (length (stream_rest (ArrayIn (ArrayInputStream0 (SerializeUnknownFieldsToArray fs) (-1))))) \<le> INT_MAX"
    using z(2) assms(3) by simp
  then show ?thesis
    by (rule UFS_parse_stream [OF z(1) _ assms(1,2) z(2), of ufs]) (simp add: UFS_ParseFromArray_def)
qed

text \<open>A parse that fails or succeeds, but always ends.\<close>

lemma UFS_parse_total:
  assumes "stream_ok z" "int (length (stream_rest z)) \<le> INT_MAX"
  shows "\<exists>ok ufs' w. UFS_ParseFromZeroCopyStream z ufs = Some (ok, ufs', w)"
proof -
  let ?data = "stream_rest z"
  let ?f = "CodedInputStream ?data (int (length ?data))" and ?s = "CodedInputStream_of z"
  have r: "rep INT_MAX ?s ?f" by (rule CodedInputStream_of_rep [OF assms])
  have "length (avail ?f) < Suc (length ?data)" by simp
  then obtain ok u t where "SkipMessage (Suc (length ?data)) (Some []) ?f = Some (ok, u, t)"
    using SkipMessage_ends rep_flat [OF r] unfolding skip_ends_def by blast
  then obtain u' t' where "SkipMessage (Suc (length ?data)) (Some []) ?s = Some (ok, u', t')"
    using SkipMessage_rep [OF r, of "Suc (length ?data)" "Some []"]
    by (cases "SkipMessage (Suc (length ?data)) (Some []) ?s") auto
  then show ?thesis using stream_rest_unread [OF assms(1)]
    by (cases "ok \<and> ConsumedEntireMessage t'")
      (auto simp: UFS_ParseFromZeroCopyStream_def UFS_ParseFromCodedStream_def UFS_MergeFromCodedStream_def)
qed

text \<open>The fields of a message for a reader who knows none of them.\<close>

definition message_fields :: "message_view \<Rightarrow> UnknownFieldSet" where
  "message_fields v =
     (if v_statecode v \<noteq> 0 then [TYPE_VARINT 1 (ucast (v_statecode v))] else []) @
     (if v_apiname v \<noteq> [] then [TYPE_LENGTH_DELIMITED 2 (v_apiname v)] else []) @
     map (\<lambda>p. TYPE_LENGTH_DELIMITED 20 (encode_parameter p)) (v_parameters v) @
     (if v_bytedata v \<noteq> [] then [TYPE_LENGTH_DELIMITED 21 (v_bytedata v)] else []) @ v_unknown v"

lemma fields_ok_append [simp]: "fields_ok (fs @ gs) \<longleftrightarrow> fields_ok fs \<and> fields_ok gs"
  by (induction fs) auto

lemma fields_depth_append [simp]: "fields_depth (fs @ gs) = max (fields_depth fs) (fields_depth gs)"
  by (induction fs) auto

lemma ucast_u32_u64: "unat (ucast (v :: u32) :: u64) = unat v"
  by (simp add: unsigned_ucast_eq take_bit_nat_eq_self_iff less_trans [OF u32_less])

lemma WriteVarint64_ucast: "WriteVarint64ToArray (ucast (v :: u32)) = WriteVarint32ToArray v"
  by (simp add: WriteVarint32ToArray_enc WriteVarint64ToArray_enc ucast_u32_u64)

lemma message_fields_encode: "SerializeUnknownFieldsToArray (message_fields v) = encode_message v"
proof -
  have "SerializeUnknownFieldsToArray (map (\<lambda>p. TYPE_LENGTH_DELIMITED 20 (encode_parameter p)) ps) =
      concat (map (\<lambda>p. WriteBytesToArray 20 (encode_parameter p)) ps)" for ps
    by (induction ps) simp_all
  then show ?thesis
    by (simp add: message_fields_def encode_message_def WriteInt64ToArray_def WriteUInt32ToArray_def WriteVarint64_ucast
        WriteStringToArray_def WriteBytesToArray_def)
qed

lemma message_fields_ok:
  assumes "message_fits v"
  shows "fields_ok (message_fields v)" "fields_depth (message_fields v) \<le> 100"
proof -
  have u: "fields_ok (v_unknown v)" "fields_depth (v_unknown v) \<le> 100" and len: "length (encode_message v) < 2 ^ 31"
    using assms by (simp_all add: message_fits_def unknown_apart_def)
  note l = encoding_lengths [OF len]
  have "fields_ok (map (\<lambda>p. TYPE_LENGTH_DELIMITED 20 (encode_parameter p)) ps)" if "set ps \<subseteq> set (v_parameters v)" for ps
    using that l(3) by (induction ps) auto
  then show "fields_ok (message_fields v)" using u(1) l(1,2) by (simp add: message_fields_def)
  have "fields_depth (map (\<lambda>p. TYPE_LENGTH_DELIMITED 20 (encode_parameter p)) ps) = 0" for ps
    by (induction ps) simp_all
  then show "fields_depth (message_fields v) \<le> 100" using u(2) by (simp add: message_fields_def)
qed

text \<open>C37: A reader that knows no field of a message passes it on whole: parsing the encoding of a message as
  an \<open>UnknownFieldSet\<close>, from a stream of any class and into any set, gives exactly the fields of the message in the order of
  the encoding, what the set is serialised to is the same bytes, and so a receiver behind it parses the message that was sent.
  This is for messages that fit (\<open>message_fits\<close>): name, keys and values are UTF-8, which the receiver checks, unknown fields
  are well formed, have none of the class's own tags and nest at most a hundred deep, and the encoding is below two
  gigabytes.\<close>

theorem unknown_fields_pass_through:
  assumes "stream_ok z" "stream_rest z = encode_message v" "message_fits v" "message_ok m0"
  shows "\<exists>w m. UFS_ParseFromZeroCopyStream z ufs = Some (True, message_fields v, Some w) \<and> stream_rest w = [] \<and>
    SerializeUnknownFieldsToArray (message_fields v) = encode_message v \<and>
    ParseFromArray (SerializeUnknownFieldsToArray (message_fields v)) m0 = Some (True, m) \<and> message_view m = v"
proof -
  have len: "int (length (stream_rest z)) \<le> INT_MAX" using assms(2,3) by (simp add: message_fits_def)
  have rest: "stream_rest z = SerializeUnknownFieldsToArray (message_fields v)"
    unfolding message_fields_encode by (rule assms(2))
  obtain w where "UFS_ParseFromZeroCopyStream z ufs = Some (True, message_fields v, Some w)" "stream_rest w = []"
    by (rule UFS_parse_stream [OF assms(1) len message_fields_ok [OF assms(3)] rest])
  then show ?thesis using ParseFromArray_encode [OF assms(3,4)] by (auto simp: message_fields_encode)
qed

lemma unknown_fields_pass_through_witness:
  "\<exists>w. UFS_ParseFromZeroCopyStream (ArrayIn (ArrayInputStream0 [18, 2, 97, 98] 3)) [] =
      Some (True, [TYPE_LENGTH_DELIMITED 2 [97, 98]], Some w)"
proof -
  have e: "encode_message (empty_view\<lparr>v_apiname := [97, 98]\<rparr>) = [18, 2, 97, 98]" by code_simp
  have f: "message_fields (empty_view\<lparr>v_apiname := [97, 98]\<rparr>) = [TYPE_LENGTH_DELIMITED 2 [97, 98]]"
    by (simp add: message_fields_def empty_view_def)
  have "int (length [18, 2, 97, 98 :: u8]) \<le> INT_MAX" by simp
  note z = ArrayIn_stream [OF this, of 3]
  from unknown_fields_pass_through [OF z(1) _ named_message(3) message_ok_new(1), of "[]"] show ?thesis
    unfolding z(2) e f by auto
qed


section \<open>Message sets\<close>

text \<open>
  Of a message set only fields with a length are items. The number of a field and the size of its bytes are
  \<open>int\<close>s in the source.
\<close>

definition kMessageSetItemStartTag :: u32 where "kMessageSetItemStartTag = MakeTag 1 WIRETYPE_START_GROUP"
definition kMessageSetItemEndTag :: u32 where "kMessageSetItemEndTag = MakeTag 1 WIRETYPE_END_GROUP"
definition kMessageSetTypeIdTag :: u32 where "kMessageSetTypeIdTag = MakeTag 2 WIRETYPE_VARINT"
definition kMessageSetMessageTag :: u32 where "kMessageSetMessageTag = MakeTag 3 WIRETYPE_LENGTH_DELIMITED"

definition kMessageSetItemTagsSize :: nat where
  "kMessageSetItemTagsSize = VarintSize32 kMessageSetItemStartTag + VarintSize32 kMessageSetItemEndTag +
     VarintSize32 kMessageSetTypeIdTag + VarintSize32 kMessageSetMessageTag"

fun GetLengthDelimitedSize :: "UnknownField \<Rightarrow> nat option" where
  "GetLengthDelimitedSize (TYPE_LENGTH_DELIMITED n v) = Some (length v)"
| "GetLengthDelimitedSize _ = None"

fun SerializeLengthDelimitedNoTag :: "'z zero_copy_ops \<Rightarrow> UnknownField \<Rightarrow> 'z cos \<Rightarrow> 'z cos option" where
  "SerializeLengthDelimitedNoTag ops (TYPE_LENGTH_DELIMITED n v) c =
     do { c \<leftarrow> WriteVarint32 ops (of_nat (length v)) c; WriteRaw ops v c }"
| "SerializeLengthDelimitedNoTag ops _ c = None"

fun SerializeLengthDelimitedNoTagToArray :: "UnknownField \<Rightarrow> bytes option" where
  "SerializeLengthDelimitedNoTagToArray (TYPE_LENGTH_DELIMITED n v) = Some (WriteVarint32ToArray (of_nat (length v)) @ v)"
| "SerializeLengthDelimitedNoTagToArray _ = None"

definition is_length_delimited :: "UnknownField \<Rightarrow> bool" where
  "is_length_delimited f = (case f of TYPE_LENGTH_DELIMITED n v \<Rightarrow> True | _ \<Rightarrow> False)"

fun SerializeUnknownMessageSetItems :: "'z zero_copy_ops \<Rightarrow> UnknownFieldSet \<Rightarrow> 'z cos \<Rightarrow> 'z cos option" where
  "SerializeUnknownMessageSetItems ops [] c = Some c"
| "SerializeUnknownMessageSetItems ops (f # fs) c =
     (if is_length_delimited f
      then do { c \<leftarrow> WriteVarint32 ops kMessageSetItemStartTag c;
                c \<leftarrow> WriteVarint32 ops kMessageSetTypeIdTag c;
                c \<leftarrow> WriteVarint32 ops (field_number f) c;
                c \<leftarrow> WriteVarint32 ops kMessageSetMessageTag c;
                c \<leftarrow> SerializeLengthDelimitedNoTag ops f c;
                c \<leftarrow> WriteVarint32 ops kMessageSetItemEndTag c;
                SerializeUnknownMessageSetItems ops fs c }
      else SerializeUnknownMessageSetItems ops fs c)"

fun SerializeUnknownMessageSetItemsToArray :: "UnknownFieldSet \<Rightarrow> bytes option" where
  "SerializeUnknownMessageSetItemsToArray [] = Some []"
| "SerializeUnknownMessageSetItemsToArray (f # fs) =
     (if is_length_delimited f
      then do { data \<leftarrow> SerializeLengthDelimitedNoTagToArray f;
                rest \<leftarrow> SerializeUnknownMessageSetItemsToArray fs;
                Some (WriteTagToArray0 kMessageSetItemStartTag @ WriteTagToArray0 kMessageSetTypeIdTag @
                  WriteVarint32ToArray (field_number f) @ WriteTagToArray0 kMessageSetMessageTag @ data @
                  WriteTagToArray0 kMessageSetItemEndTag @ rest) }
      else SerializeUnknownMessageSetItemsToArray fs)"

fun ComputeUnknownMessageSetItemsSize :: "UnknownFieldSet \<Rightarrow> nat option" where
  "ComputeUnknownMessageSetItemsSize [] = Some 0"
| "ComputeUnknownMessageSetItemsSize (f # fs) =
     (if is_length_delimited f
      then do { field_size \<leftarrow> GetLengthDelimitedSize f;
                rest \<leftarrow> ComputeUnknownMessageSetItemsSize fs;
                Some (kMessageSetItemTagsSize + VarintSize32 (field_number f) + VarintSize32 (of_nat field_size) + field_size + rest) }
      else ComputeUnknownMessageSetItemsSize fs)"

text \<open>The items as a reader of unknown fields sees them: groups with the number and the message.\<close>

fun message_set_items :: "UnknownFieldSet \<Rightarrow> UnknownFieldSet" where
  "message_set_items [] = []"
| "message_set_items (TYPE_LENGTH_DELIMITED n v # fs) =
     TYPE_GROUP 1 [TYPE_VARINT 2 (ucast n), TYPE_LENGTH_DELIMITED 3 v] # message_set_items fs"
| "message_set_items (f # fs) = message_set_items fs"

lemmas message_set_tags = kMessageSetItemStartTag_def kMessageSetItemEndTag_def kMessageSetTypeIdTag_def kMessageSetMessageTag_def

lemma message_set_array:
  "SerializeUnknownMessageSetItemsToArray fs = Some (SerializeUnknownFieldsToArray (message_set_items fs))"
  by (induction fs rule: message_set_items.induct)
    (simp_all add: is_length_delimited_def message_set_tags WriteTagToArray_def WriteInt64ToArray_def WriteVarint64_ucast
      WriteBytesToArray_def WriteStringWithSizeToArray_def)

lemma message_set_size:
  "ComputeUnknownMessageSetItemsSize fs = Some (length (SerializeUnknownFieldsToArray (message_set_items fs)))"
proof (induction fs rule: message_set_items.induct)
  case (2 n v fs)
  have "length (WriteVarint64ToArray (ucast n :: u64)) = VarintSize32 n"
    unfolding WriteVarint64_ucast by simp
  with 2 show ?case
    by (simp add: is_length_delimited_def message_set_tags kMessageSetItemTagsSize_def WriteInt64ToArray_def
        WriteBytesToArray_def LengthDelimitedSize_def del: length_varints(2))
qed (simp_all add: is_length_delimited_def)

lemma message_set_items_ok:
  assumes "fields_ok fs"
  shows "fields_ok (message_set_items fs)" "fields_depth (message_set_items fs) \<le> 1"
  using assms by (induction fs rule: message_set_items.induct) auto

context zero_copy_output
begin

lemma message_set_writes:
  "writes (SerializeUnknownMessageSetItems ops fs) (SerializeUnknownFieldsToArray (message_set_items fs))"
proof (induction fs rule: message_set_items.induct)
  case 1
  have "writes (\<lambda>c. SerializeUnknownMessageSetItems ops [] c) []" using writes_Some by simp
  then show ?case by simp
next
  case (2 n v fs)
  have e: "SerializeUnknownFieldsToArray (message_set_items (TYPE_LENGTH_DELIMITED n v # fs)) =
      WriteVarint32ToArray kMessageSetItemStartTag @ WriteVarint32ToArray kMessageSetTypeIdTag @ WriteVarint32ToArray n @
      WriteVarint32ToArray kMessageSetMessageTag @ (WriteVarint32ToArray (of_nat (length v)) @ v) @
      WriteVarint32ToArray kMessageSetItemEndTag @ SerializeUnknownFieldsToArray (message_set_items fs)"
    by (simp add: message_set_tags WriteTagToArray_def WriteTagToArray0_def WriteInt64ToArray_def WriteVarint64_ucast
      WriteBytesToArray_def WriteStringWithSizeToArray_def)
  have "writes (\<lambda>c. SerializeUnknownMessageSetItems ops (TYPE_LENGTH_DELIMITED n v # fs) c)
      (SerializeUnknownFieldsToArray (message_set_items (TYPE_LENGTH_DELIMITED n v # fs)))"
    unfolding e SerializeUnknownMessageSetItems.simps SerializeLengthDelimitedNoTag.simps
    by (simp add: is_length_delimited_def) (intro writes_bind number_writes WriteRaw_writes 2)
  then show ?case by simp
qed (simp_all add: is_length_delimited_def)

text \<open>A writer run on an encoder of its own.\<close>

lemma written_out:
  assumes "writes W bs" "ok z"
  obtains c c' where "W (CodedOutputStream0 ops z) = Some c" "o_Trim ops c = Some c'"
    "\<not> o_had_error c \<Longrightarrow> ok (o_output c') \<and> content (o_output c') = content z @ bs"
    "o_had_error c \<Longrightarrow> limit < length (content z @ bs)"
proof -
  note c0 = CodedOutputStream0_ok [OF assms(2)]
  obtain c where c: "W (CodedOutputStream0 ops z) = Some c" "cos_ok (length (content z)) c" "wrote bs (CodedOutputStream0 ops z) c"
    using assms(1) c0(1) unfolding writes_def by blast
  obtain c' where "o_Trim ops c = Some c'" "ok (o_output c')" "content (o_output c') = emitted c"
    by (rule Trim_ok [OF c(2)])
  then show thesis using that [OF c(1)] c(3) c0(2,3) by (auto simp: wrote_def)
qed

end

text \<open>What a writer puts into an array of exactly the right size.\<close>

lemma array_written:
  assumes "\<And>k. array_stream.writes k W bs" "int (length bs) \<le> INT_MAX"
  obtains c c' where "W (CodedOutputStream0 array_ops (ArrayOutputStream0 (replicate (length bs) 0) block_size)) = Some c"
    "\<not> o_had_error c" "o_Trim array_ops c = Some c'" "a_data (o_output c') = bs"
proof -
  let ?z = "ArrayOutputStream0 (replicate (length bs) 0) block_size"
  have z: "array_ok (length bs) ?z" "take (a_position ?z) (a_data ?z) = []"
    using assms(2) ArrayOutputStream0_ok [of "replicate (length bs) 0"] by (simp_all add: ArrayOutputStream0_def)
  obtain c c' where c: "W (CodedOutputStream0 array_ops ?z) = Some c" "o_Trim array_ops c = Some c'"
    "\<not> o_had_error c \<Longrightarrow> array_ok (length bs) (o_output c') \<and> take (a_position (o_output c')) (a_data (o_output c')) = take (a_position ?z) (a_data ?z) @ bs"
    "o_had_error c \<Longrightarrow> length bs < length (take (a_position ?z) (a_data ?z) @ bs)"
    by (rule array_stream.written_out [OF assms(1) z(1)]) blast
  have e: "\<not> o_had_error c" using c(4) unfolding z(2) by auto
  then have t: "array_ok (length bs) (o_output c')" "take (a_position (o_output c')) (a_data (o_output c')) = bs"
    using c(3) unfolding z(2) by simp_all
  have "length (a_data (o_output c')) = length bs" using t(1) by (simp add: array_ok_def)
  moreover have "length (take (a_position (o_output c')) (a_data (o_output c'))) = length bs" using t(2) by simp
  ultimately have "length (a_data (o_output c')) \<le> a_position (o_output c')" by (simp add: min_def split: if_splits)
  then have "a_data (o_output c') = bs" using t(2) by simp
  then show thesis using that c(1,2) e by blast
qed

text \<open>The items of a message set take the size that is computed for them, whether they are written to an array or
  through a stream with any block size, and a reader of unknown fields finds in them one group for each field
  with a length, holding its number and its message; other fields are left out.\<close>

lemma message_set_written:
  assumes "fields_ok fs" "int (length (SerializeUnknownFieldsToArray (message_set_items fs))) \<le> INT_MAX"
  shows "\<exists>bs c c'. SerializeUnknownMessageSetItemsToArray fs = Some bs \<and>
    ComputeUnknownMessageSetItemsSize fs = Some (length bs) \<and>
    SerializeUnknownMessageSetItems array_ops fs
      (CodedOutputStream0 array_ops (ArrayOutputStream0 (replicate (length bs) 0) block_size)) = Some c \<and>
    \<not> o_had_error c \<and> o_Trim array_ops c = Some c' \<and> a_data (o_output c') = bs \<and>
    UFS_ParseFromArray bs ufs = Some (True, message_set_items fs)"
proof -
  let ?bs = "SerializeUnknownFieldsToArray (message_set_items fs)"
  obtain c c' where "SerializeUnknownMessageSetItems array_ops fs
      (CodedOutputStream0 array_ops (ArrayOutputStream0 (replicate (length ?bs) 0) block_size)) = Some c"
    "\<not> o_had_error c" "o_Trim array_ops c = Some c'" "a_data (o_output c') = ?bs"
    by (rule array_written [OF array_stream.message_set_writes assms(2)])
  moreover have "UFS_ParseFromArray ?bs ufs = Some (True, message_set_items fs)"
    by (rule UFS_ParseFromArray_written) (use message_set_items_ok [OF assms(1)] assms(2) in simp_all)
  ultimately show ?thesis using message_set_array [of fs] message_set_size [of fs] by auto
qed

lemma message_set_written_witness:
  "\<exists>bs. SerializeUnknownMessageSetItemsToArray [TYPE_VARINT 7 1, TYPE_LENGTH_DELIMITED 9 [1, 2]] = Some bs \<and>
    UFS_ParseFromArray bs [] = Some (True, [TYPE_GROUP 1 [TYPE_VARINT 2 9, TYPE_LENGTH_DELIMITED 3 [1, 2]]])"
proof -
  let ?fs = "[TYPE_VARINT 7 1, TYPE_LENGTH_DELIMITED 9 [1, 2]]"
  have "length (SerializeUnknownFieldsToArray (message_set_items ?fs)) = 8" by code_simp
  then show ?thesis using message_set_written [of ?fs 1 "[]"] by auto
qed

section \<open>Packed enums\<close>

text \<open>An \<open>int\<close> is sign-extended to the 64 bits of \<open>AddVarint\<close>.\<close>

fun Full_ReadPackedEnumPreserve_loop :: "cvalue \<Rightarrow> u32 \<Rightarrow> (u32 \<Rightarrow> bool) option \<Rightarrow> nat \<Rightarrow> cis \<Rightarrow> UnknownFieldSet \<Rightarrow>
    cvalue RepeatedField \<Rightarrow> (bool \<times> cis \<times> UnknownFieldSet \<times> cvalue RepeatedField) option" where
  "Full_ReadPackedEnumPreserve_loop junk n is_valid fuel input ufs values =
     (if BytesUntilLimit input > 0
      then (case fuel of
              0 \<Rightarrow> None
            | Suc fuel \<Rightarrow>
                (case ReadPrimitive TYPE_ENUM input of
                   (True, C32 value, input) \<Rightarrow>
                     (if is_valid = None \<or> the is_valid value
                      then Option.bind (rf_Add junk (C32 value) values)
                             (Full_ReadPackedEnumPreserve_loop junk n is_valid fuel input ufs)
                      else Full_ReadPackedEnumPreserve_loop junk n is_valid fuel input (AddVarint n (scast value) ufs) values)
                 | (_, _, input) \<Rightarrow> Some (False, input, ufs, values)))
      else Some (True, input, ufs, values))"

declare Full_ReadPackedEnumPreserve_loop.simps [simp del]

definition Full_ReadPackedEnumPreserveUnknowns :: "cvalue \<Rightarrow> u32 \<Rightarrow> (u32 \<Rightarrow> bool) option \<Rightarrow> cis \<Rightarrow> UnknownFieldSet \<Rightarrow>
    cvalue RepeatedField \<Rightarrow> (bool \<times> cis \<times> UnknownFieldSet \<times> cvalue RepeatedField) option" where
  "Full_ReadPackedEnumPreserveUnknowns junk n is_valid input ufs values =
     (case ReadVarint32 input of
        (False, length', input) \<Rightarrow> Some (False, input, ufs, values)
      | (True, length', input) \<Rightarrow>
          (let (limit, input) = PushLimit (sint length') input
           in map_option (\<lambda>(ok, input, ufs, values). (ok, if ok then PopLimit limit input else input, ufs, values))
                (Full_ReadPackedEnumPreserve_loop junk n is_valid (nat (BytesUntilLimit input)) input ufs values)))"

text \<open>What the lite runtime and the full one keep of the values that are not valid.\<close>

definition lite_kept :: "u32 \<Rightarrow> u32 list \<Rightarrow> bytes" where
  "lite_kept n es = SerializeUnknownFieldsToArray (map (\<lambda>e. TYPE_VARINT n (ucast e)) es)"

definition full_kept :: "u32 \<Rightarrow> u32 list \<Rightarrow> UnknownFieldSet" where
  "full_kept n es = map (\<lambda>e. TYPE_VARINT n (scast e)) es"

definition same_enums :: "u32 \<Rightarrow> bytes \<Rightarrow> UnknownFieldSet \<Rightarrow> (u32 \<Rightarrow> bool) option \<Rightarrow>
    (bool \<times> cis \<times> bytes \<times> cvalue RepeatedField) option \<Rightarrow>
    (bool \<times> cis \<times> UnknownFieldSet \<times> cvalue RepeatedField) option \<Rightarrow> bool" where
  "same_enums n out ufs is_valid r r' \<longleftrightarrow>
     (r = None \<and> r' = None) \<or>
     (\<exists>ok t es g. (\<forall>e\<in>set es. \<not> enum_valid is_valid e) \<and>
        r = Some (ok, t, out @ lite_kept n es, g) \<and> r' = Some (ok, t, ufs @ full_kept n es, g))"

lemma same_enumsI: "same_enums n out ufs is_valid (Some (ok, t, out, g)) (Some (ok, t, ufs, g))"
  unfolding same_enums_def by (rule disjI2, intro exI [of _ ok] exI [of _ t] exI [of _ "[]"] exI [of _ g])
    (simp add: lite_kept_def full_kept_def)

lemma same_enums_Cons:
  assumes "same_enums n (out @ SerializeUnknownField (TYPE_VARINT n (ucast e))) (ufs @ [TYPE_VARINT n (scast e)]) is_valid r r'"
    "\<not> enum_valid is_valid e"
  shows "same_enums n out ufs is_valid r r'"
  using assms(1) unfolding same_enums_def
proof (elim disjE exE conjE)
  fix ok t es g
  assume *: "\<forall>e\<in>set es. \<not> enum_valid is_valid e"
    "r = Some (ok, t, (out @ SerializeUnknownField (TYPE_VARINT n (ucast e))) @ lite_kept n es, g)"
    "r' = Some (ok, t, (ufs @ [TYPE_VARINT n (scast e)]) @ full_kept n es, g)"
  have "\<forall>x\<in>set (e # es). \<not> enum_valid is_valid x" "r = Some (ok, t, out @ lite_kept n (e # es), g)"
    "r' = Some (ok, t, ufs @ full_kept n (e # es), g)"
    using * assms(2) by (simp_all add: lite_kept_def full_kept_def)
  then show "(r = None \<and> r' = None) \<or> (\<exists>ok t es g. (\<forall>e\<in>set es. \<not> enum_valid is_valid e) \<and>
        r = Some (ok, t, out @ lite_kept n es, g) \<and> r' = Some (ok, t, ufs @ full_kept n es, g))" by blast
qed simp

lemma enum_tag_value:
  "WriteVarint32ToArray (MakeTag n WIRETYPE_VARINT) @ WriteVarint32ToArray e = SerializeUnknownField (TYPE_VARINT n (ucast e))"
  by (simp add: WriteInt64ToArray_def WriteTagToArray_def WriteTagToArray0_def WriteVarint64_ucast)

lemma packed_enum_loops:
  "same_enums n out ufs is_valid (ReadPackedEnumPreserve_loop junk n is_valid fuel s out f)
     (Full_ReadPackedEnumPreserve_loop junk n is_valid fuel s ufs f)"
proof (induction fuel arbitrary: s out ufs f)
  case 0
  then show ?case
    using same_enumsI by (simp add: ReadPackedEnumPreserve_loop.simps Full_ReadPackedEnumPreserve_loop.simps) (simp add: same_enums_def)
next
  case (Suc fuel)
  obtain ok v t where r: "ReadPrimitive TYPE_ENUM s = (ok, v, t)" by (cases "ReadPrimitive TYPE_ENUM s") auto
  show ?case
  proof (cases "BytesUntilLimit s > 0 \<and> ok \<and> (\<exists>e. v = C32 e)")
    case False
    then have "\<not> BytesUntilLimit s > 0 \<or> \<not> ok \<or> (\<exists>w. v = C64 w) \<or> (\<exists>b. v = CBool b)" by (cases v) auto
    then have "ReadPackedEnumPreserve_loop junk n is_valid (Suc fuel) s out f =
        (if BytesUntilLimit s > 0 then Some (False, t, out, f) else Some (True, s, out, f))"
      "Full_ReadPackedEnumPreserve_loop junk n is_valid (Suc fuel) s ufs f =
        (if BytesUntilLimit s > 0 then Some (False, t, ufs, f) else Some (True, s, ufs, f))"
      by (auto simp: ReadPackedEnumPreserve_loop.simps [of _ _ _ "Suc fuel"] Full_ReadPackedEnumPreserve_loop.simps [of _ _ _ "Suc fuel"] r
          split: bool.splits simp del: ReadPrimitive.simps)
    then show ?thesis using same_enumsI by simp
  next
    case True
    then obtain e where e: "v = C32 e" "BytesUntilLimit s > 0" ok by blast
    show ?thesis
    proof (cases "enum_valid is_valid e")
      case True
      show ?thesis
      proof (cases "rf_Add junk (C32 e) f")
        case None
        then show ?thesis using True e r
          by (simp add: ReadPackedEnumPreserve_loop.simps [of _ _ _ "Suc fuel"] Full_ReadPackedEnumPreserve_loop.simps [of _ _ _ "Suc fuel"]
              enum_valid_def same_enums_def del: ReadPrimitive.simps)
      next
        case (Some g)
        then show ?thesis using True e r Suc.IH [of out ufs t g]
          by (simp add: ReadPackedEnumPreserve_loop.simps [of _ _ _ "Suc fuel"] Full_ReadPackedEnumPreserve_loop.simps [of _ _ _ "Suc fuel"]
              enum_valid_def del: ReadPrimitive.simps)
      qed
    next
      case False
      have "same_enums n out ufs is_valid
          (ReadPackedEnumPreserve_loop junk n is_valid fuel t (out @ SerializeUnknownField (TYPE_VARINT n (ucast e))) f)
          (Full_ReadPackedEnumPreserve_loop junk n is_valid fuel t (ufs @ [TYPE_VARINT n (scast e)]) f)"
        using Suc.IH False by (rule same_enums_Cons)
      moreover obtain P where "is_valid = Some P" "\<not> P e" using False by (auto simp: enum_valid_def)
      ultimately show ?thesis using e r
        by (simp add: ReadPackedEnumPreserve_loop.simps [of _ _ _ "Suc fuel"] Full_ReadPackedEnumPreserve_loop.simps [of _ _ _ "Suc fuel"]
            enum_valid_def Let_def AddVarint_def enum_tag_value del: SerializeUnknownField.simps ReadPrimitive.simps)
    qed
  qed
qed

lemma enum_sign_extension: "scast (e :: u32) = (ucast e :: u64) \<longleftrightarrow> 0 \<le> sint e"
proof
  assume "0 \<le> sint e"
  then have "\<not> bit (uint e) 31" by (simp add: sint_uint signed_take_bit_nonnegative_iff)
  then have "even (uint e div 2147483648)" by (simp add: bit_iff_odd)
  moreover have "uint e div 2147483648 = 1" if "2147483648 \<le> uint e"
    using that uint_lt2p [of e] by (simp add: int_div_pos_eq [of _ _ 1 "uint e - 2147483648"])
  ultimately have "uint e < 2147483648" by force
  moreover have "- (2 ^ 31) \<le> uint e" using uint_ge_0 [of e] by (rule order_trans [rotated]) simp
  ultimately have "sint e = uint e" by (simp add: sint_uint signed_take_bit_int_eq_self)
  then show "scast e = (ucast e :: u64)" by (metis of_int_sint of_int_uint)
next
  assume "scast e = (ucast e :: u64)"
  then have "sint (scast e :: u64) = sint (ucast e :: u64)" by simp
  moreover have "sint (scast e :: u64) = sint e"
    using sint_ge [of e] sint_lt [of e] by (simp add: signed_scast_eq signed_take_bit_int_eq_self)
  moreover have "sint (ucast e :: u64) = uint e"
    using uint_lt2p [of e] order_trans [of "- (2 ^ 63)" 0 "uint e"] by (simp add: signed_ucast_eq signed_take_bit_int_eq_self)
  ultimately show "0 \<le> sint e" by simp
qed

text \<open>The two runtimes read a packed enum alike: from any bytes, the same values are accepted and added to the field,
  with the same result and the stream left at the same place, and the same values are kept as unknown. But
  the full runtime keeps them sign-extended and the lite one writes their 32 bits, so a negative value comes out of
  them as different numbers; cut to 32 bits, as a reader of an enum does, both are the value.\<close>

lemma packed_enums_alike:
  "same_enums n out ufs is_valid (ReadPackedEnumPreserveUnknowns junk n is_valid s out f)
     (Full_ReadPackedEnumPreserveUnknowns junk n is_valid s ufs f) \<and>
   (scast e = (ucast e :: u64) \<longleftrightarrow> 0 \<le> sint e) \<and> ucast (scast e :: u64) = e \<and> ucast (ucast e :: u64) = (e :: u32)"
proof -
  obtain ok len t where r: "ReadVarint32 s = (ok, len, t)" by (cases "ReadVarint32 s") auto
  obtain limit u where p: "PushLimit (sint len) t = (limit, u)" by force
  have loops: "same_enums n out ufs is_valid (ReadPackedEnumPreserve_loop junk n is_valid (nat (BytesUntilLimit u)) u out f)
     (Full_ReadPackedEnumPreserve_loop junk n is_valid (nat (BytesUntilLimit u)) u ufs f)" by (rule packed_enum_loops)
  have "same_enums n out ufs is_valid (ReadPackedEnumPreserveUnknowns junk n is_valid s out f)
     (Full_ReadPackedEnumPreserveUnknowns junk n is_valid s ufs f)"
  proof (cases ok)
    case True
    from loops show ?thesis unfolding same_enums_def
      by (elim disjE exE conjE) (auto simp: ReadPackedEnumPreserveUnknowns_def Full_ReadPackedEnumPreserveUnknowns_def r p True
          simp del: ReadPackedEnumPreserve_loop.simps)
  qed (use r same_enumsI in \<open>simp add: ReadPackedEnumPreserveUnknowns_def Full_ReadPackedEnumPreserveUnknowns_def\<close>)
  moreover have "scast e = (ucast e :: u64) \<longleftrightarrow> 0 \<le> sint e" by (rule enum_sign_extension)
  moreover have "ucast (scast e :: u64) = e" "ucast (ucast e :: u64) = e"
    by (rule bit_word_eqI, simp add: bit_simps)+
  ultimately show ?thesis by blast
qed

end
