(* ===== verification/NestedMessages.thy ===== *)
theory NestedMessages
  imports EntryPoints UnknownFieldSets
begin

text \<open>
  Messages and groups inside messages for any class: \<open>ReadMessage\<close>, \<open>ReadGroup\<close>, \<open>WriteMessage\<close>, \<open>WriteGroup\<close> and their
  variants (\<open>wire_format_lite.cc\<close>, \<open>wire_format_lite_inl.h\<close>). What they call of a \<open>MessageLite\<close> is a record of functions, with
  an instance for each of the two generated classes; a variant that differs only in binding these calls statically
  (\<open>WriteGroupNoVirtual\<close>, \<open>ReadMessageNoVirtual\<close>, ...) is the same function. The locale \<open>written_class\<close> says what a class owes
  the writers: after \<open>ByteSizeLong\<close> the cached size, the array and the stream agree. It holds of both classes on every
  output stream.
\<close>

section \<open>The virtual functions\<close>

record ('m, 'z) MessageLite =
  MergePartial :: "nat \<Rightarrow> 'm \<Rightarrow> cis \<Rightarrow> (bool \<times> 'm \<times> cis) option"
  TakeByteSize :: "'m \<Rightarrow> nat \<times> 'm"
  GetCachedSize :: "'m \<Rightarrow> int"
  SerializeCached :: "'m \<Rightarrow> 'z cos \<Rightarrow> 'z cos option"
  SerializeCachedToArray :: "'m \<Rightarrow> bytes"

definition Parameter_class :: "'z zero_copy_ops \<Rightarrow> (Parameter, 'z) MessageLite" where
  "Parameter_class ops = \<lparr>MergePartial = Parameter_MergePartial, TakeByteSize = Parameter_ByteSizeLong,
     GetCachedSize = par_cached_size, SerializeCached = Parameter_SerializeWithCachedSizes ops,
     SerializeCachedToArray = Parameter_InternalSerialize\<rparr>"

definition ConnectProtocol_class :: "'z zero_copy_ops \<Rightarrow> (ConnectProtocol, 'z) MessageLite" where
  "ConnectProtocol_class ops = \<lparr>MergePartial = MergePartialFromCodedStream, TakeByteSize = ByteSizeLong,
     GetCachedSize = cached_size, SerializeCached = SerializeWithCachedSizes ops,
     SerializeCachedToArray = InternalSerialize\<rparr>"

section \<open>Reading\<close>

definition UnsafeDecrementRecursionDepth :: "cis \<Rightarrow> cis" where
  "UnsafeDecrementRecursionDepth s = s\<lparr>recursion_budget := recursion_budget s + 1\<rparr>"

definition ReadLengthAndPushLimit :: "cis \<Rightarrow> int \<times> cis" where
  "ReadLengthAndPushLimit s =
     (let (ok, len, s) = ReadVarint32 s in PushLimit (if ok then sint len else 0) s)"

definition CheckEntireMessageConsumedAndPopLimit :: "int \<Rightarrow> cis \<Rightarrow> bool \<times> cis" where
  "CheckEntireMessageConsumedAndPopLimit limit s = (let result = ConsumedEntireMessage s in (result, PopLimit limit s))"

definition ReadGroup :: "('m, 'z) MessageLite \<Rightarrow> u32 \<Rightarrow> nat \<Rightarrow> 'm \<Rightarrow> cis \<Rightarrow> (bool \<times> 'm \<times> cis) option" where
  "ReadGroup cls n fuel m input =
     (let (ok, input) = IncrementRecursionDepth input
      in if \<not> ok then Some (False, m, input)
         else case MergePartial cls fuel m input of
                None \<Rightarrow> None
              | Some (ok, m, input) \<Rightarrow>
                  if \<not> ok then Some (False, m, input)
                  else let input = DecrementRecursionDepth input
                       in Some (LastTagWas (MakeTag n WIRETYPE_END_GROUP) input, m, input))"

definition ReadGroupNoVirtual :: "('m, 'z) MessageLite \<Rightarrow> u32 \<Rightarrow> nat \<Rightarrow> 'm \<Rightarrow> cis \<Rightarrow> (bool \<times> 'm \<times> cis) option" where
  "ReadGroupNoVirtual cls n fuel m input =
     (let (ok, input) = IncrementRecursionDepth input
      in if \<not> ok then Some (False, m, input)
         else case MergePartial cls fuel m input of
                None \<Rightarrow> None
              | Some (ok, m, input) \<Rightarrow>
                  if \<not> ok then Some (False, m, input)
                  else let input = UnsafeDecrementRecursionDepth input
                       in Some (LastTagWas (MakeTag n WIRETYPE_END_GROUP) input, m, input))"

definition ReadGroupNoVirtualNoRecursionDepth ::
    "('m, 'z) MessageLite \<Rightarrow> u32 \<Rightarrow> nat \<Rightarrow> 'm \<Rightarrow> cis \<Rightarrow> (bool \<times> 'm \<times> cis) option" where
  "ReadGroupNoVirtualNoRecursionDepth cls n fuel m input =
     (case MergePartial cls fuel m input of
        None \<Rightarrow> None
      | Some (ok, m, input) \<Rightarrow> Some (ok \<and> LastTagWas (MakeTag n WIRETYPE_END_GROUP) input, m, input))"

definition ReadMessage_virtual :: "('m, 'z) MessageLite \<Rightarrow> nat \<Rightarrow> 'm \<Rightarrow> cis \<Rightarrow> (bool \<times> 'm \<times> cis) option" where
  "ReadMessage_virtual cls fuel m input =
     (let (ok, len, input) = ReadVarintSizeAsInt input
      in if \<not> ok then Some (False, m, input)
         else let (first, second, input) = IncrementRecursionDepthAndPushLimit len input
              in if second < 0 then Some (False, m, input)
                 else case MergePartial cls fuel m input of
                        None \<Rightarrow> None
                      | Some (ok, m, input) \<Rightarrow>
                          if \<not> ok then Some (False, m, input)
                          else let (consumed, input) = DecrementRecursionDepthAndPopLimit first input
                               in Some (consumed, m, input))"

definition ReadMessageNoVirtualNoRecursionDepth ::
    "('m, 'z) MessageLite \<Rightarrow> nat \<Rightarrow> 'm \<Rightarrow> cis \<Rightarrow> (bool \<times> 'm \<times> cis) option" where
  "ReadMessageNoVirtualNoRecursionDepth cls fuel m input =
     (let (old_limit, input) = ReadLengthAndPushLimit input
      in case MergePartial cls fuel m input of
           None \<Rightarrow> None
         | Some (ok, m, input) \<Rightarrow>
             if \<not> ok then Some (False, m, input)
             else let (consumed, input) = CheckEntireMessageConsumedAndPopLimit old_limit input
                  in Some (consumed, m, input))"

section \<open>Writing\<close>

definition WriteGroup :: "'z zero_copy_ops \<Rightarrow> ('m, 'z) MessageLite \<Rightarrow> u32 \<Rightarrow> 'm \<Rightarrow> 'z cos \<Rightarrow> 'z cos option" where
  "WriteGroup ops cls n m c =
     do { c \<leftarrow> WriteTag ops n WIRETYPE_START_GROUP c;
          c \<leftarrow> SerializeCached cls m c;
          WriteTag ops n WIRETYPE_END_GROUP c }"

definition WriteMessage :: "'z zero_copy_ops \<Rightarrow> ('m, 'z) MessageLite \<Rightarrow> u32 \<Rightarrow> 'm \<Rightarrow> 'z cos \<Rightarrow> 'z cos option" where
  "WriteMessage ops cls n m c =
     do { c \<leftarrow> WriteTag ops n WIRETYPE_LENGTH_DELIMITED c;
          let size = GetCachedSize cls m;
          c \<leftarrow> WriteVarint32 ops (word_of_int size) c;
          SerializeCached cls m c }"

definition WriteGroupMaybeToArray :: "'z zero_copy_ops \<Rightarrow> ('m, 'z) MessageLite \<Rightarrow> u32 \<Rightarrow> 'm \<Rightarrow> 'z cos \<Rightarrow> 'z cos option" where
  "WriteGroupMaybeToArray ops cls n m c =
     do { c \<leftarrow> WriteTag ops n WIRETYPE_START_GROUP c;
          let size = GetCachedSize cls m;
          c \<leftarrow> (case GetDirectBufferForNBytesAndAdvance (nat size) c of
                  (Some target, c) \<Rightarrow>
                    Some (c\<lparr>o_output := z_store ops target (SerializeCachedToArray cls m) (o_output c)\<rparr>)
                | (None, c) \<Rightarrow> SerializeCached cls m c);
          WriteTag ops n WIRETYPE_END_GROUP c }"

definition WriteMessageMaybeToArray_virtual ::
    "'z zero_copy_ops \<Rightarrow> ('m, 'z) MessageLite \<Rightarrow> u32 \<Rightarrow> 'm \<Rightarrow> 'z cos \<Rightarrow> 'z cos option" where
  "WriteMessageMaybeToArray_virtual ops cls n m c =
     do { c \<leftarrow> WriteTag ops n WIRETYPE_LENGTH_DELIMITED c;
          let size = GetCachedSize cls m;
          c \<leftarrow> WriteVarint32 ops (word_of_int size) c;
          (case GetDirectBufferForNBytesAndAdvance (nat size) c of
             (Some target, c) \<Rightarrow>
               Some (c\<lparr>o_output := z_store ops target (SerializeCachedToArray cls m) (o_output c)\<rparr>)
           | (None, c) \<Rightarrow> SerializeCached cls m c) }"

definition InternalWriteGroupToArray :: "('m, 'z) MessageLite \<Rightarrow> u32 \<Rightarrow> 'm \<Rightarrow> bytes" where
  "InternalWriteGroupToArray cls n m =
     WriteTagToArray n WIRETYPE_START_GROUP @ SerializeCachedToArray cls m @ WriteTagToArray n WIRETYPE_END_GROUP"

definition InternalWriteMessageToArray_virtual :: "('m, 'z) MessageLite \<Rightarrow> u32 \<Rightarrow> 'm \<Rightarrow> bytes" where
  "InternalWriteMessageToArray_virtual cls n m =
     WriteTagToArray n WIRETYPE_LENGTH_DELIMITED @
     WriteVarint32ToArray (word_of_int (GetCachedSize cls m)) @ SerializeCachedToArray cls m"

section \<open>Sizes\<close>

definition GroupSize :: "('m, 'z) MessageLite \<Rightarrow> 'm \<Rightarrow> nat \<times> 'm" where
  "GroupSize cls m = TakeByteSize cls m"

definition MessageSize :: "('m, 'z) MessageLite \<Rightarrow> 'm \<Rightarrow> nat \<times> 'm" where
  "MessageSize cls m = (let (size, m) = TakeByteSize cls m in (LengthDelimitedSize size, m))"

section \<open>What a class owes its writers\<close>

locale written_class = zero_copy_output +
  fixes cls :: "('m, 'a) MessageLite" and valid :: "'m \<Rightarrow> bool" and encoding :: "'m \<Rightarrow> bytes"
  assumes serializes: "valid m \<Longrightarrow> writes (SerializeCached cls m) (encoding m)"
    and to_array: "valid m \<Longrightarrow> SerializeCachedToArray cls m = encoding m"
    and cached: "valid m \<Longrightarrow> GetCachedSize cls m = int (length (encoding m))"
begin

lemma group_array:
  "valid m \<Longrightarrow> InternalWriteGroupToArray cls n m = WriteTagToArray n WIRETYPE_START_GROUP @ encoding m @ WriteTagToArray n WIRETYPE_END_GROUP"
  by (simp add: InternalWriteGroupToArray_def to_array)

lemma message_array: "valid m \<Longrightarrow> InternalWriteMessageToArray_virtual cls n m = WriteBytesToArray n (encoding m)"
  by (simp add: InternalWriteMessageToArray_virtual_def to_array cached WriteBytesToArray_def WriteStringWithSizeToArray_def)

lemma group_writes:
  assumes "valid m"
  shows "writes (WriteGroup ops cls n m) (InternalWriteGroupToArray cls n m)"
    "writes (WriteGroupMaybeToArray ops cls n m) (InternalWriteGroupToArray cls n m)"
  unfolding WriteGroup_def [abs_def] WriteGroupMaybeToArray_def [abs_def] group_array [OF assms] Let_def
    to_array [OF assms] cached [OF assms]
  unfolding nat_int by (intro writes_bind tag_writes direct_writes serializes [OF assms] refl)+

lemma message_writes_virtual:
  assumes "valid m"
  shows "writes (WriteMessage ops cls n m) (InternalWriteMessageToArray_virtual cls n m)"
    "writes (WriteMessageMaybeToArray_virtual ops cls n m) (InternalWriteMessageToArray_virtual cls n m)"
  unfolding WriteMessage_def [abs_def] WriteMessageMaybeToArray_virtual_def [abs_def] InternalWriteMessageToArray_virtual_def Let_def
    to_array [OF assms] cached [OF assms]
  unfolding nat_int of_int_of_nat_eq
  by (intro writes_bind tag_writes number_writes direct_writes serializes [OF assms] refl)+

end

definition parameter_written :: "Parameter \<Rightarrow> bool" where
  "parameter_written p \<longleftrightarrow> size_cached p \<and> length (encode_parameter (parameter_view p)) < 2 ^ 31"

definition message_written_ok :: "ConnectProtocol \<Rightarrow> bool" where
  "message_written_ok m \<longleftrightarrow> message_ok m \<and> sizes_cached m \<and> length (encode_message (message_view m)) < 2 ^ 31 \<and>
     cached_size m = ToCachedSize (length (encode_message (message_view m)))"

sublocale zero_copy_output < par_out: written_class ops ok content handed limit "Parameter_class ops"
  parameter_written "\<lambda>p. encode_parameter (parameter_view p)"
  by unfold_locales (auto simp: Parameter_class_def parameter_written_def size_cached_def ToCachedSize_small
      parameter_writes Parameter_InternalSerialize_view)

sublocale zero_copy_output < msg_out: written_class ops ok content handed limit "ConnectProtocol_class ops"
  message_written_ok "\<lambda>m. encode_message (message_view m)"
  by unfold_locales (auto simp: ConnectProtocol_class_def message_written_ok_def ToCachedSize_small
      message_writes InternalSerialize_view)

lemma message_written_ByteSizeLong:
  assumes "message_ok m" "length (encode_message (message_view m)) < 2 ^ 31"
  shows "message_written_ok (snd (ByteSizeLong m))" "message_view (snd (ByteSizeLong m)) = message_view m"
  using ByteSizeLong_view [OF assms(1)] assms
  by (auto simp: message_written_ok_def ByteSizeLong_def Let_def case_prod_beta)

section \<open>Reading what was written\<close>

lemma class_simps [simp]:
  "MergePartial (Parameter_class ops) = Parameter_MergePartial"
  "MergePartial (ConnectProtocol_class ops) = MergePartialFromCodedStream"
  "TakeByteSize (Parameter_class ops) = Parameter_ByteSizeLong" "TakeByteSize (ConnectProtocol_class ops) = ByteSizeLong"
  by (simp_all add: Parameter_class_def ConnectProtocol_class_def)

lemma virtual_ReadMessage: "ReadMessage_virtual (Parameter_class ops) = ReadMessage"
  by (intro ext) (simp only: ReadMessage_virtual_def ReadMessage_def class_simps)

context parse_loop
begin

lemma nested_written:
  assumes "MergePartial cls = loop" "eats d c p p'" "length c < 2 ^ 31"
    "flat s" "avail s = WriteStringWithSizeToArray c @ rest" "recursion_budget s \<le> recursion_limit s" "length (avail s) < fuel"
  shows "int (Suc d) \<le> recursion_budget s \<Longrightarrow>
      \<exists>t. ReadMessage_virtual cls fuel p s = Some (True, p', t) \<and> after s (LengthDelimitedSize (length c)) t"
    "int d \<le> recursion_budget s \<Longrightarrow>
      \<exists>t. ReadMessageNoVirtualNoRecursionDepth cls fuel p s = Some (True, p', t) \<and> after s (LengthDelimitedSize (length c)) t"
proof -
  have a: "avail s = WriteVarint32ToArray (of_nat (length c)) @ c @ rest" "min (length c) (length (c @ rest)) = length c"
    using assms(5) by (simp_all add: WriteStringWithSizeToArray_def)
  have n: "LengthDelimitedSize (length c) = VarintSize32 (of_nat (length c)) + length c" by (simp add: LengthDelimitedSize_def)
  note run = limited_run [OF assms(2,3) a(2) assms(4) a(1) assms(7)]
  show "\<exists>t. ReadMessage_virtual cls fuel p s = Some (True, p', t) \<and> after s (LengthDelimitedSize (length c)) t"
    if "int (Suc d) \<le> recursion_budget s"
  proof -
    have b: "int d \<le> recursion_budget s - 1" "recursion_budget s - 1 \<le> recursion_limit s" using that assms(6) by simp_all
    show ?thesis unfolding n
      by (rule run [OF b]) (use b(1) in \<open>simp add: ReadMessage_virtual_def ReadVarintSizeAsInt_written [OF assms(4) a(1) assms(3)]
            assms(1) IncrementRecursionDepthAndPushLimit_def DecrementRecursionDepthAndPopLimit_def Let_def\<close>)
  qed
  show "\<exists>t. ReadMessageNoVirtualNoRecursionDepth cls fuel p s = Some (True, p', t) \<and> after s (LengthDelimitedSize (length c)) t"
    if "int d \<le> recursion_budget s"
  proof -
    have r: "ReadVarint32 s = (True, of_nat (length c), Advance (VarintSize32 (of_nat (length c))) s)"
      using ReadVarint32_written [OF assms(4) a(1)] by simp
    show ?thesis unfolding n
    proof (rule run [OF that assms(6)])
      fix l t
      assume l: "PushLimit (int (length c)) (Advance (VarintSize32 (word_of_nat (length c))) s) = (int (cbuffer_end s), l)"
        "recursion_budget l = recursion_budget s"
        and t: "loop fuel p (l\<lparr>recursion_budget := recursion_budget s\<rparr>) = Some (True, p', t)" "ConsumedEntireMessage t"
          "recursion_budget (PopLimit (int (cbuffer_end s)) t) = recursion_budget s"
        and u: "after s (VarintSize32 (word_of_nat (length c)) + length c)
           ((PopLimit (int (cbuffer_end s)) t)\<lparr>recursion_budget := recursion_budget s\<rparr>)"
      have "l\<lparr>recursion_budget := recursion_budget s\<rparr> = l" using l(2) by (cases l) simp
      moreover have e: "(PopLimit (int (cbuffer_end s)) t)\<lparr>recursion_budget := recursion_budget s\<rparr> = PopLimit (int (cbuffer_end s)) t"
        using t(3) by (cases "PopLimit (int (cbuffer_end s)) t") simp
      moreover have "ReadLengthAndPushLimit s = (int (cbuffer_end s), l)"
        using l(1) sint_small [OF assms(3)] by (simp add: ReadLengthAndPushLimit_def r)
      ultimately show "\<exists>t. ReadMessageNoVirtualNoRecursionDepth cls fuel p s = Some (True, p', t) \<and>
          after s (VarintSize32 (word_of_nat (length c)) + length c) t"
        using t u [unfolded e] by (simp add: ReadMessageNoVirtualNoRecursionDepth_def CheckEntireMessageConsumedAndPopLimit_def assms(1))
    qed
  qed
qed

end

text \<open>The end tag of a group is a field no generated parser skips.\<close>

locale group_shy_loop = parse_loop +
  assumes end_group: "flat s \<Longrightarrow> avail s = WriteTagToArray n WIRETYPE_END_GROUP @ rest \<Longrightarrow>
    \<exists>m' t. step fuel m s = Done False m' t"
begin

lemma group_refused:
  assumes "MergePartial cls = loop" "eats d c p p'" "flat s" "avail s = c @ WriteTagToArray n WIRETYPE_END_GROUP @ rest"
    "int (Suc d) \<le> recursion_budget s" "recursion_budget s \<le> recursion_limit s" "length (avail s) < fuel"
  shows "\<exists>m t. ReadGroup cls n fuel p s = Some (False, m, t)" "\<exists>m t. ReadGroupNoVirtual cls n fuel p s = Some (False, m, t)"
    "\<exists>m t. ReadGroupNoVirtualNoRecursionDepth cls n fuel p s = Some (False, m, t)"
proof -
  have refused: "\<exists>m t. loop fuel p (s\<lparr>recursion_budget := b\<rparr>) = Some (False, m, t)" if "int d \<le> b" "b \<le> recursion_limit s" for b
  proof -
    have s: "flat (s\<lparr>recursion_budget := b\<rparr>)" "avail (s\<lparr>recursion_budget := b\<rparr>) = c @ WriteTagToArray n WIRETYPE_END_GROUP @ rest"
      "int d \<le> recursion_budget (s\<lparr>recursion_budget := b\<rparr>)"
      "recursion_budget (s\<lparr>recursion_budget := b\<rparr>) \<le> recursion_limit (s\<lparr>recursion_budget := b\<rparr>)"
      "length (avail (s\<lparr>recursion_budget := b\<rparr>)) < fuel"
      using assms that by simp_all
    then obtain fuel' t where t: "loop fuel p (s\<lparr>recursion_budget := b\<rparr>) = loop fuel' p' t" "after (s\<lparr>recursion_budget := b\<rparr>) (length c) t"
      "length (WriteTagToArray n WIRETYPE_END_GROUP @ rest) < fuel'"
      using assms(2) unfolding eats_def by blast
    have t': "flat t" "avail t = WriteTagToArray n WIRETYPE_END_GROUP @ rest"
      using after_flat [OF s(1) t(2)] after_avail [OF t(2)] s(2) by simp_all
    obtain k where "fuel' = Suc k" using t(3) by (cases fuel') auto
    then show ?thesis using t(1) end_group [OF t', of k p'] by (auto simp: loop_Suc)
  qed
  have b: "int d \<le> recursion_budget s - 1" "recursion_budget s - 1 \<le> recursion_limit s" "int d \<le> recursion_budget s"
    using assms(5,6) by simp_all
  obtain m t where m: "loop fuel p (s\<lparr>recursion_budget := recursion_budget s - 1\<rparr>) = Some (False, m, t)"
    using refused [OF b(1,2)] by blast
  obtain m' t' where m': "loop fuel p (s\<lparr>recursion_budget := recursion_budget s\<rparr>) = Some (False, m', t')"
    using refused [OF b(3) assms(6)] by blast
  have same: "s\<lparr>recursion_budget := recursion_budget s\<rparr> = s" by (cases s) simp
  show "\<exists>m t. ReadGroup cls n fuel p s = Some (False, m, t)" "\<exists>m t. ReadGroupNoVirtual cls n fuel p s = Some (False, m, t)"
    using m b(1) by (simp_all add: ReadGroup_def ReadGroupNoVirtual_def IncrementRecursionDepth_def assms(1))
  show "\<exists>m t. ReadGroupNoVirtualNoRecursionDepth cls n fuel p s = Some (False, m, t)"
    using m' unfolding same by (simp add: ReadGroupNoVirtualNoRecursionDepth_def assms(1))
qed

end

lemma end_group_mask: "MakeTag n WIRETYPE_END_GROUP AND mask 3 = 4"
proof (rule bit_word_eqI)
  fix i assume "i < LENGTH(32)"
  have "bit (wire_code WIRETYPE_END_GROUP) i \<longleftrightarrow> i = 2" "bit (4 :: u32) i \<longleftrightarrow> i = 2" unfolding wire_code_def using bit_exp_iff [of 2 i, where ?'a = u32] \<open>i < LENGTH(32)\<close> by auto
  then show "bit (MakeTag n WIRETYPE_END_GROUP AND mask 3) i \<longleftrightarrow> bit (4 :: u32) i"
    using \<open>i < LENGTH(32)\<close> by (auto simp: MakeTag_def bit_simps kTagTypeBits_def)
qed

lemma end_group_nonzero: "MakeTag n WIRETYPE_END_GROUP \<noteq> 0"
  using end_group_mask [of n] by auto

lemma end_group_byte:
  assumes "(k :: u8) AND 7 \<noteq> 4"
  shows "(ucast (MakeTag n WIRETYPE_END_GROUP) :: u8) \<noteq> k"
proof
  assume "(ucast (MakeTag n WIRETYPE_END_GROUP) :: u8) = k"
  moreover have "(ucast (MakeTag n WIRETYPE_END_GROUP) :: u8) AND mask 3 = ucast (MakeTag n WIRETYPE_END_GROUP AND mask 3)"
    by (rule bit_word_eqI) (auto simp: bit_simps)
  then have "(ucast (MakeTag n WIRETYPE_END_GROUP) :: u8) AND mask 3 = 4" unfolding end_group_mask by simp
  ultimately show False using assms by (simp add: mask_eq_exp_minus_1)
qed

lemma SkipField_end_group: "\<exists>u. SkipField fuel (MakeTag n WIRETYPE_END_GROUP) ufs s = Some (False, u, s)"
  by (simp add: SkipField.simps Let_def GetTagWireType_MakeTag)

lemma end_group_unusual:
  "\<exists>m' t. Parameter_handle_unusual fuel (MakeTag n WIRETYPE_END_GROUP) p s = Done False m' t"
    "\<exists>m' t. handle_unusual fuel (MakeTag n WIRETYPE_END_GROUP) m s = Done False m' t"
  using SkipField_end_group [of fuel n "mutable_unknown_fields (par_metadata p)" s]
    SkipField_end_group [of fuel n "mutable_unknown_fields (metadata m)" s] end_group_nonzero [of n]
  by (auto simp: Parameter_handle_unusual_def handle_unusual_def)

interpretation par_group: group_shy_loop Parameter_parse_step Parameter_MergePartial
proof unfold_locales
  fix s :: cis and n rest fuel m
  assume s: "flat s" "avail s = WriteTagToArray n WIRETYPE_END_GROUP @ rest"
  show "\<exists>m' t. Parameter_parse_step fuel m s = Done False m' t"
    using ReadTag_cutoff_written [OF s end_group_nonzero, of 127] end_group_unusual end_group_byte [of 10 n] end_group_byte [of 18 n]
    by (simp add: Parameter_parse_step_def)
qed

interpretation msg_group: group_shy_loop parse_step MergePartialFromCodedStream
proof unfold_locales
  fix s :: cis and n rest fuel m
  assume s: "flat s" "avail s = WriteTagToArray n WIRETYPE_END_GROUP @ rest"
  show "\<exists>m' t. parse_step fuel m s = Done False m' t"
    using ReadTag_cutoff_written [OF s end_group_nonzero, of 16383] end_group_unusual end_group_byte [of 8 n] end_group_byte [of 18 n]
      end_group_byte [of 162 n] end_group_byte [of 170 n]
    by (simp add: parse_step_def)
qed

lemma varint_length_tag:
  assumes "c < 8"
  shows "length (varint_enc (8 * a + c)) = length (varint_enc (8 * a))"
proof -
  obtain k where k: "length (varint_enc (8 * a)) = Suc k"
    using varint_enc_not_Nil [of "8 * a"] by (cases "varint_enc (8 * a)") auto
  then have b: "8 * a < 128 ^ Suc k" "k = 0 \<or> 128 ^ k \<le> 8 * a" unfolding varint_enc_length_iff by simp_all
  have "8 * a + c < 8 * (16 * 128 ^ k)"
  proof -
    have "a < 16 * 128 ^ k" using b(1) by simp
    then show ?thesis using assms by linarith
  qed
  then have "8 * a + c < 128 ^ Suc k \<and> (k = 0 \<or> 128 ^ k \<le> 8 * a + c)" using b(2) by auto
  then show ?thesis unfolding k varint_enc_length_iff .
qed

lemma TagSize_MakeTag:
  assumes "unat n < 2 ^ 29"
  shows "TagSize n False = VarintSize32 (MakeTag n t)" "TagSize n True = 2 * VarintSize32 (MakeTag n t)"
proof -
  have "unat (push_bit 3 n) = 8 * unat n"
    using assms by (simp add: unat_eq_nat_uint push_bit_eq_mult uint_mult_lem unat_word_ariths(2) flip: unat_eq_nat_uint)
  then have "VarintSize32 (push_bit 3 n) = VarintSize32 (MakeTag n t)"
    using varint_length_tag [OF wire_code_less [of t], of "unat n"] by (simp add: VarintSize32_length MakeTag_unat [OF assms])
  then show "TagSize n False = VarintSize32 (MakeTag n t)" "TagSize n True = 2 * VarintSize32 (MakeTag n t)"
    by (simp_all add: TagSize_def kTagTypeBits_def)
qed

definition parameter_fields :: "parameter_view \<Rightarrow> UnknownFieldSet" where
  "parameter_fields v =
     (case v of (k, w, u) \<Rightarrow>
        (if k \<noteq> [] then [TYPE_LENGTH_DELIMITED 1 k] else []) @ (if w \<noteq> [] then [TYPE_LENGTH_DELIMITED 2 w] else []) @ u)"

lemma parameter_fields_encode: "SerializeUnknownFieldsToArray (parameter_fields v) = encode_parameter v"
  by (auto simp: parameter_fields_def encode_parameter_def WriteStringToArray_def WriteBytesToArray_def split: prod.split)

lemma parameter_fields_ok:
  assumes "parameter_ok v" "length (encode_parameter v) < 2 ^ 31"
  shows "fields_ok (parameter_fields v)" "fields_depth (parameter_fields v) \<le> 99"
  using assms by (auto simp: parameter_fields_def parameter_ok_def unknown_apart_def length_encode_parameter StringSize_def
      LengthDelimitedSize_def split: prod.splits if_splits)

lemma parameter_eaten:
  assumes "parameter_ok (parameter_view p)" "length (encode_parameter (parameter_view p)) < 2 ^ 31" "parameter_view p0 = ([], [], [])"
  obtains p' where "par_loop.eats 99 (encode_parameter (parameter_view p)) p0 p'" "parameter_view p' = parameter_view p"
proof -
  obtain k w u where v: "parameter_view p = (k, w, u)" by (cases "parameter_view p")
  obtain p' where "par_loop.eats (fields_depth u) (encode_parameter (k, w, u)) p0 p'" "parameter_view p' = (k, w, u)"
    by (rule Parameter_eats [OF assms [unfolded v]])
  moreover have "fields_depth u \<le> 99" using assms(1) by (simp add: v parameter_ok_def)
  ultimately show thesis using that par_loop.eats_mono unfolding v by blast
qed

lemma parameter_sized:
  assumes "length (encode_parameter (parameter_view p)) < 2 ^ 31"
  shows "parameter_written (snd (Parameter_ByteSizeLong p))"
  using assms by (simp add: parameter_written_def size_cached_ByteSizeLong Parameter_ByteSizeLong_view)

text \<open>C39: A \<open>Parameter\<close> written as a field of another message, to an array stream of any block size: whichever
  writer is used, through the stream or into the array, the bytes are the same and as many as \<open>MessageSize\<close> and \<open>TagSize\<close>
  say; and both readers, with and without a check of the recursion depth, get the parameter back into an empty \<open>Parameter\<close> out
  of an array with any bytes that follow, and stop behind it. The conditions: its key and value are UTF-8, its unknown fields are well formed, have
  other tags than those of key and value and nest at most 99 deep; the field number is below 2^29, the encodings are below two gigabytes; and
  the reader has the recursion budget of a new decoder, 100, and fuel for the bytes there are.\<close>

theorem nested_message_roundtrip:
  assumes "parameter_ok (parameter_view p)" "parameter_view p0 = ([], [], [])" "unat n < 2 ^ 29"
    "cls = Parameter_class array_ops" "MessageSize cls p = (sz, p1)" "sz < 2 ^ 31"
    "W \<in> {WriteMessage array_ops cls n p1, WriteMessageMaybeToArray_virtual array_ops cls n p1}"
    "R \<in> {ReadMessage_virtual cls, ReadMessageNoVirtualNoRecursionDepth cls}"
    "bs = InternalWriteMessageToArray_virtual cls n p1" "int (length bs) \<le> INT_MAX"
    "flat s" "avail s = drop (TagSize n False) bs @ rest"
    "100 \<le> recursion_budget s" "recursion_budget s \<le> recursion_limit s" "length (avail s) < fuel"
  shows "length bs = TagSize n False + sz \<and>
    (\<exists>c c'. W (CodedOutputStream0 array_ops (ArrayOutputStream0 (replicate (length bs) 0) block_size)) = Some c \<and>
       \<not> o_had_error c \<and> o_Trim array_ops c = Some c' \<and> a_data (o_output c') = bs) \<and>
    (\<exists>p' t. R fuel p0 s = Some (True, p', t) \<and> parameter_view p' = parameter_view p \<and> avail t = rest)"
proof -
  let ?e = "encode_parameter (parameter_view p)"
  have p1: "p1 = snd (Parameter_ByteSizeLong p)" "sz = LengthDelimitedSize (length ?e)" "parameter_view p1 = parameter_view p"
    using assms(4,5) Parameter_ByteSizeLong_view [of p] by (auto simp: MessageSize_def case_prod_beta)
  then have e: "length ?e < 2 ^ 31" using assms(6) by (simp add: LengthDelimitedSize_def)
  note w = parameter_sized [OF e, folded p1(1)]
  have bs: "bs = WriteBytesToArray n ?e" using array_stream.par_out.message_array [OF w] p1(3) assms(4,9) by simp
  have tag: "length (WriteTagToArray n WIRETYPE_LENGTH_DELIMITED) = TagSize n False"
    using TagSize_MakeTag(1) [OF assms(3), of WIRETYPE_LENGTH_DELIMITED] by simp
  have "array_stream.writes k W bs" for k
    using assms(4,7,9) array_stream.par_out.message_writes_virtual [OF w] by auto
  then have "\<exists>c c'. W (CodedOutputStream0 array_ops (ArrayOutputStream0 (replicate (length bs) 0) block_size)) = Some c \<and>
      \<not> o_had_error c \<and> o_Trim array_ops c = Some c' \<and> a_data (o_output c') = bs"
    by (rule array_written [OF _ assms(10)]) blast
  moreover have "length bs = TagSize n False + sz"
    unfolding bs WriteBytesToArray_def by (simp add: tag p1(2) del: length_WriteTagToArray)
  moreover obtain p' where p': "par_loop.eats 99 ?e p0 p'" "parameter_view p' = parameter_view p"
    by (rule parameter_eaten [OF assms(1) e assms(2)])
  have a: "avail s = WriteStringWithSizeToArray ?e @ rest"
    using assms(12) unfolding bs WriteBytesToArray_def tag [symmetric] by simp
  have "MergePartial cls = Parameter_MergePartial" using assms(4) by simp
  then have "\<exists>t. R fuel p0 s = Some (True, p', t) \<and> after s (LengthDelimitedSize (length ?e)) t"
    using assms(8,13) par_loop.nested_written [OF _ p'(1) e assms(11) a assms(14,15), of cls] by auto
  then obtain t where t: "R fuel p0 s = Some (True, p', t)" "after s (LengthDelimitedSize (length ?e)) t" by blast
  have "avail t = rest" using after_avail [OF t(2)] unfolding a by (simp add: LengthDelimitedSize_def)
  then have "\<exists>p' t. R fuel p0 s = Some (True, p', t) \<and> parameter_view p' = parameter_view p \<and> avail t = rest"
    using t(1) p'(2) by blast
  ultimately show ?thesis by blast
qed

lemma nested_message_witness:
  "\<exists>p1 c p' t. WriteMessage array_ops (Parameter_class array_ops) 7 p1
       (CodedOutputStream0 array_ops (ArrayOutputStream0 [0, 0, 0, 0, 0, 0] 2)) = Some c \<and> \<not> o_had_error c \<and>
     ReadMessage_virtual (Parameter_class array_ops) 7 Parameter0 (CodedInputStream [4, 10, 2, 97, 98, 9] 6) = Some (True, p', t) \<and>
     parameter_view p' = ([97, 98], [], []) \<and> avail t = [9]"
proof -
  let ?p = "set_key [97, 98] Parameter0" and ?cls = "Parameter_class array_ops"
  let ?s = "CodedInputStream [4, 10, 2, 97, 98, 9] 6"
  have b: "InternalWriteMessageToArray_virtual ?cls 7 (snd (Parameter_ByteSizeLong ?p)) = [58, 4, 10, 2, 97, 98]" by code_simp
  have t: "TagSize 7 False = 1" "fst (Parameter_ByteSizeLong ?p) = 4" "LengthDelimitedSize 4 = 5" by code_simp+
  have m: "MessageSize ?cls ?p = (5, snd (Parameter_ByteSizeLong ?p))" using t(2,3) by (simp add: MessageSize_def case_prod_beta)
  have v: "parameter_view ?p = ([97, 98], [], [])" by code_simp
  have ok: "parameter_ok (parameter_view ?p)" unfolding v by (simp add: parameter_ok_def utf8_valid_ascii)
  have s: "avail ?s = drop (TagSize 7 False) [58, 4, 10, 2, 97, 98] @ [9]" "100 \<le> recursion_budget ?s"
    "recursion_budget ?s \<le> recursion_limit ?s" "length (avail ?s) < 7" "flat ?s"
    using flat_CodedInputStream [of "[4, 10, 2, 97, 98, 9]"] avail_CodedInputStream [of "[4, 10, 2, 97, 98, 9]"]
    by (simp_all add: t(1)) (simp_all add: CodedInputStream_def default_recursion_limit_def)
  from nested_message_roundtrip [OF ok _ _ refl m _ insertI1 insertI1 b [symmetric] _ s(5,1,2,3,4), of Parameter0 2]
  show ?thesis unfolding v by auto
qed

text \<open>A group of such a class is written, in as many bytes as \<open>GroupSize\<close> and \<open>TagSize\<close> say, and a reader of unknown
  fields finds it; but the parsers of the classes take the tag at its end for a field that cannot be skipped, so that no
  reader of groups accepts it.\<close>

lemma group_written_not_read:
  assumes "parameter_ok (parameter_view p)" "parameter_view p0 = ([], [], [])" "0 < unat n" "unat n < 2 ^ 29"
    "cls = Parameter_class array_ops" "GroupSize cls p = (sz, p1)" "sz < 2 ^ 31"
    "W \<in> {WriteGroup array_ops cls n p1, WriteGroupMaybeToArray array_ops cls n p1}"
    "R \<in> {ReadGroup cls n, ReadGroupNoVirtual cls n, ReadGroupNoVirtualNoRecursionDepth cls n}"
    "bs = InternalWriteGroupToArray cls n p1" "int (length bs) \<le> INT_MAX"
    "flat s" "avail s = drop (TagSize n False) bs @ rest"
    "100 \<le> recursion_budget s" "recursion_budget s \<le> recursion_limit s" "length (avail s) < fuel"
  shows "length bs = TagSize n True + sz"
    "\<exists>c c'. W (CodedOutputStream0 array_ops (ArrayOutputStream0 (replicate (length bs) 0) block_size)) = Some c \<and>
       \<not> o_had_error c \<and> o_Trim array_ops c = Some c' \<and> a_data (o_output c') = bs"
    "UFS_ParseFromArray bs ufs = Some (True, [TYPE_GROUP n (parameter_fields (parameter_view p))])"
    "\<exists>p' t. R fuel p0 s = Some (False, p', t)"
proof -
  let ?e = "encode_parameter (parameter_view p)"
  have p1: "p1 = snd (Parameter_ByteSizeLong p)" "sz = length ?e" "parameter_view p1 = parameter_view p"
    using assms(5,6) Parameter_ByteSizeLong_view [of p] by (auto simp: GroupSize_def prod_eq_iff)
  with assms(7) have e: "length ?e < 2 ^ 31" by simp
  note w = parameter_sized [OF e, folded p1(1)]
  have bs: "bs = WriteTagToArray n WIRETYPE_START_GROUP @ ?e @ WriteTagToArray n WIRETYPE_END_GROUP"
    using array_stream.par_out.group_array [OF w] p1(3) assms(5,10) by simp
  note tag = TagSize_MakeTag [OF assms(4)]
  show "length bs = TagSize n True + sz"
    using tag(1) [of WIRETYPE_START_GROUP] tag(1) [of WIRETYPE_END_GROUP] tag(2) [of WIRETYPE_END_GROUP] by (simp add: bs p1(2))
  have "array_stream.writes k W bs" for k
    using assms(5,8,10) array_stream.par_out.group_writes [OF w] by auto
  then show "\<exists>c c'. W (CodedOutputStream0 array_ops (ArrayOutputStream0 (replicate (length bs) 0) block_size)) = Some c \<and>
      \<not> o_had_error c \<and> o_Trim array_ops c = Some c' \<and> a_data (o_output c') = bs"
    by (rule array_written [OF _ assms(11)]) blast
  have u: "bs = SerializeUnknownFieldsToArray [TYPE_GROUP n (parameter_fields (parameter_view p))]"
    by (simp add: bs parameter_fields_encode)
  show "UFS_ParseFromArray bs ufs = Some (True, [TYPE_GROUP n (parameter_fields (parameter_view p))])"
    unfolding u by (intro UFS_ParseFromArray_written)
      (use parameter_fields_ok [OF assms(1) e] assms(3,4,11) in \<open>simp_all add: u [symmetric] del: SerializeUnknownFieldsToArray.simps\<close>)
  obtain p' where p': "par_loop.eats 99 ?e p0 p'" using parameter_eaten [OF assms(1) e assms(2)] by blast
  have a: "avail s = ?e @ WriteTagToArray n WIRETYPE_END_GROUP @ rest"
    using assms(13) tag(1) [of WIRETYPE_START_GROUP] by (simp add: bs)
  have "MergePartial cls = Parameter_MergePartial" using assms(5) by simp
  then show "\<exists>p' t. R fuel p0 s = Some (False, p', t)"
    using assms(9) par_group.group_refused [OF _ p' assms(12) a _ assms(15,16), of cls] assms(14) by auto
qed

end
