(* ===== verification/VectorSize.thy ===== *)
theory VectorSize
  imports PackedFields
begin

text \<open>
  \<open>VarintSize\<close> of \<open>wire_format_lite.cc\<close>: the sizes of a repeated field of 32-bit varints, four lanes at a
  time with the SSE intrinsics, which are modelled as their reference describes them. A \<open>__m128i\<close> is
  the list of its four 32-bit lanes, the lowest first.
\<close>

section \<open>The code\<close>

definition mm_lanes :: "(u32 \<Rightarrow> u32 \<Rightarrow> u32) \<Rightarrow> u32 list \<Rightarrow> u32 list \<Rightarrow> u32 list" where
  "mm_lanes f a b = map2 f a b"

definition mm_min_epi32 :: "u32 list \<Rightarrow> u32 list \<Rightarrow> u32 list" where
  "mm_min_epi32 = mm_lanes (\<lambda>a b. if sint a < sint b then a else b)"

definition mm_hadd_epi32 :: "u32 list \<Rightarrow> u32 list \<Rightarrow> u32 list" where
  "mm_hadd_epi32 a b = [a ! 0 + a ! 1, a ! 2 + a ! 3, b ! 0 + b ! 1, b ! 2 + b ! 3]"

text \<open>The inner loop over \<open>j\<close>, the outer one over the \<open>rounded / 4\<close> blocks, and the tail.\<close>

fun VarintSize_shift :: "nat \<Rightarrow> u32 list \<times> u32 list \<Rightarrow> u32 list" where
  "VarintSize_shift 0 (acc, v) = acc"
| "VarintSize_shift (Suc j) (acc, v) =
     (let mins = mm_min_epi32 v [1, 1, 1, 1];
          acc = mm_lanes (+) acc mins;
          v = map (drop_bit 7) v
      in VarintSize_shift j (acc, v))"

fun VarintSize_blocks :: "bool \<Rightarrow> bool \<Rightarrow> nat \<Rightarrow> u32 list \<Rightarrow> u32 list \<times> u32 list \<Rightarrow> u32 list \<times> u32 list" where
  "VarintSize_blocks ZigZag SignExtended 0 rest (acc, msb_sum) = (acc, msb_sum)"
| "VarintSize_blocks ZigZag SignExtended (Suc blocks) rest (acc, msb_sum) =
     (let v = take 4 rest;
          v = (if ZigZag then mm_lanes (XOR) (map (push_bit 1) v) (map (signed_drop_bit 31) v) else v);
          acc = mm_lanes (+) acc [1, 1, 1, 1];
          msb_sum = (if SignExtended then mm_lanes (+) msb_sum (map (drop_bit 31) v) else msb_sum);
          v = map (drop_bit 7) v;
          acc = VarintSize_shift 4 (acc, v)
      in VarintSize_blocks ZigZag SignExtended blocks (drop 4 rest) (acc, msb_sum))"

definition VarintSize1 :: "bool \<Rightarrow> bool \<Rightarrow> u32 \<Rightarrow> nat" where
  "VarintSize1 ZigZag SignExtended v =
     (if ZigZag then VarintSize32 (ZigZagEncode32 v)
      else if SignExtended then VarintSize32SignExtended v else VarintSize32 v)"

fun VarintSize_tail :: "bool \<Rightarrow> bool \<Rightarrow> u32 list \<Rightarrow> u64 \<Rightarrow> u64" where
  "VarintSize_tail ZigZag SignExtended [] out = out"
| "VarintSize_tail ZigZag SignExtended (v # rest) out =
     VarintSize_tail ZigZag SignExtended rest (out + of_nat (VarintSize1 ZigZag SignExtended v))"

definition VarintSize :: "bool \<Rightarrow> bool \<Rightarrow> u32 list \<Rightarrow> u64" where
  "VarintSize ZigZag SignExtended data =
     (let blocks = length data div 4;
          (acc, msb_sum) = VarintSize_blocks ZigZag SignExtended blocks data ([0, 0, 0, 0], [0, 0, 0, 0]);
          acc = (if SignExtended then mm_lanes (+) acc (mm_lanes (*) msb_sum [5, 5, 5, 5]) else acc);
          out = scast (hd (mm_hadd_epi32 (mm_hadd_epi32 acc [1, 1, 1, 1]) [1, 1, 1, 1]))
      in VarintSize_tail ZigZag SignExtended (drop (4 * blocks) data) out)"

text \<open>\<open>Int32Size\<close>, \<open>UInt32Size\<close>, \<open>SInt32Size\<close> and \<open>EnumSize\<close> of a repeated field, when the vector code is in.\<close>

fun VectorSize :: "FieldType \<Rightarrow> u32 list \<Rightarrow> u64" where
  "VectorSize TYPE_UINT32 data = VarintSize False False data"
| "VectorSize TYPE_SINT32 data = VarintSize True True data"
| "VectorSize _ data = VarintSize False True data"

section \<open>One lane\<close>

definition lane_size :: "u32 \<Rightarrow> u32" where
  "lane_size v = 1 + of_bool (128 \<le> unat v) + of_bool (128 ^ 2 \<le> unat v) + of_bool (128 ^ 3 \<le> unat v) + of_bool (128 ^ 4 \<le> unat v)"

lemma min_shifted:
  assumes "0 < k" "k \<le> 4"
  shows "(if sint (drop_bit (7 * k) (v :: u32)) < sint (1 :: u32) then drop_bit (7 * k) v else 1) = of_bool (128 ^ k \<le> unat v)"
proof -
  let ?w = "drop_bit (7 * k) v"
  have u: "unat ?w = unat v div 128 ^ k" by (simp add: unat_drop_bit power_mult)
  have "128 ^ 1 \<le> (128 :: nat) ^ k" using assms by (intro power_increasing) simp_all
  then have "unat v div 128 ^ k \<le> unat v div 128" by (intro div_le_mono2) simp_all
  moreover have "unat v div 128 < 2 ^ 31" by (rule less_mult_imp_div_less) (rule less_trans [OF u32_less], simp)
  ultimately have "unat ?w < 2 ^ 31" unfolding u by (rule le_less_trans)
  then have s: "sint ?w = int (unat ?w)" using sint_small [of "unat ?w"] by simp
  show ?thesis
  proof (cases "128 ^ k \<le> unat v")
    case True
    then have "0 < unat ?w" unfolding u by (simp add: div_greater_zero_iff)
    moreover have "sint (1 :: u32) = 1" by simp
    ultimately have "\<not> sint ?w < sint (1 :: u32)" using s by linarith
    with True show ?thesis by simp
  next
    case False
    then have "unat ?w = 0" unfolding u by simp
    with False show ?thesis by (simp add: unat_eq_zero)
  qed
qed

lemma lane_size_VarintSize32: "of_nat (VarintSize32 v) = lane_size v"
proof -
  have l: "VarintSize32 v \<le> 5" "0 < VarintSize32 v" "VarintSize32 v = length (varint_enc (unat v))"
    using length_varint_enc32 [of v] by (simp_all add: VarintSize32_length)
  define k where "k = VarintSize32 v - 1"
  have k: "VarintSize32 v = Suc k" "k < 5" using l(1,2) unfolding k_def by linarith+
  with l(3) have b: "unat v < 128 ^ Suc k" "k = 0 \<or> 128 ^ k \<le> unat v" using varint_enc_length_iff [of "unat v" k] by auto
  from k(2) have "k = 0 \<or> k = 1 \<or> k = 2 \<or> k = 3 \<or> k = 4" by linarith
  then show ?thesis using b unfolding k(1) lane_size_def by (elim disjE) simp_all
qed

lemma sign_extension: "of_nat (VarintSize32SignExtended v) = lane_size v + drop_bit 31 v * 5"
proof -
  have d: "drop_bit 31 v = of_bool (sint v < 0)"
  proof (rule bit_word_eqI)
    fix n show "bit (drop_bit 31 v) n = bit (of_bool (sint v < 0) :: u32) n"
      using bit_imp_le_length [of v "31 + n"] bit_last_iff [of v] by (cases n) (auto simp: bit_simps)
  qed
  show ?thesis
  proof (cases "sint v < 0")
    case True
    then have "unat v div 2 ^ 31 = 1" using unat_drop_bit [of 31 v] by (simp add: d)
    then have "2 ^ 31 \<le> unat v" using div_greater_zero_iff [of "unat v" "2 ^ 31"] by simp
    then show ?thesis using True by (simp add: d VarintSize32SignExtended_def lane_size_def)
  qed (simp add: d VarintSize32SignExtended_def lane_size_VarintSize32)
qed

section \<open>Four lanes\<close>

definition lane_value :: "bool \<Rightarrow> u32 \<Rightarrow> u32" where
  "lane_value ZigZag v = (if ZigZag then ZigZagEncode32 v else v)"

lemma VarintSize_shift_step:
  assumes "0 < k" "k \<le> 4"
  shows "VarintSize_shift (Suc j) ([s0, s1, s2, s3], [drop_bit (7 * k) a, drop_bit (7 * k) b, drop_bit (7 * k) c, drop_bit (7 * k) d]) =
    VarintSize_shift j
      ([s0 + of_bool (128 ^ k \<le> unat a), s1 + of_bool (128 ^ k \<le> unat b), s2 + of_bool (128 ^ k \<le> unat c), s3 + of_bool (128 ^ k \<le> unat d)],
       [drop_bit (7 * Suc k) a, drop_bit (7 * Suc k) b, drop_bit (7 * Suc k) c, drop_bit (7 * Suc k) d])"
  by (simp only: VarintSize_shift.simps Let_def mm_min_epi32_def mm_lanes_def list.map zip_Cons_Cons zip_Nil prod.case
      min_shifted [OF assms] drop_bit_drop_bit mult_Suc_right)

lemma VarintSize_shift_lanes:
  "VarintSize_shift 4 ([s0 + 1, s1 + 1, s2 + 1, s3 + 1], [drop_bit 7 a, drop_bit 7 b, drop_bit 7 c, drop_bit 7 d]) =
    [s0 + lane_size a, s1 + lane_size b, s2 + lane_size c, s3 + lane_size d]"
proof -
  have four: "4 = Suc (Suc (Suc (Suc 0)))" by simp
  have "VarintSize_shift (Suc (Suc (Suc (Suc 0))))
      ([s0 + 1, s1 + 1, s2 + 1, s3 + 1], [drop_bit (7 * 1) a, drop_bit (7 * 1) b, drop_bit (7 * 1) c, drop_bit (7 * 1) d]) =
    [s0 + lane_size a, s1 + lane_size b, s2 + lane_size c, s3 + lane_size d]"
    by (subst VarintSize_shift_step, simp, simp)+ (simp add: lane_size_def numeral_2_eq_2 numeral_3_eq_3)
  then show ?thesis by (simp only: four mult_1_right)
qed

definition lanes :: "u32 list \<Rightarrow> u32 \<Rightarrow> bool" where
  "lanes vs n \<longleftrightarrow> (\<exists>a b c d. vs = [a, b, c, d] \<and> a + b + c + d = n)"

lemma lanes_add: "lanes vs m \<Longrightarrow> lanes ws n \<Longrightarrow> lanes (mm_lanes (+) vs ws) (m + n)"
  by (auto simp: lanes_def mm_lanes_def algebra_simps)

lemma lanes_mult: "lanes vs m \<Longrightarrow> lanes (mm_lanes (*) vs [k, k, k, k]) (m * k)"
  by (auto simp: lanes_def mm_lanes_def distrib_right)

lemma lanes_map: "lanes (map f [a, b, c, d]) (f a + f b + f c + f d)"
  by (simp add: lanes_def)

lemma VarintSize_block:
  fixes a b c d :: u32 and ZigZag :: bool
  assumes s: "lanes acc m"
  defines "vs \<equiv> map (lane_value ZigZag) [a, b, c, d]"
  shows "lanes (VarintSize_shift 4 (mm_lanes (+) acc [1, 1, 1, 1], map (drop_bit 7) vs)) (m + sum_list (map lane_size vs))"
proof -
  obtain s0 s1 s2 s3 where "acc = [s0, s1, s2, s3]" "m = s0 + s1 + s2 + s3" using s by (auto simp: lanes_def)
  then show ?thesis unfolding vs_def
    by (simp add: mm_lanes_def VarintSize_shift_lanes) (simp add: lanes_def ac_simps)
qed

lemma VarintSize_blocks_lanes:
  assumes "4 * blocks \<le> length rest" "lanes acc m" "lanes msb_sum k"
  shows "\<exists>acc' msb_sum'. VarintSize_blocks ZigZag SignExtended blocks rest (acc, msb_sum) = (acc', msb_sum') \<and>
    lanes acc' (m + sum_list (map (lane_size \<circ> lane_value ZigZag) (take (4 * blocks) rest))) \<and>
    lanes msb_sum' (if SignExtended then k + sum_list (map (drop_bit 31 \<circ> lane_value ZigZag) (take (4 * blocks) rest)) else k)"
  using assms
proof (induction blocks arbitrary: rest acc m msb_sum k)
  case (Suc blocks)
  then obtain a b c d rs where rest: "rest = a # b # c # d # rs"
    by (auto simp: Suc_le_length_iff numeral_eq_Suc)
  let ?vs = "map (lane_value ZigZag) [a, b, c, d]"
  let ?acc = "VarintSize_shift 4 (mm_lanes (+) acc [1, 1, 1, 1], map (drop_bit 7) ?vs)"
  let ?msb = "if SignExtended then mm_lanes (+) msb_sum (map (drop_bit 31) ?vs) else msb_sum"
  let ?k = "if SignExtended then k + sum_list (map (drop_bit 31) ?vs) else k"
  have v: "(if ZigZag then mm_lanes (XOR) (map (push_bit 1) [a, b, c, d]) (map (signed_drop_bit 31) [a, b, c, d]) else [a, b, c, d]) = ?vs"
    by (simp add: lane_value_def [abs_def] mm_lanes_def ZigZagEncode32_def)
  have acc: "lanes ?acc (m + sum_list (map lane_size ?vs))" by (rule VarintSize_block [OF Suc.prems(2)])
  have msb: "lanes ?msb ?k"
    using lanes_add [OF Suc.prems(3) lanes_map [of "drop_bit 31" "lane_value ZigZag a" "lane_value ZigZag b" "lane_value ZigZag c" "lane_value ZigZag d"]]
      Suc.prems(3) by (simp add: add.assoc)
  have "4 * blocks \<le> length rs" using Suc.prems(1) rest by simp
  from Suc.IH [OF this acc msb] obtain acc' msb' where ih: "VarintSize_blocks ZigZag SignExtended blocks rs (?acc, ?msb) = (acc', msb')"
    "lanes acc' (m + sum_list (map lane_size ?vs) + sum_list (map (lane_size \<circ> lane_value ZigZag) (take (4 * blocks) rs)))"
    "lanes msb' (if SignExtended then ?k + sum_list (map (drop_bit 31 \<circ> lane_value ZigZag) (take (4 * blocks) rs)) else ?k)"
    by blast
  have "4 * Suc blocks = Suc (Suc (Suc (Suc (4 * blocks))))" by simp
  then have "take (4 * Suc blocks) rest = [a, b, c, d] @ take (4 * blocks) rs"
    by (simp only: rest take_Suc_Cons append.simps)
  then have four: "take 4 rest = [a, b, c, d]" "drop 4 rest = rs" "take (4 * Suc blocks) rest = [a, b, c, d] @ take (4 * blocks) rs"
    by (simp_all add: rest)
  have e: "VarintSize_blocks ZigZag SignExtended (Suc blocks) rest (acc, msb_sum) = (acc', msb')"
    by (simp only: VarintSize_blocks.simps Let_def four v ih(1))
  show ?case unfolding e four
    by (rule exI [of _ acc'], rule exI [of _ msb']) (use ih(2,3) in \<open>cases SignExtended; simp add: add.assoc o_def\<close>)
qed simp

section \<open>The whole\<close>

text \<open>The lanes and the sign bits of a block add up to this, for the pair of flags.\<close>

definition msb_count :: "bool \<Rightarrow> bool \<Rightarrow> u32 list \<Rightarrow> nat" where
  "msb_count ZigZag SignExtended vs = (if ZigZag \<and> SignExtended then length (filter (\<lambda>v. bit (ZigZagEncode32 v) 31) vs) else 0)"

lemma drop_bit_31: "drop_bit 31 (v :: u32) = of_bool (bit v 31)"
proof (rule bit_word_eqI)
  fix n show "bit (drop_bit 31 v) n = bit (of_bool (bit v 31) :: u32) n"
    using bit_imp_le_length [of v "31 + n"] by (cases n) (auto simp: bit_simps)
qed

lemma block_sizes:
  "sum_list (map (lane_size \<circ> lane_value ZigZag) vs) +
     (if SignExtended then sum_list (map (drop_bit 31 \<circ> lane_value ZigZag) vs) else 0) * 5 =
   (of_nat (sum_list (map (VarintSize1 ZigZag SignExtended) vs) + 5 * msb_count ZigZag SignExtended vs) :: u32)"
proof (induction vs)
  case (Cons v vs)
  have "lane_size (lane_value ZigZag v) + (if SignExtended then drop_bit 31 (lane_value ZigZag v) else 0) * 5 =
      of_nat (VarintSize1 ZigZag SignExtended v + 5 * msb_count ZigZag SignExtended [v])"
    by (simp add: lane_value_def VarintSize1_def msb_count_def lane_size_VarintSize32 sign_extension drop_bit_31)
  moreover have "msb_count ZigZag SignExtended (v # vs) = msb_count ZigZag SignExtended [v] + msb_count ZigZag SignExtended vs"
    by (simp add: msb_count_def)
  ultimately have "of_nat (sum_list (map (VarintSize1 ZigZag SignExtended) (v # vs)) + 5 * msb_count ZigZag SignExtended (v # vs)) =
      (lane_size (lane_value ZigZag v) + (if SignExtended then drop_bit 31 (lane_value ZigZag v) else 0) * 5) +
      of_nat (sum_list (map (VarintSize1 ZigZag SignExtended) vs) + 5 * msb_count ZigZag SignExtended vs)"
    by (simp add: algebra_simps)
  then show ?case unfolding Cons.IH [symmetric] by (simp add: algebra_simps o_def)
qed (simp add: msb_count_def)

lemma VarintSize_tail_sum:
  "VarintSize_tail ZigZag SignExtended vs out = out + of_nat (sum_list (map (VarintSize1 ZigZag SignExtended) vs))"
  by (induction vs arbitrary: out) (simp_all add: add.assoc)

lemma VarintSize1_le: "VarintSize1 ZigZag SignExtended v \<le> 10"
proof -
  have "VarintSize32 w \<le> 10" for w using length_varint_enc32 [of "w"] by (simp add: VarintSize32_length)
  then show ?thesis by (auto simp: VarintSize1_def VarintSize32SignExtended_def)
qed

lemma sizes_le: "sum_list (map (VarintSize1 ZigZag SignExtended) vs) + 5 * msb_count ZigZag SignExtended vs \<le> 10 * length vs"
proof (induction vs)
  case (Cons v vs)
  have "VarintSize32 w \<le> 5" for w using length_varint_enc32 [of "w"] by (simp add: VarintSize32_length)
  then have "VarintSize1 ZigZag SignExtended v + 5 * msb_count ZigZag SignExtended [v] \<le> 10"
    using VarintSize1_le [of ZigZag SignExtended v] by (auto simp: msb_count_def VarintSize1_def intro: le_trans [of _ 5])
  moreover have "msb_count ZigZag SignExtended (v # vs) = msb_count ZigZag SignExtended [v] + msb_count ZigZag SignExtended vs"
    by (simp add: msb_count_def)
  ultimately show ?case using Cons by simp
qed (simp add: msb_count_def)

lemma scast_small: "n < 2 ^ 31 \<Longrightarrow> (scast (of_nat n :: u32) :: u64) = of_nat n"
  by (simp add: scast_eq sint_small)

lemma VarintSize_vector:
  assumes "length data < 2 ^ 27"
  shows "VarintSize ZigZag SignExtended data =
    of_nat (sum_list (map (VarintSize1 ZigZag SignExtended) data) +
      5 * msb_count ZigZag SignExtended (take (4 * (length data div 4)) data))"
proof -
  let ?bs = "length data div 4" and ?z = "[0, 0, 0, 0] :: u32 list"
  let ?head = "take (4 * (length data div 4)) data" and ?rest = "drop (4 * (length data div 4)) data"
  let ?n = "sum_list (map (VarintSize1 ZigZag SignExtended) ?head) + 5 * msb_count ZigZag SignExtended ?head"
  have z: "lanes ?z 0" by (simp add: lanes_def)
  have "4 * ?bs \<le> length data" by simp
  from VarintSize_blocks_lanes [OF this z z, where ZigZag = ZigZag and SignExtended = SignExtended] obtain acc msb where
    b: "VarintSize_blocks ZigZag SignExtended ?bs data (?z, ?z) = (acc, msb)"
    "lanes acc (sum_list (map (lane_size \<circ> lane_value ZigZag) ?head))"
    "lanes msb (if SignExtended then sum_list (map (drop_bit 31 \<circ> lane_value ZigZag) ?head) else 0)"
    unfolding add_0 by blast
  have five: "lanes (mm_lanes (*) msb [5, 5, 5, 5]) ((if SignExtended then sum_list (map (drop_bit 31 \<circ> lane_value ZigZag) ?head) else 0) * 5)"
    by (rule lanes_mult [OF b(3)])
  let ?acc = "if SignExtended then mm_lanes (+) acc (mm_lanes (*) msb [5, 5, 5, 5]) else acc"
  have "lanes ?acc (of_nat ?n)"
    using lanes_add [OF b(2) five] b(2) unfolding block_sizes [symmetric] by (cases SignExtended) simp_all
  then have hadd: "hd (mm_hadd_epi32 (mm_hadd_epi32 ?acc [1, 1, 1, 1]) [1, 1, 1, 1]) = of_nat ?n"
    by (auto simp: lanes_def mm_hadd_epi32_def algebra_simps)
  have "?n \<le> 10 * length ?head" by (rule sizes_le)
  also have "\<dots> < 2 ^ 31" using assms by simp
  finally have out: "(scast (of_nat ?n :: u32) :: u64) = of_nat ?n" by (rule scast_small)
  have split: "sum_list (map (VarintSize1 ZigZag SignExtended) data) =
      sum_list (map (VarintSize1 ZigZag SignExtended) ?head) + sum_list (map (VarintSize1 ZigZag SignExtended) ?rest)"
    by (simp flip: sum_list_append map_append)
  show ?thesis
    unfolding VarintSize_def Let_def b(1) prod.case hadd out VarintSize_tail_sum split by (simp add: algebra_simps)
qed

section \<open>What the vector sizes promise\<close>

lemma PrimitiveSize_VarintSize1:
  "map (PrimitiveSize TYPE_UINT32 \<circ> C32) vs = map (VarintSize1 False False) vs"
  "map (PrimitiveSize TYPE_SINT32 \<circ> C32) vs = map (VarintSize1 True True) vs"
  "ty = TYPE_INT32 \<or> ty = TYPE_ENUM \<Longrightarrow> map (PrimitiveSize ty \<circ> C32) vs = map (VarintSize1 False True) vs"
  by (auto simp: VarintSize1_def)

text \<open>C36: The vector code computes the size the scalar loop computes, for \<open>int32\<close>, \<open>uint32\<close> and
  enum fields of up to 2^27 elements. For \<open>sint32\<close> it does not: it runs with both
  flags set, and each element in a full block whose zigzag encoding has its top bit set counts
  five bytes too many.\<close>

theorem vector_sizes:
  assumes f: "rf_shows f (map C32 data)" and n: "length data < 2 ^ 27"
    and ty: "ty \<in> {TYPE_INT32, TYPE_UINT32, TYPE_ENUM, TYPE_SINT32}"
  shows "\<exists>k. RepeatedSize ty f = Some k \<and>
    VectorSize ty data = of_nat (k + (if ty = TYPE_SINT32
      then 5 * length (filter (\<lambda>v. bit (ZigZagEncode32 v) 31) (take (4 * (length data div 4)) data)) else 0))"
proof -
  have "RepeatedSize ty f = Some (sum_list (map (PrimitiveSize ty \<circ> C32) data))"
    using sizes_loop_shows [OF f, of 0 "length data" ty 0] rf_shows_size [OF f] by (simp add: RepeatedSize_def)
  with ty show ?thesis
    by (auto simp: PrimitiveSize_VarintSize1 VarintSize_vector [OF n] msb_count_def simp del: PrimitiveSize.simps)
qed

lemma vector_sizes_witness:
  "VectorSize TYPE_INT32 [1, -1, 300, 70000, 5] = 1 + 10 + 2 + 3 + 1"
proof -
  let ?d = "[1, -1, 300, 70000, 5] :: u32 list"
  let ?f = "\<lparr>rf_storage = map C32 ?d, rf_size = 5\<rparr>"
  have f: "rf_shows ?f (map C32 ?d)" by (rule rf_showsI [of _ _ "[]"]) simp_all
  have "RepeatedSize TYPE_INT32 ?f = Some 17" by code_simp
  with vector_sizes [OF f, of TYPE_INT32] show ?thesis by simp
qed

text \<open>Four elements of a \<open>sint32\<close> field that take five bytes each: twice the size.\<close>

lemma vector_size_of_sint32:
  "VectorSize TYPE_SINT32 [0x40000000, 0x40000000, 0x40000000, 0x40000000] = 40 \<and>
   RepeatedSize TYPE_SINT32 \<lparr>rf_storage = map C32 [0x40000000, 0x40000000, 0x40000000, 0x40000000], rf_size = 4\<rparr> = Some 20"
  by code_simp

end
