(* ===== verification/LiteSkip.thy ===== *)
theory LiteSkip
  imports WireFormat
begin

text \<open>
  Skipping fields in the lite runtime (\<open>wire_format_lite.cc\<close>): \<open>WireFormatLite::SkipField\<close> and
  \<open>SkipMessage\<close>, once throwing the fields away and once copying them to a \<open>CodedOutputStream\<close>, and
  the \<open>FieldSkipper\<close> classes over them. The output stream is the bytes written to it. As in the
  full runtime the first argument bounds the rounds of the loop of \<open>SkipMessage\<close>.
\<close>

section \<open>The code\<close>

fun Lite_SkipField :: "nat \<Rightarrow> u32 \<Rightarrow> cis \<Rightarrow> (bool \<times> cis) option"
  and Lite_SkipMessage :: "nat \<Rightarrow> cis \<Rightarrow> (bool \<times> cis) option" where
  "Lite_SkipField fuel tag input =
     (if GetTagFieldNumber tag = 0 then Some (False, input)
      else case GetTagWireType tag of
        Some WIRETYPE_VARINT \<Rightarrow> (let (ok, value, input) = ReadVarint64 input in Some (ok, input))
      | Some WIRETYPE_FIXED64 \<Rightarrow> (let (ok, value, input) = ReadLittleEndian64 input in Some (ok, input))
      | Some WIRETYPE_LENGTH_DELIMITED \<Rightarrow>
          (let (ok, length', input) = ReadVarint32 input
           in if \<not> ok then Some (False, input)
              else let (ok, input) = Skip (sint length') input in Some (ok, input))
      | Some WIRETYPE_START_GROUP \<Rightarrow>
          (let (ok, input) = IncrementRecursionDepth input
           in if \<not> ok then Some (False, input)
              else case Lite_SkipMessage fuel input of
                None \<Rightarrow> None
              | Some (ok, input) \<Rightarrow>
                  if \<not> ok then Some (False, input)
                  else let input = DecrementRecursionDepth input
                       in Some (LastTagWas (MakeTag (GetTagFieldNumber tag) WIRETYPE_END_GROUP) input, input))
      | Some WIRETYPE_END_GROUP \<Rightarrow> Some (False, input)
      | Some WIRETYPE_FIXED32 \<Rightarrow> (let (ok, value, input) = ReadLittleEndian32 input in Some (ok, input))
      | None \<Rightarrow> Some (False, input))"
| "Lite_SkipMessage 0 input = None"
| "Lite_SkipMessage (Suc fuel) input =
     (let (tag, input) = ReadTag input
      in if tag = 0 then Some (True, input)
         else let wire_type = GetTagWireType tag
         in if wire_type = Some WIRETYPE_END_GROUP then Some (True, input)
            else case Lite_SkipField fuel tag input of
              None \<Rightarrow> None
            | Some (ok, input) \<Rightarrow> if \<not> ok then Some (False, input) else Lite_SkipMessage fuel input)"

fun Lite_SkipFieldTo :: "nat \<Rightarrow> u32 \<Rightarrow> cis \<Rightarrow> bytes \<Rightarrow> (bool \<times> cis \<times> bytes) option"
  and Lite_SkipMessageTo :: "nat \<Rightarrow> cis \<Rightarrow> bytes \<Rightarrow> (bool \<times> cis \<times> bytes) option" where
  "Lite_SkipFieldTo fuel tag input output =
     (if GetTagFieldNumber tag = 0 then Some (False, input, output)
      else case GetTagWireType tag of
        Some WIRETYPE_VARINT \<Rightarrow>
          (let (ok, value, input) = ReadVarint64 input
           in if \<not> ok then Some (False, input, output)
              else Some (True, input, output @ WriteVarint32ToArray tag @ WriteVarint64ToArray value))
      | Some WIRETYPE_FIXED64 \<Rightarrow>
          (let (ok, value, input) = ReadLittleEndian64 input
           in if \<not> ok then Some (False, input, output)
              else Some (True, input, output @ WriteVarint32ToArray tag @ WriteLittleEndian64ToArray value))
      | Some WIRETYPE_LENGTH_DELIMITED \<Rightarrow>
          (let (ok, length', input) = ReadVarint32 input
           in if \<not> ok then Some (False, input, output)
              else let output = output @ WriteVarint32ToArray tag;
                       output = output @ WriteVarint32ToArray length';
                       (ok, temp, input) = ReadString [] (sint length') input
                   in if \<not> ok then Some (False, input, output) else Some (True, input, output @ temp))
      | Some WIRETYPE_START_GROUP \<Rightarrow>
          (let output = output @ WriteVarint32ToArray tag;
               (ok, input) = IncrementRecursionDepth input
           in if \<not> ok then Some (False, input, output)
              else case Lite_SkipMessageTo fuel input output of
                None \<Rightarrow> None
              | Some (ok, input, output) \<Rightarrow>
                  if \<not> ok then Some (False, input, output)
                  else let input = DecrementRecursionDepth input
                       in Some (LastTagWas (MakeTag (GetTagFieldNumber tag) WIRETYPE_END_GROUP) input, input, output))
      | Some WIRETYPE_END_GROUP \<Rightarrow> Some (False, input, output)
      | Some WIRETYPE_FIXED32 \<Rightarrow>
          (let (ok, value, input) = ReadLittleEndian32 input
           in if \<not> ok then Some (False, input, output)
              else Some (True, input, output @ WriteVarint32ToArray tag @ WriteLittleEndian32ToArray value))
      | None \<Rightarrow> Some (False, input, output))"
| "Lite_SkipMessageTo 0 input output = None"
| "Lite_SkipMessageTo (Suc fuel) input output =
     (let (tag, input) = ReadTag input
      in if tag = 0 then Some (True, input, output)
         else let wire_type = GetTagWireType tag
         in if wire_type = Some WIRETYPE_END_GROUP
            then Some (True, input, output @ WriteVarint32ToArray tag)
            else case Lite_SkipFieldTo fuel tag input output of
              None \<Rightarrow> None
            | Some (ok, input, output) \<Rightarrow>
                if \<not> ok then Some (False, input, output) else Lite_SkipMessageTo fuel input output)"

declare Lite_SkipField.simps [simp del] Lite_SkipMessage.simps [simp del]
  Lite_SkipFieldTo.simps [simp del] Lite_SkipMessageTo.simps [simp del]

text \<open>The methods of \<open>FieldSkipper\<close> and \<open>CodedOutputStreamFieldSkipper\<close>; the stream of the
  latter, \<open>unknown_fields_\<close>, is an argument. An enum value is an \<open>int\<close>, which \<open>WriteVarint64\<close> gets sign-extended.\<close>

definition FieldSkipper_SkipField :: "nat \<Rightarrow> u32 \<Rightarrow> cis \<Rightarrow> (bool \<times> cis) option" where
  "FieldSkipper_SkipField fuel tag input = Lite_SkipField fuel tag input"

definition FieldSkipper_SkipMessage :: "nat \<Rightarrow> cis \<Rightarrow> (bool \<times> cis) option" where
  "FieldSkipper_SkipMessage fuel input = Lite_SkipMessage fuel input"

definition CodedOutputStreamFieldSkipper_SkipField :: "nat \<Rightarrow> u32 \<Rightarrow> cis \<Rightarrow> bytes \<Rightarrow> (bool \<times> cis \<times> bytes) option" where
  "CodedOutputStreamFieldSkipper_SkipField fuel tag input unknown = Lite_SkipFieldTo fuel tag input unknown"

definition CodedOutputStreamFieldSkipper_SkipMessage :: "nat \<Rightarrow> cis \<Rightarrow> bytes \<Rightarrow> (bool \<times> cis \<times> bytes) option" where
  "CodedOutputStreamFieldSkipper_SkipMessage fuel input unknown = Lite_SkipMessageTo fuel input unknown"

definition CodedOutputStreamFieldSkipper_SkipUnknownEnum :: "u32 \<Rightarrow> u32 \<Rightarrow> bytes \<Rightarrow> bytes" where
  "CodedOutputStreamFieldSkipper_SkipUnknownEnum n v unknown =
     unknown @ WriteVarint32ToArray n @ WriteVarint64ToArray (scast v)"

section \<open>Tags taken apart and put together\<close>

lemma unat_GetTagFieldNumber: "unat (GetTagFieldNumber tag) < 2 ^ 29"
proof -
  have "unat tag div 8 < 2 ^ 29" by (rule less_mult_imp_div_less) (rule less_le_trans [OF u32_less], simp)
  then show ?thesis using unat_drop_bit [of 3 tag] by (simp add: GetTagFieldNumber_def kTagTypeBits_def)
qed

lemma MakeTag_of_tag:
  assumes "GetTagWireType tag = Some w"
  shows "MakeTag (GetTagFieldNumber tag) w = tag"
proof -
  have "tag AND kTagTypeMask = wire_code w"
    using assms by (simp add: GetTagWireType_def Let_def wire_code_def split: if_splits)
  then have "MakeTag (GetTagFieldNumber tag) w = push_bit 3 (drop_bit 3 tag) OR (tag AND mask 3)"
    by (simp add: MakeTag_def GetTagFieldNumber_def kTagTypeBits_def kTagTypeMask_eq)
  also have "\<dots> = tag" by (rule bit_word_eqI) (auto simp: bit_simps)
  finally show ?thesis .
qed

lemma sized_string:
  assumes "flat s" "ReadString [] (sint len) s = (True, v, t)"
  shows "of_nat (length v) = (len :: u32)"
proof -
  have n: "0 \<le> sint len" using assms(2) by (auto simp: ReadString_def split: if_splits)
  then obtain m where m: "sint len = int m" by (rule nonneg_int_cases)
  have "length v = m" using assms(2) unfolding m by (auto simp: ReadString_flat [OF assms(1)] split: if_splits)
  then have "of_nat (length v) = (of_int (sint len) :: u32)" by (simp only: m of_int_of_nat_eq)
  then show ?thesis by simp
qed

section \<open>Throwing the fields away\<close>

lemma SkipField_null: "SkipField fuel tag None s = Some (ok, ufs, t) \<Longrightarrow> ufs = None"
  by (auto simp: SkipField.simps Let_def split: prod.splits option.splits WireType.splits if_splits)

lemma Lite_Skip_null:
  "Lite_SkipField fuel tag s = map_option (\<lambda>(ok, _, t). (ok, t)) (SkipField fuel tag None s)"
  "Lite_SkipMessage fuel s = map_option (\<lambda>(ok, _, t). (ok, t)) (SkipMessage fuel None s)"
proof (induction fuel tag s and fuel s rule: Lite_SkipField_Lite_SkipMessage.induct)
  case (1 fuel tag input)
  then show ?case
    by (auto simp: Lite_SkipField.simps SkipField.simps Let_def split: prod.splits option.splits WireType.splits)
next
  case (3 fuel input)
  then show ?case
    by (auto simp: Lite_SkipMessage.simps SkipMessage.simps Let_def split: prod.splits option.splits dest: SkipField_null)
qed (simp add: Lite_SkipMessage.simps SkipMessage.simps)

section \<open>Copying the fields\<close>

text \<open>What the lite skip of a message writes for fields the full runtime keeps: their bytes, and the tag
  of the group end that stopped it.\<close>

definition closing :: "cis \<Rightarrow> bytes" where
  "closing t = (if last_tag t = 0 then [] else WriteVarint32ToArray (last_tag t))"

definition lite_agrees :: "nat \<Rightarrow> bool" where
  "lite_agrees fuel \<longleftrightarrow> (\<forall>ufs s out ok ufs' t. flat s \<and> length (avail s) < fuel \<and> SkipMessage fuel (Some ufs) s = Some (ok, ufs', t) \<longrightarrow>
     (\<exists>out'. Lite_SkipMessageTo fuel s out = Some (ok, t, out') \<and>
       (ok \<longrightarrow> (\<exists>fs. ufs' = Some (ufs @ fs) \<and> out' = out @ SerializeUnknownFieldsToArray fs @ closing t))))"

lemma SerializeUnknownFieldsToArray_append:
  "SerializeUnknownFieldsToArray (fs @ gs) = SerializeUnknownFieldsToArray fs @ SerializeUnknownFieldsToArray gs"
  by (induction fs) simp_all

lemma Lite_SkipFieldTo_agrees:
  assumes "lite_agrees fuel" "flat s" "SkipField fuel tag (Some ufs) s = Some (ok, ufs', t)" "length (avail s) < fuel"
  shows "\<exists>out'. Lite_SkipFieldTo fuel tag s out = Some (ok, t, out') \<and>
    (ok \<longrightarrow> (\<exists>f. ufs' = Some (ufs @ [f]) \<and> out' = out @ SerializeUnknownField f))"
proof (cases "GetTagFieldNumber tag = 0")
  case True
  with assms(3) show ?thesis by (auto simp: SkipField.simps Lite_SkipFieldTo.simps)
next
  case number: False
  let ?n = "GetTagFieldNumber tag"
  show ?thesis
  proof (cases "GetTagWireType tag")
    case None
    with number assms(3) show ?thesis by (auto simp: SkipField.simps Lite_SkipFieldTo.simps)
  next
    case (Some w)
    have tag: "WriteTagToArray ?n w = WriteVarint32ToArray tag"
      by (simp add: WriteTagToArray_def WriteTagToArray0_def MakeTag_of_tag [OF Some])
    note simps = SkipField.simps Lite_SkipFieldTo.simps Let_def
    show ?thesis
    proof (cases w)
      case WIRETYPE_VARINT
      with Some number assms(3) tag show ?thesis
        by (cases "ReadVarint64 s") (auto simp: simps AddVarint_def WriteInt64ToArray_def)
    next
      case WIRETYPE_FIXED64
      with Some number assms(3) tag show ?thesis
        by (cases "ReadLittleEndian64 s") (auto simp: simps AddFixed64_def WriteFixed64ToArray_def)
    next
      case WIRETYPE_FIXED32
      with Some number assms(3) tag show ?thesis
        by (cases "ReadLittleEndian32 s") (auto simp: simps AddFixed32_def WriteFixed32ToArray_def)
    next
      case WIRETYPE_END_GROUP
      with Some number assms(3) show ?thesis by (auto simp: simps)
    next
      case WIRETYPE_LENGTH_DELIMITED
      obtain ok1 len s1 where l: "ReadVarint32 s = (ok1, len, s1)" by (cases "ReadVarint32 s") auto
      obtain ok2 v s2 where r: "ReadString [] (sint len) s1 = (ok2, v, s2)" by (cases "ReadString [] (sint len) s1") auto
      have "of_nat (length v) = len" if ok2
        using that r by (intro sized_string [OF advanced_flat [OF ReadVarint32_advances [OF assms(2) l]]]) simp
      with WIRETYPE_LENGTH_DELIMITED Some number assms(3) l r tag show ?thesis
        by (cases ok1; cases ok2) (auto simp: simps AddLengthDelimited_def WriteBytesToArray_def WriteStringWithSizeToArray_def)
    next
      case WIRETYPE_START_GROUP
      let ?s1 = "s\<lparr>recursion_budget := recursion_budget s - 1\<rparr>"
      show ?thesis
      proof (cases "recursion_budget s - 1 \<ge> 0")
        case False
        with WIRETYPE_START_GROUP Some number assms(3) show ?thesis by (auto simp: simps IncrementRecursionDepth_def)
      next
        case True
        obtain ok1 grp s2 where m: "SkipMessage fuel (Some []) ?s1 = Some (ok1, grp, s2)"
          using WIRETYPE_START_GROUP Some number assms(3) True
          by (auto simp: simps IncrementRecursionDepth_def split: option.splits)
        let ?t = "DecrementRecursionDepth s2" and ?fin = "MakeTag ?n WIRETYPE_END_GROUP"
        obtain out1 where lite: "Lite_SkipMessageTo fuel ?s1 (out @ WriteVarint32ToArray tag) = Some (ok1, s2, out1)"
          "ok1 \<Longrightarrow> \<exists>fs. grp = Some fs \<and> out1 = out @ WriteVarint32ToArray tag @ SerializeUnknownFieldsToArray fs @ closing s2"
        proof -
          have "flat ?s1 \<and> length (avail ?s1) < fuel \<and> SkipMessage fuel (Some []) ?s1 = Some (ok1, grp, s2)"
            using assms(2,4) m by simp
          from assms(1) [unfolded lite_agrees_def, rule_format, OF this, of "out @ WriteVarint32ToArray tag"]
          show thesis using that by auto
        qed
        have full: "SkipField fuel tag (Some ufs) s =
            (if ok1 then Some (LastTagWas ?fin ?t, Some (ufs @ [TYPE_GROUP ?n (the grp)]), ?t)
             else Some (False, Some (ufs @ [TYPE_GROUP ?n (the grp)]), s2))"
          using WIRETYPE_START_GROUP Some number True m by (simp add: simps IncrementRecursionDepth_def AddGroup_def)
        have to: "Lite_SkipFieldTo fuel tag s out = (if ok1 then Some (LastTagWas ?fin ?t, ?t, out1) else Some (False, s2, out1))"
          using WIRETYPE_START_GROUP Some number True lite(1) by (simp add: simps IncrementRecursionDepth_def)
        show ?thesis
        proof (cases "ok1 \<and> LastTagWas ?fin ?t")
          case True
          then obtain fs where fs: "grp = Some fs" "out1 = out @ WriteVarint32ToArray tag @ SerializeUnknownFieldsToArray fs @ closing s2"
            using lite(2) by blast
          have "?fin \<noteq> 0"
            using MakeTag_nonzero [OF _ unat_GetTagFieldNumber] number by (simp add: unat_gt_0)
          then have "closing s2 = WriteTagToArray ?n WIRETYPE_END_GROUP"
            using True by (simp add: closing_def LastTagWas_def DecrementRecursionDepth_def WriteTagToArray_def WriteTagToArray0_def split: if_splits)
          then have "out1 = out @ SerializeUnknownField (TYPE_GROUP ?n fs)"
            using fs(2) tag WIRETYPE_START_GROUP by simp
          with assms(3) full to True fs(1) show ?thesis by auto
        next
          case False
          with assms(3) full to show ?thesis by (cases ok1) auto
        qed
      qed
    qed
  qed
qed

lemma Lite_SkipMessageTo_agrees: "lite_agrees fuel"
proof (induction fuel)
  case 0
  then show ?case by (simp add: lite_agrees_def SkipMessage.simps)
next
  case (Suc fuel)
  show ?case unfolding lite_agrees_def
  proof (intro allI impI, elim conjE)
    fix ufs s out ok ufs' t
    assume f: "flat s" and len: "length (avail s) < Suc fuel" and run: "SkipMessage (Suc fuel) (Some ufs) s = Some (ok, ufs', t)"
    obtain tag s1 where tag: "ReadTag s = (tag, s1)" by force
    have last: "last_tag s1 = tag" using tag by (auto simp: ReadTag_def split: prod.splits)
    note adv = ReadTag_advances [OF f tag]
    note f1 = advanced_flat [OF adv(1)]
    let ?goal = "\<exists>out'. Lite_SkipMessageTo (Suc fuel) s out = Some (ok, t, out') \<and>
       (ok \<longrightarrow> (\<exists>fs. ufs' = Some (ufs @ fs) \<and> out' = out @ SerializeUnknownFieldsToArray fs @ closing t))"
    show ?goal
    proof (cases "tag = 0 \<or> GetTagWireType tag = Some WIRETYPE_END_GROUP")
      case True
      with run tag last show ?thesis by (auto simp: SkipMessage.simps Lite_SkipMessageTo.simps closing_def)
    next
      case False
      then have len1: "length (avail s1) < fuel" using adv(2) len by simp
      obtain ok1 ufs1 s2 where sf: "SkipField fuel tag (Some ufs) s1 = Some (ok1, ufs1, s2)" and a2: "advanced s1 s2"
        using SkipField_ends [OF SkipMessage_ends f1 len1] by blast
      have f2: "flat s2" "length (avail s2) < fuel" using advanced_flat [OF a2] advanced_length [OF f1 a2] len1 by simp_all
      obtain out1 where lf: "Lite_SkipFieldTo fuel tag s1 out = Some (ok1, s2, out1)"
        "ok1 \<Longrightarrow> \<exists>fld. ufs1 = Some (ufs @ [fld]) \<and> out1 = out @ SerializeUnknownField fld"
        using Lite_SkipFieldTo_agrees [OF Suc f1 sf len1] by blast
      show ?thesis
      proof (cases ok1)
        case False
        with \<open>\<not> (tag = 0 \<or> GetTagWireType tag = Some WIRETYPE_END_GROUP)\<close> run tag sf lf(1) show ?thesis
          by (auto simp: SkipMessage.simps Lite_SkipMessageTo.simps)
      next
        case True
        then obtain fld where fld: "ufs1 = Some (ufs @ [fld])" "out1 = out @ SerializeUnknownField fld" using lf(2) by blast
        have rest: "SkipMessage fuel (Some (ufs @ [fld])) s2 = Some (ok, ufs', t)"
          using False run tag sf True fld(1) by (simp add: SkipMessage.simps)
        from Suc [unfolded lite_agrees_def] rest f2 obtain out' where
          l: "Lite_SkipMessageTo fuel s2 out1 = Some (ok, t, out')"
          "ok \<Longrightarrow> \<exists>fs. ufs' = Some ((ufs @ [fld]) @ fs) \<and> out' = out1 @ SerializeUnknownFieldsToArray fs @ closing t"
          by blast
        have "Lite_SkipMessageTo (Suc fuel) s out = Some (ok, t, out')"
          using False tag lf(1) True l(1) by (simp add: Lite_SkipMessageTo.simps)
        moreover have "\<exists>fs. ufs' = Some (ufs @ fs) \<and> out' = out @ SerializeUnknownFieldsToArray fs @ closing t" if ok
        proof -
          from l(2) [OF that] obtain fs where "ufs' = Some (ufs @ fld # fs)" "out' = out1 @ SerializeUnknownFieldsToArray fs @ closing t"
            by auto
          then show ?thesis using fld(2) by (intro exI [of _ "fld # fs"]) simp
        qed
        ultimately show ?thesis by blast
      qed
    qed
  qed
qed

section \<open>What the lite skips promise\<close>

text \<open>C35: Skipping a field ends, and the lite runtime and the full one agree on it: they succeed on the same input and
  leave the stream in the same state, and when they succeed the bytes the lite one copies
  to its output stream are the serialization of the unknown field the full one keeps, groups
  and their end tags included. Throwing the field away reads the same too.\<close>

theorem lite_skip_same_bytes:
  assumes "flat s" "length (avail s) < fuel"
  shows "(\<exists>ok fs t out'. SkipField fuel tag (Some []) s = Some (ok, Some fs, t) \<and>
      Lite_SkipFieldTo fuel tag s out = Some (ok, t, out') \<and>
      (ok \<longrightarrow> out' = out @ SerializeUnknownFieldsToArray fs)) \<and>
    (\<exists>ok t. SkipField fuel tag None s = Some (ok, None, t) \<and> Lite_SkipField fuel tag s = Some (ok, t))"
proof
  obtain ok fs t where full: "SkipField fuel tag (Some []) s = Some (ok, Some fs, t)"
    using SkipField_ends [OF SkipMessage_ends assms, of tag "Some []"] by auto
  obtain out' where lite: "Lite_SkipFieldTo fuel tag s out = Some (ok, t, out')"
    "ok \<Longrightarrow> \<exists>f. Some fs = Some ([] @ [f]) \<and> out' = out @ SerializeUnknownField f"
    using Lite_SkipFieldTo_agrees [OF Lite_SkipMessageTo_agrees assms(1) full assms(2)] by blast
  have "out' = out @ SerializeUnknownFieldsToArray fs" if ok using lite(2) [OF that] by auto
  with full lite(1) show "\<exists>ok fs t out'. SkipField fuel tag (Some []) s = Some (ok, Some fs, t) \<and>
      Lite_SkipFieldTo fuel tag s out = Some (ok, t, out') \<and> (ok \<longrightarrow> out' = out @ SerializeUnknownFieldsToArray fs)"
    by blast
  obtain ok t where "SkipField fuel tag None s = Some (ok, None, t)"
    using SkipField_ends [OF SkipMessage_ends assms, of tag None] by auto
  then show "\<exists>ok t. SkipField fuel tag None s = Some (ok, None, t) \<and> Lite_SkipField fuel tag s = Some (ok, t)"
    by (simp add: Lite_Skip_null)
qed

lemma lite_skip_same_bytes_witness:
  "\<exists>ok fs t out'. SkipField 2 8 (Some []) (CodedInputStream [5] 1) = Some (ok, Some fs, t) \<and>
     Lite_SkipFieldTo 2 8 (CodedInputStream [5] 1) [] = Some (ok, t, out') \<and> (ok \<longrightarrow> out' = SerializeUnknownFieldsToArray fs)"
proof -
  have "flat (CodedInputStream [5] 1)" "length (avail (CodedInputStream [5] 1)) < 2"
    using flat_CodedInputStream [of "[5]"] avail_CodedInputStream [of "[5]"] by simp_all
  from lite_skip_same_bytes [OF this, of 8 "[]"] show ?thesis by simp
qed

text \<open>An unknown enum value is written behind the number of its field, not behind a tag: what is
  written is never the varint field of that number.\<close>

lemma skipped_enum_has_no_tag:
  assumes "0 < unat n" "unat n < 2 ^ 29"
  shows "CodedOutputStreamFieldSkipper_SkipUnknownEnum n v [] \<noteq> SerializeUnknownField (TYPE_VARINT n (scast v))"
proof
  assume "CodedOutputStreamFieldSkipper_SkipUnknownEnum n v [] = SerializeUnknownField (TYPE_VARINT n (scast v))"
  then have "WriteVarint32ToArray n = WriteVarint32ToArray (MakeTag n WIRETYPE_VARINT)"
    by (simp add: CodedOutputStreamFieldSkipper_SkipUnknownEnum_def WriteInt64ToArray_def WriteTagToArray_def WriteTagToArray0_def)
  note eq = arg_cong [OF this, of "varint_dec 10"]
  have dec: "varint_dec 10 (WriteVarint32ToArray m) = Some (unat m, length (WriteVarint32ToArray m))" for m
    using varint_dec_32 [of m "[]"] by (simp only: append_Nil2)
  have "unat n = unat (MakeTag n WIRETYPE_VARINT)"
    using trans [OF trans [OF sym [OF dec] eq] dec] by (simp only: option.inject prod.inject)
  then show False using assms MakeTag_unat [OF assms(2), of WIRETYPE_VARINT] by simp
qed

end
