(* ===== verification/CodePages.thy ===== *)
theory CodePages
  imports ThreadTask
begin

text \<open>
  The conversion of strings between the code page of the machine and UTF-8 (\<open>protoc/protoc.h\<close>), which an
  application is to apply to what it puts into a message and takes out of one. The two functions of Windows
  are arguments, used through \<open>windows_ok\<close>, which states their documentation. Memory from \<open>new\<close> holds what
  it held before: \<open>g\<close> and \<open>h\<close> are the bytes of the two arrays each function allocates. A wide character is two bytes, the
  low one first, and sizes are computed as \<open>int\<close> and converted to \<open>size_t\<close>.
\<close>

section \<open>The code\<close>

datatype code_page = CP_ACP | CP_UTF8

text \<open>The string at a pointer, up to its \<open>NUL\<close>; without one the read leaves the block.\<close>

fun c_str :: "bytes \<Rightarrow> fault + bytes" where
  "c_str [] = Inl Out_of_bounds"
| "c_str (b # bs) = (if b = 0 then Inr [] else and_then (c_str bs) (\<lambda>s. Inr (b # s)))"

fun wide_str :: "bytes \<Rightarrow> fault + u16 list" where
  "wide_str (a # b # bs) = (if a = 0 \<and> b = 0 then Inr [] else and_then (wide_str bs) (\<lambda>w. Inr ((ucast a OR push_bit 8 (ucast b)) # w)))"
| "wide_str _ = Inl Out_of_bounds"

text \<open>
  The arguments are the code page, the string, what the target array holds, and the room in it; the results are
  the returned number and what the array holds then.
\<close>

record windows =
  MultiByteToWideChar :: "code_page \<Rightarrow> bytes option \<Rightarrow> bytes \<Rightarrow> int \<Rightarrow> int \<times> bytes"
  WideCharToMultiByte :: "code_page \<Rightarrow> u16 list \<Rightarrow> bytes \<Rightarrow> int \<Rightarrow> int \<times> bytes"

definition to_wide :: "windows \<Rightarrow> code_page \<Rightarrow> block \<Rightarrow> bytes \<Rightarrow> int \<Rightarrow> fault + int \<times> bytes" where
  "to_wide W cp source target room =
     (if int (length target) < 2 * room then Inl Out_of_bounds
      else case source of
        None \<Rightarrow> Inr (MultiByteToWideChar W cp None target room)
      | Some b \<Rightarrow> and_then (c_str b) (\<lambda>s. Inr (MultiByteToWideChar W cp (Some s) target room)))"

definition from_wide :: "windows \<Rightarrow> code_page \<Rightarrow> bytes \<Rightarrow> bytes \<Rightarrow> int \<Rightarrow> fault + int \<times> bytes" where
  "from_wide W cp source target room =
     (if int (length target) < room then Inl Out_of_bounds
      else and_then (wide_str source) (\<lambda>w. Inr (WideCharToMultiByte W cp w target room)))"

definition size_t :: "int \<Rightarrow> nat" where
  "size_t x = unat (word_of_int x :: u64)"

text \<open>\<open>new\<close> throws for a negative number of elements.\<close>

definition new_array :: "(nat \<Rightarrow> u8) \<Rightarrow> nat \<Rightarrow> int \<Rightarrow> fault + bytes" where
  "new_array g width n = (if n < 0 then Inl Fatal_error else Inr (map g [0..<width * nat n]))"

definition memset_zero :: "bytes \<Rightarrow> nat \<Rightarrow> fault + bytes" where
  "memset_zero p n = (if n \<le> length p then Inr (replicate n 0 @ drop n p) else Inl Out_of_bounds)"

definition GBKToUTF8 :: "windows \<Rightarrow> (nat \<Rightarrow> u8) \<Rightarrow> (nat \<Rightarrow> u8) \<Rightarrow> block \<Rightarrow> fault + bytes" where
  "GBKToUTF8 W g h strGBK =
     and_then (to_wide W CP_ACP strGBK [] 0) (\<lambda>(len, _).
     and_then (new_array g 2 (c_int (len + 1))) (\<lambda>wstr.
     and_then (memset_zero wstr (size_t (c_int (len + 1)))) (\<lambda>wstr.
     and_then (to_wide W CP_ACP strGBK wstr len) (\<lambda>(_, wstr).
     and_then (from_wide W CP_UTF8 wstr [] 0) (\<lambda>(len, _).
     and_then (new_array h 1 (c_int (len + 1))) (\<lambda>str.
     and_then (memset_zero str (size_t (c_int (len + 1)))) (\<lambda>str.
     and_then (from_wide W CP_UTF8 wstr str len) (\<lambda>(_, str).
     c_str str))))))))"

definition UTF8ToGBK :: "windows \<Rightarrow> (nat \<Rightarrow> u8) \<Rightarrow> (nat \<Rightarrow> u8) \<Rightarrow> block \<Rightarrow> fault + bytes" where
  "UTF8ToGBK W g h strUTF8 =
     and_then (to_wide W CP_UTF8 strUTF8 [] 0) (\<lambda>(len, _).
     and_then (new_array g 2 (c_int (len + 1))) (\<lambda>wszGBK.
     and_then (memset_zero wszGBK (size_t (c_int (len * 2 + 2)))) (\<lambda>wszGBK.
     and_then (to_wide W CP_UTF8 strUTF8 wszGBK len) (\<lambda>(_, wszGBK).
     and_then (from_wide W CP_ACP wszGBK [] 0) (\<lambda>(len, _).
     and_then (new_array h 1 (c_int (len + 1))) (\<lambda>szGBK.
     and_then (memset_zero szGBK (size_t (c_int (len + 1)))) (\<lambda>szGBK.
     and_then (from_wide W CP_ACP wszGBK szGBK len) (\<lambda>(_, szGBK).
     c_str szGBK))))))))"

section \<open>What Windows promises\<close>

definition wide_bytes :: "u16 list \<Rightarrow> bytes" where
  "wide_bytes w = concat (map (\<lambda>c. [ucast c, ucast (drop_bit 8 c)]) w)"

text \<open>
  Without room the functions return the size of the result, with its \<open>NUL\<close>, and write nothing; with room
  for it they write it and leave the rest of the array alone. Null is refused with 0. Strings that do not
  fit an \<open>int\<close> are not converted by anyone.
\<close>

definition windows_ok :: "windows \<Rightarrow> (code_page \<Rightarrow> bytes \<Rightarrow> u16 list) \<Rightarrow> (code_page \<Rightarrow> u16 list \<Rightarrow> bytes) \<Rightarrow> bool" where
  "windows_ok W decode encode \<longleftrightarrow>
     (\<forall>cp target room. MultiByteToWideChar W cp None target room = (0, target)) \<and>
     (\<forall>cp s target room. 0 \<notin> set s \<longrightarrow> 0 \<notin> set (decode cp s) \<and>
        MultiByteToWideChar W cp (Some s) target 0 = (int (length (decode cp s)) + 1, target) \<and>
        (int (length (decode cp s)) < room \<longrightarrow> MultiByteToWideChar W cp (Some s) target room =
           (int (length (decode cp s)) + 1,
            wide_bytes (decode cp s @ [0]) @ drop (2 * length (decode cp s) + 2) target))) \<and>
     (\<forall>cp w target room. 0 \<notin> set w \<longrightarrow> 0 \<notin> set (encode cp w) \<and>
        WideCharToMultiByte W cp w target 0 = (int (length (encode cp w)) + 1, target) \<and>
        (int (length (encode cp w)) < room \<longrightarrow> WideCharToMultiByte W cp w target room =
           (int (length (encode cp w)) + 1, (encode cp w @ [0]) @ drop (length (encode cp w) + 1) target)))"

lemma c_str_terminated: "0 \<notin> set s \<Longrightarrow> c_str (s @ 0 # rest) = Inr s"
  by (induction s) auto

lemma unicode_unit: "(ucast (ucast c :: u8) OR push_bit 8 (ucast (ucast (drop_bit 8 c) :: u8))) = (c :: u16)"
  by (rule bit_word_eqI) (auto simp: bit_simps)

lemma unit_zero: "(ucast c :: u8) = 0 \<and> (ucast (drop_bit 8 c) :: u8) = 0 \<longleftrightarrow> c = (0 :: u16)"
proof
  assume "(ucast c :: u8) = 0 \<and> (ucast (drop_bit 8 c) :: u8) = 0"
  then show "c = 0" using unicode_unit [of c] by simp
qed simp

lemma wide_str_terminated: "0 \<notin> set w \<Longrightarrow> wide_str (wide_bytes (w @ [0]) @ rest) = Inr w"
proof (induction w)
  case (Cons c w)
  then have c: "\<not> ((ucast c :: u8) = 0 \<and> (ucast (drop_bit 8 c) :: u8) = 0)" using unit_zero [of c] by auto
  have "wide_bytes ((c # w) @ [0]) @ rest = ucast c # ucast (drop_bit 8 c) # wide_bytes (w @ [0]) @ rest"
    by (simp add: wide_bytes_def)
  then show ?case using Cons c by (simp only: wide_str.simps) (auto simp: unicode_unit)
qed (simp add: wide_bytes_def)

lemma length_wide_bytes [simp]: "length (wide_bytes w) = 2 * length w"
  by (induction w) (simp_all add: wide_bytes_def)

lemma size_t_small: "0 \<le> x \<Longrightarrow> x < 2147483648 \<Longrightarrow> size_t x = nat x"
  by (simp add: size_t_def unsigned_of_int take_bit_int_eq_self)

section \<open>What the functions return\<close>

text \<open>The second conversion of both functions, from wide characters in an array that ends them.\<close>

lemma back_to_bytes:
  assumes "windows_ok W decode encode" "0 \<notin> set w" "int (length (encode cp w)) < INT_MAX - 1"
  shows "and_then (from_wide W cp (wide_bytes (w @ [0]) @ rest) [] 0) (\<lambda>(len, _).
     and_then (new_array h 1 (c_int (len + 1))) (\<lambda>str.
     and_then (memset_zero str (size_t (c_int (len + 1)))) (\<lambda>str.
     and_then (from_wide W cp (wide_bytes (w @ [0]) @ rest) str len) (\<lambda>(_, str). c_str str)))) = Inr (encode cp w)"
proof -
  have W: "0 \<notin> set (encode cp w)"
    "WideCharToMultiByte W cp w [] 0 = (int (length (encode cp w)) + 1, [])"
    "\<And>target. WideCharToMultiByte W cp w target (int (length (encode cp w)) + 1) =
       (int (length (encode cp w)) + 1, (encode cp w @ [0]) @ drop (length (encode cp w) + 1) target)"
    using assms(1,2) unfolding windows_ok_def by auto
  have c: "c_int (2 + int (length (encode cp w))) = 2 + int (length (encode cp w))"
    "size_t (2 + int (length (encode cp w))) = length (encode cp w) + 2"
    using assms(3) by (simp_all add: c_int_small size_t_small nat_add_distrib)
  show ?thesis
    by (simp add: from_wide_def wide_str_terminated assms(2) W(2,3) c new_array_def memset_zero_def nat_add_distrib
        c_str_terminated [OF W(1)] del: upt_Suc)
qed

lemma GBKToUTF8_converts:
  assumes "windows_ok W decode encode" "0 \<notin> set s" "int (length (decode CP_ACP s)) < INT_MAX - 1"
    "int (length (encode CP_UTF8 (decode CP_ACP s))) < INT_MAX - 1"
  shows "GBKToUTF8 W g h (Some (s @ 0 # rest)) = Inr (encode CP_UTF8 (decode CP_ACP s))"
proof -
  let ?w = "decode CP_ACP s"
  have W: "0 \<notin> set ?w" "MultiByteToWideChar W CP_ACP (Some s) [] 0 = (int (length ?w) + 1, [])"
    "\<And>target. MultiByteToWideChar W CP_ACP (Some s) target (int (length ?w) + 1) =
       (int (length ?w) + 1, wide_bytes (?w @ [0]) @ drop (2 * length ?w + 2) target)"
    using assms(1,2) unfolding windows_ok_def by auto
  have c: "c_int (2 + int (length ?w)) = 2 + int (length ?w)" "size_t (2 + int (length ?w)) = length ?w + 2"
    using assms(3) by (simp_all add: c_int_small size_t_small nat_add_distrib)
  have "GBKToUTF8 W g h (Some (s @ 0 # rest)) =
     and_then (from_wide W CP_UTF8 (wide_bytes (?w @ [0]) @ drop (2 * length ?w + 2) (replicate (length ?w + 2) 0 @ drop (length ?w + 2) (map g [0..<2 * (length ?w + 2)]))) [] 0) (\<lambda>(len, _).
     and_then (new_array h 1 (c_int (len + 1))) (\<lambda>str.
     and_then (memset_zero str (size_t (c_int (len + 1)))) (\<lambda>str.
     and_then (from_wide W CP_UTF8 (wide_bytes (?w @ [0]) @ drop (2 * length ?w + 2) (replicate (length ?w + 2) 0 @ drop (length ?w + 2) (map g [0..<2 * (length ?w + 2)]))) str len) (\<lambda>(_, str). c_str str))))"
    by (simp add: GBKToUTF8_def to_wide_def c_str_terminated assms(2) W(2,3) c new_array_def memset_zero_def nat_add_distrib
        del: upt_Suc drop_append)
  then show ?thesis using back_to_bytes [OF assms(1) W(1) assms(4)] by simp
qed


lemma UTF8ToGBK_converts:
  assumes "windows_ok W decode encode" "0 \<notin> set s" "length (decode CP_UTF8 s) < 2 ^ 30 - 2"
    "int (length (encode CP_ACP (decode CP_UTF8 s))) < INT_MAX - 1"
  shows "UTF8ToGBK W g h (Some (s @ 0 # rest)) = Inr (encode CP_ACP (decode CP_UTF8 s))"
proof -
  let ?w = "decode CP_UTF8 s"
  have W: "0 \<notin> set ?w" "MultiByteToWideChar W CP_UTF8 (Some s) [] 0 = (int (length ?w) + 1, [])"
    "\<And>target. MultiByteToWideChar W CP_UTF8 (Some s) target (int (length ?w) + 1) =
       (int (length ?w) + 1, wide_bytes (?w @ [0]) @ drop (2 * length ?w + 2) target)"
    using assms(1,2) unfolding windows_ok_def by auto
  have c: "c_int (2 + int (length ?w)) = 2 + int (length ?w)" "c_int (4 + int (length ?w) * 2) = 4 + int (length ?w) * 2"
    "size_t (4 + int (length ?w) * 2) = 2 * length ?w + 4"
    using assms(3) by (simp_all add: c_int_small size_t_small nat_add_distrib nat_mult_distrib)
  have "UTF8ToGBK W g h (Some (s @ 0 # rest)) =
     and_then (from_wide W CP_ACP (wide_bytes (?w @ [0]) @ replicate 2 0) [] 0) (\<lambda>(len, _).
     and_then (new_array h 1 (c_int (len + 1))) (\<lambda>str.
     and_then (memset_zero str (size_t (c_int (len + 1)))) (\<lambda>str.
     and_then (from_wide W CP_ACP (wide_bytes (?w @ [0]) @ replicate 2 0) str len) (\<lambda>(_, str). c_str str))))"
    by (simp add: UTF8ToGBK_def to_wide_def c_str_terminated assms(2) W(2,3) c new_array_def memset_zero_def nat_add_distrib
        add_mult_distrib2 del: upt_Suc replicate.simps)
  then show ?thesis using back_to_bytes [OF assms(1) W(1) assms(4)] by simp
qed

text \<open>C12: A name in the code page of the machine that \<open>GBKToUTF8\<close> converts makes a message that is serialised, read
  back by the other side, and converted by \<open>UTF8ToGBK\<close> to the name it was, if the code page has the characters
  and what Windows produces as UTF-8 is UTF-8: whatever the new arrays held and whatever follows the strings in memory.\<close>

theorem converted_name_roundtrip:
  assumes "windows_ok W decode encode" "0 \<notin> set s" "u = encode CP_UTF8 (decode CP_ACP s)"
    "encode CP_ACP (decode CP_UTF8 u) = s" "length (decode CP_ACP s) < 2 ^ 30 - 2" "length (decode CP_UTF8 u) < 2 ^ 30 - 2"
    "length s < 2 ^ 30" "length u < 2 ^ 30" "utf8_valid u"
    "message_ok m" "message_fits ((message_view m)\<lparr>v_apiname := u\<rparr>)" "message_ok m0"
    "int (length (encode_message ((message_view m)\<lparr>v_apiname := u\<rparr>))) \<le> size'"
  shows "GBKToUTF8 W g h (Some (s @ 0 # rest)) = Inr u \<and>
    (\<exists>bs m'. fst (SerializeToArray size' (set_apiname u m)) = Written bs \<and> ParseFromArray bs m0 = Some (True, m') \<and>
      UTF8ToGBK W g' h' (Some (apiname m' @ 0 # rest')) = Inr s)"
proof
  show "GBKToUTF8 W g h (Some (s @ 0 # rest)) = Inr u"
    unfolding assms(3) by (rule GBKToUTF8_converts [OF assms(1,2)]) (use assms(3,5,8) in simp_all)
  let ?v = "(message_view m)\<lparr>v_apiname := u\<rparr>"
  have m: "message_ok (set_apiname u m)" "message_view (set_apiname u m) = ?v"
    using assms(10) by (simp_all add: message_ok_def message_view_def set_apiname_def cp_simps)
  have "fst (SerializeToArray size' (set_apiname u m)) = Written (encode_message ?v)"
    using SerializeToArray_view [OF m(1), of size'] assms(11,13) m(2) by (simp add: message_fits_def)
  moreover obtain m' where m': "ParseFromArray (encode_message ?v) m0 = Some (True, m')" "message_view m' = ?v"
    using ParseFromArray_encode [OF assms(11,12)] by blast
  moreover have "v_apiname (message_view m') = u" by (simp add: m'(2))
  then have "apiname m' = u" by (simp add: message_view_def)
  moreover have "0 \<notin> set u" using assms(1-3) unfolding windows_ok_def by auto
  then have "UTF8ToGBK W g' h' (Some (u @ 0 # rest')) = Inr s"
    unfolding assms(4) [symmetric] by (rule UTF8ToGBK_converts [OF assms(1)]) (use assms(4,6,7) in simp_all)
  ultimately show "\<exists>bs m'. fst (SerializeToArray size' (set_apiname u m)) = Written bs \<and> ParseFromArray bs m0 = Some (True, m') \<and>
      UTF8ToGBK W g' h' (Some (apiname m' @ 0 # rest')) = Inr s"
    by blast
qed

text \<open>A Windows whose code pages have the characters of ASCII only, and drop others.\<close>

definition ascii_windows :: windows where
  "ascii_windows = \<lparr>MultiByteToWideChar = (\<lambda>cp s target room. case s of
       None \<Rightarrow> (0, target)
     | Some s \<Rightarrow> (int (length s) + 1,
         if int (length s) < room then wide_bytes (map ucast s @ [0]) @ drop (2 * length s + 2) target else target)),
     WideCharToMultiByte = (\<lambda>cp w target room. let s = filter (\<lambda>b. b \<noteq> 0) (map ucast w) in
       (int (length s) + 1, if int (length s) < room then (s @ [0]) @ drop (length s + 1) target else target))\<rparr>"

lemma ascii_windows_ok:
  "windows_ok ascii_windows (\<lambda>cp. map ucast) (\<lambda>cp w. filter (\<lambda>b. b \<noteq> 0) (map ucast w))"
proof -
  have "(ucast b :: u16) = 0 \<longleftrightarrow> b = (0 :: u8)" for b
  proof -
    have "unat (ucast b :: u16) = unat b"
      by (simp add: unsigned_ucast_eq take_bit_nat_eq_self_iff less_trans [OF u8_less])
    then show ?thesis by (metis unsigned_0 unsigned_eq_0_iff)
  qed
  then show ?thesis unfolding windows_ok_def ascii_windows_def by (auto simp: Let_def)
qed

lemma converted_name_witness:
  "GBKToUTF8 ascii_windows (\<lambda>_. 205) (\<lambda>_. 205) (Some [97, 98, 0, 7]) = Inr [97, 98] \<and>
    (\<exists>bs m'. fst (SerializeToArray 100 (set_apiname [97, 98] ConnectProtocol0)) = Written bs \<and>
      ParseFromArray bs ConnectProtocol0 = Some (True, m') \<and>
      UTF8ToGBK ascii_windows (\<lambda>_. 0) (\<lambda>_. 205) (Some (apiname m' @ [0])) = Inr [97, 98])"
proof -
  have e: "(message_view ConnectProtocol0)\<lparr>v_apiname := [97, 98]\<rparr> = empty_view\<lparr>v_apiname := [97, 98]\<rparr>"
    by (simp add: message_ok_new)
  show ?thesis
    using converted_name_roundtrip [OF ascii_windows_ok, of "[97, 98]" "[97, 98]" ConnectProtocol0 ConnectProtocol0 100 "\<lambda>_. 205" "\<lambda>_. 205" "[7]"
        "\<lambda>_. 0" "\<lambda>_. 205" "[]"] named_message(3,4) utf8_valid_ascii [of "[97, 98]"]
    by (simp add: e message_ok_new)
qed

text \<open>C19: A null pointer is no string for Windows, which converts nothing. \<open>UTF8ToGBK\<close> then returns the empty string.
  \<open>GBKToUTF8\<close> clears as many bytes of the wide characters as there are characters, which is half of them: the array
  has one character and the upper byte of it is what the memory held, so unless that was zero the array does
  not end a string, and the conversion back reads beyond it.\<close>

theorem null_name_read_beyond:
  assumes "windows_ok W decode encode" "encode CP_ACP [] = []" "encode CP_UTF8 [] = []"
  shows "UTF8ToGBK W g h None = Inr [] \<and>
    GBKToUTF8 W g h None = (if g 1 = 0 then Inr [] else Inl Out_of_bounds)"
proof
  have W: "MultiByteToWideChar W cp None target room = (0, target)" for cp target room
    using assms(1) unfolding windows_ok_def by blast
  have c: "c_int 1 = 1" "c_int 2 = 2" "size_t 1 = 1" "size_t 2 = 2" by (simp_all add: c_int_small size_t_small)
  have w: "wide_bytes ([] @ [0]) @ [] = [0, 0]" by (simp add: wide_bytes_def)
  have e: "int (length (encode cp [])) < INT_MAX - 1" for cp using assms(2,3) by (cases cp) simp_all
  note wide = back_to_bytes [OF assms(1), of "[]" _ "[]" h, unfolded w, OF _ e]
  show "UTF8ToGBK W g h None = Inr []"
    using wide [of CP_ACP] assms(2) by (simp add: UTF8ToGBK_def to_wide_def W c new_array_def memset_zero_def upt_rec numeral_2_eq_2)
  show "GBKToUTF8 W g h None = (if g 1 = 0 then Inr [] else Inl Out_of_bounds)"
  proof (cases "g 1 = 0")
    case True
    then show ?thesis
      using wide [of CP_UTF8] assms(3) by (simp add: GBKToUTF8_def to_wide_def W c new_array_def memset_zero_def upt_rec)
  qed (simp add: GBKToUTF8_def to_wide_def from_wide_def W c new_array_def memset_zero_def upt_rec)
qed

lemma null_name_witness:
  "UTF8ToGBK ascii_windows (\<lambda>_. 205) (\<lambda>_. 205) None = Inr [] \<and>
    GBKToUTF8 ascii_windows (\<lambda>_. 205) (\<lambda>_. 205) None = Inl Out_of_bounds"
  using null_name_read_beyond [OF ascii_windows_ok, of "\<lambda>_. 205" "\<lambda>_. 205"] by simp

end
