(* ===== verification/Spec2Isabelle.thy ===== *)
theory Spec2Isabelle
  imports Programs ServerRun MessageApi NestedMessages VectorSize LiteSkip CodePages
begin

text \<open>
  Bosncc ("Based On Serialization network communication Components") is a small C++ library for Windows:
  a client and a server exchange one protobuf message type, \<open>ConnectProtocol\<close>, over a socket, with a
  length, an encryption flag and a check code in front. The author's code is \<open>src/include/Bosncc.h\<close>,
  \<open>Bosnnc.cpp\<close>, \<open>ThreadTask.h\<close>, \<open>ThreadTask.cpp\<close>, \<open>protoc/ConnectProtocol.pb.h\<close> and \<open>.pb.cc\<close> (generated, but
  committed and the program's data model), and the two programs \<open>src/Bosncc_C/main.cpp\<close> and
  \<open>src/Bosncc_S/main.cpp\<close>. Under \<open>src/include/google/protobuf\<close> lies the protobuf runtime (3.5); of it the
  parts the messages run through are modelled.

  \<^bold>\<open>How the parts work together.\<close> The application sets up the one \<open>Bosncc\<close> instance and, on the client,
  hands a \<open>ThreadTask\<close> to \<open>AddTask\<close>; on the server \<open>On_Accept_CallBack\<close> makes one for each connection. A
  thread-pool work item runs a libevent loop for each task. In sending mode the write callback lets
  \<open>DataOperationReady\<close> serialise the message and sends header and body; in receiving mode the read
  callback collects header and body, lets \<open>DataOperationEnd\<close> parse them, and calls the business function,
  whose result turns the task around or ends the connection.

  \<^bold>\<open>Theories.\<close>
  \<^item> \<open>Prelude\<close>: names of the machine integers, facts on bytes, the collections of rewrite rules.
  \<^item> \<open>Varint\<close> (\<open>io/coded_stream.h\<close>, \<open>.cc\<close>, \<open>stubs/port.h\<close>): readers and writers of varints and little-endian
    integers in arrays, sizes, logarithms. Reading inverts writing, for any bytes that follow.
  \<^item> \<open>ArrayInput\<close>, \<open>InputAdaptors\<close>, \<open>InputStreams\<close> (\<open>io/zero_copy_stream_impl_lite.cc\<close>, \<open>io/zero_copy_stream_impl.cc\<close>): the
    input streams, over arrays, standard streams, files, lists of streams, and the first bytes of a stream. The
    locale \<open>zero_copy_input\<close> is the contract of the class \<open>ZeroCopyInputStream\<close>, \<open>copying_reader\<close> that of what a
    buffered stream reads from; each is interpreted on every class. A \<open>ZeroCopyInputStream*\<close> is a stream of one of
    these classes, a sum, and \<open>virtual_ops\<close> dispatches on it.
  \<^item> \<open>CodedInput\<close> (\<open>io/coded_stream.h\<close>, \<open>.cc\<close>): \<open>CodedInputStream\<close>, a record \<open>cis\<close> of the buffer
    position, limits, tag and recursion budget, over the whole array as \<open>ParseFromArray\<close> builds it, or over a stream of
    any class. On the whole array the fast paths equal the slow ones, limits nest, and no read leaves the array.
  \<^item> \<open>StreamInput\<close>: a decoder over a stream stands for a flat one (\<open>rep\<close>), and every read, skip and limit keeps
    it so, wherever the blocks end.
  \<^item> \<open>Utf8\<close> (\<open>stubs/structurally_valid.cc\<close>): the state table and the scanners that run it, proved equal to
    the definition of UTF-8 by ranges of code points.
  \<^item> \<open>RepeatedPtr\<close> (\<open>arenastring.h\<close>, \<open>repeated_field.h\<close>, \<open>.cc\<close>): string fields, and repeated fields that keep
    cleared elements for reuse, refining a list of values. The operations on elements are a locale,
    interpreted on the generated \<open>Parameter\<close>.
  \<^item> \<open>WireFormat\<close> (\<open>wire_format_lite*\<close>, \<open>wire_format.cc\<close>, \<open>unknown_field_set*\<close>, \<open>metadata_lite.h\<close>): tags, zig-zag,
    typed writers, unknown fields with skipping, sizes and serialising.
  \<^item> \<open>Message\<close>, \<open>MessageParse\<close> (\<open>ConnectProtocol.pb.*\<close>, \<open>message_lite.*\<close>): the two message classes, every accessor,
    clear, merge, copy, swap, size, serialising and parsing; a \<open>message_view\<close> is the value the accessors
    show. A locale \<open>parse_loop\<close> holds what the parse loops of both classes share.
  \<^item> \<open>ThreadTask\<close>: the task, with every member; a block of memory is \<open>NULL\<close> or its bytes; an access through
    \<open>NULL\<close> or outside a block is a \<open>fault\<close>. \<open>malloc\<close>, \<open>bufferevent_read\<close> and \<open>send\<close> are the functions of a
    \<open>platform\<close>, used only through \<open>platform_ok\<close>, \<open>memory_suffices\<close>, \<open>ordered_stream\<close> and \<open>whole_sends\<close>, which
    state what their documentation promises; \<open>roomy_platform\<close> and \<open>world_platform\<close> are concrete ones.
  \<^item> \<open>Bosncc\<close>: the static members, the settings, start-up with the trace of system calls, task submission,
    and the steps \<open>api_step\<close> a program can take.
  \<^item> \<open>Callbacks\<close>: the event callbacks, one definition for each paragraph of the source, composed as the source
    composes them; \<open>dispatch\<close> runs a list of events; \<open>reachable\<close> is the step relation on which the memory
    safety of a connection is an invariant. The locale \<open>business_function\<close> is the contract of the
    application's function; it is interpreted on the two programs' functions.
  \<^item> \<open>Delivery\<close>: what one message looks like on the wire, and its way to the other business function in any
    pieces; what incomplete sends, cut headers and failed allocations do.
  \<^item> \<open>ServerRun\<close>: a server with any number of connections: accepting, and the events of all work items in
    any order. No server faults. The socket descriptors are those of the process: a connection keeps its socket as long
    as no connection closes its own twice, and where one does, which the source allows, the socket of a later connection is
    closed.
  \<^item> \<open>ParameterMap\<close>: the parameters of an application, a \<open>std::map\<close> refined by its sorted pairs.
  \<^item> \<open>Programs\<close>: the two mains, and rounds of the conversation between two machines joined by a network that delivers the
    bytes in pieces (\<open>net\<close>, \<open>fair_cut\<close>); this theory has the theorem on both programs together.
  \<^item> \<open>MessageApi\<close>: every mutating method of the message classes as an operation, with its specification on
    values; sequences of calls refine it, and every object a program can hold is well formed.
  \<^item> \<open>OutputStream\<close> (\<open>coded_stream.*\<close>, \<open>zero_copy_stream_impl_lite.*\<close>, \<open>wire_format_lite.cc\<close>, \<open>message_lite.cc\<close>):
    serialising through buffers. The locale \<open>zero_copy_output\<close> is the contract of a stream, interpreted on the
    array stream, the streams of \<open>OutputAdaptors\<close>, and the string stream for every way a string may grow; under it every
    writer appends what its array version writes.
  \<^item> \<open>StreamParse\<close> (\<open>message_lite.cc\<close>, \<open>message.cc\<close>): parsing from streams, with and without a bound, from files and
    from standard streams. The locale \<open>chunk_loop\<close> extends \<open>parse_loop\<close> by rounds that cannot see the blocks;
    both message classes are interpretations, and the parse of a stream is the parse of its bytes.
  \<^item> \<open>OutputAdaptors\<close> (\<open>io/zero_copy_stream_impl*.cc\<close>, \<open>message.cc\<close>): the output streams over files and standard
    streams, which keep the contract as long as what is below takes all it is given and the file has not been closed, and the functions that write a
    message to them; what a failed write leads to.
  \<^item> \<open>RepeatedField\<close> (\<open>repeated_field.h\<close>): the array of a repeated field of numbers, with its reserved storage; every
    operation refines one on lists, and none goes outside the storage, as long as no field has more than \<open>INT_MAX\<close>
    elements: the sizes are \<open>int\<close>s that wrap, and \<open>merge_overflows\<close> shows the copy outside the storage beyond.
  \<^item> \<open>WireTypes\<close>, \<open>PackedFields\<close> (\<open>wire_format_lite*\<close>): the numeric field types, one reader and one writer for each,
    and repeated and packed fields of them, with the fast paths that read from the buffer or copy into the
    storage; packed enums with values unknown to the program. What is written is read back, and the fast
    paths come to what the slow ones come to.
  \<^item> \<open>VectorSize\<close> (\<open>wire_format_lite.cc\<close>): the sizes computed in four lanes equal the scalar ones, but for \<open>sint32\<close>.
  \<^item> \<open>LiteSkip\<close> (\<open>wire_format_lite.cc\<close>): skipping in the lite runtime, which copies the bytes the full runtime would
    serialise for the unknown fields it keeps.
  \<^item> \<open>UnknownFieldSets\<close> (\<open>unknown_field_set.*\<close>, \<open>wire_format.cc\<close>): the sets of unknown fields behind the pointer the
    source keeps, refining a list; parsing whole streams as such sets, so that a program passes on what it does
    not know; message sets; packed enums in the full runtime.
  \<^item> \<open>EntryPoints\<close> (\<open>message_lite.cc\<close>, \<open>message.cc\<close>): the functions that parse or write part of a message, and those over
    a coded stream, equal to the checked ones, as both classes are always initialised.
  \<^item> \<open>NestedMessages\<close> (\<open>wire_format_lite*\<close>): messages and groups inside messages, for any class. The locale \<open>written_class\<close> is what
    a class owes the writers, and both generated classes are interpretations of it on every output stream.
  \<^item> \<open>CodePages\<close> (\<open>protoc/protoc.h\<close>): the conversions of strings between the code page of the machine and UTF-8, with the
    arrays they go through; the functions of Windows are arguments, used through \<open>windows_ok\<close>.

  \<^bold>\<open>Bounds and fuel.\<close> The parse loops and \<open>SkipField\<close> take fuel: \<open>ParseFromArray\<close> and the stream parsers give them the number of
  bytes plus one, and every round consumes a byte, so it never runs out (\<open>parse_total\<close>, \<open>skip_total\<close>). The loop of a packed
  field takes the bytes until its limit, of which every element consumes at least one.
  Lengths are 32-bit words. \<open>send\<close>, \<open>ParseFromArray\<close> and \<open>SerializeToArray\<close> take theirs as \<open>int\<close>; theorems on whole
  messages therefore ask for less than two gigabytes, and \<open>verification_codes\<close>, \<open>failed_allocation_crashes\<close> and
  \<open>message_objects_wellformed\<close> show what lies beyond. The sizes of a \<open>RepeatedPtrField\<close> of strings or messages are
  natural numbers, so that fields of more than \<open>INT_MAX\<close> objects are outside the model; only the doubling of the capacity
  wraps as in the source. The sizes of a \<open>RepeatedField\<close> of numbers wrap everywhere.

  \<^bold>\<open>Conditions on messages.\<close> A message that is written is read back only if its strings are UTF-8, as the parser refuses
  other ones and the serialiser does not (\<open>bad_apiname_written_not_read\<close>), if no unknown field it keeps is malformed or has a tag that
  the class reads as a field, if its unknown groups are nested no deeper than the parser follows, and if its encoding is below two gigabytes. These
  conditions are \<open>message_fits\<close>, and with a well formed object \<open>sendable\<close>; every theorem on a round trip or a delivery
  has them. The theorems on delivery also say when memory must be there, that sends are whole, and that
  the first piece of a message has its header; \<open>failed_allocation_crashes\<close>, \<open>partial_send_corrupts\<close> and
  \<open>cut_header_accepted\<close> show what happens otherwise.

  \<^bold>\<open>Faithful to the code, not to its intent.\<close> Comparisons written where assignments were meant are modelled as
  the no-operations they are; the missing \<open>break\<close> falls through; assignment operators with empty bodies do
  nothing; members the constructors leave alone are arguments.

  \<^bold>\<open>Not modelled.\<close> The libraries whose code is not in the repository (libevent, OpenSSL, Winsock, the thread pool):
  their results are arguments. Data races between threads: one connection is run by one thread, and the
  instance is modelled as used by one. Reads and writes through a descriptor that was closed and handed out again: each
  connection has the bytes of its own environment, only the closing of sockets is shared. Freeing of memory: a block once dropped is forgotten, so that the
  mismatched \<open>delete\<close> of a \<open>malloc\<close>ed block, and leaks, are listed as findings and not as faults. Console
  output and pauses. Reflection, descriptors, text
  format, JSON, arenas and the protobuf compiler, which the program never runs. Of files and standard streams, what the
  system answers to \<open>read\<close>, \<open>write\<close> and \<open>close\<close> is a list given to the model, and a standard stream is its bytes and flags;
  \<open>lseek\<close> always fails, as the source defines it on Windows.
\<close>

section \<open>The programs together\<close>

text \<open>C2: The client and the server converse for as long as one likes. The conditions: the start-up calls succeed; the
  memory of neither machine runs out, the sockets take all they are given and keep the order of the bytes; at the start
  nothing is unread; and the network delivers all the bytes of a message, in any pieces, of which the first has its
  header. Then the client's \<open>main\<close> submits a task and the server's runs with a business function, and the accepted
  connection and the task exchange any number of rounds without a fault. After every round the client is about to send and
  the server to receive, the message carries the name the client's function set, and the parameters of the client's first
  message, with the empty one in front, have made every round trip unchanged.\<close>

theorem conversation:
  assumes "startup_failure r = 0" "fd \<noteq> SOCKET_ERROR" "r_getaddrinfo cr = Inr (AF_INET, ip)"
    "r_client_socket cr \<noteq> INVALID_SOCKET" "r_connect cr \<noteq> SOCKET_ERROR"
    "net_ok N" "net_ok M" "n_pending N e = []" "n_pending M e' = []"
  shows "\<exists>b t tr s u.
    (\<forall>loop. server_main r loop held statics0 = Inr (0, server_statics ((loop b)\<lparr>Started := False\<rparr>))) \<and>
    client_main rc inet_ntoa inet_addr cr (ThreadTask0 base thread garbage garbage_addr) held' statics0 = Inr (0, t, tr, s) \<and>
    On_Accept_CallBack (ThreadTask0 base' thread' garbage' garbage_addr') (fd, addr) (server_statics b) = Inr (Some u, []) \<and>
    (\<forall>ways. (\<forall>(out, home)\<in>set ways. fair_cut out \<and> fair_cut home) \<longrightarrow>
       (\<exists>x y. exchanges N (m_Instance s) M (Some b) ways (start_conn t e, start_conn u e') = Inr (x, y) \<and>
          TaskMode (c_task x) = 100 \<and> TaskMode (c_task y) = 300 \<and>
          message_view (m_ConnectProtocol (c_task x)) =
            (if ways = [] then opening_view else opening_view\<lparr>v_apiname := ascii ''Hello Server''\<rparr>)))"
proof -
  obtain b where b: "b_Business_CallBack b = Some CallbackB"
    "\<And>loop. server_main r loop held statics0 = Inr (0, server_statics ((loop b)\<lparr>Started := False\<rparr>))"
    using server_main_runs [OF assms(1), of held] by (metis server_statics_def)
  obtain t tr s where t: "client_main rc inet_ntoa inet_addr cr (ThreadTask0 base thread garbage garbage_addr) held' statics0 =
      Inr (0, t, tr, s)" "idle t" "TaskMode t = 100" "Business_CallBack t = Some CallbackA"
    "message_view (m_ConnectProtocol t) = opening_view" "\<not> EncryptDone t" "m_Instance s \<noteq> None"
    using client_main_runs [OF assms(3-5)] by metis
  obtain u where u: "On_Accept_CallBack (ThreadTask0 base' thread' garbage' garbage_addr') (fd, addr) (server_statics b) =
      Inr (Some u, [])" "to_read M CallbackB (start_conn u e')" "\<not> EncryptDone u"
    using accepted_to_read [OF b(1) assms(2)] assms(9) by metis
  obtain ia where ia: "m_Instance s = Some ia" using t(7) by blast
  have w: "to_write N CallbackA opening_view (start_conn t e)" "in_step (start_conn t e) (start_conn u e')"
    using t u(3) assms(8) by (simp_all add: to_write_def in_step_def start_conn_def)
  have "\<exists>x y. exchanges N (m_Instance s) M (Some b) ways (start_conn t e, start_conn u e') = Inr (x, y) \<and>
       TaskMode (c_task x) = 100 \<and> TaskMode (c_task y) = 300 \<and>
       message_view (m_ConnectProtocol (c_task x)) =
         (if ways = [] then opening_view else opening_view\<lparr>v_apiname := ascii ''Hello Server''\<rparr>)"
    if "\<forall>(out, home)\<in>set ways. fair_cut out \<and> fair_cut home" for ways
    using many_rounds [OF assms(6,7) that w(1) u(2) w(2) opening_speakable, of ia b]
    by (auto simp: ia to_write_def to_read_def)
  then show ?thesis using b(2) t(1) u(1) by blast
qed

definition good_startup :: startup_results where
  "good_startup = \<lparr>r_WSAStartup = 0, r_wVersion = MAKEWORD 2 2, r_socket = 3, r_bind = 0, r_listen = 0,
     r_CreateThreadpool = Some 1, r_event_base_new = Some 2\<rparr>"

lemma conversation_witness:
  "\<exists>b t tr s u x y.
     client_main good_startup (\<lambda>_. ''127.0.0.1'') (\<lambda>_. 16777343)
       \<lparr>r_getaddrinfo = Inr (2, 16777343), r_client_socket = 4, r_connect = 0\<rparr>
       (ThreadTask0 (Some 1) 1 0 \<lparr>sin_family = 0, sin_port = 0, sin_addr = 0\<rparr>) sample_server statics0 = Inr (0, t, tr, s) \<and>
     On_Accept_CallBack (ThreadTask0 (Some 2) 2 0 \<lparr>sin_family = 0, sin_port = 0, sin_addr = 0\<rparr>)
       (5, \<lparr>sin_family = 2, sin_port = 9, sin_addr = 7\<rparr>) (server_statics b) = Inr (Some u, []) \<and>
     exchanges world_net (m_Instance s) world_net (Some b) [(header_first, header_first), (header_first, header_first)]
       (start_conn t quiet_world, start_conn u quiet_world) = Inr (x, y) \<and> TaskMode (c_task x) = 100"
proof -
  have "startup_failure good_startup = 0" by (simp add: startup_failure_def good_startup_def)
  moreover have "n_pending world_net quiet_world = []" by (simp add: world_net_def quiet_world_def)
  ultimately show ?thesis
    using conversation [of good_startup 5 "\<lparr>r_getaddrinfo = Inr (2, 16777343), r_client_socket = 4, r_connect = 0\<rparr>" 16777343
        world_net world_net quiet_world quiet_world
        sample_server good_startup "\<lambda>_. ''127.0.0.1''" "\<lambda>_. 16777343" "Some 1" 1 0 "\<lparr>sin_family = 0, sin_port = 0, sin_addr = 0\<rparr>"
        sample_server "Some 2" 2 0 "\<lparr>sin_family = 0, sin_port = 0, sin_addr = 0\<rparr>" "\<lparr>sin_family = 2, sin_port = 9, sin_addr = 7\<rparr>"]
      world_net_ok header_first_fair
    apply simp
    apply (elim exE conjE)
    apply (erule allE [where x = "[(header_first, header_first), (header_first, header_first)]"])
    apply auto
    done
qed

end
